(* ===== verification/Prelude.thy ===== *)
theory Prelude
  imports Main "HOL-Library.Word"
begin

text \<open>
  Shared vocabulary of the development: the machine integers of the Rust sources, the
  result type of code that can abort, and the generic facts on them and on lists that the
  component theories share.

  \<^item> \<open>u8\<close>, \<open>u32\<close>, \<open>u64\<close> are words, so \<open>+\<close>, \<open>-\<close> and \<open>*\<close> wrap, as the release
    profile of \<^verbatim>\<open>Cargo.toml\<close> (no overflow checks) makes them wrap.
  \<^item> \<open>halt + 'a\<close> is a call that either returns a value (\<open>Inr\<close>) or does not return
    (\<open>Inl\<close>): \<open>Slab_invalid_key\<close> is the panic of indexing a vacant slab slot,
    \<open>Div_by_zero\<close> the panic of \<open>%\<close> by zero, \<open>Buf_underflow\<close> the panic of reading past the
    end of a buffer, \<open>Index_out_of_bounds\<close> that of indexing a vector past its length, and \<open>Out_of_fuel\<close> says that the
    iteration or recursion bound given to the model was used up.
\<close>

section \<open>Machine integers\<close>

type_synonym u8 = "8 word"
type_synonym u32 = "32 word"
type_synonym u64 = "64 word"

text \<open>\<^verbatim>\<open>u64::saturating_sub\<close> and \<^verbatim>\<open>u64::saturating_add\<close>.\<close>

definition sat_sub :: "u64 \<Rightarrow> u64 \<Rightarrow> u64" where
  "sat_sub a b = (if a < b then 0 else a - b)"

definition sat_add :: "u64 \<Rightarrow> u64 \<Rightarrow> u64" where
  "sat_add a b = (if a + b < a then 18446744073709551615 else a + b)"

named_theorems u64_simps \<open>reading wrapping and saturating operations as natural numbers\<close>

lemma unat_add_u64 [u64_simps]:
  "unat a + unat b < 2 ^ 64 \<Longrightarrow> unat (a + b :: u64) = unat a + unat b"
  by (simp add: unat_word_ariths)

lemma unat_sub_u64 [u64_simps]:
  "unat b \<le> unat a \<Longrightarrow> unat (a - b :: u64) = unat a - unat b"
  by (simp add: unat_sub word_le_nat_alt)

lemma unat_sat_sub [u64_simps]: "unat (sat_sub a b) = unat a - unat b"
  by (auto simp: sat_sub_def word_less_nat_alt unat_sub_u64)

lemma unat_u64_bound: "unat (a :: u64) < 2 ^ 64"
  using unsigned_less [of a] by simp

text \<open>A sum that wraps is smaller than either summand.\<close>

lemma wraps_iff: "a + b < (a :: u64) \<longleftrightarrow> 2 ^ 64 \<le> unat a + unat b"
proof (cases "unat a + unat b < 2 ^ 64")
  case True
  then show ?thesis by (simp add: word_less_nat_alt unat_add_u64)
next
  case False
  have b: "unat a < 2 ^ 64" "unat b < 2 ^ 64" by (rule unat_u64_bound)+
  have "unat (a + b) = (unat a + unat b) mod 2 ^ 64" by (simp add: unat_word_ariths)
  also have "\<dots> = unat a + unat b - 2 ^ 64" using b False by (simp add: mod_if)
  finally show ?thesis using b False by (simp add: word_less_nat_alt)
qed

lemma unat_sat_add [u64_simps]: "unat (sat_add a b) = min (2 ^ 64 - 1) (unat a + unat b)"
proof (cases "unat a + unat b < 2 ^ 64")
  case True
  then show ?thesis by (simp add: sat_add_def wraps_iff unat_add_u64)
next
  case False
  then show ?thesis by (simp add: sat_add_def wraps_iff)
qed

lemma unat_min_u64 [u64_simps]: "unat (min a b :: u64) = min (unat a) (unat b)"
  by (simp add: min_def word_le_nat_alt)

lemma u64_pos_iff: "(0 :: u64) < a \<longleftrightarrow> a \<noteq> 0"
  by (simp add: word_neq_0_conv)

lemma unat_pos_iff: "0 < unat (a :: u64) \<longleftrightarrow> a \<noteq> 0"
  by (simp add: unat_gt_0)

section \<open>Calls that may abort\<close>

datatype halt = Slab_invalid_key | Div_by_zero | Buf_underflow | Index_out_of_bounds | Out_of_fuel

definition rbind :: "halt + 'a \<Rightarrow> ('a \<Rightarrow> halt + 'b) \<Rightarrow> halt + 'b" where
  "rbind m f = (case m of Inl e \<Rightarrow> Inl e | Inr x \<Rightarrow> f x)"

named_theorems res_simps \<open>evaluation of calls that may abort\<close>

lemma rbind_Inr [simp, res_simps]: "rbind (Inr x) f = f x"
  by (simp add: rbind_def)

lemma rbind_Inl [simp, res_simps]: "rbind (Inl e) f = Inl e"
  by (simp add: rbind_def)

lemma rbind_eq_Inr: "rbind m f = Inr y \<longleftrightarrow> (\<exists>x. m = Inr x \<and> f x = Inr y)"
  by (cases m) simp_all

lemma rbind_assoc: "rbind (rbind m f) g = rbind m (\<lambda>x. rbind (f x) g)"
  by (cases m) simp_all

lemma rbind_cong [fundef_cong]:
  "m = m' \<Longrightarrow> (\<And>x. m' = Inr x \<Longrightarrow> f x = f' x) \<Longrightarrow> rbind m f = rbind m' f'"
  by (cases m') simp_all

section \<open>Lists\<close>

text \<open>The sum of the \<open>u64\<close> readings of a list, as a natural number.\<close>

definition nsum :: "('a \<Rightarrow> u64) \<Rightarrow> 'a list \<Rightarrow> nat" where
  "nsum f xs = (\<Sum>x\<leftarrow>xs. unat (f x))"

lemma nsum_Nil [simp]: "nsum f [] = 0"
  by (simp add: nsum_def)

lemma nsum_Cons [simp]: "nsum f (x # xs) = unat (f x) + nsum f xs"
  by (simp add: nsum_def)

lemma nsum_append [simp]: "nsum f (xs @ ys) = nsum f xs + nsum f ys"
  by (simp add: nsum_def)

lemma nsum_map: "nsum f (map g xs) = nsum (\<lambda>x. f (g x)) xs"
  by (simp add: nsum_def comp_def)

lemma nsum_member: "x \<in> set xs \<Longrightarrow> unat (f x) \<le> nsum f xs"
  by (induction xs) auto

lemma nsum_filter_le: "nsum f (filter P xs) \<le> nsum f xs"
  by (induction xs) auto

lemma nsum_cong: "(\<And>x. x \<in> set xs \<Longrightarrow> f x = g x) \<Longrightarrow> nsum f xs = nsum g xs"
  by (induction xs) auto

end
