(* ===== verification/Types.thy ===== *)
theory Types
  imports Prelude
begin

text \<open>
  The data of the matching core: \<^verbatim>\<open>crates/core/src/types.rs\<close>, \<^verbatim>\<open>order.rs\<close> and
  \<^verbatim>\<open>events.rs\<close>. Quantities, ids, sequence numbers and timestamps are \<open>u64\<close> words.
  A price is an \<open>i64\<close> that the core only ever compares, so it is the integer it stands
  for; the wire codecs are where its 64 bits matter (theory \<open>Bytes\<close>).
  Record fields carry a prefix (\<open>o_\<close>, \<open>no_\<close>, \<dots>) because the source reuses names.
\<close>

section \<open>types.rs\<close>

type_synonym price = int
type_synonym qty = u64
type_synonym order_id = u64
type_synonym seq_no = u64
type_synonym ts = u64
type_synonym symbol_id = u32

datatype side = Buy | Sell

fun opposite :: "side \<Rightarrow> side" where
  "opposite Buy = Sell"
| "opposite Sell = Buy"

datatype order_type = Limit | Market | Ioc | Fok | StopMarket | StopLimit

datatype time_in_force = Gtc | Day

datatype order_status =
  SNew | SAccepted | SPartiallyFilled | SFilled | SCancelled | SRejected

datatype reject_reason =
  UnknownSymbol | DuplicateId | UnknownId | ZeroQty | BadPrice
| FokUnfillable | MarketNoLiquidity | SelfTrade | RateLimited

lemma opposite_opposite [simp]: "opposite (opposite s) = s"
  by (cases s) simp_all

lemma opposite_neq [simp]: "opposite s \<noteq> s" "s \<noteq> opposite s"
  by (cases s, simp_all)+

section \<open>order.rs\<close>

record order =
  o_id :: order_id
  o_symbol :: symbol_id
  o_side :: side
  o_kind :: order_type
  o_tif :: time_in_force
  o_price :: price
  o_stop_price :: price
  o_qty :: qty
  o_remaining :: qty
  o_seq :: seq_no
  o_ts :: ts
  o_status :: order_status
  o_next :: "nat option"
  o_prev :: "nat option"

definition order_new ::
  "order_id \<Rightarrow> symbol_id \<Rightarrow> side \<Rightarrow> order_type \<Rightarrow> time_in_force \<Rightarrow> price \<Rightarrow> price \<Rightarrow>
   qty \<Rightarrow> seq_no \<Rightarrow> ts \<Rightarrow> order" where
  "order_new i sb sd kd tf p sp q s t =
     \<lparr>o_id = i, o_symbol = sb, o_side = sd, o_kind = kd, o_tif = tf, o_price = p,
      o_stop_price = sp, o_qty = q, o_remaining = q, o_seq = s, o_ts = t,
      o_status = SNew, o_next = None, o_prev = None\<rparr>"

definition is_resting :: "order \<Rightarrow> bool" where
  "is_resting ord \<longleftrightarrow>
     (case o_kind ord of Limit \<Rightarrow> True | StopLimit \<Rightarrow> True | _ \<Rightarrow> False) \<and>
     (case o_tif ord of Gtc \<Rightarrow> True | Day \<Rightarrow> True)"

lemma order_new_simps [simp]:
  "o_id (order_new i sb sd kd tf p sp q s t) = i"
  "o_symbol (order_new i sb sd kd tf p sp q s t) = sb"
  "o_side (order_new i sb sd kd tf p sp q s t) = sd"
  "o_kind (order_new i sb sd kd tf p sp q s t) = kd"
  "o_tif (order_new i sb sd kd tf p sp q s t) = tf"
  "o_price (order_new i sb sd kd tf p sp q s t) = p"
  "o_stop_price (order_new i sb sd kd tf p sp q s t) = sp"
  "o_qty (order_new i sb sd kd tf p sp q s t) = q"
  "o_remaining (order_new i sb sd kd tf p sp q s t) = q"
  "o_seq (order_new i sb sd kd tf p sp q s t) = s"
  "o_ts (order_new i sb sd kd tf p sp q s t) = t"
  "o_next (order_new i sb sd kd tf p sp q s t) = None"
  "o_prev (order_new i sb sd kd tf p sp q s t) = None"
  by (simp_all add: order_new_def)

section \<open>events.rs\<close>

record new_order =
  no_id :: order_id
  no_symbol :: symbol_id
  no_side :: side
  no_kind :: order_type
  no_tif :: time_in_force
  no_price :: price
  no_stop_price :: price
  no_qty :: qty

datatype command =
  New new_order
| Cancel (cancel_id: order_id) (cancel_symbol: symbol_id)
| Replace (replace_id: order_id) (new_price: price) (new_qty: qty) (replace_symbol: symbol_id)

record sequenced =
  sq_seq :: seq_no
  sq_ts :: ts
  sq_cmd :: command

datatype output_event =
  Accepted order_id seq_no
| Rejected order_id reject_reason seq_no
| Trade (trade_seq: seq_no) (trade_taker: order_id) (trade_maker: order_id)
    (trade_price: price) (trade_qty: qty) (trade_side: side) (trade_ts: ts)
| PartiallyFilled order_id qty qty seq_no
| Filled order_id seq_no
| Cancelled order_id seq_no
| Replaced order_id seq_no

text \<open>The originating sequence number of an event.\<close>

fun event_seq :: "output_event \<Rightarrow> seq_no" where
  "event_seq (Accepted _ s) = s"
| "event_seq (Rejected _ _ s) = s"
| "event_seq (Trade s _ _ _ _ _ _) = s"
| "event_seq (PartiallyFilled _ _ _ s) = s"
| "event_seq (Filled _ s) = s"
| "event_seq (Cancelled _ s) = s"
| "event_seq (Replaced _ s) = s"

definition is_trade :: "output_event \<Rightarrow> bool" where
  "is_trade e = (case e of Trade _ _ _ _ _ _ _ \<Rightarrow> True | _ \<Rightarrow> False)"

lemma is_trade_simps [simp]:
  "is_trade (Trade s t m p q sd tt)" "\<not> is_trade (Accepted i s)" "\<not> is_trade (Rejected i r s)"
  "\<not> is_trade (PartiallyFilled i q q' s)" "\<not> is_trade (Filled i s)" "\<not> is_trade (Cancelled i s)"
  "\<not> is_trade (Replaced i s)"
  by (simp_all add: is_trade_def)

text \<open>Numbers below \<open>2 ^ 64\<close> keep apart as words.\<close>

lemma word_of_nat_inj64:
  assumes "(word_of_nat i :: u64) = word_of_nat j" and "i < 2 ^ 64" and "j < 2 ^ 64"
  shows "i = j"
proof -
  have "i mod 2 ^ LENGTH(64) = j mod 2 ^ LENGTH(64)"
    unfolding unat_of_nat [symmetric] assms(1) ..
  moreover have "LENGTH(64) = 64" by simp
  ultimately show ?thesis using assms(2,3) by (simp only: mod_less)
qed

end
