(* ===== verification/Price_Level.thy ===== *)
theory Price_Level
  imports Types
begin

text \<open>
  \<^verbatim>\<open>crates/core/src/price_level.rs\<close>: the head and tail slots, the total quantity and the
  order count of one price. The links between the orders of a level are in the orders
  themselves; the callers in \<open>Book\<close> and \<open>Matcher\<close> wire them.
\<close>

record price_level =
  head :: "nat option"
  tail :: "nat option"
  total_qty :: qty
  lv_count :: u64

definition level_new :: price_level where
  "level_new = \<lparr>head = None, tail = None, total_qty = 0, lv_count = 0\<rparr>"

definition level_is_empty :: "price_level \<Rightarrow> bool" where
  "level_is_empty l = (head l = None)"

definition push_back :: "nat \<Rightarrow> qty \<Rightarrow> price_level \<Rightarrow> price_level" where
  "push_back slot q l =
     (let l = l\<lparr>total_qty := total_qty l + q, lv_count := lv_count l + 1\<rparr>
      in if tail l = None then l\<lparr>head := Some slot, tail := Some slot\<rparr>
         else l\<lparr>tail := Some slot\<rparr>)"

definition pop_front :: "qty \<Rightarrow> price_level \<Rightarrow> nat option \<times> price_level" where
  "pop_front q l =
     (case head l of
        None \<Rightarrow> (None, l)
      | Some slot \<Rightarrow> (Some slot, l\<lparr>total_qty := sat_sub (total_qty l) q\<rparr>))"

definition level_remove :: "qty \<Rightarrow> price_level \<Rightarrow> price_level" where
  "level_remove q l =
     l\<lparr>total_qty := sat_sub (total_qty l) q, lv_count := sat_sub (lv_count l) 1\<rparr>"

lemma push_back_simps [simp]:
  "head (push_back s q l) = (if tail l = None then Some s else head l)"
  "tail (push_back s q l) = Some s"
  "total_qty (push_back s q l) = total_qty l + q"
  by (simp_all add: push_back_def Let_def)

lemma level_new_simps [simp]:
  "head level_new = None" "tail level_new = None" "total_qty level_new = 0"
  by (simp_all add: level_new_def)

lemma level_remove_simps [simp]:
  "head (level_remove q l) = head l" "tail (level_remove q l) = tail l"
  "total_qty (level_remove q l) = sat_sub (total_qty l) q"
  by (simp_all add: level_remove_def)

end
