(* ===== verification/Ordered_Map.thy ===== *)
theory Ordered_Map
  imports Prelude
begin

text \<open>
  The standard library's \<^verbatim>\<open>BTreeMap\<close> as the sources use it: an association list kept in
  ascending key order, which is the order \<^verbatim>\<open>iter\<close>, \<^verbatim>\<open>values\<close> and \<^verbatim>\<open>range\<close> visit.
  \<^verbatim>\<open>std::cmp::Reverse\<close> is a wrapper type whose order is the reverse of its content's.
  The locale \<open>ordered_map\<close> states what a client of such a map relies on; its
  interpretation \<open>btree\<close> discharges the laws for the association list.
\<close>

section \<open>Reverse keys\<close>

datatype 'a reverse = Reverse (unReverse: 'a)

instantiation reverse :: (linorder) linorder
begin

definition less_eq_reverse :: "'a reverse \<Rightarrow> 'a reverse \<Rightarrow> bool" where
  "less_eq_reverse x y = (unReverse y \<le> unReverse x)"

definition less_reverse :: "'a reverse \<Rightarrow> 'a reverse \<Rightarrow> bool" where
  "less_reverse x y = (unReverse y < unReverse x)"

instance
  by standard (auto simp: less_eq_reverse_def less_reverse_def reverse.expand)

end

lemma Reverse_less [simp]: "Reverse x < Reverse y \<longleftrightarrow> y < x"
  by (simp add: less_reverse_def)

lemma Reverse_le [simp]: "Reverse x \<le> Reverse y \<longleftrightarrow> y \<le> x"
  by (simp add: less_eq_reverse_def)

section \<open>BTreeMap\<close>

type_synonym ('k, 'v) btree = "('k \<times> 'v) list"

definition bt_empty :: "('k, 'v) btree" where
  "bt_empty = []"

text \<open>\<^verbatim>\<open>get\<close>, \<^verbatim>\<open>insert\<close>, \<^verbatim>\<open>remove\<close>.\<close>

definition bt_get :: "('k, 'v) btree \<Rightarrow> 'k \<Rightarrow> 'v option" where
  "bt_get m k = map_of m k"

fun bt_insert :: "'k::linorder \<Rightarrow> 'v \<Rightarrow> ('k, 'v) btree \<Rightarrow> ('k, 'v) btree" where
  "bt_insert k v [] = [(k, v)]"
| "bt_insert k v ((k', v') # m) =
     (if k = k' then (k, v) # m
      else if k < k' then (k, v) # (k', v') # m
      else (k', v') # bt_insert k v m)"

definition bt_remove :: "'k \<Rightarrow> ('k, 'v) btree \<Rightarrow> ('k, 'v) btree" where
  "bt_remove k m = filter (\<lambda>kv. fst kv \<noteq> k) m"

text \<open>\<^verbatim>\<open>iter().next()\<close>, \<^verbatim>\<open>range(..=k)\<close>, \<^verbatim>\<open>retain\<close>, and the value behind
  \<^verbatim>\<open>entry(k).or_insert_with(..)\<close>.\<close>

definition bt_first :: "('k, 'v) btree \<Rightarrow> ('k \<times> 'v) option" where
  "bt_first m = (case m of [] \<Rightarrow> None | kv # _ \<Rightarrow> Some kv)"

definition bt_range_to :: "'k::linorder \<Rightarrow> ('k, 'v) btree \<Rightarrow> ('k, 'v) btree" where
  "bt_range_to k m = filter (\<lambda>kv. fst kv \<le> k) m"

definition bt_retain :: "('k \<Rightarrow> bool) \<Rightarrow> ('k, 'v) btree \<Rightarrow> ('k, 'v) btree" where
  "bt_retain P m = filter (\<lambda>kv. P (fst kv)) m"

definition bt_entry :: "'k \<Rightarrow> 'v \<Rightarrow> ('k, 'v) btree \<Rightarrow> 'v" where
  "bt_entry k d m = (case bt_get m k of None \<Rightarrow> d | Some v \<Rightarrow> v)"

definition bt_wf :: "('k::linorder, 'v) btree \<Rightarrow> bool" where
  "bt_wf m = sorted_wrt (<) (map fst m)"

named_theorems btree_simps \<open>lookups after updates of an ordered map\<close>

lemma bt_wf_Nil [simp]: "bt_wf []"
  by (simp add: bt_wf_def)

lemma bt_wf_Cons: "bt_wf (kv # m) \<longleftrightarrow> (\<forall>k \<in> fst ` set m. fst kv < k) \<and> bt_wf m"
  by (auto simp: bt_wf_def)

lemma bt_wf_distinct: "bt_wf m \<Longrightarrow> distinct (map fst m)"
  unfolding bt_wf_def by (rule strict_sorted_iff [THEN iffD1, THEN conjunct2])

lemma fst_set_bt_insert [simp]: "fst ` set (bt_insert k v m) = insert k (fst ` set m)"
  by (induction k v m rule: bt_insert.induct) auto

lemma bt_wf_insert [btree_simps, intro]: "bt_wf m \<Longrightarrow> bt_wf (bt_insert k v m)"
  by (induction k v m rule: bt_insert.induct) (auto simp: bt_wf_Cons)

lemma bt_wf_filter: "bt_wf m \<Longrightarrow> bt_wf (filter P m)"
  by (induction m) (auto simp: bt_wf_Cons)

lemma bt_wf_remove [btree_simps, intro]: "bt_wf m \<Longrightarrow> bt_wf (bt_remove k m)"
  by (simp add: bt_remove_def bt_wf_filter)

lemma bt_wf_retain [btree_simps, intro]: "bt_wf m \<Longrightarrow> bt_wf (bt_retain P m)"
  by (simp add: bt_retain_def bt_wf_filter)

lemma bt_get_insert [btree_simps]: "bt_get (bt_insert k v m) = (bt_get m)(k \<mapsto> v)"
  by (induction k v m rule: bt_insert.induct) (auto simp: bt_get_def)

lemma bt_get_remove [btree_simps]: "bt_get (bt_remove k m) = (bt_get m)(k := None)"
  by (induction m) (auto simp: bt_get_def bt_remove_def fun_eq_iff)

lemma bt_get_retain [btree_simps]: "bt_get (bt_retain P m) k = (if P k then bt_get m k else None)"
  by (induction m) (auto simp: bt_get_def bt_retain_def)

lemma bt_first_least:
  "bt_wf m \<Longrightarrow> bt_first m = Some (k, v) \<longleftrightarrow>
     bt_get m k = Some v \<and> (\<forall>k'. bt_get m k' \<noteq> None \<longrightarrow> k \<le> k')"
proof (cases m)
  case Nil
  then show ?thesis by (simp add: bt_first_def bt_get_def)
next
  case (Cons kv m')
  obtain a b where kv: "kv = (a, b)" by (cases kv)
  assume wf: "bt_wf m"
  have rest: "k' \<noteq> a \<Longrightarrow> bt_get m k' \<noteq> None \<Longrightarrow> a < k'" for k'
    using wf Cons kv by (force simp: bt_wf_Cons bt_get_def dest: map_of_SomeD)
  show ?thesis
    using Cons kv rest by (force simp: bt_first_def bt_get_def dest: less_imp_le)
qed

locale ordered_map =
  fixes get :: "'m \<Rightarrow> 'k::linorder \<Rightarrow> 'v option"
    and ins :: "'k \<Rightarrow> 'v \<Rightarrow> 'm \<Rightarrow> 'm"
    and del :: "'k \<Rightarrow> 'm \<Rightarrow> 'm"
    and first :: "'m \<Rightarrow> ('k \<times> 'v) option"
    and wf :: "'m \<Rightarrow> bool"
  assumes get_ins: "get (ins k v m) = (get m)(k \<mapsto> v)"
    and get_del: "get (del k m) = (get m)(k := None)"
    and wf_ins: "wf m \<Longrightarrow> wf (ins k v m)"
    and wf_del: "wf m \<Longrightarrow> wf (del k m)"
    and first_least: "wf m \<Longrightarrow> first m = Some (k, v) \<longleftrightarrow>
          get m k = Some v \<and> (\<forall>k'. get m k' \<noteq> None \<longrightarrow> k \<le> k')"
begin

lemma first_ins_less:
  "wf m \<Longrightarrow> (\<And>k'. get m k' \<noteq> None \<Longrightarrow> k \<le> k') \<Longrightarrow> first (ins k v m) = Some (k, v)"
  by (auto simp: first_least wf_ins get_ins split: if_splits)

lemma del_ins: "get (del k (ins k v m)) = get (del k m)"
  by (simp add: get_ins get_del)

lemma first_unique:
  "wf m \<Longrightarrow> first m = Some (k, v) \<Longrightarrow> first m = Some (k', v') \<Longrightarrow> k = k'"
  by simp

lemma first_ins_other:
  "wf m \<Longrightarrow> first m = Some (k', v') \<Longrightarrow> k' < k \<Longrightarrow> first (ins k v m) = Some (k', v')"
  by (auto simp: first_least wf_ins get_ins)

end

interpretation btree: ordered_map bt_get bt_insert bt_remove bt_first bt_wf
  by unfold_locales (auto simp: bt_get_insert bt_get_remove bt_first_least)

end
