(* ===== verification/Slab.thy ===== *)
theory Slab
  imports Prelude
begin

text \<open>
  The arena of the order book is a \<^verbatim>\<open>slab::Slab<Order>\<close>, a third-party container. What
  the code uses of it is a partial map from keys to values; which key \<^verbatim>\<open>insert\<close> hands
  out is the container's choice. That choice is a parameter of the model: a function
  \<open>vk\<close> from the history of insertions and removals to the next key.

  Its documented behaviour is stated by two locales: \<open>slab_allocator\<close>, a key handed out
  is vacant; and \<open>slab_stack\<close>, vacant keys form a stack, so the key released last is
  the next one handed out. The interpretation \<open>stack\<close> shows both for a concrete
  allocator, which the witnesses use.
\<close>

section \<open>Histories and vacant keys\<close>

datatype slab_op = Inserted nat | Removed nat

fun live :: "slab_op list \<Rightarrow> nat list" where
  "live [] = []"
| "live (Inserted k # h) = k # live h"
| "live (Removed k # h) = removeAll k (live h)"

text \<open>The histories a slab with allocator \<open>vk\<close> can have, newest operation first.\<close>

fun slab_history :: "(slab_op list \<Rightarrow> nat) \<Rightarrow> slab_op list \<Rightarrow> bool" where
  "slab_history vk [] = True"
| "slab_history vk (Inserted k # h) = (k = vk h \<and> slab_history vk h)"
| "slab_history vk (Removed k # h) = (k \<in> set (live h) \<and> slab_history vk h)"

locale slab_allocator =
  fixes vk :: "slab_op list \<Rightarrow> nat"
  assumes fresh: "slab_history vk h \<Longrightarrow> vk h \<notin> set (live h)"
begin

lemma distinct_live: "slab_history vk h \<Longrightarrow> distinct (live h)"
proof (induction h)
  case Nil
  then show ?case by simp
next
  case (Cons a h)
  then show ?case by (cases a) (auto simp: distinct_removeAll dest: fresh)
qed

end

locale slab_stack = slab_allocator +
  assumes lifo: "slab_history vk (Removed k # h) \<Longrightarrow> vk (Removed k # h) = k"
begin

lemma reinsert_same_key:
  "slab_history vk (Inserted k' # Removed k # h) \<Longrightarrow> k' = k"
  using lifo by simp

end

section \<open>A concrete allocator\<close>

text \<open>
  The stack of vacant keys and the number of slots, replayed from the history.
\<close>

fun stack_state :: "slab_op list \<Rightarrow> nat list \<times> nat" where
  "stack_state [] = ([], 0)"
| "stack_state (Inserted k # h) =
     (case stack_state h of ([], n) \<Rightarrow> ([], Suc n) | (f # fs, n) \<Rightarrow> (fs, n))"
| "stack_state (Removed k # h) = (case stack_state h of (fs, n) \<Rightarrow> (k # fs, n))"

definition stack_key :: "slab_op list \<Rightarrow> nat" where
  "stack_key h = (case stack_state h of ([], n) \<Rightarrow> n | (f # fs, n) \<Rightarrow> f)"

lemma stack_state_inv:
  "slab_history stack_key h \<Longrightarrow> stack_state h = (fs, n) \<Longrightarrow>
     distinct fs \<and> set fs \<inter> set (live h) = {} \<and> set fs \<union> set (live h) = {..<n}"
proof (induction h arbitrary: fs n)
  case Nil
  then show ?case by simp
next
  case (Cons a h)
  obtain gs m where st: "stack_state h = (gs, m)" by fastforce
  show ?case
  proof (cases a)
    case (Inserted k)
    with Cons.prems have h: "slab_history stack_key h" and k: "k = stack_key h" by auto
    note IH = Cons.IH [OF h st]
    show ?thesis
    proof (cases gs)
      case Nil
      with Cons.prems(2) Inserted st k have "fs = []" "n = Suc m" "k = m"
        by (simp_all add: stack_key_def)
      with IH Nil Inserted show ?thesis by (auto simp: lessThan_Suc)
    next
      case gs: (Cons g gs')
      with Cons.prems(2) Inserted st k have "fs = gs'" "n = m" "k = g"
        by (simp_all add: stack_key_def)
      with IH gs Inserted show ?thesis by auto
    qed
  next
    case (Removed k)
    with Cons.prems have h: "slab_history stack_key h" and k: "k \<in> set (live h)" by auto
    note IH = Cons.IH [OF h st]
    from Cons.prems(2) Removed st have "fs = k # gs" "n = m" by simp_all
    with IH k Removed show ?thesis by auto
  qed
qed

interpretation stack: slab_stack stack_key
proof
  fix h
  assume h: "slab_history stack_key h"
  obtain fs n where st: "stack_state h = (fs, n)" by fastforce
  show "stack_key h \<notin> set (live h)"
    using stack_state_inv [OF h st] st by (auto simp: stack_key_def split: list.splits)
next
  fix k h
  show "stack_key (Removed k # h) = k"
    by (simp add: stack_key_def split: prod.splits)
qed

section \<open>The slab\<close>

record 'a slab =
  cells :: "nat \<rightharpoonup> 'a"
  hist :: "slab_op list"

definition slab_new :: "'a slab" where
  "slab_new = \<lparr>cells = Map.empty, hist = []\<rparr>"

definition slab_insert :: "(slab_op list \<Rightarrow> nat) \<Rightarrow> 'a \<Rightarrow> 'a slab \<Rightarrow> nat \<times> 'a slab" where
  "slab_insert vk v sl =
     (let k = vk (hist sl)
      in (k, \<lparr>cells = (cells sl)(k \<mapsto> v), hist = Inserted k # hist sl\<rparr>))"

text \<open>\<^verbatim>\<open>contains\<close>; \<^verbatim>\<open>slab[k]\<close> read and written; \<^verbatim>\<open>remove\<close>. All but the first panic on
  a vacant key.\<close>

definition slab_contains :: "'a slab \<Rightarrow> nat \<Rightarrow> bool" where
  "slab_contains sl k = (cells sl k \<noteq> None)"

definition slab_get :: "'a slab \<Rightarrow> nat \<Rightarrow> halt + 'a" where
  "slab_get sl k = (case cells sl k of None \<Rightarrow> Inl Slab_invalid_key | Some v \<Rightarrow> Inr v)"

definition slab_modify :: "nat \<Rightarrow> ('a \<Rightarrow> 'a) \<Rightarrow> 'a slab \<Rightarrow> halt + 'a slab" where
  "slab_modify k f sl =
     (case cells sl k of
        None \<Rightarrow> Inl Slab_invalid_key
      | Some v \<Rightarrow> Inr (sl\<lparr>cells := (cells sl)(k \<mapsto> f v)\<rparr>))"

definition slab_remove :: "nat \<Rightarrow> 'a slab \<Rightarrow> halt + 'a slab" where
  "slab_remove k sl =
     (case cells sl k of
        None \<Rightarrow> Inl Slab_invalid_key
      | Some v \<Rightarrow> Inr \<lparr>cells = (cells sl)(k := None), hist = Removed k # hist sl\<rparr>)"

text \<open>A slab whose occupied keys are the live keys of a possible history.\<close>

definition slab_ok :: "(slab_op list \<Rightarrow> nat) \<Rightarrow> 'a slab \<Rightarrow> bool" where
  "slab_ok vk sl \<longleftrightarrow> slab_history vk (hist sl) \<and> set (live (hist sl)) = dom (cells sl)"

lemma slab_ok_new [simp, intro]: "slab_ok vk slab_new"
  by (simp add: slab_ok_def slab_new_def)

lemma slab_get_Inr: "slab_get sl k = Inr v \<longleftrightarrow> cells sl k = Some v"
  by (auto simp: slab_get_def split: option.splits)

lemma slab_modify_Some [simp]:
  "cells sl k = Some v \<Longrightarrow> slab_modify k f sl = Inr (sl\<lparr>cells := (cells sl)(k \<mapsto> f v)\<rparr>)"
  by (simp add: slab_modify_def)

lemma slab_get_Some [simp]: "cells sl k = Some v \<Longrightarrow> slab_get sl k = Inr v"
  by (simp add: slab_get_def)

lemma slab_remove_Some [simp]:
  "cells sl k = Some v \<Longrightarrow>
     slab_remove k sl = Inr \<lparr>cells = (cells sl)(k := None), hist = Removed k # hist sl\<rparr>"
  by (simp add: slab_remove_def)

lemma slab_ok_modify:
  "slab_ok vk sl \<Longrightarrow> cells sl k = Some v \<Longrightarrow> slab_ok vk (sl\<lparr>cells := (cells sl)(k \<mapsto> w)\<rparr>)"
  by (auto simp: slab_ok_def)

lemma slab_ok_remove:
  "slab_ok vk sl \<Longrightarrow> cells sl k = Some v \<Longrightarrow>
     slab_ok vk \<lparr>cells = (cells sl)(k := None), hist = Removed k # hist sl\<rparr>"
  by (auto simp: slab_ok_def)

lemma slab_ok_fresh:
  "slab_allocator vk \<Longrightarrow> slab_ok vk sl \<Longrightarrow> cells sl (vk (hist sl)) = None"
  by (auto simp: slab_ok_def dest!: slab_allocator.fresh)

lemma slab_ok_insert:
  "slab_ok vk sl \<Longrightarrow> slab_insert vk v sl = (k, sl') \<Longrightarrow> slab_ok vk sl'"
  by (auto simp: slab_ok_def slab_insert_def Let_def)

end
