(* ===== verification/Book.thy ===== *)
theory Book
  imports Price_Level Ordered_Map Slab
begin

text \<open>
  \<^verbatim>\<open>crates/core/src/book.rs\<close>: the order book of one symbol. Asks are keyed by price, bids
  by \<open>Reverse\<close> price, so the first entry of either map is its best level. Where the source
  repeats the same arm for the two sides, the model goes through \<open>get_level\<close>,
  \<open>put_level\<close> and \<open>drop_level\<close>, which choose the map and the key of a side.
  Indexing the arena at a vacant slot panics, so every operation that does it returns
  \<open>halt + _\<close>.
\<close>

section \<open>State\<close>

record location =
  loc_price :: price
  loc_side :: side
  loc_slot :: nat

record book_snapshot =
  bs_bids :: "(price \<times> qty) list"
  bs_asks :: "(price \<times> qty) list"
  bs_last_trade :: "price option"

record order_book =
  ob_symbol :: symbol_id
  ob_tick :: price
  asks :: "(price, price_level) btree"
  bids :: "(price reverse, price_level) btree"
  id_index :: "order_id \<rightharpoonup> location"
  arena :: "order slab"
  stop_buys :: "(price, nat list) btree"
  stop_sells :: "(price reverse, nat list) btree"
  last_trade :: "price option"
  ob_seq :: seq_no

definition book_new :: "symbol_id \<Rightarrow> price \<Rightarrow> order_book" where
  "book_new s tk =
     \<lparr>ob_symbol = s, ob_tick = tk, asks = bt_empty, bids = bt_empty, id_index = Map.empty,
      arena = slab_new, stop_buys = bt_empty, stop_sells = bt_empty, last_trade = None,
      ob_seq = 0\<rparr>"

section \<open>Queries\<close>

definition best_bid :: "order_book \<Rightarrow> (price \<times> qty) option" where
  "best_bid b = map_option (\<lambda>(k, l). (unReverse k, total_qty l)) (bt_first (bids b))"

definition best_ask :: "order_book \<Rightarrow> (price \<times> qty) option" where
  "best_ask b = map_option (\<lambda>(p, l). (p, total_qty l)) (bt_first (asks b))"

definition depth :: "order_book \<Rightarrow> nat \<Rightarrow> book_snapshot" where
  "depth b levels =
     \<lparr>bs_bids = map (\<lambda>(k, l). (unReverse k, total_qty l)) (take levels (bids b)),
      bs_asks = map (\<lambda>(p, l). (p, total_qty l)) (take levels (asks b)),
      bs_last_trade = last_trade b\<rparr>"

definition check_no_cross :: "order_book \<Rightarrow> bool" where
  "check_no_cross b =
     (case (best_bid b, best_ask b) of
        (Some (bid, _), Some (ask, _)) \<Rightarrow> bid < ask
      | _ \<Rightarrow> True)"

text \<open>
  \<^verbatim>\<open>check_qty_conservation\<close> sums over \<^verbatim>\<open>id_index.values()\<close>, in the hash map's own order:
  \<open>ids\<close> lists the keys in that order.
\<close>

fun index_total :: "order_book \<Rightarrow> order_id list \<Rightarrow> halt + qty" where
  "index_total b [] = Inr 0"
| "index_total b (i # is) =
     (case id_index b i of
        None \<Rightarrow> index_total b is
      | Some loc \<Rightarrow>
          rbind (slab_get (arena b) (loc_slot loc)) (\<lambda>ord.
          rbind (index_total b is) (\<lambda>t. Inr (o_remaining ord + t))))"

definition check_qty_conservation :: "order_id list \<Rightarrow> order_book \<Rightarrow> halt + bool" where
  "check_qty_conservation ids b =
     rbind (index_total b ids) (\<lambda>index_tot.
     let bid_total = sum_list (map (total_qty \<circ> snd) (bids b));
         ask_total = sum_list (map (total_qty \<circ> snd) (asks b))
     in Inr (index_tot = bid_total + ask_total))"

section \<open>The maps of one side\<close>

definition get_level :: "order_book \<Rightarrow> side \<Rightarrow> price \<Rightarrow> price_level option" where
  "get_level b sd p =
     (case sd of Buy \<Rightarrow> bt_get (bids b) (Reverse p) | Sell \<Rightarrow> bt_get (asks b) p)"

definition put_level :: "side \<Rightarrow> price \<Rightarrow> price_level \<Rightarrow> order_book \<Rightarrow> order_book" where
  "put_level sd p l b =
     (case sd of
        Buy \<Rightarrow> b\<lparr>bids := bt_insert (Reverse p) l (bids b)\<rparr>
      | Sell \<Rightarrow> b\<lparr>asks := bt_insert p l (asks b)\<rparr>)"

definition drop_level :: "side \<Rightarrow> price \<Rightarrow> order_book \<Rightarrow> order_book" where
  "drop_level sd p b =
     (case sd of
        Buy \<Rightarrow> b\<lparr>bids := bt_remove (Reverse p) (bids b)\<rparr>
      | Sell \<Rightarrow> b\<lparr>asks := bt_remove p (asks b)\<rparr>)"

definition arena_get :: "order_book \<Rightarrow> nat \<Rightarrow> halt + order" where
  "arena_get b s = slab_get (arena b) s"

definition arena_modify :: "nat \<Rightarrow> (order \<Rightarrow> order) \<Rightarrow> order_book \<Rightarrow> halt + order_book" where
  "arena_modify s f b = rbind (slab_modify s f (arena b)) (\<lambda>a. Inr (b\<lparr>arena := a\<rparr>))"

text \<open>The \<^verbatim>\<open>if let Some(s) = opt { arena[s]... }\<close> of the list surgery.\<close>

definition arena_modify_opt ::
  "nat option \<Rightarrow> (order \<Rightarrow> order) \<Rightarrow> order_book \<Rightarrow> halt + order_book" where
  "arena_modify_opt os f b = (case os of None \<Rightarrow> Inr b | Some s \<Rightarrow> arena_modify s f b)"

section \<open>Resting orders\<close>

definition insert_resting :: "nat \<Rightarrow> order_book \<Rightarrow> halt + order_book" where
  "insert_resting slot b =
     rbind (arena_get b slot) (\<lambda>ord.
     let p = o_price ord; sd = o_side ord; q = o_remaining ord;
         level = (case get_level b sd p of None \<Rightarrow> level_new | Some l \<Rightarrow> l);
         old_tail = tail level;
         b = put_level sd p (push_back slot q level) b
     in
     rbind (arena_modify slot (\<lambda>r. r\<lparr>o_prev := old_tail, o_next := None\<rparr>) b) (\<lambda>b.
     arena_modify_opt old_tail (\<lambda>r. r\<lparr>o_next := Some slot\<rparr>) b))"

text \<open>
  \<^verbatim>\<open>pop_bid_head\<close> and \<^verbatim>\<open>pop_ask_head\<close> are the same text over the two maps.
\<close>

definition pop_head :: "side \<Rightarrow> price \<Rightarrow> order_book \<Rightarrow> halt + (nat option \<times> order_book)" where
  "pop_head sd p b =
     (case get_level b sd p of
        None \<Rightarrow> Inr (None, b)
      | Some level \<Rightarrow>
          (case head level of
             None \<Rightarrow> Inr (None, b)
           | Some slot \<Rightarrow>
               rbind (arena_get b slot) (\<lambda>ord.
               let level = snd (pop_front (o_remaining ord) level);
                   nxt = o_next ord;
                   level = level\<lparr>head := nxt, tail := (if nxt = None then None else tail level)\<rparr>;
                   b = put_level sd p level b
               in
               rbind (arena_modify_opt nxt (\<lambda>r. r\<lparr>o_prev := None\<rparr>) b) (\<lambda>b.
               Inr (Some slot, b)))))"

definition pop_bid_head :: "price \<Rightarrow> order_book \<Rightarrow> halt + (nat option \<times> order_book)" where
  "pop_bid_head p b = pop_head Buy p b"

definition pop_ask_head :: "price \<Rightarrow> order_book \<Rightarrow> halt + (nat option \<times> order_book)" where
  "pop_ask_head p b = pop_head Sell p b"

definition remove_empty :: "side \<Rightarrow> price \<Rightarrow> order_book \<Rightarrow> order_book" where
  "remove_empty sd p b =
     (case get_level b sd p of
        None \<Rightarrow> b
      | Some l \<Rightarrow> if level_is_empty l then drop_level sd p b else b)"

definition remove_empty_bid :: "price \<Rightarrow> order_book \<Rightarrow> order_book" where
  "remove_empty_bid p b = remove_empty Buy p b"

definition remove_empty_ask :: "price \<Rightarrow> order_book \<Rightarrow> order_book" where
  "remove_empty_ask p b = remove_empty Sell p b"

text \<open>\<^verbatim>\<open>remove_slot\<close>: stitch the neighbours, then fix the level's ends and totals.\<close>

definition remove_slot :: "nat \<Rightarrow> side \<Rightarrow> price \<Rightarrow> qty \<Rightarrow> order_book \<Rightarrow> halt + order_book" where
  "remove_slot slot sd p q b =
     rbind (arena_get b slot) (\<lambda>ord.
     let prv = o_prev ord; nxt = o_next ord in
     rbind (arena_modify_opt prv (\<lambda>r. r\<lparr>o_next := nxt\<rparr>) b) (\<lambda>b.
     rbind (arena_modify_opt nxt (\<lambda>r. r\<lparr>o_prev := prv\<rparr>) b) (\<lambda>b.
     (case get_level b sd p of
        None \<Rightarrow> Inr b
      | Some lvl \<Rightarrow>
          let lvl = (if head lvl = Some slot then lvl\<lparr>head := nxt\<rparr> else lvl);
              lvl = (if tail lvl = Some slot then lvl\<lparr>tail := prv\<rparr> else lvl);
              lvl = level_remove q lvl
          in Inr (if level_is_empty lvl then drop_level sd p b else put_level sd p lvl b)))))"

end
