(* ===== verification/Matcher.thy ===== *)
theory Matcher
  imports Book
begin

text \<open>
  \<^verbatim>\<open>crates/core/src/matcher.rs\<close>: \<^verbatim>\<open>apply\<close> and everything it calls. The book and the
  event vector \<open>out\<close> are threaded explicitly. Two things of the source are not bounded by
  its text: the matching \<^verbatim>\<open>loop\<close>, and the recursion \<^verbatim>\<open>apply_new\<close> \<open>\<rightarrow>\<close>
  \<^verbatim>\<open>trigger_stops\<close> \<open>\<rightarrow>\<close> \<^verbatim>\<open>apply_new\<close>. Both take a bound and give \<open>Inl Out_of_fuel\<close> when it
  is used up; the theory \<open>Engine_Refine\<close> shows how much is enough. \<open>vk\<close> is the slab's choice
  of keys (theory \<open>Slab\<close>).
\<close>

section \<open>Matching\<close>

definition crosses :: "side \<Rightarrow> order_type \<Rightarrow> price \<Rightarrow> price \<Rightarrow> bool" where
  "crosses sd kd limit p \<longleftrightarrow>
     kd = Market \<or> kd = Ioc \<or> kd = Fok \<or> (case sd of Buy \<Rightarrow> p \<le> limit | Sell \<Rightarrow> p \<ge> limit)"

definition best_opposite :: "order_book \<Rightarrow> side \<Rightarrow> price option" where
  "best_opposite b sd =
     (case sd of
        Buy \<Rightarrow> map_option fst (bt_first (asks b))
      | Sell \<Rightarrow> map_option (unReverse \<circ> fst) (bt_first (bids b)))"

definition reinsert_at_head :: "nat \<Rightarrow> price \<Rightarrow> side \<Rightarrow> order_book \<Rightarrow> halt + order_book" where
  "reinsert_at_head slot p sd b =
     rbind (arena_modify slot (\<lambda>r. r\<lparr>o_prev := None\<rparr>) b) (\<lambda>b.
     rbind (arena_get b slot) (\<lambda>ord.
     let level = (case get_level b sd p of None \<Rightarrow> level_new | Some l \<Rightarrow> l);
         old_head = head level;
         level = level\<lparr>head := Some slot\<rparr>;
         level = (if tail level = None then level\<lparr>tail := Some slot\<rparr> else level);
         level = level\<lparr>total_qty := total_qty level + o_remaining ord,
                       lv_count := lv_count level + 1\<rparr>;
         b = put_level sd p level b
     in
     rbind (arena_modify slot (\<lambda>r. r\<lparr>o_next := old_head\<rparr>) b) (\<lambda>b.
     arena_modify_opt old_head (\<lambda>r. r\<lparr>o_prev := Some slot\<rparr>) b)))"

text \<open>
  One fill: aggressor slot \<open>ag\<close> against the popped maker slot \<open>mk\<close> at its price.
  Gives the new book, the traded quantity and the events.
\<close>

definition fill_maker ::
  "side \<Rightarrow> nat \<Rightarrow> nat \<Rightarrow> price \<Rightarrow> seq_no \<Rightarrow> ts \<Rightarrow> order_book \<Rightarrow> output_event list \<Rightarrow>
   halt + (order_book \<times> qty \<times> output_event list)" where
  "fill_maker sd ag mk maker_price s t b out =
     rbind (arena_get b ag) (\<lambda>agg.
     rbind (arena_get b mk) (\<lambda>maker.
     let trade_q = min (o_remaining agg) (o_remaining maker) in
     rbind (arena_modify ag (\<lambda>r. r\<lparr>o_remaining := o_remaining r - trade_q\<rparr>) b) (\<lambda>b.
     rbind (arena_modify mk (\<lambda>r. r\<lparr>o_remaining := o_remaining r - trade_q\<rparr>) b) (\<lambda>b.
     let b = b\<lparr>last_trade := Some maker_price\<rparr> in
     rbind (arena_get b ag) (\<lambda>agg.
     rbind (arena_get b mk) (\<lambda>maker.
     let out = out @ [Trade s (o_id agg) (o_id maker) maker_price trade_q sd t] in
     if o_remaining maker = 0 then
       let maker_id = o_id maker;
           out = out @ [Filled maker_id s];
           b = b\<lparr>id_index := (id_index b)(maker_id := None)\<rparr>
       in
       rbind (slab_remove mk (arena b)) (\<lambda>a.
       let b = b\<lparr>arena := a\<rparr>;
           b = (case sd of
                  Buy \<Rightarrow> remove_empty_ask maker_price b
                | Sell \<Rightarrow> remove_empty_bid maker_price b)
       in Inr (b, trade_q, out))
     else
       let out = out @ [PartiallyFilled (o_id maker) trade_q (o_remaining maker) s] in
       rbind (reinsert_at_head mk maker_price (opposite sd) b) (\<lambda>b.
       Inr (b, trade_q, out))))))))"

text \<open>The \<^verbatim>\<open>loop\<close> of \<^verbatim>\<open>match_order\<close>; \<open>tot\<close> is \<^verbatim>\<open>total_filled\<close>.\<close>

fun match_loop ::
  "nat \<Rightarrow> side \<Rightarrow> order_type \<Rightarrow> price \<Rightarrow> nat \<Rightarrow> seq_no \<Rightarrow> ts \<Rightarrow> qty \<Rightarrow> order_book \<Rightarrow>
   output_event list \<Rightarrow> halt + (order_book \<times> qty \<times> output_event list)" where
  "match_loop 0 sd kd limit ag s t tot b out = Inl Out_of_fuel"
| "match_loop (Suc n) sd kd limit ag s t tot b out =
     rbind (arena_get b ag) (\<lambda>agg.
     if o_remaining agg = 0 then Inr (b, tot, out)
     else
       (case best_opposite b sd of
          None \<Rightarrow> Inr (b, tot, out)
        | Some maker_price \<Rightarrow>
            if \<not> crosses sd kd limit maker_price then Inr (b, tot, out)
            else
              rbind (case sd of
                       Buy \<Rightarrow> pop_ask_head maker_price b
                     | Sell \<Rightarrow> pop_bid_head maker_price b) (\<lambda>(popped, b).
              (case popped of
                 None \<Rightarrow> Inr (b, tot, out)
               | Some mk \<Rightarrow>
                   rbind (fill_maker sd ag mk maker_price s t b out) (\<lambda>(b, trade_q, out).
                   match_loop n sd kd limit ag s t (tot + trade_q) b out)))))"

definition match_order ::
  "nat \<Rightarrow> order_book \<Rightarrow> nat \<Rightarrow> seq_no \<Rightarrow> ts \<Rightarrow> output_event list \<Rightarrow>
   halt + (order_book \<times> qty \<times> output_event list)" where
  "match_order n b ag s t out =
     rbind (arena_get b ag) (\<lambda>agg.
     match_loop n (o_side agg) (o_kind agg) (o_price agg) ag s t 0 b out)"

text \<open>How much quantity crosses at or through the limit: the scan stops at the first level
  beyond it.\<close>

fun available_from :: "(price \<Rightarrow> bool) \<Rightarrow> qty \<Rightarrow> (price \<times> price_level) list \<Rightarrow> qty" where
  "available_from beyond tot [] = tot"
| "available_from beyond tot ((p, lvl) # ls) =
     (if beyond p then tot
      else available_from beyond (sat_add tot (total_qty lvl)) ls)"

definition available_qty :: "order_book \<Rightarrow> side \<Rightarrow> price \<Rightarrow> qty" where
  "available_qty b aggressor_side limit_price =
     (case aggressor_side of
        Buy \<Rightarrow> available_from (\<lambda>p. p > limit_price) 0 (asks b)
      | Sell \<Rightarrow> available_from (\<lambda>p. p < limit_price) 0
                  (map (\<lambda>(k, lvl). (unReverse k, lvl)) (bids b)))"

section \<open>New orders and stop triggers\<close>

definition arena_insert ::
  "(slab_op list \<Rightarrow> nat) \<Rightarrow> order \<Rightarrow> order_book \<Rightarrow> nat \<times> order_book" where
  "arena_insert vk ord b =
     (let (slot, a) = slab_insert vk ord (arena b) in (slot, b\<lparr>arena := a\<rparr>))"

definition arena_remove :: "nat \<Rightarrow> order_book \<Rightarrow> halt + order_book" where
  "arena_remove slot b = rbind (slab_remove slot (arena b)) (\<lambda>a. Inr (b\<lparr>arena := a\<rparr>))"

definition index_insert :: "order_id \<Rightarrow> location \<Rightarrow> order_book \<Rightarrow> order_book" where
  "index_insert i loc b = b\<lparr>id_index := (id_index b)(i \<mapsto> loc)\<rparr>"

definition index_remove :: "order_id \<Rightarrow> order_book \<Rightarrow> order_book" where
  "index_remove i b = b\<lparr>id_index := (id_index b)(i := None)\<rparr>"

definition order_of_new :: "new_order \<Rightarrow> seq_no \<Rightarrow> ts \<Rightarrow> order" where
  "order_of_new no s t =
     order_new (no_id no) (no_symbol no) (no_side no) (no_kind no) (no_tif no)
       (no_price no) (no_stop_price no) (no_qty no) s t"

text \<open>The validation at the head of \<^verbatim>\<open>apply_new\<close>: the reason of the reject, if any.\<close>

definition validate_new :: "order_book \<Rightarrow> new_order \<Rightarrow> reject_reason option" where
  "validate_new b no =
     (if no_qty no = 0 then Some ZeroQty
      else if id_index b (no_id no) \<noteq> None then Some DuplicateId
      else if no_kind no \<in> {Limit, Ioc, Fok, StopLimit} \<and> no_price no \<le> 0 then Some BadPrice
      else None)"

text \<open>Stop orders are held in the arena, the index and the trigger map of their side.\<close>

definition hold_stop ::
  "(slab_op list \<Rightarrow> nat) \<Rightarrow> order_book \<Rightarrow> new_order \<Rightarrow> seq_no \<Rightarrow> ts \<Rightarrow> order_book" where
  "hold_stop vk b no s t =
     (let (slot, b) = arena_insert vk (order_of_new no s t) b;
          b = index_insert (no_id no)
                \<lparr>loc_price = no_stop_price no, loc_side = no_side no, loc_slot = slot\<rparr> b
      in (case no_side no of
            Buy \<Rightarrow>
              b\<lparr>stop_buys := bt_insert (no_stop_price no)
                  (bt_entry (no_stop_price no) [] (stop_buys b) @ [slot]) (stop_buys b)\<rparr>
          | Sell \<Rightarrow>
              b\<lparr>stop_sells := bt_insert (Reverse (no_stop_price no))
                  (bt_entry (Reverse (no_stop_price no)) [] (stop_sells b) @ [slot])
                  (stop_sells b)\<rparr>))"

text \<open>What becomes of the order after matching.\<close>

definition settle_new ::
  "order_book \<Rightarrow> new_order \<Rightarrow> nat \<Rightarrow> qty \<Rightarrow> seq_no \<Rightarrow> output_event list \<Rightarrow>
   halt + (order_book \<times> output_event list)" where
  "settle_new b no slot filled s out =
     rbind (arena_get b slot) (\<lambda>ord.
     let remaining = o_remaining ord;
         loc = \<lparr>loc_price = no_price no, loc_side = no_side no, loc_slot = slot\<rparr>
     in
     if filled > 0 \<and> remaining = 0 then
       rbind (arena_remove slot b) (\<lambda>b.
       Inr (index_remove (no_id no) b, out @ [Filled (no_id no) s]))
     else if filled > 0 then
       let out = out @ [PartiallyFilled (no_id no) filled remaining s] in
       if no_kind no = Limit then
         rbind (insert_resting slot (index_insert (no_id no) loc b)) (\<lambda>b. Inr (b, out))
       else
         rbind (arena_remove slot b) (\<lambda>b. Inr (b, out @ [Cancelled (no_id no) s]))
     else
       (case no_kind no of
          Limit \<Rightarrow>
            rbind (insert_resting slot (index_insert (no_id no) loc b)) (\<lambda>b. Inr (b, out))
        | Market \<Rightarrow> rbind (arena_remove slot b) (\<lambda>b. Inr (b, out @ [Cancelled (no_id no) s]))
        | Ioc \<Rightarrow> rbind (arena_remove slot b) (\<lambda>b. Inr (b, out @ [Cancelled (no_id no) s]))
        | Fok \<Rightarrow> rbind (arena_remove slot b) (\<lambda>b. Inr (b, out @ [Cancelled (no_id no) s]))
        | _ \<Rightarrow> Inr (b, out)))"

text \<open>The order a triggered stop is resubmitted as.\<close>

definition triggered_order :: "order \<Rightarrow> new_order" where
  "triggered_order ord =
     \<lparr>no_id = o_id ord, no_symbol = o_symbol ord, no_side = o_side ord,
      no_kind = (if o_kind ord = StopMarket then Market else Limit),
      no_tif = o_tif ord, no_price = o_price ord, no_stop_price = 0,
      no_qty = o_remaining ord\<rparr>"

function (sequential) apply_new ::
  "(slab_op list \<Rightarrow> nat) \<Rightarrow> nat \<Rightarrow> order_book \<Rightarrow> new_order \<Rightarrow> seq_no \<Rightarrow> ts \<Rightarrow>
   output_event list \<Rightarrow> halt + (order_book \<times> output_event list)"
and trigger_stops ::
  "(slab_op list \<Rightarrow> nat) \<Rightarrow> nat \<Rightarrow> order_book \<Rightarrow> price \<Rightarrow> seq_no \<Rightarrow> ts \<Rightarrow>
   output_event list \<Rightarrow> halt + (order_book \<times> output_event list)"
and trigger_slots ::
  "(slab_op list \<Rightarrow> nat) \<Rightarrow> nat \<Rightarrow> nat list \<Rightarrow> order_book \<Rightarrow> seq_no \<Rightarrow> ts \<Rightarrow>
   output_event list \<Rightarrow> halt + (order_book \<times> output_event list)" where
  "apply_new vk 0 b no s t out = Inl Out_of_fuel"
| "apply_new vk (Suc n) b no s t out =
     (case validate_new b no of
        Some r \<Rightarrow> Inr (b, out @ [Rejected (no_id no) r s])
      | None \<Rightarrow>
          if no_kind no = StopMarket \<or> no_kind no = StopLimit then
            Inr (hold_stop vk b no s t, out @ [Accepted (no_id no) s])
          else
            let out = out @ [Accepted (no_id no) s] in
            if no_kind no = Fok \<and> available_qty b (no_side no) (no_price no) < no_qty no then
              Inr (b, out @ [Rejected (no_id no) FokUnfillable s])
            else
              let (slot, b) = arena_insert vk (order_of_new no s t) b in
              rbind (match_order n b slot s t out) (\<lambda>(b, filled, out).
              rbind (settle_new b no slot filled s out) (\<lambda>(b, out).
              (case last_trade b of
                 None \<Rightarrow> Inr (b, out)
               | Some lst \<Rightarrow> trigger_stops vk n b lst s t out))))"
| "trigger_stops vk n b lst s t out =
     rbind (trigger_slots vk n (concat (map snd (bt_range_to lst (stop_buys b)))) b s t out)
       (\<lambda>(b, out).
     let b = b\<lparr>stop_buys := bt_retain (\<lambda>p. p > lst) (stop_buys b)\<rparr> in
     rbind (trigger_slots vk n
              (concat (map snd (bt_range_to (Reverse lst) (stop_sells b)))) b s t out)
       (\<lambda>(b, out).
     Inr (b\<lparr>stop_sells := bt_retain (\<lambda>p. unReverse p < lst) (stop_sells b)\<rparr>, out)))"
| "trigger_slots vk n [] b s t out = Inr (b, out)"
| "trigger_slots vk n (slot # slots) b s t out =
     (case cells (arena b) slot of
        None \<Rightarrow> trigger_slots vk n slots b s t out
      | Some ord \<Rightarrow>
          rbind (arena_remove slot (index_remove (o_id ord) b)) (\<lambda>b.
          rbind (apply_new vk n b (triggered_order ord) s t out) (\<lambda>(b, out).
          trigger_slots vk n slots b s t out)))"
  by pat_completeness auto
termination
  by (relation "measures
       [\<lambda>x. case x of Inl (_, n, _) \<Rightarrow> n | Inr (Inl (_, n, _)) \<Rightarrow> n | Inr (Inr (_, n, _)) \<Rightarrow> n,
        \<lambda>x. case x of Inl _ \<Rightarrow> 0 | Inr (Inl _) \<Rightarrow> 2 | Inr (Inr _) \<Rightarrow> 1,
        \<lambda>x. case x of Inl _ \<Rightarrow> 0 | Inr (Inl _) \<Rightarrow> 0 | Inr (Inr (_, _, ss, _)) \<Rightarrow> length ss]")
     auto

section \<open>Cancel, replace, apply\<close>

definition apply_cancel ::
  "order_book \<Rightarrow> order_id \<Rightarrow> seq_no \<Rightarrow> output_event list \<Rightarrow>
   halt + (order_book \<times> output_event list)" where
  "apply_cancel b i s out =
     (case id_index b i of
        None \<Rightarrow> Inr (b, out @ [Rejected i UnknownId s])
      | Some loc \<Rightarrow>
          let b = index_remove i b in
          rbind (arena_get b (loc_slot loc)) (\<lambda>ord.
          rbind (remove_slot (loc_slot loc) (loc_side loc) (loc_price loc) (o_remaining ord) b)
            (\<lambda>b.
          rbind (arena_remove (loc_slot loc) b) (\<lambda>b.
          Inr (b, out @ [Cancelled i s])))))"

definition apply_replace ::
  "(slab_op list \<Rightarrow> nat) \<Rightarrow> nat \<Rightarrow> order_book \<Rightarrow> order_id \<Rightarrow> price \<Rightarrow> qty \<Rightarrow> seq_no \<Rightarrow> ts \<Rightarrow>
   output_event list \<Rightarrow> halt + (order_book \<times> output_event list)" where
  "apply_replace vk n b i np nq s t out =
     (if nq = 0 then Inr (b, out @ [Rejected i ZeroQty s])
      else
        (case id_index b i of
           None \<Rightarrow> Inr (b, out @ [Rejected i UnknownId s])
         | Some loc \<Rightarrow>
             let b = index_remove i b in
             rbind (arena_get b (loc_slot loc)) (\<lambda>ord.
             rbind (remove_slot (loc_slot loc) (o_side ord) (loc_price loc) (o_remaining ord) b)
               (\<lambda>b.
             rbind (arena_remove (loc_slot loc) b) (\<lambda>b.
             apply_new vk n b
               \<lparr>no_id = i, no_symbol = o_symbol ord, no_side = o_side ord, no_kind = o_kind ord,
                no_tif = o_tif ord, no_price = np, no_stop_price = 0, no_qty = nq\<rparr>
               s t (out @ [Replaced i s]))))))"

definition apply_cmd ::
  "(slab_op list \<Rightarrow> nat) \<Rightarrow> nat \<Rightarrow> order_book \<Rightarrow> sequenced \<Rightarrow> output_event list \<Rightarrow>
   halt + (order_book \<times> output_event list)" where
  "apply_cmd vk n b cmd out =
     (case sq_cmd cmd of
        New no \<Rightarrow> apply_new vk n b no (sq_seq cmd) (sq_ts cmd) out
      | Cancel i _ \<Rightarrow> apply_cancel b i (sq_seq cmd) out
      | Replace i np nq _ \<Rightarrow> apply_replace vk n b i np nq (sq_seq cmd) (sq_ts cmd) out)"

text \<open>A sequence of commands, as the shard thread and the replay feed them.\<close>

fun apply_all ::
  "(slab_op list \<Rightarrow> nat) \<Rightarrow> nat \<Rightarrow> order_book \<Rightarrow> sequenced list \<Rightarrow> output_event list \<Rightarrow>
   halt + (order_book \<times> output_event list)" where
  "apply_all vk n b [] out = Inr (b, out)"
| "apply_all vk n b (c # cs) out =
     rbind (apply_cmd vk n b c out) (\<lambda>(b, out). apply_all vk n b cs out)"

end
