(* ===== verification/Linked_Queue.thy ===== *)
theory Linked_Queue
  imports Matcher
begin

text \<open>
  The intrusive doubly linked list of a price level, read as a list of slots.
  \<open>seg c p h ss t n\<close>: in the arena contents \<open>c\<close> the slots \<open>ss\<close> are chained from \<open>h\<close>;
  \<open>p\<close> is the predecessor of the first, \<open>t\<close> the last of them and \<open>n\<close> what follows it.
  The lemmas here show each list surgery of \<open>Book\<close> and \<open>Matcher\<close> as an operation on
  the slot list: appending, putting before the head, detaching the head, unlinking.
\<close>

section \<open>Chains of slots\<close>

type_synonym contents = "nat \<rightharpoonup> order"

fun seg :: "contents \<Rightarrow> nat option \<Rightarrow> nat option \<Rightarrow> nat list \<Rightarrow> nat option \<Rightarrow> nat option \<Rightarrow> bool" where
  "seg c p h [] t n = (h = n \<and> t = p)"
| "seg c p h (s # ss) t n =
     (h = Some s \<and> (\<exists>ord. c s = Some ord \<and> o_prev ord = p \<and> seg c (Some s) (o_next ord) ss t n))"

definition links :: "order \<Rightarrow> nat option \<times> nat option" where
  "links ord = (o_next ord, o_prev ord)"

definition core :: "order \<Rightarrow> order" where
  "core ord = ord\<lparr>o_next := None, o_prev := None\<rparr>"

lemma core_simps [simp]:
  "o_id (core x) = o_id x" "o_symbol (core x) = o_symbol x" "o_side (core x) = o_side x"
  "o_kind (core x) = o_kind x" "o_tif (core x) = o_tif x" "o_price (core x) = o_price x"
  "o_stop_price (core x) = o_stop_price x" "o_qty (core x) = o_qty x"
  "o_remaining (core x) = o_remaining x" "o_seq (core x) = o_seq x" "o_ts (core x) = o_ts x"
  "o_status (core x) = o_status x" "core (core x) = core x"
  "core (x\<lparr>o_next := a\<rparr>) = core x" "core (x\<lparr>o_prev := a\<rparr>) = core x"
  "core (x\<lparr>o_remaining := q\<rparr>) = (core x)\<lparr>o_remaining := q\<rparr>"
  by (simp_all add: core_def)

lemma core_order_new [simp]: "core (order_new i sb sd kd tf p sp q s t) = order_new i sb sd kd tf p sp q s t"
  by (simp add: core_def order_new_def)

lemma seg_append:
  "seg c p h (xs @ ys) t n \<longleftrightarrow> (\<exists>m q. seg c p h xs q m \<and> seg c q m ys t n)"
  by (induction xs arbitrary: p h) auto

lemma seg_cong:
  "(\<And>s. s \<in> set ss \<Longrightarrow> map_option links (c s) = map_option links (c' s)) \<Longrightarrow>
     seg c p h ss t n = seg c' p h ss t n"
proof (induction ss arbitrary: p h)
  case Nil
  then show ?case by simp
next
  case (Cons s ss)
  from Cons.prems [of s] have s: "map_option links (c s) = map_option links (c' s)" by simp
  have IH: "seg c q m ss t n = seg c' q m ss t n" for q m
    using Cons.prems by (intro Cons.IH) simp
  show ?case
    using s by (cases "c s"; cases "c' s") (auto simp: IH links_def)
qed

lemma seg_upd_notin [simp]: "s \<notin> set ss \<Longrightarrow> seg (c(s := x)) p h ss t n = seg c p h ss t n"
  by (rule seg_cong) auto

lemma seg_head: "seg c p h (s # ss) t n \<Longrightarrow> h = Some s"
  by simp

lemma seg_last: "seg c p h ss t n \<Longrightarrow> t = (if ss = [] then p else Some (last ss))"
  by (induction ss arbitrary: p h) auto

lemma seg_dom: "seg c p h ss t n \<Longrightarrow> s \<in> set ss \<Longrightarrow> \<exists>ord. c s = Some ord"
  by (induction ss arbitrary: p h) auto

lemma seg_None_iff: "seg c None h ss t None \<Longrightarrow> (h = None \<longleftrightarrow> ss = []) \<and> (t = None \<longleftrightarrow> ss = [])"
  by (cases ss) (auto dest: seg_last split: if_splits)

lemma seg_last_in: "seg c None h ss (Some x) n \<Longrightarrow> x \<in> set ss"
  using seg_last [of c None h ss "Some x" n] by (auto split: if_splits)

lemma seg_first_in: "seg c p (Some x) ss t None \<Longrightarrow> x \<in> set ss"
  by (cases ss) auto

text \<open>Appending at the tail, as \<^verbatim>\<open>insert_resting\<close> wires it.\<close>

lemma seg_push_back_empty:
  "c s = Some ord \<Longrightarrow> seg (c(s \<mapsto> ord\<lparr>o_prev := None, o_next := None\<rparr>)) None (Some s) [s] (Some s) None"
  by simp

lemma seg_push_back:
  assumes "seg c None h (xs @ [u]) t None" and "distinct (xs @ [u])" and "s \<notin> set (xs @ [u])"
    and "c u = Some uo"
  shows "seg (c(s \<mapsto> ord\<lparr>o_prev := Some u, o_next := None\<rparr>, u \<mapsto> uo\<lparr>o_next := Some s\<rparr>))
           None h (xs @ [u, s]) (Some s) None"
  using assms by (auto simp: seg_append)

text \<open>Putting a slot before the head, as \<^verbatim>\<open>reinsert_at_head\<close> does.\<close>

lemma seg_push_front:
  assumes "seg c None (Some v) (v # ys) t None" and "distinct (v # ys)" and "s \<notin> set (v # ys)"
    and "c v = Some vo"
  shows "seg (c(s \<mapsto> ord\<lparr>o_prev := None, o_next := Some v\<rparr>, v \<mapsto> vo\<lparr>o_prev := Some s\<rparr>))
           None (Some s) (s # v # ys) t None"
  using assms by (cases ys) (auto simp: seg_append)

text \<open>Detaching the head, as \<^verbatim>\<open>pop_bid_head\<close> does.\<close>

lemma seg_pop_front:
  assumes "seg c None (Some s) (s # v # ys) t None" and "distinct (s # v # ys)"
    and "c v = Some vo"
  shows "seg (c(v \<mapsto> vo\<lparr>o_prev := None\<rparr>)) None (Some v) (v # ys) t None"
  using assms by auto

text \<open>Unlinking a slot anywhere, as \<^verbatim>\<open>remove_slot\<close> does.\<close>

definition unlink :: "contents \<Rightarrow> nat option \<Rightarrow> nat option \<Rightarrow> contents" where
  "unlink c prv nxt =
     (let c1 = (case prv of None \<Rightarrow> c
                | Some u \<Rightarrow> c(u := map_option (\<lambda>r. r\<lparr>o_next := nxt\<rparr>) (c u)))
      in (case nxt of None \<Rightarrow> c1
          | Some v \<Rightarrow> c1(v := map_option (\<lambda>r. r\<lparr>o_prev := prv\<rparr>) (c1 v))))"

lemma seg_relink_last:
  "seg c p h (xs @ [u]) (Some u) m \<Longrightarrow> u \<notin> set xs \<Longrightarrow>
     seg (c(u := map_option (\<lambda>r. r\<lparr>o_next := nxt\<rparr>) (c u))) p h (xs @ [u]) (Some u) nxt"
  by (auto simp: seg_append)

lemma seg_relink_first:
  "seg c p h (v # ys) t n \<Longrightarrow> v \<notin> set ys \<Longrightarrow>
     seg (c(v := map_option (\<lambda>r. r\<lparr>o_prev := q\<rparr>) (c v))) q h (v # ys) t n"
  by auto

lemma unlink_other:
  "prv \<noteq> Some x \<Longrightarrow> nxt \<noteq> Some x \<Longrightarrow> unlink c prv nxt x = c x"
  by (auto simp: unlink_def Let_def split: option.splits)

lemma map_option_core_unlink [simp]:
  "map_option core (unlink c prv nxt x) = map_option core (c x)"
  by (auto simp: unlink_def Let_def option.map_comp comp_def split: option.splits)

lemma unlink_None_iff [simp]: "unlink c prv nxt x = None \<longleftrightarrow> c x = None"
  by (auto simp: unlink_def Let_def split: option.splits if_splits)

lemma seg_unlink:
  assumes sg: "seg c None h (xs @ s # ys) t None" and dist: "distinct (xs @ s # ys)"
    and cs: "c s = Some ord"
  shows "seg (unlink c (o_prev ord) (o_next ord)) None
           (if h = Some s then o_next ord else h) (xs @ ys)
           (if t = Some s then o_prev ord else t) None"
proof -
  let ?p = "o_prev ord" and ?n = "o_next ord"
  from sg cs have l: "seg c None h xs ?p (Some s)" and r: "seg c (Some s) ?n ys t None"
    by (auto simp: seg_append)
  have p: "?p = (if xs = [] then None else Some (last xs))" using l by (rule seg_last)
  have t: "t = (if ys = [] then Some s else Some (last ys))" using r by (rule seg_last)
  have h: "h = (if xs = [] then Some s else Some (hd xs))" using l by (cases xs) auto
  have n: "?n = (if ys = [] then None else Some (hd ys))" using r by (cases ys) auto
  let ?c1 = "case ?p of None \<Rightarrow> c | Some u \<Rightarrow> c(u := map_option (\<lambda>r. r\<lparr>o_next := ?n\<rparr>) (c u))"
  let ?c2 = "unlink c ?p ?n"
  have L1: "seg ?c1 None (if h = Some s then ?n else h) xs ?p ?n"
  proof (cases xs rule: rev_cases)
    case Nil
    with h p show ?thesis by simp
  next
    case (snoc zs u)
    with p have "?p = Some u" by simp
    moreover have "h \<noteq> Some s" using h snoc dist by (cases zs) auto
    ultimately show ?thesis using l snoc dist seg_relink_last [of c None h zs u "Some s" ?n] by simp
  qed
  have R1: "seg ?c1 (Some s) ?n ys t None"
  proof (cases "xs = []")
    case True
    with r p show ?thesis by simp
  next
    case False
    then have "last xs \<in> set xs" by simp
    with dist have "last xs \<notin> set ys" by auto
    with False r p show ?thesis by simp
  qed
  have c2: "?c2 = (case ?n of None \<Rightarrow> ?c1 | Some v \<Rightarrow> ?c1(v := map_option (\<lambda>r. r\<lparr>o_prev := ?p\<rparr>) (?c1 v)))"
    by (simp add: unlink_def Let_def)
  have L2: "seg ?c2 None (if h = Some s then ?n else h) xs ?p ?n"
  proof (cases ys)
    case Nil
    then have "?c2 = ?c1" using c2 n by simp
    with L1 show ?thesis by simp
  next
    case (Cons v zs)
    then have "?c2 = ?c1(v := map_option (\<lambda>r. r\<lparr>o_prev := ?p\<rparr>) (?c1 v))" using c2 n by simp
    moreover have "v \<notin> set xs" using dist Cons by auto
    ultimately show ?thesis using L1 by simp
  qed
  have R2: "seg ?c2 ?p ?n ys (if t = Some s then ?p else t) None"
  proof (cases ys)
    case Nil
    with n t show ?thesis by simp
  next
    case (Cons v zs)
    then have "?c2 = ?c1(v := map_option (\<lambda>r. r\<lparr>o_prev := ?p\<rparr>) (?c1 v))" using c2 n by simp
    moreover have "t \<noteq> Some s" using t Cons dist by (auto split: if_splits)
    moreover have "v \<notin> set zs" using dist Cons by auto
    ultimately show ?thesis using R1 Cons seg_relink_first [of ?c1 "Some s" ?n v zs t None ?p] by simp
  qed
  show ?thesis unfolding seg_append using L2 R2 by blast
qed

end
