(* ===== verification/Side_Queue.thy ===== *)
theory Side_Queue
  imports Linked_Queue
begin

text \<open>
  One side of the book as a queue of orders in matching priority. \<open>side_levels\<close> lists the
  price levels of a side from best to worst, whichever map holds them; \<open>queue_rep\<close> says
  that levels, links and arena together represent the list of resting orders \<open>q\<close>, sorted
  by price and, within a price, by arrival.
\<close>

section \<open>Levels of a side, best first\<close>

definition better :: "side \<Rightarrow> price \<Rightarrow> price \<Rightarrow> bool" where
  "better sd p p' = (case sd of Buy \<Rightarrow> p > p' | Sell \<Rightarrow> p < p')"

lemma better_irrefl [simp]: "\<not> better sd p p"
  by (cases sd) (simp_all add: better_def)

lemma better_trans: "better sd p p' \<Longrightarrow> better sd p' p'' \<Longrightarrow> better sd p p''"
  by (cases sd) (simp_all add: better_def)

lemma better_linear: "better sd p p' \<or> p = p' \<or> better sd p' p"
  by (cases sd) (auto simp: better_def)

lemma better_asym: "better sd p p' \<Longrightarrow> \<not> better sd p' p"
  by (cases sd) (simp_all add: better_def)

definition side_levels :: "order_book \<Rightarrow> side \<Rightarrow> (price \<times> price_level) list" where
  "side_levels b sd =
     (case sd of Buy \<Rightarrow> map (\<lambda>(k, l). (unReverse k, l)) (bids b) | Sell \<Rightarrow> asks b)"

fun lv_put :: "side \<Rightarrow> price \<Rightarrow> 'l \<Rightarrow> (price \<times> 'l) list \<Rightarrow> (price \<times> 'l) list" where
  "lv_put sd p l [] = [(p, l)]"
| "lv_put sd p l ((p', l') # ls) =
     (if p = p' then (p, l) # ls
      else if better sd p p' then (p, l) # (p', l') # ls
      else (p', l') # lv_put sd p l ls)"

definition lv_drop :: "price \<Rightarrow> (price \<times> 'l) list \<Rightarrow> (price \<times> 'l) list" where
  "lv_drop p ls = filter (\<lambda>pl. fst pl \<noteq> p) ls"

named_theorems side_simps \<open>the levels of a side after an update of the book\<close>

lemma map_bt_insert_Reverse:
  "map (\<lambda>(k, l). (unReverse k, l)) (bt_insert (Reverse p) l m) =
     lv_put Buy p l (map (\<lambda>(k, l). (unReverse k, l)) m)"
proof (induction "Reverse p" l m rule: bt_insert.induct)
  case (1 v)
  then show ?case by simp
next
  case (2 v k' v' m)
  then show ?case by (cases k') (auto simp: better_def)
qed

lemma bt_insert_Sell: "bt_insert p l m = lv_put Sell p l m"
  by (induction p l m rule: bt_insert.induct) (auto simp: better_def)

lemma map_bt_remove_Reverse:
  "map (\<lambda>(k, l). (unReverse k, l)) (bt_remove (Reverse p) m) =
     lv_drop p (map (\<lambda>(k, l). (unReverse k, l)) m)"
  by (induction m) (auto simp: bt_remove_def lv_drop_def reverse.expand)

lemma map_of_unReverse:
  "map_of (map (\<lambda>(k, l). (unReverse k, l)) m) p = map_of m (Reverse p)"
  by (induction m) (auto simp: reverse.expand)

lemma side_levels_put [side_simps]:
  "side_levels (put_level sd p l b) sd' =
     (if sd' = sd then lv_put sd p l (side_levels b sd) else side_levels b sd')"
  by (cases sd; cases sd')
    (simp_all add: side_levels_def put_level_def map_bt_insert_Reverse bt_insert_Sell)

lemma side_levels_drop [side_simps]:
  "side_levels (drop_level sd p b) sd' =
     (if sd' = sd then lv_drop p (side_levels b sd) else side_levels b sd')"
  by (cases sd; cases sd')
    (simp_all add: side_levels_def drop_level_def map_bt_remove_Reverse,
     simp_all add: lv_drop_def bt_remove_def)

lemma get_level_side: "get_level b sd p = map_of (side_levels b sd) p"
  by (cases sd) (simp_all add: get_level_def side_levels_def bt_get_def map_of_unReverse)

lemma best_opposite_side:
  "best_opposite b sd =
     (case side_levels b (opposite sd) of [] \<Rightarrow> None | (p, l) # _ \<Rightarrow> Some p)"
  by (cases sd)
    (auto simp: best_opposite_def side_levels_def bt_first_def split: list.splits)

lemma put_level_frame [simp]:
  "arena (put_level sd p l b) = arena b" "id_index (put_level sd p l b) = id_index b"
  "stop_buys (put_level sd p l b) = stop_buys b" "stop_sells (put_level sd p l b) = stop_sells b"
  "last_trade (put_level sd p l b) = last_trade b"
  by (cases sd; simp add: put_level_def)+

lemma drop_level_frame [simp]:
  "arena (drop_level sd p b) = arena b" "id_index (drop_level sd p b) = id_index b"
  "stop_buys (drop_level sd p b) = stop_buys b" "stop_sells (drop_level sd p b) = stop_sells b"
  "last_trade (drop_level sd p b) = last_trade b"
  by (cases sd; simp add: drop_level_def)+

lemma side_levels_frame [simp]:
  "side_levels (b\<lparr>arena := a\<rparr>) sd = side_levels b sd"
  "side_levels (b\<lparr>id_index := i\<rparr>) sd = side_levels b sd"
  "side_levels (b\<lparr>stop_buys := x\<rparr>) sd = side_levels b sd"
  "side_levels (b\<lparr>stop_sells := y\<rparr>) sd = side_levels b sd"
  "side_levels (b\<lparr>last_trade := t\<rparr>) sd = side_levels b sd"
  by (simp_all add: side_levels_def split: side.splits)

definition lv_sorted :: "side \<Rightarrow> (price \<times> 'l) list \<Rightarrow> bool" where
  "lv_sorted sd ls = sorted_wrt (better sd) (map fst ls)"

lemma lv_sorted_Nil [simp]: "lv_sorted sd []"
  by (simp add: lv_sorted_def)

lemma lv_sorted_Cons:
  "lv_sorted sd (pl # ls) \<longleftrightarrow> (\<forall>p \<in> fst ` set ls. better sd (fst pl) p) \<and> lv_sorted sd ls"
  by (auto simp: lv_sorted_def)

lemma lv_sorted_append:
  "lv_sorted sd (xs @ ys) \<longleftrightarrow> lv_sorted sd xs \<and> lv_sorted sd ys \<and>
     (\<forall>p \<in> fst ` set xs. \<forall>p' \<in> fst ` set ys. better sd p p')"
  by (auto simp: lv_sorted_def sorted_wrt_append)

lemma lv_sorted_split:
  assumes "lv_sorted sd ls"
  obtains (present) l1 l l2 where "ls = l1 @ (p, l) # l2"
      "\<forall>x \<in> fst ` set l1. better sd x p" "\<forall>x \<in> fst ` set l2. better sd p x"
      "map_of ls p = Some l"
    | (absent) l1 l2 where "ls = l1 @ l2"
      "\<forall>x \<in> fst ` set l1. better sd x p" "\<forall>x \<in> fst ` set l2. better sd p x"
      "map_of ls p = None"
  using assms
proof (induction ls arbitrary: thesis)
  case Nil
  then show ?case by simp
next
  case (Cons pl ls)
  obtain p' l' where pl: "pl = (p', l')" by fastforce
  note srt = Cons.prems(3)
  have hd: "\<forall>x \<in> fst ` set ls. better sd p' x" and tl: "lv_sorted sd ls"
    using srt pl by (simp_all add: lv_sorted_Cons)
  consider "better sd p p'" | "p = p'" | "better sd p' p" using better_linear by blast
  then show ?case
  proof cases
    case 1
    have "p \<noteq> p'" using 1 by auto
    moreover have "\<forall>x \<in> fst ` set ls. better sd p x" using hd 1 better_trans by blast
    moreover from this have "map_of ls p = None" by (force simp: map_of_eq_None_iff)
    ultimately show ?thesis using 1 pl by (intro Cons.prems(2) [of "[]" "pl # ls"]) auto
  next
    case 2
    then show ?thesis using hd pl by (intro Cons.prems(1) [of "[]" l' ls]) auto
  next
    case 3
    then have ne: "p \<noteq> p'" by auto
    show ?thesis
    proof (rule Cons.IH)
      fix l1 l l2
      assume "ls = l1 @ (p, l) # l2" "\<forall>x \<in> fst ` set l1. better sd x p"
        "\<forall>x \<in> fst ` set l2. better sd p x" "map_of ls p = Some l"
      then show ?thesis using 3 ne pl by (intro Cons.prems(1) [of "pl # l1" l l2]) auto
    next
      fix l1 l2
      assume "ls = l1 @ l2" "\<forall>x \<in> fst ` set l1. better sd x p"
        "\<forall>x \<in> fst ` set l2. better sd p x" "map_of ls p = None"
      then show ?thesis using 3 ne pl by (intro Cons.prems(2) [of "pl # l1" l2]) auto
    qed (rule tl)
  qed
qed

lemma lv_put_present:
  "\<forall>x \<in> fst ` set l1. better sd x p \<Longrightarrow> lv_put sd p l' (l1 @ (p, l) # l2) = l1 @ (p, l') # l2"
  by (induction l1) (auto dest: better_asym)

lemma lv_put_absent:
  assumes "\<forall>x \<in> fst ` set l1. better sd x p" and "\<forall>x \<in> fst ` set l2. better sd p x"
  shows "lv_put sd p l' (l1 @ l2) = l1 @ (p, l') # l2"
proof -
  have "lv_put sd p l' l2 = (p, l') # l2"
    using assms(2) by (cases l2) auto
  then show ?thesis
    using assms(1) by (induction l1) (auto dest: better_asym)
qed

lemma lv_drop_present:
  assumes "\<forall>x \<in> fst ` set l1. better sd x p" and "\<forall>x \<in> fst ` set l2. better sd p x"
  shows "lv_drop p (l1 @ (p, l) # l2) = l1 @ l2"
proof -
  have "filter (\<lambda>pl. fst pl \<noteq> p) l1 = l1" "filter (\<lambda>pl. fst pl \<noteq> p) l2 = l2"
    using assms by (force simp: filter_id_conv)+
  then show ?thesis by (simp add: lv_drop_def)
qed

end
