(* ===== verification/Queue_Rep.thy ===== *)
theory Queue_Rep
  imports Side_Queue
begin

text \<open>
  The representation of one side's queue. \<open>level_rep\<close> relates a price level to the slots
  chained through it; \<open>queue_rep c sd ls q\<close> says that the levels \<open>ls\<close> of side \<open>sd\<close>, over
  the arena contents \<open>c\<close>, hold exactly the resting orders of that side, and that \<open>q\<close> lists
  them in matching priority with the links erased. The lemmas show what pushing, filling
  and unlinking do to \<open>q\<close>.
\<close>

section \<open>Representation\<close>

definition rests :: "contents \<Rightarrow> side \<Rightarrow> nat \<Rightarrow> bool" where
  "rests c sd s \<longleftrightarrow> (\<exists>ord. c s = Some ord \<and> o_kind ord = Limit \<and> o_side ord = sd)"

definition slot_order :: "contents \<Rightarrow> nat \<Rightarrow> order" where
  "slot_order c s = core (the (c s))"

definition slot_ok :: "contents \<Rightarrow> side \<Rightarrow> price \<Rightarrow> nat \<Rightarrow> bool" where
  "slot_ok c sd p s \<longleftrightarrow> (\<exists>ord. c s = Some ord \<and> o_kind ord = Limit \<and> o_side ord = sd \<and>
     o_price ord = p \<and> o_remaining ord \<noteq> 0)"

definition level_rep :: "contents \<Rightarrow> side \<Rightarrow> price \<times> price_level \<Rightarrow> nat list \<Rightarrow> bool" where
  "level_rep c sd pl ss \<longleftrightarrow>
     seg c None (head (snd pl)) ss (tail (snd pl)) None \<and>
     (\<forall>s \<in> set ss. slot_ok c sd (fst pl) s) \<and>
     unat (total_qty (snd pl)) = nsum o_remaining (map (slot_order c) ss)"

definition queue_rep :: "contents \<Rightarrow> side \<Rightarrow> (price \<times> price_level) list \<Rightarrow> order list \<Rightarrow> bool" where
  "queue_rep c sd ls q \<longleftrightarrow>
     (\<exists>sss. lv_sorted sd ls \<and> list_all2 (level_rep c sd) ls sss \<and> [] \<notin> set sss \<and>
        distinct (concat sss) \<and>
        (\<forall>s. s \<in> set (concat sss) \<longleftrightarrow> rests c sd s) \<and> q = map (slot_order c) (concat sss))"

lemma queue_repI:
  "lv_sorted sd ls \<Longrightarrow> list_all2 (level_rep c sd) ls sss \<Longrightarrow> [] \<notin> set sss \<Longrightarrow> distinct (concat sss) \<Longrightarrow>
   (\<And>s. s \<in> set (concat sss) \<longleftrightarrow> rests c sd s) \<Longrightarrow> q = map (slot_order c) (concat sss) \<Longrightarrow>
   queue_rep c sd ls q"
  unfolding queue_rep_def by blast

lemma queue_repE:
  assumes "queue_rep c sd ls q"
  obtains sss where "lv_sorted sd ls" "list_all2 (level_rep c sd) ls sss" "[] \<notin> set sss"
    "distinct (concat sss)" "\<And>s. s \<in> set (concat sss) \<longleftrightarrow> rests c sd s"
    "q = map (slot_order c) (concat sss)"
  using assms unfolding queue_rep_def by (elim exE conjE) (rule that, auto)

lemma levels_ConsE:
  assumes "list_all2 P (x # ls) sss" and "[] \<notin> set sss"
  obtains s ts sss' where "sss = (s # ts) # sss'" "P x (s # ts)" "list_all2 P ls sss'"
proof -
  from assms obtain ts' sss' where "sss = ts' # sss'" "P x ts'" "list_all2 P ls sss'"
    by (auto simp: list_all2_Cons1)
  with assms(2) show ?thesis using that by (cases ts') auto
qed

lemma level_rep_cong:
  "(\<And>s. s \<in> set ss \<Longrightarrow> c s = c' s) \<Longrightarrow> level_rep c sd pl ss = level_rep c' sd pl ss"
proof -
  assume eq: "\<And>s. s \<in> set ss \<Longrightarrow> c s = c' s"
  have "seg c None (head (snd pl)) ss (tail (snd pl)) None =
        seg c' None (head (snd pl)) ss (tail (snd pl)) None"
    by (rule seg_cong) (simp add: eq)
  moreover have "map (slot_order c) ss = map (slot_order c') ss"
    by (simp add: eq slot_order_def)
  moreover have "(\<forall>s \<in> set ss. slot_ok c sd (fst pl) s) = (\<forall>s \<in> set ss. slot_ok c' sd (fst pl) s)"
    by (simp add: eq slot_ok_def)
  ultimately show ?thesis
    unfolding level_rep_def by (simp only:)
qed

lemma list_all2_level_cong:
  "(\<And>s. s \<in> set (concat sss) \<Longrightarrow> c s = c' s) \<Longrightarrow>
     list_all2 (level_rep c sd) ls sss = list_all2 (level_rep c' sd) ls sss"
proof (induction sss arbitrary: ls)
  case Nil
  then show ?case by simp
next
  case (Cons ss sss)
  have "level_rep c sd pl ss = level_rep c' sd pl ss" for pl
    by (rule level_rep_cong) (simp add: Cons.prems)
  moreover have "list_all2 (level_rep c sd) ls' sss = list_all2 (level_rep c' sd) ls' sss" for ls'
    by (rule Cons.IH) (simp add: Cons.prems)
  ultimately show ?case by (cases ls) auto
qed

text \<open>A change of the arena that leaves a side's resting orders alone leaves its queue alone.\<close>

lemma queue_rep_frame:
  assumes "queue_rep c sd ls q" and eq: "\<And>s. rests c sd s \<or> rests c' sd s \<Longrightarrow> c s = c' s"
  shows "queue_rep c' sd ls q"
proof -
  obtain sss where sss: "lv_sorted sd ls" "list_all2 (level_rep c sd) ls sss"
    "[] \<notin> set sss" "distinct (concat sss)" "\<And>s. s \<in> set (concat sss) \<longleftrightarrow> rests c sd s"
    "q = map (slot_order c) (concat sss)"
    using assms(1) by (rule queue_repE) (rule that; assumption)
  have c: "s \<in> set (concat sss) \<Longrightarrow> c s = c' s" for s
    using eq sss(5) by blast
  show ?thesis
  proof (rule queue_repI)
    show "list_all2 (level_rep c' sd) ls sss"
      using list_all2_level_cong [of sss c c', OF c] sss(2) by blast
    show "s \<in> set (concat sss) \<longleftrightarrow> rests c' sd s" for s
      using sss(5) eq by (metis rests_def)
    show "q = map (slot_order c') (concat sss)"
      unfolding sss(6) using c by (simp add: slot_order_def)
  qed (use sss in auto)
qed

lemma level_rep_slots:
  "list_all2 (level_rep c sd) ls sss \<Longrightarrow> s \<in> set (concat sss) \<Longrightarrow>
     \<exists>p \<in> fst ` set ls. slot_ok c sd p s"
  by (induction rule: list_all2_induct) (auto simp: level_rep_def)

lemma queue_rep_orders:
  assumes "queue_rep c sd ls q" and "ord \<in> set q"
  shows "o_kind ord = Limit" "o_side ord = sd" "o_remaining ord \<noteq> 0" "o_price ord \<in> fst ` set ls"
    "\<exists>s r. c s = Some r \<and> core r = ord"
proof -
  obtain sss where l: "list_all2 (level_rep c sd) ls sss" and q: "q = map (slot_order c) (concat sss)"
    using assms(1) by (rule queue_repE) (rule that; assumption)
  from q assms(2) obtain s where s: "s \<in> set (concat sss)" "ord = slot_order c s" by auto
  from level_rep_slots [OF l s(1)] obtain r where r: "c s = Some r" "o_kind r = Limit"
    "o_side r = sd" "o_price r \<in> fst ` set ls" "o_remaining r \<noteq> 0"
    by (auto simp: slot_ok_def)
  moreover have "ord = core r" using s(2) r(1) by (simp add: slot_order_def)
  ultimately show "o_kind ord = Limit" "o_side ord = sd" "o_remaining ord \<noteq> 0"
    "o_price ord \<in> fst ` set ls" "\<exists>s r. c s = Some r \<and> core r = ord"
    by auto
qed

text \<open>The levels before, at and after a price, with their slots.\<close>

lemma list_all2_split:
  assumes "list_all2 P (l1 @ x # l2) sss"
  obtains s1 ss s2 where "sss = s1 @ ss # s2" "list_all2 P l1 s1" "P x ss" "list_all2 P l2 s2"
proof -
  from assms obtain s1 t where "sss = s1 @ t" "list_all2 P l1 s1" "list_all2 P (x # l2) t"
    by (auto simp: list_all2_append1)
  moreover from this(3) obtain ss s2 where "t = ss # s2" "P x ss" "list_all2 P l2 s2"
    by (auto simp: list_all2_Cons1)
  ultimately show ?thesis using that by blast
qed

lemma rests_core:
  "rests c sd s \<longleftrightarrow> (\<exists>r. map_option core (c s) = Some r \<and> o_kind r = Limit \<and> o_side r = sd)"
  by (auto simp: rests_def)

lemma slot_ok_core:
  "slot_ok c sd p s \<longleftrightarrow> (\<exists>r. map_option core (c s) = Some r \<and> o_kind r = Limit \<and> o_side r = sd \<and>
     o_price r = p \<and> o_remaining r \<noteq> 0)"
  by (auto simp: slot_ok_def)

lemma slot_order_core:
  "map_option core (c' x) = map_option core (c x) \<Longrightarrow> c x \<noteq> None \<Longrightarrow> slot_order c' x = slot_order c x"
  by (auto simp: slot_order_def)

lemma orders_price:
  assumes "list_all2 (level_rep c sd) ls sss" and "\<forall>x \<in> fst ` set ls. P x"
    and "ord \<in> set (map (slot_order c) (concat sss))"
  shows "P (o_price ord)"
proof -
  from assms(3) obtain s where s: "s \<in> set (concat sss)" "ord = slot_order c s" by auto
  from level_rep_slots [OF assms(1) s(1)] assms(2) s(2) show ?thesis
    by (auto simp: slot_ok_def slot_order_def)
qed

text \<open>
  \<open>around c sd p ls xs ys\<close>: the levels better than price \<open>p\<close> hold the slots \<open>xs\<close> and those
  worse hold \<open>ys\<close>. \<open>focus c sd p ls lvl xs ts ys\<close>: moreover the slots of the side are
  \<open>xs @ ts @ ys\<close>, where \<open>ts\<close> are those at price \<open>p\<close>, chained through \<open>lvl\<close> (an empty level
  where the price has none).
\<close>

definition around ::
  "contents \<Rightarrow> side \<Rightarrow> price \<Rightarrow> (price \<times> price_level) list \<Rightarrow> nat list \<Rightarrow> nat list \<Rightarrow> bool" where
  "around c sd p ls xs ys \<longleftrightarrow>
     (\<exists>l1 l2 s1 s2.
        xs = concat s1 \<and> ys = concat s2 \<and> [] \<notin> set s1 \<union> set s2 \<and>
        list_all2 (level_rep c sd) l1 s1 \<and> list_all2 (level_rep c sd) l2 s2 \<and>
        lv_sorted sd l1 \<and> lv_sorted sd l2 \<and>
        (\<forall>x \<in> fst ` set l1. better sd x p) \<and> (\<forall>x \<in> fst ` set l2. better sd p x) \<and>
        (\<forall>l. lv_put sd p l ls = l1 @ (p, l) # l2) \<and> lv_drop p ls = l1 @ l2)"

lemma aroundE:
  assumes "around c sd p ls xs ys"
  obtains l1 l2 s1 s2 where "xs = concat s1" "ys = concat s2" "[] \<notin> set s1 \<union> set s2"
    "list_all2 (level_rep c sd) l1 s1" "list_all2 (level_rep c sd) l2 s2"
    "lv_sorted sd l1" "lv_sorted sd l2"
    "\<forall>x \<in> fst ` set l1. better sd x p" "\<forall>x \<in> fst ` set l2. better sd p x"
    "\<And>l. lv_put sd p l ls = l1 @ (p, l) # l2" "lv_drop p ls = l1 @ l2"
proof -
  from assms obtain l1 l2 s1 s2 where *: "xs = concat s1 \<and> ys = concat s2 \<and>
      [] \<notin> set s1 \<union> set s2 \<and>
      list_all2 (level_rep c sd) l1 s1 \<and> list_all2 (level_rep c sd) l2 s2 \<and>
      lv_sorted sd l1 \<and> lv_sorted sd l2 \<and>
      (\<forall>x \<in> fst ` set l1. better sd x p) \<and> (\<forall>x \<in> fst ` set l2. better sd p x) \<and>
      (\<forall>l. lv_put sd p l ls = l1 @ (p, l) # l2) \<and> lv_drop p ls = l1 @ l2"
    unfolding around_def by (elim exE)
  show ?thesis by (rule that [of s1 s2 l1 l2]; use * in blast)
qed

definition focus ::
  "contents \<Rightarrow> side \<Rightarrow> price \<Rightarrow> (price \<times> price_level) list \<Rightarrow> price_level \<Rightarrow>
   nat list \<Rightarrow> nat list \<Rightarrow> nat list \<Rightarrow> bool" where
  "focus c sd p ls lvl xs ts ys \<longleftrightarrow>
     lvl = (case map_of ls p of None \<Rightarrow> level_new | Some l \<Rightarrow> l) \<and>
     level_rep c sd (p, lvl) ts \<and> (ts = [] \<longleftrightarrow> map_of ls p = None) \<and>
     distinct (xs @ ts @ ys) \<and> (\<forall>s. s \<in> set (xs @ ts @ ys) \<longleftrightarrow> rests c sd s) \<and>
     around c sd p ls xs ys"

lemma level_rep_empty [simp]: "level_rep c sd (p, level_new) []"
  by (simp add: level_rep_def)

lemma queue_rep_focus:
  assumes qr: "queue_rep c sd ls q"
  obtains lvl xs ts ys where "focus c sd p ls lvl xs ts ys" "q = map (slot_order c) (xs @ ts @ ys)"
proof -
  obtain sss where srt: "lv_sorted sd ls" and la: "list_all2 (level_rep c sd) ls sss"
    and ne: "[] \<notin> set sss"
    and dist: "distinct (concat sss)" and cov: "\<And>x. x \<in> set (concat sss) \<longleftrightarrow> rests c sd x"
    and q: "q = map (slot_order c) (concat sss)"
    using qr by (rule queue_repE) (rule that; assumption)
  from srt show ?thesis
  proof (cases rule: lv_sorted_split [where p = p])
    case (present l1 l l2)
    obtain s1 ts s2 where sss: "sss = s1 @ ts # s2" and a: "list_all2 (level_rep c sd) l1 s1"
      "level_rep c sd (p, l) ts" "list_all2 (level_rep c sd) l2 s2"
      using la present(1) by (auto elim: list_all2_split)
    have put: "\<forall>l. lv_put sd p l ls = l1 @ (p, l) # l2" "lv_drop p ls = l1 @ l2"
      using present lv_put_present lv_drop_present [OF present(2,3)] by auto
    have srt': "lv_sorted sd l1" "lv_sorted sd l2"
      using srt present(1) by (auto simp: lv_sorted_append lv_sorted_Cons)
    have "[] \<notin> set s1 \<union> set s2" "ts \<noteq> []" using ne sss by auto
    with a put srt' present(2,3) have "around c sd p ls (concat s1) (concat s2)"
      unfolding around_def by blast
    moreover have "distinct (concat s1 @ ts @ concat s2)" using dist sss by simp
    moreover have "\<forall>s. s \<in> set (concat s1 @ ts @ concat s2) \<longleftrightarrow> rests c sd s"
      using cov unfolding sss by simp
    ultimately have "focus c sd p ls l (concat s1) ts (concat s2)"
      unfolding focus_def using present(4) a(2) \<open>ts \<noteq> []\<close> by simp
    then show ?thesis using that q sss by simp
  next
    case (absent l1 l2)
    obtain s1 s2 where sss: "sss = s1 @ s2" and a: "list_all2 (level_rep c sd) l1 s1"
      "list_all2 (level_rep c sd) l2 s2"
      using la absent(1) by (auto simp: list_all2_append1)
    have "lv_drop p ls = ls"
      using absent(4) unfolding lv_drop_def by (force simp: filter_id_conv map_of_eq_None_iff)
    then have put: "\<forall>l. lv_put sd p l ls = l1 @ (p, l) # l2" "lv_drop p ls = l1 @ l2"
      using absent lv_put_absent by auto
    have srt': "lv_sorted sd l1" "lv_sorted sd l2"
      using srt absent(1) by (auto simp: lv_sorted_append)
    have "[] \<notin> set s1 \<union> set s2" using ne sss by auto
    with a put srt' absent(2,3) have "around c sd p ls (concat s1) (concat s2)"
      unfolding around_def by blast
    moreover have "distinct (concat s1 @ [] @ concat s2)" using dist sss by simp
    moreover have "\<forall>s. s \<in> set (concat s1 @ [] @ concat s2) \<longleftrightarrow> rests c sd s"
      using cov unfolding sss by simp
    ultimately have "focus c sd p ls level_new (concat s1) [] (concat s2)"
      unfolding focus_def using absent(4) by simp
    then show ?thesis using that q sss by simp
  qed
qed

text \<open>Changing only the slots of one price gives a queue with those slots changed.\<close>

lemma focus_replace:
  assumes f: "focus c sd p ls lvl xs ts ys" and eq: "\<And>x. x \<in> set xs \<union> set ys \<Longrightarrow> c x = c' x"
    and lr: "level_rep c' sd (p, lvl') ts'" and dist: "distinct (xs @ ts' @ ys)"
    and cov: "\<And>x. x \<in> set (xs @ ts' @ ys) \<longleftrightarrow> rests c' sd x"
  shows "queue_rep c' sd (if ts' = [] then lv_drop p ls else lv_put sd p lvl' ls)
           (map (slot_order c') (xs @ ts' @ ys))"
proof -
  have ar: "around c sd p ls xs ys" using f by (simp add: focus_def)
  obtain l1 l2 s1 s2 where xy: "xs = concat s1" "ys = concat s2" "[] \<notin> set s1 \<union> set s2"
    and a: "list_all2 (level_rep c sd) l1 s1" "list_all2 (level_rep c sd) l2 s2"
    and srt: "lv_sorted sd l1" "lv_sorted sd l2"
    and bt: "\<forall>x \<in> fst ` set l1. better sd x p" "\<forall>x \<in> fst ` set l2. better sd p x"
    and put: "\<And>l. lv_put sd p l ls = l1 @ (p, l) # l2" and drop: "lv_drop p ls = l1 @ l2"
    by (rule aroundE [OF ar]) (rule that; assumption)
  have a': "list_all2 (level_rep c' sd) l1 s1" "list_all2 (level_rep c' sd) l2 s2"
    using a list_all2_level_cong [of s1 c c'] list_all2_level_cong [of s2 c c'] eq xy by simp_all
  show ?thesis
  proof (cases "ts' = []")
    case True
    have "lv_sorted sd (l1 @ l2)"
      using srt bt unfolding lv_sorted_append by (blast intro: better_trans)
    moreover have "list_all2 (level_rep c' sd) (l1 @ l2) (s1 @ s2)"
      using a' by (rule list_all2_appendI)
    ultimately show ?thesis
      using xy dist cov unfolding True drop
      by (intro queue_repI [where sss = "s1 @ s2"]) simp_all
  next
    case False
    have "lv_sorted sd (l1 @ (p, lvl') # l2)"
      using srt bt unfolding lv_sorted_append lv_sorted_Cons by (auto intro: better_trans)
    moreover have "list_all2 (level_rep c' sd) (l1 @ (p, lvl') # l2) (s1 @ ts' # s2)"
      using a' lr by (intro list_all2_appendI) simp_all
    ultimately show ?thesis
      using xy dist cov False put
      by (intro queue_repI [where sss = "s1 @ ts' # s2"]) simp_all
  qed
qed

lemma focus_prices:
  assumes "focus c sd p ls lvl xs ts ys"
  shows "x \<in> set xs \<Longrightarrow> better sd (o_price (slot_order c x)) p"
    and "x \<in> set ts \<Longrightarrow> o_price (slot_order c x) = p"
    and "x \<in> set ys \<Longrightarrow> better sd p (o_price (slot_order c x))"
proof -
  have ar: "around c sd p ls xs ys" using assms by (simp add: focus_def)
  obtain l1 l2 s1 s2 where "xs = concat s1" "ys = concat s2"
    "list_all2 (level_rep c sd) l1 s1" "list_all2 (level_rep c sd) l2 s2"
    "\<forall>x \<in> fst ` set l1. better sd x p" "\<forall>x \<in> fst ` set l2. better sd p x"
    by (rule aroundE [OF ar]) (rule that; assumption)
  then show "x \<in> set xs \<Longrightarrow> better sd (o_price (slot_order c x)) p"
    and "x \<in> set ys \<Longrightarrow> better sd p (o_price (slot_order c x))"
    using orders_price [of c sd l1 s1 "\<lambda>x. better sd x p" "slot_order c x"]
      orders_price [of c sd l2 s2 "\<lambda>x. better sd p x" "slot_order c x"] by auto
  show "x \<in> set ts \<Longrightarrow> o_price (slot_order c x) = p"
    using assms by (auto simp: focus_def level_rep_def slot_ok_def slot_order_def)
qed

section \<open>Inserting by priority\<close>

text \<open>Behind every order whose price is at least as good.\<close>

fun enqueue :: "side \<Rightarrow> order \<Rightarrow> order list \<Rightarrow> order list" where
  "enqueue sd ord [] = [ord]"
| "enqueue sd ord (x # xs) =
     (if better sd (o_price ord) (o_price x) then ord # x # xs else x # enqueue sd ord xs)"

lemma enqueue_split:
  assumes "\<And>x. x \<in> set xs \<Longrightarrow> \<not> better sd (o_price ord) (o_price x)"
    and "\<And>y. y \<in> set ys \<Longrightarrow> better sd (o_price ord) (o_price y)"
  shows "enqueue sd ord (xs @ ys) = xs @ ord # ys"
proof -
  have "enqueue sd ord ys = ord # ys" using assms(2) by (cases ys) auto
  then show ?thesis using assms(1) by (induction xs) auto
qed

lemma set_enqueue [simp]: "set (enqueue sd ord q) = insert ord (set q)"
  by (induction sd ord q rule: enqueue.induct) auto

lemma nsum_enqueue [simp]: "nsum f (enqueue sd ord q) = unat (f ord) + nsum f q"
  by (induction sd ord q rule: enqueue.induct) auto

section \<open>Pushing a resting order\<close>

definition push_cells :: "contents \<Rightarrow> nat \<Rightarrow> order \<Rightarrow> nat option \<Rightarrow> contents" where
  "push_cells c s ord old_tail =
     (let c1 = c(s \<mapsto> ord\<lparr>o_prev := old_tail, o_next := None\<rparr>)
      in (case old_tail of None \<Rightarrow> c1
          | Some u \<Rightarrow> c1(u := map_option (\<lambda>r. r\<lparr>o_next := Some s\<rparr>) (c1 u))))"

lemma push_cells_other:
  "x \<noteq> s \<Longrightarrow> old_tail \<noteq> Some x \<Longrightarrow> push_cells c s ord old_tail x = c x"
  by (simp add: push_cells_def Let_def split: option.splits)

lemma push_cells_core:
  "map_option core (push_cells c s ord old_tail x) =
     (if x = s then Some (core ord) else map_option core (c x))"
  by (auto simp: push_cells_def Let_def option.map_comp comp_def split: option.splits)

lemma rests_push:
  "o_kind ord = Limit \<Longrightarrow> o_side ord = sd \<Longrightarrow>
     rests (push_cells c s ord ot) sd x \<longleftrightarrow> x = s \<or> rests c sd x"
  by (auto simp: rests_core push_cells_core)

lemma level_rep_push:
  assumes lr: "level_rep c sd (p, l) ss" and s: "s \<notin> set ss" and dist: "distinct ss"
    and ord: "o_kind ord = Limit" "o_side ord = sd" "o_price ord = p" "o_remaining ord \<noteq> 0"
    and room: "nsum o_remaining (map (slot_order c) ss) + unat (o_remaining ord) < 2 ^ 64"
  shows "level_rep (push_cells c s ord (tail l)) sd (p, push_back s (o_remaining ord) l) (ss @ [s])"
proof (cases ss rule: rev_cases)
  case Nil
  then have "head l = None" "tail l = None" "total_qty l = 0"
    using lr by (auto simp: level_rep_def unat_eq_zero)
  then show ?thesis
    using Nil ord by (simp add: level_rep_def push_cells_def slot_ok_def slot_order_def)
next
  case (snoc xs u)
  have sg: "seg c None (head l) ss (tail l) None" and ok: "\<forall>x \<in> set ss. slot_ok c sd p x"
    and tq: "unat (total_qty l) = nsum o_remaining (map (slot_order c) ss)"
    using lr by (simp_all add: level_rep_def)
  have t: "tail l = Some u" using seg_last [OF sg] snoc by simp
  obtain uo where u: "c u = Some uo" using ok snoc by (auto simp: slot_ok_def)
  have us: "u \<noteq> s" using s snoc by auto
  let ?c = "push_cells c s ord (tail l)"
  have c: "?c = c(s \<mapsto> ord\<lparr>o_prev := Some u, o_next := None\<rparr>, u \<mapsto> uo\<lparr>o_next := Some s\<rparr>)"
    using t u us by (simp add: push_cells_def)
  have "seg ?c None (head l) (xs @ [u, s]) (Some s) None"
    unfolding c using sg dist s u snoc by (intro seg_push_back) (simp_all add: t)
  then have "seg ?c None (head l) (ss @ [s]) (Some s) None"
    by (simp add: snoc)
  moreover have "\<forall>x \<in> set (ss @ [s]). slot_ok ?c sd p x"
    using ok u us ord unfolding c slot_ok_def by auto
  moreover have "nsum o_remaining (map (slot_order ?c) ss) = nsum o_remaining (map (slot_order c) ss)"
    using s u us unfolding c nsum_map by (intro nsum_cong) (auto simp: slot_order_def)
  moreover have "slot_order ?c s = core ord"
    using us unfolding c by (simp add: slot_order_def)
  ultimately show ?thesis
    using t tq room by (simp add: level_rep_def unat_add_u64)
qed

lemma queue_rep_push:
  assumes qr: "queue_rep c sd ls q" and s: "c s = None"
    and ord: "o_kind ord = Limit" "o_side ord = sd" "o_remaining ord \<noteq> 0"
    and room: "nsum o_remaining q + unat (o_remaining ord) < 2 ^ 64"
    and lvl: "lvl = (case map_of ls (o_price ord) of None \<Rightarrow> level_new | Some l \<Rightarrow> l)"
  shows "queue_rep (push_cells c s ord (tail lvl)) sd
           (lv_put sd (o_price ord) (push_back s (o_remaining ord) lvl) ls)
           (enqueue sd (core ord) q)"
proof -
  let ?p = "o_price ord" and ?c = "push_cells c s ord (tail lvl)"
  obtain lvl' xs ts ys where f: "focus c sd ?p ls lvl' xs ts ys"
    and q: "q = map (slot_order c) (xs @ ts @ ys)"
    using qr by (rule queue_rep_focus)
  from f lvl have lvl': "lvl' = lvl" and lr: "level_rep c sd (?p, lvl) ts"
    and dist: "distinct (xs @ ts @ ys)" and cov: "\<And>x. x \<in> set (xs @ ts @ ys) \<longleftrightarrow> rests c sd x"
    by (auto simp: focus_def)
  have sn: "s \<notin> set (xs @ ts @ ys)" using s cov by (auto simp: rests_def)
  have tl: "tail lvl = Some x \<Longrightarrow> x \<in> set ts" for x
    using lr by (auto simp: level_rep_def dest: seg_last split: if_splits)
  have so: "map (slot_order ?c) zs = map (slot_order c) zs" if "set zs \<subseteq> set (xs @ ts @ ys)" for zs
  proof (intro map_cong refl slot_order_core)
    fix x assume "x \<in> set zs"
    then have x: "x \<in> set (xs @ ts @ ys)" using that by blast
    then show "map_option core (?c x) = map_option core (c x)" using sn by (auto simp: push_cells_core)
    show "c x \<noteq> None" using cov [of x] x by (auto simp: rests_def)
  qed
  have ss: "slot_order ?c s = core ord"
    using push_cells_core [of c s ord "tail lvl" s] by (auto simp: slot_order_def)
  have "queue_rep ?c sd (if ts @ [s] = [] then lv_drop ?p ls
           else lv_put sd ?p (push_back s (o_remaining ord) lvl) ls)
          (map (slot_order ?c) (xs @ (ts @ [s]) @ ys))"
  proof (rule focus_replace [OF f])
    show "c x = ?c x" if "x \<in> set xs \<union> set ys" for x
      using that sn tl dist by (intro push_cells_other [symmetric]) auto
    show "level_rep ?c sd (?p, push_back s (o_remaining ord) lvl) (ts @ [s])"
      using room q dist sn lr ord by (intro level_rep_push) auto
    show "distinct (xs @ (ts @ [s]) @ ys)" using dist sn by auto
    show "x \<in> set (xs @ (ts @ [s]) @ ys) \<longleftrightarrow> rests ?c sd x" for x
      using cov [of x] ord by (auto simp: rests_push)
  qed
  moreover have "enqueue sd (core ord) (map (slot_order c) (xs @ ts) @ map (slot_order c) ys) =
      map (slot_order c) (xs @ ts) @ core ord # map (slot_order c) ys"
    using focus_prices [OF f] by (intro enqueue_split) (auto dest: better_asym)
  moreover have "map (slot_order ?c) xs = map (slot_order c) xs"
    "map (slot_order ?c) ts = map (slot_order c) ts" "map (slot_order ?c) ys = map (slot_order c) ys"
    by (rule so; auto)+
  ultimately show ?thesis
    using ss q by (simp del: map_eq_conv)
qed

section \<open>Unlinking a resting order\<close>

definition unlink_cells :: "contents \<Rightarrow> nat \<Rightarrow> order \<Rightarrow> contents" where
  "unlink_cells c s ord = (unlink c (o_prev ord) (o_next ord))(s := None)"

definition unlinked_level :: "nat \<Rightarrow> order \<Rightarrow> price_level \<Rightarrow> price_level \<Rightarrow> bool" where
  "unlinked_level s ord l l' \<longleftrightarrow>
     head l' = (if head l = Some s then o_next ord else head l) \<and>
     tail l' = (if tail l = Some s then o_prev ord else tail l) \<and>
     total_qty l' = sat_sub (total_qty l) (o_remaining ord)"

lemma unlink_cells_core:
  "map_option core (unlink_cells c s ord x) = (if x = s then None else map_option core (c x))"
  by (simp add: unlink_cells_def)

lemma rests_unlink: "rests (unlink_cells c s ord) sd x \<longleftrightarrow> x \<noteq> s \<and> rests c sd x"
  by (simp add: rests_core unlink_cells_core)

lemma level_rep_unlink:
  assumes lr: "level_rep c sd (p, l) (xs @ s # ys)" and dist: "distinct (xs @ s # ys)"
    and s: "c s = Some ord" and l': "unlinked_level s ord l l'"
  shows "level_rep (unlink_cells c s ord) sd (p, l') (xs @ ys)"
proof -
  let ?c = "unlink_cells c s ord"
  have sg: "seg c None (head l) (xs @ s # ys) (tail l) None"
    and ok: "\<And>x. x \<in> set (xs @ s # ys) \<Longrightarrow> slot_ok c sd p x"
    and tq: "unat (total_qty l) = nsum o_remaining (map (slot_order c) (xs @ s # ys))"
    using lr by (auto simp: level_rep_def)
  have so: "slot_order ?c x = slot_order c x" if "x \<in> set (xs @ ys)" for x
    using that dist ok [of x] by (intro slot_order_core) (auto simp: unlink_cells_core slot_ok_def)
  have "seg ?c None (head l') (xs @ ys) (tail l') None"
    unfolding unlink_cells_def using seg_unlink [OF sg dist s] dist l'
    by (subst seg_upd_notin) (simp_all add: unlinked_level_def)
  moreover have "slot_ok ?c sd p x" if x: "x \<in> set (xs @ ys)" for x
  proof -
    have "map_option core (?c x) = map_option core (c x)" using x dist by (auto simp: unlink_cells_core)
    then show ?thesis using ok [of x] x by (simp add: slot_ok_core)
  qed
  moreover have "nsum o_remaining (map (slot_order ?c) (xs @ ys)) = nsum o_remaining (map (slot_order c) (xs @ ys))"
    unfolding nsum_map by (intro nsum_cong) (simp add: so)
  moreover have "slot_order c s = core ord" using s by (simp add: slot_order_def)
  ultimately show ?thesis
    using tq l' by (simp add: level_rep_def unlinked_level_def unat_sat_sub)
qed

lemma queue_rep_unlink:
  assumes qr: "queue_rep c sd ls q" and s: "c s = Some ord"
    and ord: "o_kind ord = Limit" "o_side ord = sd"
  obtains l q1 q2 where "map_of ls (o_price ord) = Some l" "q = q1 @ core ord # q2"
    "\<And>v. o_prev ord = Some v \<or> o_next ord = Some v \<Longrightarrow> v \<noteq> s \<and> rests c sd v"
    "\<And>l'. unlinked_level s ord l l' \<Longrightarrow>
       queue_rep (unlink_cells c s ord) sd
         (if head l' = None then lv_drop (o_price ord) ls else lv_put sd (o_price ord) l' ls) (q1 @ q2)"
proof -
  let ?p = "o_price ord" and ?c = "unlink_cells c s ord"
  obtain lvl xs ts ys where f: "focus c sd ?p ls lvl xs ts ys"
    and q: "q = map (slot_order c) (xs @ ts @ ys)"
    using qr by (rule queue_rep_focus)
  have lr: "level_rep c sd (?p, lvl) ts" and lvl: "lvl = (case map_of ls ?p of None \<Rightarrow> level_new | Some l \<Rightarrow> l)"
    and ne: "ts = [] \<longleftrightarrow> map_of ls ?p = None"
    and dist: "distinct (xs @ ts @ ys)" and cov: "\<And>x. x \<in> set (xs @ ts @ ys) \<longleftrightarrow> rests c sd x"
    using f by (auto simp: focus_def)
  have so: "slot_order c s = core ord" using s by (simp add: slot_order_def)
  have "s \<in> set (xs @ ts @ ys)" using cov s ord by (auto simp: rests_def)
  moreover have "s \<notin> set xs" "s \<notin> set ys" using focus_prices(1,3) [OF f, of s] so by auto
  ultimately obtain as bs where ts: "ts = as @ s # bs" by (auto simp: in_set_conv_decomp)
  have nb: "(o_prev ord = Some x \<or> o_next ord = Some x) \<Longrightarrow> x \<in> set as \<union> set bs" for x
  proof -
    have "seg c None (head lvl) (as @ s # bs) (tail lvl) None" using lr ts by (simp add: level_rep_def)
    then have "seg c None (head lvl) as (o_prev ord) (Some s)" "seg c (Some s) (o_next ord) bs (tail lvl) None"
      using s by (auto simp: seg_append)
    then show "(o_prev ord = Some x \<or> o_next ord = Some x) \<Longrightarrow> x \<in> set as \<union> set bs"
      using seg_last_in [of c "head lvl" as x "Some s"]
        seg_first_in [of c "Some s" x bs "tail lvl"] by auto
  qed
  have out: "unlink_cells c s ord x = c x" if "x \<in> set xs \<union> set ys" for x
  proof -
    have "x \<notin> set ts" using that dist by auto
    then have "o_prev ord \<noteq> Some x" "o_next ord \<noteq> Some x" "x \<noteq> s" using nb ts by auto
    then show ?thesis by (simp add: unlink_cells_def unlink_other)
  qed
  have sos: "map (slot_order ?c) zs = map (slot_order c) zs" if "set zs \<subseteq> set (xs @ ts @ ys) - {s}" for zs
  proof (intro map_cong refl slot_order_core)
    fix x assume "x \<in> set zs"
    then have x: "x \<in> set (xs @ ts @ ys)" "x \<noteq> s" using that by auto
    then show "map_option core (?c x) = map_option core (c x)" by (simp add: unlink_cells_core)
    show "c x \<noteq> None" using cov [of x] x by (auto simp: rests_def)
  qed
  show ?thesis
  proof (rule that)
    show "map_of ls ?p = Some lvl" using lvl ne ts by (cases "map_of ls ?p") auto
    show "q = map (slot_order c) (xs @ as) @ core ord # map (slot_order c) (bs @ ys)"
      using q ts so by simp
    show "v \<noteq> s \<and> rests c sd v" if "o_prev ord = Some v \<or> o_next ord = Some v" for v
      using nb [OF that] cov [of v] dist ts by auto
    fix l' assume l': "unlinked_level s ord lvl l'"
    have lr': "level_rep ?c sd (?p, l') (as @ bs)"
      using lr ts dist s l' by (intro level_rep_unlink) auto
    then have hd: "head l' = None \<longleftrightarrow> as @ bs = []"
      by (auto simp: level_rep_def dest: seg_None_iff)
    have cov': "x \<in> set (xs @ (as @ bs) @ ys) \<longleftrightarrow> rests ?c sd x" for x
      using cov [of x] ts dist by (auto simp: rests_unlink)
    have dist': "distinct (xs @ (as @ bs) @ ys)" using dist ts by auto
    have eq: "map (slot_order ?c) (xs @ (as @ bs) @ ys) =
        map (slot_order c) (xs @ as) @ map (slot_order c) (bs @ ys)"
      using sos [of "xs @ as @ bs @ ys"] dist ts by auto
    have "queue_rep ?c sd (if as @ bs = [] then lv_drop ?p ls else lv_put sd ?p l' ls)
        (map (slot_order ?c) (xs @ (as @ bs) @ ys))"
      using f out [symmetric] lr' dist' cov' by (rule focus_replace)
    then show "queue_rep ?c sd (if head l' = None then lv_drop ?p ls else lv_put sd ?p l' ls)
        (map (slot_order c) (xs @ as) @ map (slot_order c) (bs @ ys))"
      unfolding hd eq .
  qed
qed

section \<open>The head of the queue\<close>

lemma queue_rep_Nil_iff: "queue_rep c sd ls q \<Longrightarrow> ls = [] \<longleftrightarrow> q = []"
proof -
  assume "queue_rep c sd ls q"
  then obtain sss where la: "list_all2 (level_rep c sd) ls sss" "[] \<notin> set sss"
    and q: "q = map (slot_order c) (concat sss)"
    by (rule queue_repE)
  show ?thesis
  proof (cases ls)
    case Nil
    with la q show ?thesis by simp
  next
    case (Cons x ls')
    obtain s ts sss' where "sss = (s # ts) # sss'"
      using la unfolding Cons by (rule levels_ConsE)
    with Cons q show ?thesis by simp
  qed
qed

text \<open>The first slot of the best level holds the order with the best priority.\<close>

lemma queue_rep_head:
  assumes qr: "queue_rep c sd ((p, l) # ls) q"
  obtains s ord q' where "head l = Some s" "c s = Some ord" "q = core ord # q'"
    "o_kind ord = Limit" "o_side ord = sd" "o_price ord = p" "o_remaining ord \<noteq> 0" "o_prev ord = None"
    "o_next ord = None \<longleftrightarrow> tail l = Some s"
    "\<And>v. o_next ord = Some v \<Longrightarrow> v \<noteq> s \<and> rests c sd v \<and> (\<exists>vo. c v = Some vo \<and> o_prev vo = Some s)"
    "unat (o_remaining ord) \<le> unat (total_qty l)" "tail l \<noteq> None"
proof -
  obtain sss where la: "list_all2 (level_rep c sd) ((p, l) # ls) sss" "[] \<notin> set sss"
    and dist: "distinct (concat sss)" and cov: "\<And>x. x \<in> set (concat sss) \<longleftrightarrow> rests c sd x"
    and q: "q = map (slot_order c) (concat sss)"
    using qr by (rule queue_repE) (rule that; assumption)
  from la obtain s ts sss' where sss: "sss = (s # ts) # sss'" and lr: "level_rep c sd (p, l) (s # ts)"
    by (rule levels_ConsE)
  then have sg: "seg c None (head l) (s # ts) (tail l) None" and ok: "slot_ok c sd p s"
    by (auto simp: level_rep_def)
  from ok obtain ord where ord: "c s = Some ord" "o_kind ord = Limit" "o_side ord = sd"
    "o_price ord = p" "o_remaining ord \<noteq> 0" by (auto simp: slot_ok_def)
  with sg have sg': "head l = Some s" "o_prev ord = None" "seg c (Some s) (o_next ord) ts (tail l) None"
    by auto
  have nx: "o_next ord = None \<longleftrightarrow> ts = []" "tail l = Some s \<longleftrightarrow> ts = []"
    using sg' dist sss seg_last [OF sg'(3)] by (cases ts; auto)+
  have nb: "v \<noteq> s \<and> rests c sd v \<and> (\<exists>vo. c v = Some vo \<and> o_prev vo = Some s)"
    if "o_next ord = Some v" for v
  proof -
    have "v \<in> set ts" using sg'(3) that seg_first_in by simp
    moreover have "\<exists>vo. c v = Some vo \<and> o_prev vo = Some s" using sg'(3) that by (cases ts) auto
    ultimately show ?thesis using dist sss cov [of v] by auto
  qed
  have "slot_order c s = core ord" using ord by (simp add: slot_order_def)
  then have tq: "unat (o_remaining ord) \<le> unat (total_qty l)"
    and qq: "q = core ord # map (slot_order c) (ts @ concat sss')"
    using lr q sss by (auto simp: level_rep_def)
  have nt: "o_next ord = None \<longleftrightarrow> tail l = Some s" using nx by simp
  have tn: "tail l \<noteq> None" using seg_None_iff [OF sg] by simp
  show ?thesis
    by (rule that [OF sg'(1) ord(1) qq ord(2-5) sg'(2) nt nb tq tn])
qed

text \<open>A partial fill of the head keeps it at the head with less remaining.\<close>

lemma queue_rep_fill_head:
  assumes qr: "queue_rep c sd ((p, l) # ls) (core ord # q)" and s: "head l = Some s" "c s = Some ord"
    and r: "r \<noteq> 0" "unat r \<le> unat (o_remaining ord)"
    and l': "head l' = Some s" "tail l' = tail l" "total_qty l' = total_qty l - (o_remaining ord - r)"
  shows "queue_rep (c(s \<mapsto> ord\<lparr>o_remaining := r\<rparr>)) sd ((p, l') # ls) ((core ord)\<lparr>o_remaining := r\<rparr> # q)"
proof -
  let ?c = "c(s \<mapsto> ord\<lparr>o_remaining := r\<rparr>)"
  obtain sss where srt: "lv_sorted sd ((p, l) # ls)"
    and la: "list_all2 (level_rep c sd) ((p, l) # ls) sss" and ne: "[] \<notin> set sss"
    and dist: "distinct (concat sss)" and cov: "\<And>x. x \<in> set (concat sss) \<longleftrightarrow> rests c sd x"
    and q: "core ord # q = map (slot_order c) (concat sss)"
    using qr by (rule queue_repE) (rule that; assumption)
  from la ne obtain s' ts sss' where sss: "sss = (s' # ts) # sss'" and lr: "level_rep c sd (p, l) (s' # ts)"
    and la': "list_all2 (level_rep c sd) ls sss'"
    by (rule levels_ConsE)
  have "s' = s" using lr s by (auto simp: level_rep_def)
  note sss = sss [unfolded this] and lr = lr [unfolded this]
  have sn: "s \<notin> set ts" "s \<notin> set (concat sss')" using dist sss by auto
  have so: "map (slot_order ?c) zs = map (slot_order c) zs" if "s \<notin> set zs" for zs
    using that by (auto simp: slot_order_def)
  have tq: "unat (total_qty l) = unat (o_remaining ord) + nsum o_remaining (map (slot_order c) ts)"
    using lr s by (simp add: level_rep_def slot_order_def)
  have "total_qty l' = total_qty l - (o_remaining ord - r)" by (rule l')
  moreover have "unat (o_remaining ord - r) = unat (o_remaining ord) - unat r"
    using r by (simp add: unat_sub_u64)
  ultimately have tq': "unat (total_qty l') = unat r + nsum o_remaining (map (slot_order c) ts)"
    using tq r by (simp add: unat_sub_u64)
  have sg: "seg ?c None (head l') (s # ts) (tail l') None"
    using lr l' s sn by (auto simp: level_rep_def)
  have ok: "\<forall>x \<in> set (s # ts). slot_ok ?c sd p x"
    using lr s r by (auto simp: level_rep_def slot_ok_def)
  have "level_rep ?c sd (p, l') (s # ts)"
    using sg ok tq' so [OF sn(1)] s by (simp add: level_rep_def slot_order_def del: map_eq_conv)
  moreover have "list_all2 (level_rep ?c sd) ls sss'"
  proof -
    have "c x = ?c x" if "x \<in> set (concat sss')" for x using that sn by auto
    from list_all2_level_cong [of sss' c ?c sd ls, OF this] la' show ?thesis by blast
  qed
  ultimately have "list_all2 (level_rep ?c sd) ((p, l') # ls) sss" unfolding sss by simp
  moreover have "x \<in> set (concat sss) \<longleftrightarrow> rests ?c sd x" for x
    using cov [of x] s by (auto simp: rests_def)
  moreover have "(core ord)\<lparr>o_remaining := r\<rparr> # q = map (slot_order ?c) (concat sss)"
    using q sss so [OF sn(1)] so [OF sn(2)] by (simp add: slot_order_def del: map_eq_conv)
  moreover have "lv_sorted sd ((p, l') # ls)" using srt by (simp add: lv_sorted_Cons)
  ultimately show ?thesis using ne dist by (intro queue_repI)
qed

end
