(* ===== verification/Spec_Book.thy ===== *)
theory Spec_Book
  imports Queue_Rep
begin

text \<open>
  What the matching engine promises, without arena, links, levels or index: each side is
  one list of resting orders in priority order, each side's pending stops are one list in
  trigger order, and a new order takes from the front of the opposite list for as long as
  prices cross. The theories \<open>Book_Refine\<close> and \<open>Engine_Refine\<close> show that the code's
  \<open>apply_cmd\<close> does exactly this.
\<close>

section \<open>State\<close>

record spec_book =
  queue :: "side \<Rightarrow> order list"
  stops :: "side \<Rightarrow> order list"
  sp_last :: "price option"

definition spec_empty :: spec_book where
  "spec_empty = \<lparr>queue = (\<lambda>_. []), stops = (\<lambda>_. []), sp_last = None\<rparr>"

definition book_orders :: "spec_book \<Rightarrow> order list" where
  "book_orders sp = queue sp Buy @ queue sp Sell @ stops sp Buy @ stops sp Sell"

definition resting_qty :: "spec_book \<Rightarrow> nat" where
  "resting_qty sp = nsum o_remaining (queue sp Buy) + nsum o_remaining (queue sp Sell)"

definition pending :: "spec_book \<Rightarrow> nat" where
  "pending sp = length (stops sp Buy) + length (stops sp Sell)"

section \<open>Filling from the front of a queue\<close>

text \<open>
  \<open>fills ok r q\<close>: fill quantity \<open>r\<close> from the front of \<open>q\<close> while the maker's price
  satisfies \<open>ok\<close>. Gives the makers met with the quantity traded with each, what is left of
  \<open>r\<close>, and the queue that is left.
\<close>

fun fills :: "(price \<Rightarrow> bool) \<Rightarrow> qty \<Rightarrow> order list \<Rightarrow> (order \<times> qty) list \<times> qty \<times> order list" where
  "fills ok r [] = ([], r, [])"
| "fills ok r (m # q) =
     (if r = 0 \<or> \<not> ok (o_price m) then ([], r, m # q)
      else if o_remaining m \<le> r then
        (case fills ok (r - o_remaining m) q of (fs, r', q') \<Rightarrow> ((m, o_remaining m) # fs, r', q'))
      else ([(m, r)], 0, m\<lparr>o_remaining := o_remaining m - r\<rparr> # q))"

definition fill_events ::
  "seq_no \<Rightarrow> ts \<Rightarrow> order_id \<Rightarrow> side \<Rightarrow> order \<times> qty \<Rightarrow> output_event list" where
  "fill_events s t taker sd mq =
     (case mq of (m, q) \<Rightarrow>
        [Trade s taker (o_id m) (o_price m) q sd t,
         if q = o_remaining m then Filled (o_id m) s
         else PartiallyFilled (o_id m) q (o_remaining m - q) s])"

definition last_price :: "(order \<times> qty) list \<Rightarrow> price option \<Rightarrow> price option" where
  "last_price fs lp = (if fs = [] then lp else Some (o_price (fst (last fs))))"

section \<open>Commands\<close>

definition spec_validate :: "spec_book \<Rightarrow> new_order \<Rightarrow> reject_reason option" where
  "spec_validate sp no =
     (if no_qty no = 0 then Some ZeroQty
      else if no_id no \<in> o_id ` set (book_orders sp) then Some DuplicateId
      else if no_kind no \<in> {Limit, Ioc, Fok, StopLimit} \<and> no_price no \<le> 0 then Some BadPrice
      else None)"

text \<open>Quantity within a limit price, capped as the code's saturating sum caps it.\<close>

definition spec_available :: "spec_book \<Rightarrow> side \<Rightarrow> price \<Rightarrow> nat" where
  "spec_available sp sd limit =
     nsum o_remaining
       (filter (\<lambda>m. case sd of Buy \<Rightarrow> o_price m \<le> limit | Sell \<Rightarrow> o_price m \<ge> limit)
         (queue sp (opposite sd)))"

fun stop_enqueue :: "side \<Rightarrow> order \<Rightarrow> order list \<Rightarrow> order list" where
  "stop_enqueue sd ord [] = [ord]"
| "stop_enqueue sd ord (x # xs) =
     (if better (opposite sd) (o_stop_price ord) (o_stop_price x) then ord # x # xs
      else x # stop_enqueue sd ord xs)"

definition stop_hit :: "side \<Rightarrow> price \<Rightarrow> order \<Rightarrow> bool" where
  "stop_hit sd lst ord = (case sd of Buy \<Rightarrow> o_stop_price ord \<le> lst | Sell \<Rightarrow> o_stop_price ord \<ge> lst)"

text \<open>The order after matching: filled, resting, or its remainder cancelled.\<close>

definition spec_settle ::
  "spec_book \<Rightarrow> new_order \<Rightarrow> qty \<Rightarrow> seq_no \<Rightarrow> ts \<Rightarrow> spec_book \<times> output_event list" where
  "spec_settle sp no r s t =
     (let sd = no_side no;
          part = (if r = 0 then [Filled (no_id no) s]
                  else if r = no_qty no then []
                  else [PartiallyFilled (no_id no) (no_qty no - r) r s])
      in if r = 0 then (sp, part)
         else if no_kind no = Limit then
           (sp\<lparr>queue := (queue sp)
                (sd := enqueue sd ((order_of_new no s t)\<lparr>o_remaining := r\<rparr>) (queue sp sd))\<rparr>, part)
         else (sp, part @ [Cancelled (no_id no) s]))"

definition spec_match ::
  "spec_book \<Rightarrow> new_order \<Rightarrow> seq_no \<Rightarrow> ts \<Rightarrow> spec_book \<times> output_event list" where
  "spec_match sp no s t =
     (case fills (crosses (no_side no) (no_kind no) (no_price no)) (no_qty no)
             (queue sp (opposite (no_side no))) of
        (fs, r, q) \<Rightarrow>
          (case spec_settle
             (sp\<lparr>queue := (queue sp)(opposite (no_side no) := q), sp_last := last_price fs (sp_last sp)\<rparr>)
             no r s t of
             (sp', ev) \<Rightarrow> (sp', concat (map (fill_events s t (no_id no) (no_side no)) fs) @ ev)))"

text \<open>
  A new order and the stops it triggers. The depth bound is the recursion of the code; it
  never runs out when it exceeds the number of pending stops (\<open>spec_new_total\<close>).
\<close>

function (sequential) spec_new ::
  "nat \<Rightarrow> spec_book \<Rightarrow> new_order \<Rightarrow> seq_no \<Rightarrow> ts \<Rightarrow> (spec_book \<times> output_event list) option"
and spec_trigger ::
  "nat \<Rightarrow> side \<Rightarrow> order list \<Rightarrow> spec_book \<Rightarrow> seq_no \<Rightarrow> ts \<Rightarrow> (spec_book \<times> output_event list) option"
where
  "spec_new 0 sp no s t = None"
| "spec_new (Suc k) sp no s t =
     (case spec_validate sp no of
        Some r \<Rightarrow> Some (sp, [Rejected (no_id no) r s])
      | None \<Rightarrow>
          if no_kind no = StopMarket \<or> no_kind no = StopLimit then
            Some (sp\<lparr>stops := (stops sp)
                    (no_side no := stop_enqueue (no_side no) (order_of_new no s t) (stops sp (no_side no)))\<rparr>,
                  [Accepted (no_id no) s])
          else if no_kind no = Fok \<and>
                  spec_available sp (no_side no) (no_price no) < unat (no_qty no) then
            Some (sp, [Accepted (no_id no) s, Rejected (no_id no) FokUnfillable s])
          else
            (case spec_match sp no s t of (sp1, ev1) \<Rightarrow>
              (case sp_last sp1 of
                 None \<Rightarrow> Some (sp1, Accepted (no_id no) s # ev1)
               | Some lst \<Rightarrow>
                   (case spec_trigger k Buy (filter (stop_hit Buy lst) (stops sp1 Buy)) sp1 s t of
                      None \<Rightarrow> None
                    | Some (sp2, ev2) \<Rightarrow>
                        (case spec_trigger k Sell (filter (stop_hit Sell lst) (stops sp2 Sell)) sp2 s t of
                           None \<Rightarrow> None
                         | Some (sp3, ev3) \<Rightarrow>
                             Some (sp3, Accepted (no_id no) s # ev1 @ ev2 @ ev3))))))"
| "spec_trigger k sd [] sp s t = Some (sp, [])"
| "spec_trigger k sd (ord # ords) sp s t =
     (if ord \<in> set (stops sp sd) then
        (case spec_new k (sp\<lparr>stops := (stops sp)(sd := filter (\<lambda>x. x \<noteq> ord) (stops sp sd))\<rparr>)
                (triggered_order ord) s t of
           None \<Rightarrow> None
         | Some (sp1, ev1) \<Rightarrow>
             (case spec_trigger k sd ords sp1 s t of
                None \<Rightarrow> None
              | Some (sp2, ev2) \<Rightarrow> Some (sp2, ev1 @ ev2)))
      else spec_trigger k sd ords sp s t)"
  by pat_completeness auto
termination
  by (relation "measures
       [\<lambda>x. case x of Inl (n, _) \<Rightarrow> n | Inr (n, _) \<Rightarrow> n,
        \<lambda>x. case x of Inl _ \<Rightarrow> 0 | Inr _ \<Rightarrow> 1,
        \<lambda>x. case x of Inl _ \<Rightarrow> 0 | Inr (_, _, ords, _) \<Rightarrow> length ords]")
     auto

definition spec_cancel :: "spec_book \<Rightarrow> order_id \<Rightarrow> spec_book" where
  "spec_cancel sp i = sp\<lparr>queue := (\<lambda>sd. filter (\<lambda>x. o_id x \<noteq> i) (queue sp sd))\<rparr>"

definition resting_order :: "spec_book \<Rightarrow> order_id \<Rightarrow> order option" where
  "resting_order sp i = List.find (\<lambda>x. o_id x = i) (queue sp Buy @ queue sp Sell)"

definition spec_apply :: "spec_book \<Rightarrow> sequenced \<Rightarrow> (spec_book \<times> output_event list) option" where
  "spec_apply sp cmd =
     (let s = sq_seq cmd; t = sq_ts cmd; k = Suc (pending sp) in
      case sq_cmd cmd of
        New no \<Rightarrow> spec_new k sp no s t
      | Cancel i _ \<Rightarrow>
          (case resting_order sp i of
             None \<Rightarrow> Some (sp, [Rejected i UnknownId s])
           | Some ord \<Rightarrow> Some (spec_cancel sp i, [Cancelled i s]))
      | Replace i np nq _ \<Rightarrow>
          if nq = 0 then Some (sp, [Rejected i ZeroQty s])
          else
            (case resting_order sp i of
               None \<Rightarrow> Some (sp, [Rejected i UnknownId s])
             | Some ord \<Rightarrow>
                 map_option (\<lambda>(sp', ev). (sp', Replaced i s # ev))
                   (spec_new k (spec_cancel sp i)
                     \<lparr>no_id = i, no_symbol = o_symbol ord, no_side = o_side ord,
                      no_kind = o_kind ord, no_tif = o_tif ord, no_price = np,
                      no_stop_price = 0, no_qty = nq\<rparr> s t)))"

end
