(* ===== verification/Book_Rep.thy ===== *)
theory Book_Rep
  imports Spec_Book
begin

text \<open>
  The simulation relation between the code's book and the specification's: \<open>book_rep\<close>
  relates arena contents and maps to the two queues, the two lists of pending stops and the
  index; \<open>rep\<close> is the relation between commands, \<open>in_match\<close> the one while an aggressor
  sits in the arena. A held stop is a \<open>StopMarket\<close> order: what goes wrong with
  \<open>StopLimit\<close> is in the theory \<open>Stop_Hazards\<close>.
\<close>

section \<open>Pending stops\<close>

definition stop_levels :: "order_book \<Rightarrow> side \<Rightarrow> (price \<times> nat list) list" where
  "stop_levels b sd =
     (case sd of Buy \<Rightarrow> stop_buys b | Sell \<Rightarrow> map (\<lambda>(k, l). (unReverse k, l)) (stop_sells b))"

definition stop_slots :: "(price \<times> nat list) list \<Rightarrow> nat list" where
  "stop_slots ls = concat (map snd ls)"

definition pends :: "contents \<Rightarrow> side \<Rightarrow> nat \<Rightarrow> bool" where
  "pends c sd s \<longleftrightarrow> (\<exists>ord. c s = Some ord \<and> o_kind ord = StopMarket \<and> o_side ord = sd)"

definition alive :: "contents \<Rightarrow> nat \<Rightarrow> bool" where
  "alive c s \<longleftrightarrow> c s \<noteq> None"

definition stop_ok :: "contents \<Rightarrow> side \<Rightarrow> price \<Rightarrow> nat \<Rightarrow> bool" where
  "stop_ok c sd p s \<longleftrightarrow> (\<forall>ord. c s = Some ord \<longrightarrow> o_kind ord = StopMarket \<and> o_side ord = sd \<and>
     o_stop_price ord = p \<and> o_remaining ord \<noteq> 0 \<and> core ord = ord)"

text \<open>
  Slots listed under a trigger price may be vacant (triggered already, not yet swept by
  \<^verbatim>\<open>retain\<close>); those that are not hold the pending stops.
\<close>

definition stop_rep :: "contents \<Rightarrow> side \<Rightarrow> (price \<times> nat list) list \<Rightarrow> order list \<Rightarrow> bool" where
  "stop_rep c sd ls q \<longleftrightarrow>
     lv_sorted (opposite sd) ls \<and>
     (\<forall>(p, ss) \<in> set ls. \<forall>s \<in> set ss. stop_ok c sd p s) \<and>
     distinct (filter (alive c) (stop_slots ls)) \<and>
     (\<forall>s. pends c sd s \<longrightarrow> s \<in> set (stop_slots ls)) \<and>
     q = map (slot_order c) (filter (alive c) (stop_slots ls))"

section \<open>The index\<close>

definition loc_of :: "nat \<Rightarrow> order \<Rightarrow> location" where
  "loc_of s ord =
     \<lparr>loc_price = (if o_kind ord = Limit then o_price ord else o_stop_price ord),
      loc_side = o_side ord, loc_slot = s\<rparr>"

definition index_rep :: "contents \<Rightarrow> (order_id \<rightharpoonup> location) \<Rightarrow> bool" where
  "index_rep c idx \<longleftrightarrow>
     (\<forall>i loc. idx i = Some loc \<longleftrightarrow> (\<exists>s ord. c s = Some ord \<and> o_id ord = i \<and> loc = loc_of s ord))"

lemma index_rep_Some: "index_rep c idx \<Longrightarrow> c s = Some ord \<Longrightarrow> idx (o_id ord) = Some (loc_of s ord)"
  by (auto simp: index_rep_def)

lemma index_rep_lookup:
  "index_rep c idx \<Longrightarrow> idx i = Some loc \<Longrightarrow>
     \<exists>ord. c (loc_slot loc) = Some ord \<and> o_id ord = i \<and> loc = loc_of (loc_slot loc) ord"
  by (auto simp: index_rep_def loc_of_def)

lemma index_rep_id_inj:
  assumes "index_rep c idx" "c s = Some x" "c s' = Some y" "o_id x = o_id y"
  shows "s = s'"
  using index_rep_Some [OF assms(1,2)] index_rep_Some [OF assms(1,3)] assms(4)
  by (simp add: loc_of_def)

lemma index_rep_None: "index_rep c idx \<Longrightarrow> idx i = None \<longleftrightarrow> (\<forall>s ord. c s = Some ord \<longrightarrow> o_id ord \<noteq> i)"
  unfolding index_rep_def by (metis not_None_eq)

text \<open>Only the fields the index depends on matter.\<close>

definition okey :: "order \<Rightarrow> order_id \<times> order_type \<times> price \<times> price \<times> side" where
  "okey ord = (o_id ord, o_kind ord, o_price ord, o_stop_price ord, o_side ord)"

lemma okey_loc_of: "okey x = okey y \<Longrightarrow> loc_of s x = loc_of s y \<and> o_id x = o_id y"
  by (auto simp: okey_def loc_of_def)

lemma okey_core: "core x = core y \<Longrightarrow> okey x = okey y"
proof -
  assume "core x = core y"
  then have "okey (core x) = okey (core y)" by simp
  then show ?thesis by (simp add: okey_def)
qed

lemma okey_core_option: "map_option core a = map_option core a' \<Longrightarrow> map_option okey a = map_option okey a'"
  by (cases a; cases a') (auto dest: okey_core)

lemma index_rep_iff:
  "index_rep c idx \<longleftrightarrow>
     (\<forall>i loc. idx i = Some loc \<longleftrightarrow>
        (\<exists>s k. map_option okey (c s) = Some k \<and> fst k = i \<and>
           loc = \<lparr>loc_price = (case k of (_, kd, p, sp, _) \<Rightarrow> if kd = Limit then p else sp),
                  loc_side = snd (snd (snd (snd k))), loc_slot = s\<rparr>))"
proof -
  have "(\<exists>s ord. c s = Some ord \<and> o_id ord = i \<and> loc = loc_of s ord) \<longleftrightarrow>
    (\<exists>s k. map_option okey (c s) = Some k \<and> fst k = i \<and>
           loc = \<lparr>loc_price = (case k of (_, kd, p, sp, _) \<Rightarrow> if kd = Limit then p else sp),
                  loc_side = snd (snd (snd (snd k))), loc_slot = s\<rparr>)" for i loc
    by (fastforce simp: okey_def loc_of_def)
  then show ?thesis unfolding index_rep_def by simp
qed

lemma index_rep_cong:
  "(\<And>x. map_option okey (c' x) = map_option okey (c x)) \<Longrightarrow> index_rep c' idx = index_rep c idx"
  unfolding index_rep_iff by simp

lemma index_rep_remove:
  assumes "index_rep c idx" and "c s = Some ord"
  shows "index_rep (c(s := None)) (idx(o_id ord := None))"
  unfolding index_rep_def
proof (intro allI)
  fix i loc
  show "(idx(o_id ord := None)) i = Some loc \<longleftrightarrow>
     (\<exists>s' ord'. (c(s := None)) s' = Some ord' \<and> o_id ord' = i \<and> loc = loc_of s' ord')"
  proof (cases "i = o_id ord")
    case True
    then show ?thesis using index_rep_id_inj [OF assms(1) assms(2)] by auto
  next
    case False
    have "(\<exists>s' ord'. (c(s := None)) s' = Some ord' \<and> o_id ord' = i \<and> loc = loc_of s' ord') \<longleftrightarrow>
        (\<exists>s' ord'. c s' = Some ord' \<and> o_id ord' = i \<and> loc = loc_of s' ord')"
      by (intro iff_exI) (use False assms(2) in auto)
    then show ?thesis using False assms(1) by (simp add: index_rep_def)
  qed
qed

lemma index_rep_add:
  assumes "index_rep c idx" and "c s = None" and "idx (o_id ord) = None"
  shows "index_rep (c(s \<mapsto> ord)) (idx(o_id ord \<mapsto> loc_of s ord))"
  unfolding index_rep_def
proof (intro allI)
  fix i loc
  have n: "c s' = Some ord' \<Longrightarrow> o_id ord' \<noteq> o_id ord" for s' ord'
    using index_rep_None [OF assms(1)] assms(3) by blast
  show "(idx(o_id ord \<mapsto> loc_of s ord)) i = Some loc \<longleftrightarrow>
     (\<exists>s' ord'. (c(s \<mapsto> ord)) s' = Some ord' \<and> o_id ord' = i \<and> loc = loc_of s' ord')"
  proof (cases "i = o_id ord")
    case True
    then show ?thesis using n by auto
  next
    case False
    have "(\<exists>s' ord'. (c(s \<mapsto> ord)) s' = Some ord' \<and> o_id ord' = i \<and> loc = loc_of s' ord') \<longleftrightarrow>
        (\<exists>s' ord'. c s' = Some ord' \<and> o_id ord' = i \<and> loc = loc_of s' ord')"
      by (intro iff_exI) (use False assms(2) in auto)
    then show ?thesis using False assms(1) by (simp add: index_rep_def)
  qed
qed

section \<open>The whole book\<close>

definition book_rep :: "contents \<Rightarrow> order_book \<Rightarrow> spec_book \<Rightarrow> bool" where
  "book_rep c b sp \<longleftrightarrow>
     (\<forall>sd. queue_rep c sd (side_levels b sd) (queue sp sd)) \<and>
     (\<forall>sd. stop_rep c sd (stop_levels b sd) (stops sp sd)) \<and>
     index_rep c (id_index b) \<and>
     (\<forall>s ord. c s = Some ord \<longrightarrow> o_kind ord = Limit \<or> o_kind ord = StopMarket) \<and>
     last_trade b = sp_last sp"

definition no_stale :: "order_book \<Rightarrow> bool" where
  "no_stale b \<longleftrightarrow> (\<forall>sd. set (stop_slots (stop_levels b sd)) \<subseteq> dom (cells (arena b)))"

definition rep :: "(slab_op list \<Rightarrow> nat) \<Rightarrow> order_book \<Rightarrow> spec_book \<Rightarrow> bool" where
  "rep vk b sp \<longleftrightarrow> slab_ok vk (arena b) \<and> book_rep (cells (arena b)) b sp"

definition in_match ::
  "(slab_op list \<Rightarrow> nat) \<Rightarrow> order_book \<Rightarrow> nat \<Rightarrow> order \<Rightarrow> spec_book \<Rightarrow> bool" where
  "in_match vk b ag agg sp \<longleftrightarrow> slab_ok vk (arena b) \<and> cells (arena b) ag = Some agg \<and>
     book_rep ((cells (arena b))(ag := None)) b sp"

text \<open>Changes of the arena that stay on one side's resting orders.\<close>

definition on_side :: "side \<Rightarrow> contents \<Rightarrow> contents \<Rightarrow> bool" where
  "on_side sd c c' \<longleftrightarrow> (\<forall>x. c' x \<noteq> c x \<longrightarrow>
     (c x = None \<or> rests c sd x) \<and> (c' x = None \<or> rests c' sd x))"

lemma rests_side: "rests c sd s \<Longrightarrow> rests c sd' s \<Longrightarrow> sd' = sd"
  by (auto simp: rests_def)

lemma rests_not_None: "rests c sd s \<Longrightarrow> c s \<noteq> None"
  by (auto simp: rests_def)

lemma neq_side: "sd' \<noteq> sd \<Longrightarrow> sd' = opposite sd"
  by (cases sd; cases sd') auto

lemma on_side_queue:
  assumes os: "on_side sd c c'" and q: "queue_rep c (opposite sd) ls q"
  shows "queue_rep c' (opposite sd) ls q"
  using q
proof (rule queue_rep_frame)
  fix s assume r: "rests c (opposite sd) s \<or> rests c' (opposite sd) s"
  show "c s = c' s"
  proof (rule ccontr)
    assume "c s \<noteq> c' s"
    then have "c s = None \<or> rests c sd s" "c' s = None \<or> rests c' sd s"
      using os by (auto simp: on_side_def)
    then show False using r rests_side rests_not_None opposite_neq by metis
  qed
qed

lemma on_side_stops:
  assumes os: "on_side sd c c'" and sr: "stop_rep c sd' ls q"
    and new: "\<And>x. x \<in> set (stop_slots ls) \<Longrightarrow> c x = None \<Longrightarrow> c' x = None"
  shows "stop_rep c' sd' ls q"
proof -
  have ok: "stop_ok c sd' p s" if "(p, ss) \<in> set ls" "s \<in> set ss" for p ss s
    using sr that by (auto simp: stop_rep_def)
  have eq: "c' s = c s" if lst: "s \<in> set (stop_slots ls)" for s
  proof (rule ccontr)
    assume ne: "c' s \<noteq> c s"
    obtain p ss where "(p, ss) \<in> set ls" "s \<in> set ss"
      using lst by (auto simp: stop_slots_def)
    then have "stop_ok c sd' p s" by (rule ok)
    then show False
      using os ne new [OF lst] by (auto simp: on_side_def rests_def stop_ok_def)
  qed
  have "stop_ok c' sd' p s" if "(p, ss) \<in> set ls" "s \<in> set ss" for p ss s
  proof -
    have "s \<in> set (stop_slots ls)" using that by (force simp: stop_slots_def)
    then show ?thesis using ok [OF that] eq by (simp add: stop_ok_def)
  qed
  moreover have "s \<in> set (stop_slots ls)" if "pends c' sd' s" for s
  proof (cases "c' s = c s")
    case True
    then show ?thesis using that sr by (auto simp: stop_rep_def pends_def)
  next
    case False
    then show ?thesis using that os by (auto simp: on_side_def rests_def pends_def)
  qed
  moreover have "filter (alive c') (stop_slots ls) = filter (alive c) (stop_slots ls)"
    using eq by (intro filter_cong) (auto simp: alive_def)
  moreover have "map (slot_order c') (filter (alive c) (stop_slots ls)) =
      map (slot_order c) (filter (alive c) (stop_slots ls))"
    using eq by (intro map_cong) (auto simp: slot_order_def)
  ultimately show ?thesis using sr by (auto simp: stop_rep_def simp del: map_eq_conv)
qed

lemma book_repI:
  "(\<And>sd. queue_rep c sd (side_levels b sd) (queue sp sd)) \<Longrightarrow>
   (\<And>sd. stop_rep c sd (stop_levels b sd) (stops sp sd)) \<Longrightarrow>
   index_rep c (id_index b) \<Longrightarrow>
   (\<And>s ord. c s = Some ord \<Longrightarrow> o_kind ord = Limit \<or> o_kind ord = StopMarket) \<Longrightarrow>
   last_trade b = sp_last sp \<Longrightarrow> book_rep c b sp"
  by (simp add: book_rep_def)

lemma on_side_book:
  assumes br: "book_rep c b sp" and os: "on_side sd c c'"
    and new: "\<And>x sd'. x \<in> set (stop_slots (stop_levels b sd')) \<Longrightarrow> c x = None \<Longrightarrow> c' x = None"
    and q: "queue_rep c' sd (side_levels b' sd) q'"
    and idx: "index_rep c' (id_index b')" and last: "last_trade b' = sp_last sp'"
    and frame: "side_levels b' (opposite sd) = side_levels b (opposite sd)"
      "\<And>sd'. stop_levels b' sd' = stop_levels b sd'"
    and sp': "queue sp' = (queue sp)(sd := q')" "stops sp' = stops sp"
  shows "book_rep c' b' sp'"
proof (rule book_repI)
  fix sd'
  have "queue_rep c' (opposite sd) (side_levels b (opposite sd)) (queue sp (opposite sd))"
    using os by (rule on_side_queue) (use br in \<open>simp add: book_rep_def\<close>)
  note opp = this
  show "queue_rep c' sd' (side_levels b' sd') (queue sp' sd')"
  proof (cases "sd' = sd")
    case True
    then show ?thesis using q sp'(1) by simp
  next
    case False
    then have "sd' = opposite sd" by (rule neq_side)
    then show ?thesis using opp frame(1) sp'(1) by simp
  qed
  show "stop_rep c' sd' (stop_levels b' sd') (stops sp' sd')"
    unfolding frame sp' by (rule on_side_stops [OF os _ new]) (use br in \<open>auto simp: book_rep_def\<close>)
  show "o_kind ord = Limit \<or> o_kind ord = StopMarket" if "c' s = Some ord" for s ord
  proof (cases "c' s = c s")
    case True
    then show ?thesis using that br by (auto simp: book_rep_def)
  next
    case False
    then have "c' s = None \<or> rests c' sd s" using os unfolding on_side_def by blast
    then show ?thesis using that by (auto simp: rests_def)
  qed
qed (use idx last in auto)

end
