(* ===== verification/Book_Refine.thy ===== *)
theory Book_Refine
  imports Book_Rep
begin

text \<open>
  The book operations refine the queue operations: evaluation of each operation on a
  represented book (it does not panic, and the new arena and levels are these), and the
  representation after it.
\<close>

section \<open>Evaluating the list surgery\<close>

lemma arena_get_Some [simp]: "cells (arena b) s = Some ord \<Longrightarrow> arena_get b s = Inr ord"
  by (simp add: arena_get_def)

lemma arena_modify_Some [simp]:
  "cells (arena b) s = Some ord \<Longrightarrow>
     arena_modify s f b = Inr (b\<lparr>arena := (arena b)\<lparr>cells := (cells (arena b))(s \<mapsto> f ord)\<rparr>\<rparr>)"
  by (simp add: arena_modify_def)

definition modified_opt :: "nat option \<Rightarrow> (order \<Rightarrow> order) \<Rightarrow> contents \<Rightarrow> contents" where
  "modified_opt os f c = (case os of None \<Rightarrow> c | Some s \<Rightarrow> c(s := map_option f (c s)))"

lemma arena_modify_opt_eval:
  "(\<And>s. os = Some s \<Longrightarrow> cells (arena b) s \<noteq> None) \<Longrightarrow>
     arena_modify_opt os f b =
       Inr (b\<lparr>arena := (arena b)\<lparr>cells := modified_opt os f (cells (arena b))\<rparr>\<rparr>)"
  by (cases os) (auto simp: arena_modify_opt_def modified_opt_def)

lemma unlink_modified:
  "unlink c p n = modified_opt n (\<lambda>r. r\<lparr>o_prev := p\<rparr>) (modified_opt p (\<lambda>r. r\<lparr>o_next := n\<rparr>) c)"
  by (auto simp: unlink_def modified_opt_def Let_def split: option.splits)

lemma modified_opt_None_iff [simp]: "modified_opt os f c x = None \<longleftrightarrow> c x = None"
  by (auto simp: modified_opt_def split: option.splits)

lemma modified_opt_dom [simp]: "dom (modified_opt os f c) = dom c"
  by (auto simp: dom_def)

lemma modified_opt_upd:
  "os \<noteq> Some s \<Longrightarrow> modified_opt os f (c(s := x)) = (modified_opt os f c)(s := x)"
  by (auto simp: modified_opt_def fun_upd_twist split: option.splits)

lemma put_level_arena [simp]: "put_level sd p l (b\<lparr>arena := a\<rparr>) = (put_level sd p l b)\<lparr>arena := a\<rparr>"
  by (cases sd) (simp_all add: put_level_def)

lemma stop_levels_frame [simp]:
  "stop_levels (b\<lparr>arena := a\<rparr>) sd = stop_levels b sd"
  "stop_levels (b\<lparr>id_index := i\<rparr>) sd = stop_levels b sd"
  "stop_levels (b\<lparr>last_trade := t\<rparr>) sd = stop_levels b sd"
  "stop_levels (put_level sd' p l b) sd = stop_levels b sd"
  "stop_levels (drop_level sd' p b) sd = stop_levels b sd"
  by (simp_all add: stop_levels_def put_level_def drop_level_def split: side.splits)

lemma insert_dom_id: "c s = Some x \<Longrightarrow> insert s (dom c) = dom c"
  by auto

lemma slab_ok_cells:
  "slab_ok vk sl \<Longrightarrow> dom c = dom (cells sl) \<Longrightarrow> slab_ok vk (sl\<lparr>cells := c\<rparr>)"
  by (simp add: slab_ok_def)

lemma get_level_frame [simp]:
  "get_level (b\<lparr>arena := a\<rparr>) sd p = get_level b sd p"
  "get_level (b\<lparr>id_index := i\<rparr>) sd p = get_level b sd p"
  "get_level (b\<lparr>last_trade := t\<rparr>) sd p = get_level b sd p"
  by (simp_all add: get_level_side)

lemma map_of_lv_put: "map_of (lv_put sd p l ls) p = Some l"
  by (induction sd p l ls rule: lv_put.induct) auto

lemma get_level_put [simp]: "get_level (put_level sd p l b) sd p = Some l"
  by (simp add: get_level_side side_simps map_of_lv_put)

lemma lv_drop_put: "lv_sorted sd ls \<Longrightarrow> lv_drop p (lv_put sd p l ls) = lv_drop p ls"
proof (induction sd p l ls rule: lv_put.induct)
  case (2 sd p l p' l' ls)
  have "p = p' \<Longrightarrow> filter (\<lambda>pl. fst pl \<noteq> p) ls = ls"
    using 2 by (auto simp: lv_sorted_Cons filter_id_conv)
  then show ?case using 2 by (auto simp: lv_drop_def lv_sorted_Cons)
qed (simp add: lv_drop_def)

lemma lv_drop_head: "lv_sorted sd ((p, l) # ls) \<Longrightarrow> lv_drop p ((p, l) # ls) = ls"
  by (auto simp: lv_drop_def lv_sorted_Cons filter_id_conv)

lemma queue_rep_sorted: "queue_rep c sd ls q \<Longrightarrow> lv_sorted sd ls"
  by (simp add: queue_rep_def)

section \<open>insert_resting\<close>

text \<open>
  Slot \<open>s\<close> sits in the arena, unknown to queues and index except through the location just
  inserted; afterwards it is queued behind its equals.
\<close>

lemma insert_resting_refine:
  assumes ok: "slab_ok vk (arena b)" and s: "cells (arena b) s = Some ord"
    and br: "book_rep ((cells (arena b))(s := None)) (b\<lparr>id_index := idx\<rparr>) sp"
    and idx: "idx (o_id ord) = None" "id_index b = idx(o_id ord \<mapsto> loc_of s ord)"
    and ord: "o_kind ord = Limit" "o_side ord = sd" "o_remaining ord \<noteq> 0"
    and room: "nsum o_remaining (queue sp sd) + unat (o_remaining ord) < 2 ^ 64"
    and ns: "\<And>sd'. s \<notin> set (stop_slots (stop_levels b sd'))"
  obtains b' where "insert_resting s b = Inr b'"
    "rep vk b' (sp\<lparr>queue := (queue sp)(sd := enqueue sd (core ord) (queue sp sd))\<rparr>)"
    "\<And>sd'. stop_levels b' sd' = stop_levels b sd'" "dom (cells (arena b')) = dom (cells (arena b))"
proof -
  define c where "c = (cells (arena b))(s := None)"
  define lvl where "lvl = (case get_level b sd (o_price ord) of None \<Rightarrow> level_new | Some l \<Rightarrow> l)"
  let ?p = "o_price ord" and ?ls = "side_levels b sd"
  let ?c' = "push_cells c s ord (tail lvl)"
  have qr: "queue_rep c sd ?ls (queue sp sd)" using br by (simp add: book_rep_def c_def)
  have lvl': "lvl = (case map_of ?ls ?p of None \<Rightarrow> level_new | Some l \<Rightarrow> l)"
    by (simp add: lvl_def get_level_side)
  have cs: "c s = None" by (simp add: c_def)
  have tl: "c u \<noteq> None \<and> rests c sd u" if "tail lvl = Some u" for u
  proof -
    obtain lv xs ts ys where f: "focus c sd ?p ?ls lv xs ts ys"
      using qr by (rule queue_rep_focus)
    then have "level_rep c sd (?p, lvl) ts" and cov: "\<And>x. x \<in> set (xs @ ts @ ys) \<longleftrightarrow> rests c sd x"
      using lvl' by (auto simp: focus_def)
    then have "u \<in> set ts" using that by (auto simp: level_rep_def dest: seg_last_in)
    then show ?thesis using cov [of u] by (auto simp: rests_def)
  qed
  define b' where "b' = (put_level sd ?p (push_back s (o_remaining ord) lvl) b)
    \<lparr>arena := (arena b)\<lparr>cells := modified_opt (tail lvl) (\<lambda>r. r\<lparr>o_next := Some s\<rparr>)
       ((cells (arena b))(s \<mapsto> ord\<lparr>o_prev := tail lvl, o_next := None\<rparr>))\<rparr>\<rparr>"
  have nn: "cells (arena b) u \<noteq> None" if "tail lvl = Some u" for u
    using tl [OF that] by (auto simp: c_def split: if_splits)
  have ev: "insert_resting s b = Inr b'"
    unfolding insert_resting_def b'_def
    using s ord by (simp add: Let_def lvl_def [symmetric]) (subst arena_modify_opt_eval, auto dest: nn)
  have cells': "cells (arena b') = ?c'"
    by (auto simp: b'_def push_cells_def c_def modified_opt_def Let_def split: option.splits)
  show ?thesis
  proof (rule that [OF ev])
    have q': "queue_rep ?c' sd (side_levels b' sd) (enqueue sd (core ord) (queue sp sd))"
      using queue_rep_push [OF qr cs ord room lvl'] by (simp add: b'_def side_simps)
    have os: "on_side sd c ?c'"
      using tl ord cs by (auto simp: on_side_def rests_push dest: push_cells_other
          intro: push_cells_other)
    have ix: "index_rep ?c' (id_index b')"
    proof -
      have "index_rep (c(s \<mapsto> ord)) (idx(o_id ord \<mapsto> loc_of s ord))"
        using br cs idx(1) by (intro index_rep_add) (auto simp: book_rep_def c_def)
      moreover have "map_option okey (?c' x) = map_option okey ((c(s \<mapsto> ord)) x)" for x
        by (rule okey_core_option) (simp add: push_cells_core)
      ultimately have "index_rep ?c' (idx(o_id ord \<mapsto> loc_of s ord))"
        using index_rep_cong [of ?c' "c(s \<mapsto> ord)"] by blast
      moreover have "id_index b' = idx(o_id ord \<mapsto> loc_of s ord)"
        by (simp add: b'_def idx(2))
      ultimately show ?thesis by simp
    qed
    have new: "x \<in> set (stop_slots (stop_levels (b\<lparr>id_index := idx\<rparr>) sd')) \<Longrightarrow> c x = None \<Longrightarrow> ?c' x = None"
      for x sd'
    proof -
      assume x: "x \<in> set (stop_slots (stop_levels (b\<lparr>id_index := idx\<rparr>) sd'))" "c x = None"
      then have "x \<noteq> s" using ns by auto
      then have "map_option core (?c' x) = None" using x(2) by (simp add: push_cells_core)
      then show "?c' x = None" by simp
    qed
    have "book_rep ?c' b' (sp\<lparr>queue := (queue sp)(sd := enqueue sd (core ord) (queue sp sd))\<rparr>)"
      by (rule on_side_book [OF br [folded c_def] os new q' ix])
        (use br in \<open>simp_all add: b'_def side_simps book_rep_def\<close>)
    moreover have "slab_ok vk (arena b')"
      unfolding b'_def using s insert_dom_id [of "cells (arena b)" s, OF s] by (simp add: slab_ok_cells [OF ok])
    ultimately show "rep vk b' (sp\<lparr>queue := (queue sp)(sd := enqueue sd (core ord) (queue sp sd))\<rparr>)"
      by (simp add: rep_def cells')
    show "stop_levels b' sd' = stop_levels b sd'" for sd' by (simp add: b'_def)
    show "dom (cells (arena b')) = dom (cells (arena b))"
      using insert_dom_id [of "cells (arena b)" s, OF s] by (simp add: b'_def)
  qed
qed

section \<open>Orders and ids\<close>

lemma queue_order_slot:
  assumes "queue_rep c sd ls q" and "x \<in> set q"
  shows "\<exists>s r. c s = Some r \<and> core r = x \<and> rests c sd s"
proof -
  from assms(1) obtain sss where cov: "\<And>s. s \<in> set (concat sss) \<longleftrightarrow> rests c sd s"
    and q: "q = map (slot_order c) (concat sss)" by (rule queue_repE) (rule that; assumption)
  from assms(2) obtain s where s: "s \<in> set (concat sss)" "x = slot_order c s" unfolding q by auto
  then have r: "rests c sd s" using cov by blast
  then obtain ord where "c s = Some ord" by (auto simp: rests_def)
  then show ?thesis using r s(2) by (auto simp: slot_order_def)
qed

lemma resting_slot_order:
  assumes "queue_rep c sd ls q" and "c s = Some r" and "rests c sd s"
  shows "core r \<in> set q"
proof -
  from assms(1) obtain sss where cov: "\<And>s. s \<in> set (concat sss) \<longleftrightarrow> rests c sd s"
    and q: "q = map (slot_order c) (concat sss)" by (rule queue_repE) (rule that; assumption)
  have "slot_order c s \<in> set q" using cov assms(3) unfolding q by simp
  then show ?thesis using assms(2) by (simp add: slot_order_def)
qed

lemma stop_slot_ok:
  assumes "stop_rep c sd ls q" and "s \<in> set (stop_slots ls)" and "c s = Some r"
  shows "o_kind r = StopMarket" "o_side r = sd" "o_remaining r \<noteq> 0" "core r = r" "slot_order c s = r"
    "\<exists>p ss. (p, ss) \<in> set ls \<and> s \<in> set ss \<and> o_stop_price r = p"
proof -
  from assms(2) obtain p ss where ps: "(p, ss) \<in> set ls" "s \<in> set ss" by (auto simp: stop_slots_def)
  then have "stop_ok c sd p s" using assms(1) by (auto simp: stop_rep_def)
  then show "o_kind r = StopMarket" "o_side r = sd" "o_remaining r \<noteq> 0" "core r = r"
    "slot_order c s = r" "\<exists>p ss. (p, ss) \<in> set ls \<and> s \<in> set ss \<and> o_stop_price r = p"
    using assms(3) ps by (auto simp: stop_ok_def slot_order_def)
qed

lemma stop_order_slot:
  assumes sr: "stop_rep c sd ls q" and x: "x \<in> set q"
  shows "\<exists>s. c s = Some x \<and> pends c sd s \<and> core x = x"
proof -
  from sr x obtain s where s: "s \<in> set (stop_slots ls)" "alive c s" "x = slot_order c s"
    by (auto simp: stop_rep_def)
  then obtain r where r: "c s = Some r" by (auto simp: alive_def)
  from stop_slot_ok [OF sr s(1) r] r s(3) show ?thesis by (auto simp: pends_def)
qed

lemma pending_slot_order:
  assumes sr: "stop_rep c sd ls q" and s: "c s = Some r" and p: "pends c sd s"
  shows "r \<in> set q" "core r = r"
proof -
  have l: "s \<in> set (stop_slots ls)" using sr p by (auto simp: stop_rep_def)
  then have "slot_order c s \<in> set (map (slot_order c) (filter (alive c) (stop_slots ls)))"
    using s by (auto simp: alive_def)
  then show "r \<in> set q" "core r = r" using stop_slot_ok [OF sr l s] sr by (simp_all add: stop_rep_def)
qed

text \<open>The orders of the specification book are the orders of the arena.\<close>

lemma book_orders_arena:
  assumes br: "book_rep c b sp"
  shows "x \<in> set (book_orders sp) \<longleftrightarrow> (\<exists>s r. c s = Some r \<and> core r = x)"
proof
  have q: "queue_rep c sd (side_levels b sd) (queue sp sd)"
    and st: "stop_rep c sd (stop_levels b sd) (stops sp sd)" for sd
    using br by (simp_all add: book_rep_def)
  show "\<exists>s r. c s = Some r \<and> core r = x" if x: "x \<in> set (book_orders sp)"
  proof -
    obtain sd where "x \<in> set (queue sp sd) \<or> x \<in> set (stops sp sd)"
      using x by (auto simp: book_orders_def)
    then show ?thesis using queue_order_slot [OF q, of x] stop_order_slot [OF st, of x] by blast
  qed
  assume "\<exists>s r. c s = Some r \<and> core r = x"
  then obtain s r where s: "c s = Some r" "core r = x" by blast
  then consider "rests c (o_side r) s" | "pends c (o_side r) s"
    using br by (auto simp: book_rep_def rests_def pends_def)
  then have "x \<in> set (queue sp (o_side r)) \<or> x \<in> set (stops sp (o_side r))"
  proof cases
    case 1
    then show ?thesis using resting_slot_order [OF q s(1)] s(2) by blast
  next
    case 2
    then show ?thesis using pending_slot_order [OF st s(1)] s(2) by metis
  qed
  then show "x \<in> set (book_orders sp)"
    by (cases "o_side r") (auto simp: book_orders_def)
qed

lemma index_ids:
  assumes "book_rep c b sp"
  shows "id_index b i = None \<longleftrightarrow> i \<notin> o_id ` set (book_orders sp)"
proof -
  have ix: "index_rep c (id_index b)" using assms by (simp add: book_rep_def)
  have "i \<in> o_id ` set (book_orders sp) \<longleftrightarrow> (\<exists>s r. c s = Some r \<and> o_id r = i)"
  proof
    show "\<exists>s r. c s = Some r \<and> o_id r = i" if "i \<in> o_id ` set (book_orders sp)"
    proof -
      from that obtain x where x: "x \<in> set (book_orders sp)" "o_id x = i" by blast
      then obtain s r where "c s = Some r" "core r = x" using book_orders_arena [OF assms] by blast
      then have "c s = Some r" "o_id r = i" using x(2) by auto
      then show ?thesis by blast
    qed
    assume "\<exists>s r. c s = Some r \<and> o_id r = i"
    then obtain s r where "c s = Some r" "o_id r = i" by blast
    then have "core r \<in> set (book_orders sp)" "o_id (core r) = i"
      using book_orders_arena [OF assms] by auto
    then show "i \<in> o_id ` set (book_orders sp)" by blast
  qed
  then show ?thesis using index_rep_None [OF ix, of i] by blast
qed

lemma book_orders_id_inj:
  assumes br: "book_rep c b sp" and "x \<in> set (book_orders sp)" "y \<in> set (book_orders sp)"
    and id: "o_id x = o_id y"
  shows "x = y"
proof -
  obtain s r where x: "c s = Some r" "core r = x" using book_orders_arena [OF br] assms(2) by blast
  obtain s' r' where y: "c s' = Some r'" "core r' = y" using book_orders_arena [OF br] assms(3) by blast
  have "o_id r = o_id r'" using id x y by auto
  then have "s = s'" using br x(1) y(1) index_rep_id_inj by (metis book_rep_def)
  then show ?thesis using x y by simp
qed

lemma queue_distinct_ids:
  assumes br: "book_rep c b sp"
  shows "distinct (map o_id (queue sp sd))"
proof -
  have ix: "index_rep c (id_index b)" and q: "queue_rep c sd (side_levels b sd) (queue sp sd)"
    using br by (simp_all add: book_rep_def)
  from q obtain sss where dist: "distinct (concat sss)"
    and cov: "\<And>s. s \<in> set (concat sss) \<longleftrightarrow> rests c sd s"
    and eq: "queue sp sd = map (slot_order c) (concat sss)" by (rule queue_repE) (rule that; assumption)
  have "inj_on (\<lambda>s. o_id (slot_order c s)) (set (concat sss))"
  proof (rule inj_onI)
    fix s s' assume "s \<in> set (concat sss)" "s' \<in> set (concat sss)"
      and id: "o_id (slot_order c s) = o_id (slot_order c s')"
    then obtain r r' where "c s = Some r" "c s' = Some r'" using cov by (auto simp: rests_def)
    with id show "s = s'" using index_rep_id_inj [OF ix] by (auto simp: slot_order_def)
  qed
  then show ?thesis using dist eq by (simp add: distinct_map comp_def)
qed

lemma queue_in_orders: "x \<in> set (queue sp sd) \<Longrightarrow> x \<in> set (book_orders sp)"
  by (cases sd) (auto simp: book_orders_def)

lemma stops_in_orders: "x \<in> set (stops sp sd) \<Longrightarrow> x \<in> set (book_orders sp)"
  by (cases sd) (auto simp: book_orders_def)

lemma queue_order_fields:
  assumes "book_rep c b sp" and "x \<in> set (queue sp sd)"
  shows "o_kind x = Limit" "o_side x = sd" "o_remaining x \<noteq> 0"
  using assms queue_rep_orders [of c sd "side_levels b sd" "queue sp sd" x] by (auto simp: book_rep_def)

lemma stop_order_fields:
  assumes "book_rep c b sp" and "x \<in> set (stops sp sd)"
  shows "o_kind x = StopMarket" "o_side x = sd" "o_remaining x \<noteq> 0"
proof -
  have sr: "stop_rep c sd (stop_levels b sd) (stops sp sd)" using assms by (simp add: book_rep_def)
  obtain s where s: "c s = Some x" "pends c sd s" using stop_order_slot [OF sr assms(2)] by blast
  then have "s \<in> set (stop_slots (stop_levels b sd))" using sr by (auto simp: stop_rep_def)
  from stop_slot_ok [OF sr this s(1)]
  show "o_kind x = StopMarket" "o_side x = sd" "o_remaining x \<noteq> 0" by simp_all
qed

text \<open>Removing the order with a given id from the queues.\<close>

lemma filter_other_id:
  assumes "distinct (map o_id (q1 @ x # q2))"
  shows "filter (\<lambda>y. o_id y \<noteq> o_id x) (q1 @ x # q2) = q1 @ q2"
proof -
  have "filter (\<lambda>y. o_id y \<noteq> o_id x) q1 = q1" "filter (\<lambda>y. o_id y \<noteq> o_id x) q2 = q2"
    using assms by (auto simp: filter_id_conv) (metis image_eqI)+
  then show ?thesis by simp
qed

lemma spec_cancel_queue:
  assumes br: "book_rep c b sp" and q: "queue sp sd = q1 @ x # q2"
  shows "queue (spec_cancel sp (o_id x)) = (queue sp)(sd := q1 @ q2)"
proof (rule ext)
  fix sd'
  show "queue (spec_cancel sp (o_id x)) sd' = ((queue sp)(sd := q1 @ q2)) sd'"
  proof (cases "sd' = sd")
    case True
    then show ?thesis
      using filter_other_id [of q1 x q2] queue_distinct_ids [OF br, of sd] q by (simp add: spec_cancel_def)
  next
    case False
    have "o_id y \<noteq> o_id x" if y: "y \<in> set (queue sp sd')" for y
    proof
      assume "o_id y = o_id x"
      moreover have x: "x \<in> set (queue sp sd)" using q by simp
      ultimately have "y = x" using y br queue_in_orders by (blast intro: book_orders_id_inj)
      then show False using queue_order_fields(2) [OF br y] queue_order_fields(2) [OF br x] False by simp
    qed
    then have "filter (\<lambda>y. o_id y \<noteq> o_id x) (queue sp sd') = queue sp sd'"
      by (simp add: filter_id_conv)
    then show ?thesis using False by (simp add: spec_cancel_def)
  qed
qed

section \<open>remove_slot\<close>

lemma remove_slot_eval:
  assumes s: "cells (arena b) s = Some ord" and lvl: "get_level b sd p = Some l"
    and nb: "\<And>v. o_prev ord = Some v \<or> o_next ord = Some v \<Longrightarrow> v \<noteq> s \<and> cells (arena b) v \<noteq> None"
  obtains l' where "unlinked_level s ord l l'"
    "rbind (remove_slot s sd p (o_remaining ord) b) (arena_remove s) =
       Inr ((if head l' = None then drop_level sd p b else put_level sd p l' b)
         \<lparr>arena := \<lparr>cells = unlink_cells (cells (arena b)) s ord, hist = Removed s # hist (arena b)\<rparr>\<rparr>)"
proof -
  define l' where "l' = level_remove (o_remaining ord)
    (let l1 = (if head l = Some s then l\<lparr>head := o_next ord\<rparr> else l)
     in if tail l1 = Some s then l1\<lparr>tail := o_prev ord\<rparr> else l1)"
  have l': "unlinked_level s ord l l'"
    by (simp add: l'_def unlinked_level_def Let_def)
  let ?c = "unlink (cells (arena b)) (o_prev ord) (o_next ord)"
  have cs: "\<exists>r. ?c s = Some r" using s by (metis not_None_eq unlink_None_iff)
  have "remove_slot s sd p (o_remaining ord) b =
      Inr ((if head l' = None then drop_level sd p b else put_level sd p l' b)
        \<lparr>arena := (arena b)\<lparr>cells := ?c\<rparr>\<rparr>)"
    unfolding remove_slot_def
    using s lvl nb
    by (simp add: arena_modify_opt_eval unlink_modified Let_def l'_def level_is_empty_def)
      (auto simp: put_level_def drop_level_def split: side.splits)
  then show ?thesis
    using that [OF l'] cs
    by (auto simp: arena_remove_def unlink_cells_def)
qed

lemma on_side_unlink:
  assumes "c s = Some ord" and "rests c sd s"
    and "\<And>v. o_prev ord = Some v \<or> o_next ord = Some v \<Longrightarrow> v \<noteq> s \<and> rests c sd v"
  shows "on_side sd c (unlink_cells c s ord)"
  unfolding on_side_def
proof (intro allI impI)
  fix x assume ne: "unlink_cells c s ord x \<noteq> c x"
  have "rests c sd x"
  proof (cases "x = s")
    case False
    then have "unlink c (o_prev ord) (o_next ord) x \<noteq> c x" using ne by (simp add: unlink_cells_def)
    then show ?thesis using unlink_other assms(3) by blast
  qed (simp add: assms)
  moreover have "unlink_cells c s ord x = None \<or> rests (unlink_cells c s ord) sd x"
  proof (cases "x = s")
    case True
    then show ?thesis by (simp add: unlink_cells_def)
  next
    case False
    then show ?thesis using \<open>rests c sd x\<close> by (simp add: rests_unlink)
  qed
  ultimately show "(c x = None \<or> rests c sd x) \<and>
      (unlink_cells c s ord x = None \<or> rests (unlink_cells c s ord) sd x)"
    by blast
qed

lemma index_rep_unlink:
  assumes "index_rep c idx" and "c s = Some ord"
  shows "index_rep (unlink_cells c s ord) (idx(o_id ord := None))"
proof -
  have "map_option okey (unlink_cells c s ord x) = map_option okey ((c(s := None)) x)" for x
    by (rule okey_core_option) (simp add: unlink_cells_core)
  then show ?thesis
    using index_rep_cong [of "unlink_cells c s ord" "c(s := None)"] index_rep_remove [OF assms] by blast
qed

lemma unlink_cells_dom: "dom (unlink_cells c s ord) = dom c - {s}"
proof -
  have "unlink_cells c s ord x = None \<longleftrightarrow> x = s \<or> c x = None" for x
    by (simp add: unlink_cells_def)
  then show ?thesis by (simp add: set_eq_iff domIff del: not_None_eq) blast
qed

lemma slab_ok_unlink:
  assumes "slab_ok vk sl" and "cells sl s = Some ord"
  shows "slab_ok vk \<lparr>cells = unlink_cells (cells sl) s ord, hist = Removed s # hist sl\<rparr>"
  using slab_ok_remove [OF assms] by (simp add: slab_ok_def unlink_cells_dom)

text \<open>
  Taking a resting order off the book, as cancel and replace do once its index entry is
  gone: nothing panics, and the order leaves its queue.
\<close>

lemma unlink_refine:
  assumes rp: "rep vk b sp" and s: "cells (arena b) s = Some ord"
    and ord: "o_kind ord = Limit" "o_side ord = sd"
  obtains b' where
    "rbind (remove_slot s sd (o_price ord) (o_remaining ord) (index_remove (o_id ord) b)) (arena_remove s) = Inr b'"
    "rep vk b' (spec_cancel sp (o_id ord))" "\<And>sd'. stop_levels b' sd' = stop_levels b sd'"
    "dom (cells (arena b')) = dom (cells (arena b)) - {s}"
proof -
  let ?c = "cells (arena b)" and ?p = "o_price ord" and ?b = "index_remove (o_id ord) b"
  have ok: "slab_ok vk (arena b)" and br: "book_rep ?c b sp" using rp by (simp_all add: rep_def)
  have qr: "queue_rep ?c sd (side_levels b sd) (queue sp sd)" using br by (simp add: book_rep_def)
  obtain l q1 q2 where l: "map_of (side_levels b sd) ?p = Some l" and q: "queue sp sd = q1 @ core ord # q2"
    and nb: "\<And>v. o_prev ord = Some v \<or> o_next ord = Some v \<Longrightarrow> v \<noteq> s \<and> rests ?c sd v"
    and un: "\<And>l'. unlinked_level s ord l l' \<Longrightarrow>
       queue_rep (unlink_cells ?c s ord) sd
         (if head l' = None then lv_drop ?p (side_levels b sd) else lv_put sd ?p l' (side_levels b sd)) (q1 @ q2)"
    by (rule queue_rep_unlink [OF qr s ord]) (rule that; assumption)
  have nb': "v \<noteq> s \<and> cells (arena ?b) v \<noteq> None" if "o_prev ord = Some v \<or> o_next ord = Some v" for v
    using nb [OF that] by (auto simp: rests_def index_remove_def)
  obtain l' where l': "unlinked_level s ord l l'" and ev:
    "rbind (remove_slot s sd ?p (o_remaining ord) ?b) (arena_remove s) =
       Inr ((if head l' = None then drop_level sd ?p ?b else put_level sd ?p l' ?b)
         \<lparr>arena := \<lparr>cells = unlink_cells (cells (arena ?b)) s ord, hist = Removed s # hist (arena ?b)\<rparr>\<rparr>)"
    by (rule remove_slot_eval [of ?b s ord sd ?p l]) (use s l nb' in \<open>simp_all add: index_remove_def get_level_side\<close>)
  define b' where "b' = (if head l' = None then drop_level sd ?p ?b else put_level sd ?p l' ?b)
         \<lparr>arena := \<lparr>cells = unlink_cells ?c s ord, hist = Removed s # hist (arena b)\<rparr>\<rparr>"
  have r: "rests ?c sd s" using s ord by (simp add: rests_def)
  show ?thesis
  proof (rule that)
    show "rbind (remove_slot s sd ?p (o_remaining ord) ?b) (arena_remove s) = Inr b'"
      unfolding ev b'_def by (simp add: index_remove_def)
    have "queue (spec_cancel sp (o_id ord)) = (queue sp)(sd := q1 @ q2)"
      using spec_cancel_queue [OF br q] by simp
    moreover have "queue_rep (unlink_cells ?c s ord) sd (side_levels b' sd) (q1 @ q2)"
      using un [OF l']
      by (simp add: b'_def side_simps index_remove_def split: if_splits del: not_None_eq)
    moreover have "index_rep ?c (id_index b)" using br by (simp add: book_rep_def)
    then have "index_rep (unlink_cells ?c s ord) (id_index b')"
      using s index_rep_unlink by (simp add: b'_def index_remove_def)
    ultimately have "book_rep (unlink_cells ?c s ord) b' (spec_cancel sp (o_id ord))"
      by (intro on_side_book [OF br on_side_unlink [OF s r nb]])
        (use br in \<open>simp_all add: b'_def side_simps index_remove_def spec_cancel_def unlink_cells_def book_rep_def\<close>)
    then show "rep vk b' (spec_cancel sp (o_id ord))"
      using slab_ok_unlink [OF ok s] by (simp add: rep_def b'_def)
    show "stop_levels b' sd' = stop_levels b sd'" for sd' by (simp add: b'_def index_remove_def)
    show "dom (cells (arena b')) = dom ?c - {s}" by (simp add: b'_def unlink_cells_dom)
  qed
qed

end
