(* ===== verification/Match_Refine.thy ===== *)
theory Match_Refine
  imports Book_Refine
begin

text \<open>
  The matching loop refines \<open>fills\<close>: one iteration takes the best order of the opposite
  queue off it or, when the aggressor is used up first, leaves it at the head with less
  remaining; a bound above the queue's length is enough for the loop.
\<close>

section \<open>Popping the head of a level\<close>

definition popped_level :: "order \<Rightarrow> price_level \<Rightarrow> price_level" where
  "popped_level ord l = l\<lparr>total_qty := sat_sub (total_qty l) (o_remaining ord), head := o_next ord,
     tail := (if o_next ord = None then None else tail l)\<rparr>"

definition popped_book :: "side \<Rightarrow> price \<Rightarrow> price_level \<Rightarrow> order \<Rightarrow> order_book \<Rightarrow> order_book" where
  "popped_book sd p l ord b = (put_level sd p (popped_level ord l) b)
     \<lparr>arena := (arena b)\<lparr>cells := modified_opt (o_next ord) (\<lambda>r. r\<lparr>o_prev := None\<rparr>) (cells (arena b))\<rparr>\<rparr>"

lemma pop_head_eval:
  assumes lvl: "get_level b sd p = Some l" and hd: "head l = Some s"
    and s: "cells (arena b) s = Some ord"
    and nb: "\<And>v. o_next ord = Some v \<Longrightarrow> cells (arena b) v \<noteq> None"
  shows "pop_head sd p b = Inr (Some s, popped_book sd p l ord b)"
  unfolding pop_head_def using lvl hd s nb
  by (simp add: pop_front_def Let_def arena_modify_opt_eval popped_book_def popped_level_def
      del: not_None_eq)

lemma pop_side:
  "(case sd of Buy \<Rightarrow> pop_ask_head p b | Sell \<Rightarrow> pop_bid_head p b) = pop_head (opposite sd) p b"
  by (cases sd) (simp_all add: pop_ask_head_def pop_bid_head_def)

lemma remove_empty_side:
  "(case sd of Buy \<Rightarrow> remove_empty_ask p b | Sell \<Rightarrow> remove_empty_bid p b) = remove_empty (opposite sd) p b"
  by (cases sd) (simp_all add: remove_empty_ask_def remove_empty_bid_def)

section \<open>One fill\<close>

lemma fill_maker_full:
  assumes ag: "cells (arena b) ag = Some agg" and mk: "cells (arena b) mk = Some m" and ne: "ag \<noteq> mk"
    and le: "o_remaining m \<le> o_remaining agg"
    and lvl: "get_level b (opposite sd) p = Some l"
  shows "fill_maker sd ag mk p s t b out =
    Inr ((if head l = None then drop_level (opposite sd) p else id)
           (b\<lparr>last_trade := Some p, id_index := (id_index b)(o_id m := None),
              arena := \<lparr>cells = (cells (arena b))
                (ag \<mapsto> agg\<lparr>o_remaining := o_remaining agg - o_remaining m\<rparr>, mk := None),
               hist = Removed mk # hist (arena b)\<rparr>\<rparr>),
         o_remaining m,
         out @ [Trade s (o_id agg) (o_id m) p (o_remaining m) sd t, Filled (o_id m) s])"
  unfolding fill_maker_def remove_empty_side
  using assms
  by (simp add: min_absorb2 Let_def remove_empty_def level_is_empty_def fun_upd_twist del: not_None_eq)

lemma fill_maker_part:
  assumes ag: "cells (arena b) ag = Some agg" and mk: "cells (arena b) mk = Some m" and ne: "ag \<noteq> mk"
    and lt: "o_remaining agg < o_remaining m"
    and lvl: "get_level b (opposite sd) p = Some l"
    and nb: "\<And>v. head l = Some v \<Longrightarrow> v \<noteq> mk \<and> cells (arena b) v \<noteq> None"
    and l': "l' = l\<lparr>head := Some mk, tail := (if tail l = None then Some mk else tail l),
      total_qty := total_qty l + (o_remaining m - o_remaining agg), lv_count := lv_count l + 1\<rparr>"
  shows "fill_maker sd ag mk p s t b out =
    Inr ((put_level (opposite sd) p l' (b\<lparr>last_trade := Some p\<rparr>))
           \<lparr>arena := (arena b)\<lparr>cells := modified_opt (head l) (\<lambda>r. r\<lparr>o_prev := Some mk\<rparr>) ((cells (arena b))
                (ag \<mapsto> agg\<lparr>o_remaining := 0\<rparr>,
                 mk \<mapsto> m\<lparr>o_remaining := o_remaining m - o_remaining agg, o_prev := None, o_next := head l\<rparr>))\<rparr>\<rparr>,
         o_remaining agg,
         out @ [Trade s (o_id agg) (o_id m) p (o_remaining agg) sd t,
                PartiallyFilled (o_id m) (o_remaining agg) (o_remaining m - o_remaining agg) s])"
proof -
  have d: "o_remaining m - o_remaining agg \<noteq> 0" using lt by simp
  show ?thesis
    unfolding fill_maker_def
    using ag mk ne lt lvl d nb
    by (simp add: min_absorb1 Let_def reinsert_at_head_def arena_modify_opt_eval l'
        fun_upd_twist del: not_None_eq)
qed

section \<open>One iteration of the loop\<close>

definition same_stops :: "contents \<Rightarrow> contents \<Rightarrow> bool" where
  "same_stops c c' \<longleftrightarrow> dom c' \<subseteq> dom c \<and>
     (\<forall>s r. o_kind r = StopMarket \<longrightarrow> (c' s = Some r \<longleftrightarrow> c s = Some r))"

lemma same_stops_refl [simp]: "same_stops c c"
  by (simp add: same_stops_def)

lemma same_stops_trans: "same_stops c c' \<Longrightarrow> same_stops c' c'' \<Longrightarrow> same_stops c c''"
  unfolding same_stops_def by blast

lemma on_side_same_stops:
  assumes "on_side sd c c'" and "dom c' \<subseteq> dom c"
  shows "same_stops c c'"
  unfolding same_stops_def
proof (intro conjI assms(2) allI impI)
  fix s r assume "o_kind (r :: order) = StopMarket"
  then show "c' s = Some r \<longleftrightarrow> c s = Some r"
    using assms(1) by (cases "c' s = c s") (auto simp: on_side_def rests_def)
qed

text \<open>What the loop sees at the head of the opposite queue.\<close>

lemma match_head:
  assumes im: "in_match vk b ag agg sp" and q: "queue sp (opposite sd) = m # q'"
  obtains l ls mk ord where
    "side_levels b (opposite sd) = (o_price m, l) # ls" "m = core ord" "head l = Some mk"
    "cells (arena b) mk = Some ord" "mk \<noteq> ag" "o_kind ord = Limit" "o_side ord = opposite sd"
    "o_remaining ord \<noteq> 0" "o_prev ord = None" "o_next ord = None \<longleftrightarrow> tail l = Some mk"
    "\<And>v. o_next ord = Some v \<Longrightarrow> v \<noteq> mk \<and> v \<noteq> ag \<and> rests ((cells (arena b))(ag := None)) (opposite sd) v \<and>
       (\<exists>vo. cells (arena b) v = Some vo \<and> o_prev vo = Some mk)"
    "unat (o_remaining ord) \<le> unat (total_qty l)" "tail l \<noteq> None"
    "best_opposite b sd = Some (o_price m)"
    "pop_head (opposite sd) (o_price m) b =
       Inr (Some mk, popped_book (opposite sd) (o_price m) l ord b)"
    "cells (arena (popped_book (opposite sd) (o_price m) l ord b)) ag = Some agg"
    "cells (arena (popped_book (opposite sd) (o_price m) l ord b)) mk = Some ord"
proof -
  let ?c = "(cells (arena b))(ag := None)" and ?o = "opposite sd"
  have qr: "queue_rep ?c ?o (side_levels b ?o) (m # q')"
    using im q by (auto simp: in_match_def book_rep_def dest: spec [of _ ?o])
  then have "side_levels b ?o \<noteq> []" using queue_rep_Nil_iff by blast
  then obtain p l ls where lv: "side_levels b ?o = (p, l) # ls" by (metis list.exhaust surj_pair)
  obtain mk ord q'' where h: "head l = Some mk" "?c mk = Some ord" "m # q' = core ord # q''"
    "o_kind ord = Limit" "o_side ord = ?o" "o_price ord = p" "o_remaining ord \<noteq> 0" "o_prev ord = None"
    "o_next ord = None \<longleftrightarrow> tail l = Some mk"
    and nb: "\<And>v. o_next ord = Some v \<Longrightarrow> v \<noteq> mk \<and> rests ?c ?o v \<and> (\<exists>vo. ?c v = Some vo \<and> o_prev vo = Some mk)"
    and tq: "unat (o_remaining ord) \<le> unat (total_qty l)" and tn: "tail l \<noteq> None"
    by (rule queue_rep_head [OF qr [unfolded lv]]) (rule that; assumption)
  have ag: "cells (arena b) ag = Some agg" using im by (simp add: in_match_def)
  have mk: "mk \<noteq> ag" "cells (arena b) mk = Some ord" using h(2) by (auto split: if_splits)
  have p: "p = o_price m" "m = core ord" using h(3,6) by auto
  have nb': "v \<noteq> mk \<and> v \<noteq> ag \<and> rests ?c ?o v \<and> (\<exists>vo. cells (arena b) v = Some vo \<and> o_prev vo = Some mk)"
    if "o_next ord = Some v" for v
    using nb [OF that] by (auto split: if_splits)
  have pop: "pop_head ?o p b = Inr (Some mk, popped_book ?o p l ord b)"
    by (rule pop_head_eval [OF _ h(1) mk(2)]) (use lv nb' in \<open>auto simp: get_level_side\<close>)
  have bo: "best_opposite b sd = Some p" using lv by (simp add: best_opposite_side)
  have cs: "cells (arena (popped_book ?o p l ord b)) ag = Some agg"
    "cells (arena (popped_book ?o p l ord b)) mk = Some ord"
    using ag mk nb' by (auto simp: popped_book_def modified_opt_def split: option.splits)
  show ?thesis
    by (rule that [OF lv [unfolded p(1)] p(2) h(1) mk(2,1) h(4,5,7-9) nb' tq tn bo [unfolded p(1)]
      pop [unfolded p(1)] cs [unfolded p(1)]])
qed

text \<open>The maker is used up.\<close>

lemma unlink_popped:
  assumes "o_prev ord = None" and "o_next ord \<noteq> Some ag"
  shows "((modified_opt (o_next ord) (\<lambda>r. r\<lparr>o_prev := None\<rparr>) C)(ag \<mapsto> x, mk := None))(ag := None) =
    unlink_cells (C(ag := None)) mk ord"
  using assms by (simp add: unlink_cells_def unlink_modified modified_opt_upd)
    (simp add: modified_opt_def fun_eq_iff)

lemma match_step_full:
  assumes im: "in_match vk b ag agg sp" and q: "queue sp (opposite sd) = m # q'"
    and le: "o_remaining m \<le> o_remaining agg"
  obtains b1 mk b2 where
    "best_opposite b sd = Some (o_price m)" "pop_head (opposite sd) (o_price m) b = Inr (Some mk, b1)"
    "fill_maker sd ag mk (o_price m) s t b1 out =
       Inr (b2, o_remaining m, out @ fill_events s t (o_id agg) sd (m, o_remaining m))"
    "in_match vk b2 ag (agg\<lparr>o_remaining := o_remaining agg - o_remaining m\<rparr>)
       (sp\<lparr>queue := (queue sp)(opposite sd := q'), sp_last := Some (o_price m)\<rparr>)"
    "same_stops ((cells (arena b))(ag := None)) ((cells (arena b2))(ag := None))"
    "\<And>sd'. stop_levels b2 sd' = stop_levels b sd'"
proof -
  let ?o = "opposite sd" and ?p = "o_price m" and ?c = "(cells (arena b))(ag := None)"
  obtain l ls mk ord where lv: "side_levels b ?o = (?p, l) # ls" and m: "m = core ord" and hd: "head l = Some mk"
    and mk: "cells (arena b) mk = Some ord" "mk \<noteq> ag" and ord: "o_kind ord = Limit" "o_side ord = ?o"
    and pv: "o_prev ord = None" and nt: "o_next ord = None \<longleftrightarrow> tail l = Some mk"
    and nb: "\<And>v. o_next ord = Some v \<Longrightarrow> v \<noteq> mk \<and> v \<noteq> ag \<and> rests ?c ?o v \<and>
       (\<exists>vo. cells (arena b) v = Some vo \<and> o_prev vo = Some mk)"
    and bo: "best_opposite b sd = Some ?p"
    and pop: "pop_head ?o ?p b = Inr (Some mk, popped_book ?o ?p l ord b)"
    and cs: "cells (arena (popped_book ?o ?p l ord b)) ag = Some agg"
      "cells (arena (popped_book ?o ?p l ord b)) mk = Some ord"
    by (rule match_head [OF im q]) (rule that; assumption)
  define b1 where "b1 = popped_book ?o ?p l ord b"
  define b2 where "b2 = (if o_next ord = None then drop_level ?o ?p else id)
     (b1\<lparr>last_trade := Some ?p, id_index := (id_index b1)(o_id ord := None),
         arena := \<lparr>cells = (cells (arena b1))
           (ag \<mapsto> agg\<lparr>o_remaining := o_remaining agg - o_remaining ord\<rparr>, mk := None),
           hist = Removed mk # hist (arena b1)\<rparr>\<rparr>)"
  have br: "book_rep ?c b sp" and ok: "slab_ok vk (arena b)" using im by (simp_all add: in_match_def)
  have cmk: "?c mk = Some ord" using mk by simp
  have lb1: "get_level b1 ?o ?p = Some (popped_level ord l)" by (simp add: b1_def popped_book_def)
  have cells2: "(cells (arena b2))(ag := None) = unlink_cells ?c mk ord"
    using unlink_popped [of ord ag "cells (arena b)"] pv nb by (auto simp: b2_def b1_def popped_book_def)
  have un: "unlinked_level mk ord l (popped_level ord l)"
    using hd pv nt by (simp add: unlinked_level_def popped_level_def)
  have qr: "queue_rep ?c ?o (side_levels b ?o) (queue sp ?o)" using br by (simp add: book_rep_def)
  obtain l0 q1 q2 where l0: "map_of (side_levels b ?o) (o_price ord) = Some l0"
    and q12: "queue sp ?o = q1 @ core ord # q2"
    and q2: "\<And>l'. unlinked_level mk ord l0 l' \<Longrightarrow>
       queue_rep (unlink_cells ?c mk ord) ?o
         (if head l' = None then lv_drop (o_price ord) (side_levels b ?o)
          else lv_put ?o (o_price ord) l' (side_levels b ?o)) (q1 @ q2)"
    by (rule queue_rep_unlink [OF qr cmk ord]) (rule that; assumption)
  have "q1 = []"
    using queue_distinct_ids [OF br, of ?o] q q12 m by (cases q1) auto
  then have q2': "q' = q2" "l0 = l" using q q12 l0 lv m by simp_all
  have lv2: "side_levels b2 ?o = (if head (popped_level ord l) = None then lv_drop ?p (side_levels b ?o)
      else lv_put ?o ?p (popped_level ord l) (side_levels b ?o))"
    using queue_rep_sorted [OF qr]
    by (simp add: b2_def b1_def popped_book_def side_simps lv_drop_put popped_level_def)
  have q': "queue_rep (unlink_cells ?c mk ord) ?o (side_levels b2 ?o) q'"
    using q2 [unfolded q2', OF un] m \<open>q1 = []\<close> by (simp only: lv2 q2' append_Nil core_simps)
  have os: "on_side ?o ?c (unlink_cells ?c mk ord)"
    using nb pv cmk ord by (intro on_side_unlink) (auto simp: rests_def)
  have stl: "stop_levels b2 sd' = stop_levels b sd'" for sd'
    by (simp add: b2_def b1_def popped_book_def)
  show ?thesis
  proof (rule that [OF bo pop [folded b1_def]])
    show "fill_maker sd ag mk ?p s t b1 out =
       Inr (b2, o_remaining m, out @ fill_events s t (o_id agg) sd (m, o_remaining m))"
      using fill_maker_full [OF cs [folded b1_def] _ _ lb1] mk(2) le m
      by (simp add: b2_def fill_events_def popped_level_def del: not_None_eq)
    have "book_rep (unlink_cells ?c mk ord) b2 (sp\<lparr>queue := (queue sp)(?o := q'), sp_last := Some ?p\<rparr>)"
    proof (rule on_side_book [OF br os _ q'])
      show "index_rep (unlink_cells ?c mk ord) (id_index b2)"
        using index_rep_unlink [of ?c "id_index b" mk ord] br cmk
        by (simp add: b2_def b1_def popped_book_def book_rep_def)
    qed (simp_all add: b2_def b1_def popped_book_def side_simps stl unlink_cells_def)
    moreover have "slab_ok vk (arena b2)"
    proof -
      have "slab_ok vk \<lparr>cells = (cells (arena b))(mk := None), hist = Removed mk # hist (arena b)\<rparr>"
        using ok mk(1) by (rule slab_ok_remove)
      then show ?thesis
        using im by (auto simp: slab_ok_def b2_def b1_def popped_book_def in_match_def)
    qed
    ultimately show "in_match vk b2 ag (agg\<lparr>o_remaining := o_remaining agg - o_remaining m\<rparr>)
       (sp\<lparr>queue := (queue sp)(?o := q'), sp_last := Some ?p\<rparr>)"
      using mk(2) m by (simp add: in_match_def cells2) (simp add: b2_def)
    show "same_stops ?c ((cells (arena b2))(ag := None))"
      unfolding cells2 by (rule on_side_same_stops [OF os]) (auto simp: unlink_cells_dom)
    show "stop_levels b2 sd' = stop_levels b sd'" for sd' by (rule stl)
  qed
qed

text \<open>The aggressor is used up: the maker stays at the head with less remaining.\<close>

lemma upd_restore:
  assumes "w \<noteq> mk" and "w \<noteq> ag" and "mk \<noteq> ag" and "C w = Some vo" and "f (g vo) = vo"
  shows "(modified_opt (Some w) f ((modified_opt (Some w) g C)(ag \<mapsto> x, mk \<mapsto> y)))(ag := None) =
    (C(ag := None))(mk \<mapsto> y)"
  using assms by (simp add: modified_opt_def fun_eq_iff)

lemma reinsert_cells:
  assumes "mk \<noteq> ag" and "C mk = Some ord" and "o_prev ord = None"
    and "\<And>v. o_next ord = Some v \<Longrightarrow> v \<noteq> mk \<and> v \<noteq> ag \<and> (\<exists>vo. C v = Some vo \<and> o_prev vo = Some mk)"
  shows "(modified_opt (o_next ord) (\<lambda>r. r\<lparr>o_prev := Some mk\<rparr>)
      ((modified_opt (o_next ord) (\<lambda>r. r\<lparr>o_prev := None\<rparr>) C)
        (ag \<mapsto> x, mk \<mapsto> ord\<lparr>o_remaining := r, o_prev := None, o_next := o_next ord\<rparr>)))(ag := None) =
    (C(ag := None))(mk \<mapsto> ord\<lparr>o_remaining := r\<rparr>)"
proof -
  have ro: "ord\<lparr>o_remaining := r, o_prev := None, o_next := o_next ord\<rparr> = ord\<lparr>o_remaining := r\<rparr>"
    using assms(3) by (cases ord) simp
  show ?thesis
  proof (cases "o_next ord")
    case None
    then have "modified_opt (o_next ord) f c = c" for f c by (simp add: modified_opt_def)
    then show ?thesis using assms(1) by (simp add: ro fun_upd_twist)
  next
    case (Some w)
    from assms(4) [OF Some] obtain vo where w: "w \<noteq> mk" "w \<noteq> ag" "C w = Some vo" "o_prev vo = Some mk"
      by blast
    have vo: "vo\<lparr>o_prev := None\<rparr>\<lparr>o_prev := Some mk\<rparr> = vo" using w(4) by (cases vo) simp
    show ?thesis
      using upd_restore [where f = "\<lambda>r. r\<lparr>o_prev := Some mk\<rparr>" and g = "\<lambda>r. r\<lparr>o_prev := None\<rparr>"
        and C = C and w = w, OF w(1,2) assms(1) w(3) vo]
      by (simp only: Some [symmetric] ro)
  qed
qed

lemma match_step_part:
  assumes im: "in_match vk b ag agg sp" and q: "queue sp (opposite sd) = m # q'"
    and lt: "o_remaining agg < o_remaining m" and pos: "o_remaining agg \<noteq> 0"
  obtains b1 mk b2 where
    "best_opposite b sd = Some (o_price m)" "pop_head (opposite sd) (o_price m) b = Inr (Some mk, b1)"
    "fill_maker sd ag mk (o_price m) s t b1 out =
       Inr (b2, o_remaining agg, out @ fill_events s t (o_id agg) sd (m, o_remaining agg))"
    "in_match vk b2 ag (agg\<lparr>o_remaining := 0\<rparr>)
       (sp\<lparr>queue := (queue sp)(opposite sd := m\<lparr>o_remaining := o_remaining m - o_remaining agg\<rparr> # q'),
           sp_last := Some (o_price m)\<rparr>)"
    "same_stops ((cells (arena b))(ag := None)) ((cells (arena b2))(ag := None))"
    "\<And>sd'. stop_levels b2 sd' = stop_levels b sd'"
proof -
  let ?o = "opposite sd" and ?p = "o_price m" and ?c = "(cells (arena b))(ag := None)"
  let ?r = "o_remaining m - o_remaining agg"
  obtain l ls mk ord where lv: "side_levels b ?o = (?p, l) # ls" and m: "m = core ord" and hd: "head l = Some mk"
    and mk: "cells (arena b) mk = Some ord" "mk \<noteq> ag" and ord: "o_kind ord = Limit" "o_side ord = ?o"
    and pv: "o_prev ord = None" and nt: "o_next ord = None \<longleftrightarrow> tail l = Some mk"
    and nb: "\<And>v. o_next ord = Some v \<Longrightarrow> v \<noteq> mk \<and> v \<noteq> ag \<and> rests ?c ?o v \<and>
       (\<exists>vo. cells (arena b) v = Some vo \<and> o_prev vo = Some mk)"
    and tq: "unat (o_remaining ord) \<le> unat (total_qty l)" and tn: "tail l \<noteq> None"
    and bo: "best_opposite b sd = Some ?p"
    and pop: "pop_head ?o ?p b = Inr (Some mk, popped_book ?o ?p l ord b)"
    and cs: "cells (arena (popped_book ?o ?p l ord b)) ag = Some agg"
      "cells (arena (popped_book ?o ?p l ord b)) mk = Some ord"
    by (rule match_head [OF im q]) (rule that; assumption)
  define b1 where "b1 = popped_book ?o ?p l ord b"
  define l1 where "l1 = popped_level ord l"
  define l' where "l' = l1\<lparr>head := Some mk, tail := (if tail l1 = None then Some mk else tail l1),
      total_qty := total_qty l1 + (o_remaining ord - o_remaining agg), lv_count := lv_count l1 + 1\<rparr>"
  define b2 where "b2 = (put_level ?o ?p l' (b1\<lparr>last_trade := Some ?p\<rparr>))
     \<lparr>arena := (arena b1)\<lparr>cells := modified_opt (head l1) (\<lambda>r. r\<lparr>o_prev := Some mk\<rparr>) ((cells (arena b1))
        (ag \<mapsto> agg\<lparr>o_remaining := 0\<rparr>,
         mk \<mapsto> ord\<lparr>o_remaining := o_remaining ord - o_remaining agg, o_prev := None, o_next := head l1\<rparr>))\<rparr>\<rparr>"
  have br: "book_rep ?c b sp" and ok: "slab_ok vk (arena b)" using im by (simp_all add: in_match_def)
  have ag: "cells (arena b) ag = Some agg" using im by (simp add: in_match_def)
  have cmk: "?c mk = Some ord" using mk by simp
  have lb1: "get_level b1 ?o ?p = Some l1" by (simp add: b1_def l1_def popped_book_def)
  have h1: "head l1 = o_next ord" by (simp add: l1_def popped_level_def)
  let ?c2 = "?c(mk \<mapsto> ord\<lparr>o_remaining := ?r\<rparr>)"
  have cells2: "(cells (arena b2))(ag := None) = ?c2"
    using reinsert_cells [of mk ag "cells (arena b)" ord] mk pv nb m
    by (simp add: b2_def b1_def popped_book_def h1)
  have qr: "queue_rep ?c ?o ((?p, l) # ls) (core ord # q')"
    using br q m lv by (auto simp: book_rep_def dest!: spec [of _ ?o])
  have r: "?r \<noteq> 0" "unat ?r \<le> unat (o_remaining ord)" "o_remaining ord - ?r = o_remaining agg"
    using lt m by (auto simp: unat_sub)
  have tl: "tail l' = tail l" "head l' = Some mk"
    using nt tn by (auto simp: l'_def l1_def popped_level_def)
  have tq': "total_qty l' = total_qty l - (o_remaining ord - ?r)"
    using tq m lt by (simp add: l'_def l1_def popped_level_def sat_sub_def word_less_nat_alt)
  have lv2: "side_levels b2 ?o = (?p, l') # ls"
    by (simp add: b2_def b1_def popped_book_def side_simps lv)
  have q': "queue_rep ?c2 ?o (side_levels b2 ?o) (m\<lparr>o_remaining := ?r\<rparr> # q')"
    using queue_rep_fill_head [where c = ?c, OF qr hd cmk r(1,2) tl(2,1) tq'] lv2 m by simp
  have os: "on_side ?o ?c ?c2"
    using cmk ord by (auto simp: on_side_def rests_def)
  have stl: "stop_levels b2 sd' = stop_levels b sd'" for sd'
    by (simp add: b2_def b1_def popped_book_def)
  have lt': "o_remaining agg < o_remaining ord" using lt m by simp
  have nb1: "v \<noteq> mk \<and> cells (arena b1) v \<noteq> None" if "head l1 = Some v" for v
    using nb [of v] that by (auto simp: h1 b1_def popped_book_def)
  show ?thesis
  proof (rule that [OF bo pop [folded b1_def]])
    show "fill_maker sd ag mk ?p s t b1 out =
       Inr (b2, o_remaining agg, out @ fill_events s t (o_id agg) sd (m, o_remaining agg))"
      using fill_maker_part [OF cs [folded b1_def] mk(2) [symmetric] lt' lb1 nb1 l'_def] lt m
      by (auto simp: b2_def fill_events_def)
    have "book_rep ?c2 b2
        (sp\<lparr>queue := (queue sp)(?o := m\<lparr>o_remaining := ?r\<rparr> # q'), sp_last := Some ?p\<rparr>)"
    proof (rule on_side_book [OF br os _ q'])
      have "map_option okey (?c2 x) = map_option okey (?c x)" for x
        using mk by (auto simp: okey_def)
      then have "index_rep ?c2 (id_index b)"
        using index_rep_cong [of ?c2 ?c] br by (simp add: book_rep_def)
      then show "index_rep ?c2 (id_index b2)" by (simp add: b2_def b1_def popped_book_def)
    qed (use mk in \<open>auto simp: b2_def b1_def popped_book_def side_simps split: if_splits\<close>)
    moreover have "slab_ok vk (arena b2)"
      unfolding b2_def using ag mk(1)
      by (simp add: b1_def popped_book_def slab_ok_cells [OF ok] insert_absorb domI)
    ultimately show "in_match vk b2 ag (agg\<lparr>o_remaining := 0\<rparr>)
       (sp\<lparr>queue := (queue sp)(?o := m\<lparr>o_remaining := ?r\<rparr> # q'), sp_last := Some ?p\<rparr>)"
      using mk(2) nb by (auto simp add: in_match_def cells2) (auto simp: b2_def h1 modified_opt_def split: option.splits)
    show "same_stops ?c ((cells (arena b2))(ag := None))"
      unfolding cells2 by (rule on_side_same_stops [OF os]) (use mk in auto)
    show "stop_levels b2 sd' = stop_levels b sd'" for sd' by (rule stl)
  qed
qed

section \<open>The loop\<close>

text \<open>The aggressor's state after the loop and what the loop leaves alone.\<close>

definition matched ::
  "(slab_op list \<Rightarrow> nat) \<Rightarrow> order_book \<Rightarrow> nat \<Rightarrow> order \<Rightarrow> order_book \<Rightarrow> spec_book \<Rightarrow> bool" where
  "matched vk b ag agg b' sp' \<longleftrightarrow>
     in_match vk b' ag agg sp' \<and>
     same_stops ((cells (arena b))(ag := None)) ((cells (arena b'))(ag := None)) \<and>
     (\<forall>sd'. stop_levels b' sd' = stop_levels b sd')"

lemma matched_step:
  assumes "same_stops ((cells (arena b))(ag := None)) ((cells (arena b1))(ag := None))"
    and "\<And>sd'. stop_levels b1 sd' = stop_levels b sd'" and "matched vk b1 ag agg b' sp'"
  shows "matched vk b ag agg b' sp'"
  using assms(2,3) same_stops_trans [OF assms(1)] by (simp add: matched_def)

lemma sp_queue_upd2:
  "sp\<lparr>queue := (queue sp)(o1 := q), sp_last := x\<rparr>
     \<lparr>queue := (queue (sp\<lparr>queue := (queue sp)(o1 := q), sp_last := x\<rparr>))(o1 := q'), sp_last := y\<rparr> =
   sp\<lparr>queue := (queue sp)(o1 := q'), sp_last := y\<rparr>"
  by (cases sp) (simp add: fun_upd_def fun_eq_iff)

text \<open>One turn of the loop, for a maker that is taken whole and for one that is not.\<close>

lemma match_loop_full:
  assumes "in_match vk b ag agg sp" and "queue sp (opposite sd) = m # q" and "o_remaining m \<le> o_remaining agg"
    and "o_remaining agg \<noteq> 0" and "crosses sd kd limit (o_price m)"
  obtains b2 where "\<And>n tot. match_loop (Suc n) sd kd limit ag s t tot b out =
      match_loop n sd kd limit ag s t (tot + o_remaining m) b2 (out @ fill_events s t (o_id agg) sd (m, o_remaining m))"
    "in_match vk b2 ag (agg\<lparr>o_remaining := o_remaining agg - o_remaining m\<rparr>)
       (sp\<lparr>queue := (queue sp)(opposite sd := q), sp_last := Some (o_price m)\<rparr>)"
    "same_stops ((cells (arena b))(ag := None)) ((cells (arena b2))(ag := None))"
    "\<And>sd'. stop_levels b2 sd' = stop_levels b sd'"
proof -
  have ag: "cells (arena b) ag = Some agg" using assms(1) by (simp add: in_match_def)
  obtain b1 mk b2 where st: "best_opposite b sd = Some (o_price m)" "pop_head (opposite sd) (o_price m) b = Inr (Some mk, b1)"
    "fill_maker sd ag mk (o_price m) s t b1 out =
       Inr (b2, o_remaining m, out @ fill_events s t (o_id agg) sd (m, o_remaining m))"
    and rest: "in_match vk b2 ag (agg\<lparr>o_remaining := o_remaining agg - o_remaining m\<rparr>)
       (sp\<lparr>queue := (queue sp)(opposite sd := q), sp_last := Some (o_price m)\<rparr>)"
    "same_stops ((cells (arena b))(ag := None)) ((cells (arena b2))(ag := None))"
    "\<And>sd'. stop_levels b2 sd' = stop_levels b sd'"
    by (rule match_step_full [OF assms(1-3)]) (rule that; assumption)
  show thesis using ag assms(4,5) st by (intro that [OF _ rest]) (simp add: pop_side)
qed

lemma match_loop_part:
  assumes "in_match vk b ag agg sp" and "queue sp (opposite sd) = m # q" and "o_remaining agg < o_remaining m"
    and "o_remaining agg \<noteq> 0" and "crosses sd kd limit (o_price m)"
  obtains b2 where "\<And>n tot. match_loop (Suc (Suc n)) sd kd limit ag s t tot b out =
      Inr (b2, tot + o_remaining agg, out @ fill_events s t (o_id agg) sd (m, o_remaining agg))"
    "in_match vk b2 ag (agg\<lparr>o_remaining := 0\<rparr>)
       (sp\<lparr>queue := (queue sp)(opposite sd := m\<lparr>o_remaining := o_remaining m - o_remaining agg\<rparr> # q), sp_last := Some (o_price m)\<rparr>)"
    "same_stops ((cells (arena b))(ag := None)) ((cells (arena b2))(ag := None))"
    "\<And>sd'. stop_levels b2 sd' = stop_levels b sd'"
proof -
  have ag: "cells (arena b) ag = Some agg" using assms(1) by (simp add: in_match_def)
  obtain b1 mk b2 where st: "best_opposite b sd = Some (o_price m)" "pop_head (opposite sd) (o_price m) b = Inr (Some mk, b1)"
    "fill_maker sd ag mk (o_price m) s t b1 out =
       Inr (b2, o_remaining agg, out @ fill_events s t (o_id agg) sd (m, o_remaining agg))"
    and rest: "in_match vk b2 ag (agg\<lparr>o_remaining := 0\<rparr>)
       (sp\<lparr>queue := (queue sp)(opposite sd := m\<lparr>o_remaining := o_remaining m - o_remaining agg\<rparr> # q), sp_last := Some (o_price m)\<rparr>)"
    "same_stops ((cells (arena b))(ag := None)) ((cells (arena b2))(ag := None))"
    "\<And>sd'. stop_levels b2 sd' = stop_levels b sd'"
    by (rule match_step_part [OF assms(1-4)]) (rule that; assumption)
  have "cells (arena b2) ag = Some (agg\<lparr>o_remaining := 0\<rparr>)" using rest(1) by (simp add: in_match_def)
  then show thesis using ag assms(4,5) st by (intro that [OF _ rest]) (simp add: pop_side)
qed

lemma match_loop_refine:
  assumes "in_match vk b ag agg sp" and "length (queue sp (opposite sd)) < n"
    and "fills (crosses sd kd limit) (o_remaining agg) (queue sp (opposite sd)) = (fs, r, q')"
  shows "\<exists>b'. match_loop n sd kd limit ag s t tot b out =
       Inr (b', tot + (o_remaining agg - r), out @ concat (map (fill_events s t (o_id agg) sd) fs)) \<and>
     matched vk b ag (agg\<lparr>o_remaining := r\<rparr>) b'
       (sp\<lparr>queue := (queue sp)(opposite sd := q'), sp_last := last_price fs (sp_last sp)\<rparr>)"
  using assms
proof (induction n arbitrary: b agg sp tot out fs)
  case 0
  then show ?case by simp
next
  case (Suc n)
  note im = Suc.prems(1) and len = Suc.prems(2) and fl = Suc.prems(3)
  have ag: "cells (arena b) ag = Some agg" using im by (simp add: in_match_def)
  have stop: "?case" if "match_loop (Suc n) sd kd limit ag s t tot b out = Inr (b, tot, out)"
    "fs = []" "r = o_remaining agg" "q' = queue sp (opposite sd)"
    using that im by (auto simp: matched_def last_price_def)
  have qr: "queue_rep ((cells (arena b))(ag := None)) (opposite sd) (side_levels b (opposite sd))
      (queue sp (opposite sd))"
    using im by (simp add: in_match_def book_rep_def)
  show ?case
  proof (cases "queue sp (opposite sd)")
    case Nil
    then have "side_levels b (opposite sd) = []" using queue_rep_Nil_iff [OF qr] by simp
    then have "best_opposite b sd = None" by (simp add: best_opposite_side)
    then show ?thesis using ag fl Nil by (intro stop) auto
  next
    case (Cons m q)
    show ?thesis
    proof (cases "o_remaining agg = 0 \<or> \<not> crosses sd kd limit (o_price m)")
      case True
      obtain l ls mk ord where "best_opposite b sd = Some (o_price m)"
        by (rule match_head [OF im Cons])
      then show ?thesis using True ag fl Cons by (intro stop) auto
    next
      case go: False
      show ?thesis
      proof (cases "o_remaining m \<le> o_remaining agg")
        case le: True
        have step: "o_remaining agg \<noteq> 0" "crosses sd kd limit (o_price m)" using go by simp_all
        let ?sp = "sp\<lparr>queue := (queue sp)(opposite sd := q), sp_last := Some (o_price m)\<rparr>"
        let ?out = "out @ fill_events s t (o_id agg) sd (m, o_remaining m)"
        obtain b2 where loop: "\<And>n tot. match_loop (Suc n) sd kd limit ag s t tot b out =
            match_loop n sd kd limit ag s t (tot + o_remaining m) b2 ?out"
          and b2: "in_match vk b2 ag (agg\<lparr>o_remaining := o_remaining agg - o_remaining m\<rparr>) ?sp"
            "same_stops ((cells (arena b))(ag := None)) ((cells (arena b2))(ag := None))"
            "\<And>sd'. stop_levels b2 sd' = stop_levels b sd'"
          by (rule match_loop_full [OF im Cons le step]) (rule that; assumption)
        obtain fs' where fl': "fills (crosses sd kd limit) (o_remaining agg - o_remaining m) q = (fs', r, q')"
          and fs: "fs = (m, o_remaining m) # fs'"
          using fl Cons go le by (auto split: prod.splits)
        have lp: "last_price fs (sp_last sp) = last_price fs' (Some (o_price m))"
          using fs by (simp add: last_price_def)
        have "length (queue ?sp (opposite sd)) < n" using len Cons by simp
        moreover have "fills (crosses sd kd limit)
           (o_remaining (agg\<lparr>o_remaining := o_remaining agg - o_remaining m\<rparr>))
           (queue ?sp (opposite sd)) = (fs', r, q')" using fl' by simp
        ultimately obtain b' where b': "match_loop n sd kd limit ag s t (tot + o_remaining m) b2 ?out =
           Inr (b', tot + o_remaining m + (o_remaining agg - o_remaining m - r),
             ?out @ concat (map (fill_events s t (o_id agg) sd) fs'))"
          and mt: "matched vk b2 ag (agg\<lparr>o_remaining := r\<rparr>) b'
            (sp\<lparr>queue := (queue sp)(opposite sd := q'), sp_last := last_price fs (sp_last sp)\<rparr>)"
          using Suc.IH [OF b2(1), of fs' "tot + o_remaining m" ?out]
          unfolding sp_queue_upd2 lp by auto
        have "match_loop (Suc n) sd kd limit ag s t tot b out =
            Inr (b', tot + (o_remaining agg - r), out @ concat (map (fill_events s t (o_id agg) sd) fs))"
          using b' fs unfolding loop by (simp add: algebra_simps)
        then show ?thesis using matched_step [OF b2(2,3) mt] by blast
      next
        case False
        then have lt: "o_remaining agg < o_remaining m" "o_remaining agg \<noteq> 0" "crosses sd kd limit (o_price m)"
          using go by simp_all
        obtain b2 where loop: "\<And>n tot. match_loop (Suc (Suc n)) sd kd limit ag s t tot b out =
            Inr (b2, tot + o_remaining agg, out @ fill_events s t (o_id agg) sd (m, o_remaining agg))"
          and b2: "in_match vk b2 ag (agg\<lparr>o_remaining := 0\<rparr>)
             (sp\<lparr>queue := (queue sp)(opposite sd := m\<lparr>o_remaining := o_remaining m - o_remaining agg\<rparr> # q), sp_last := Some (o_price m)\<rparr>)"
            "same_stops ((cells (arena b))(ag := None)) ((cells (arena b2))(ag := None))"
            "\<And>sd'. stop_levels b2 sd' = stop_levels b sd'"
          by (rule match_loop_part [OF im Cons lt]) (rule that; assumption)
        have fs: "fs = [(m, o_remaining agg)]" "r = 0" "q' = m\<lparr>o_remaining := o_remaining m - o_remaining agg\<rparr> # q"
          using fl Cons go False by auto
        obtain n' where n: "n = Suc n'" using len Cons by (cases n) auto
        have "match_loop (Suc n) sd kd limit ag s t tot b out =
            Inr (b2, tot + (o_remaining agg - r), out @ concat (map (fill_events s t (o_id agg) sd) fs))"
          unfolding n loop by (simp add: fs)
        moreover have "matched vk b ag (agg\<lparr>o_remaining := r\<rparr>) b2
            (sp\<lparr>queue := (queue sp)(opposite sd := q'), sp_last := last_price fs (sp_last sp)\<rparr>)"
          using b2 fs by (simp add: matched_def last_price_def)
        ultimately show ?thesis by blast
      qed
    qed
  qed
qed

end
