(* ===== verification/New_Refine.thy ===== *)
theory New_Refine
  imports Match_Refine
begin

text \<open>
  The pieces of \<^verbatim>\<open>apply_new\<close> around the matching loop: validation, the fill-or-kill
  check, holding a stop, inserting the aggressor, and what becomes of it after matching.
\<close>

section \<open>Validation and the fill-or-kill check\<close>

lemma validate_refine:
  assumes "book_rep c b sp"
  shows "validate_new b no = spec_validate sp no"
  using index_ids [OF assms, of "no_id no"] by (simp add: validate_new_def spec_validate_def)

lemma available_from_sum:
  assumes "list_all2 (level_rep c sd) ls sss" and "lv_sorted sd ls"
    and mono: "\<And>p p'. beyond p \<Longrightarrow> better sd p p' \<Longrightarrow> beyond p'"
  shows "unat (available_from beyond tot ls) = min (2 ^ 64 - 1)
    (unat tot + nsum o_remaining (filter (\<lambda>m. \<not> beyond (o_price m)) (map (slot_order c) (concat sss))))"
  using assms(1,2)
proof (induction ls arbitrary: tot sss)
  case Nil
  then show ?case using unat_u64_bound [of tot] by simp
next
  case (Cons pl ls)
  obtain p l where pl: "pl = (p, l)" by fastforce
  from Cons.prems(1) obtain ss sss' where sss: "sss = ss # sss'" and lr: "level_rep c sd (p, l) ss"
    and la: "list_all2 (level_rep c sd) ls sss'"
    by (auto simp: list_all2_Cons1 pl)
  have here: "o_price m = p" if "m \<in> set (map (slot_order c) ss)" for m
    using lr that by (auto simp: level_rep_def slot_ok_def slot_order_def)
  have srt: "lv_sorted sd ls" "\<forall>x \<in> fst ` set ls. better sd p x"
    using Cons.prems(2) pl by (auto simp: lv_sorted_Cons)
  show ?case
  proof (cases "beyond p")
    case True
    have "beyond (o_price m)" if "m \<in> set (map (slot_order c) (concat sss'))" for m
      using orders_price [OF la srt(2) that] True mono by blast
    moreover have "map (slot_order c) (concat sss) = map (slot_order c) ss @ map (slot_order c) (concat sss')"
      by (simp add: sss)
    ultimately have "filter (\<lambda>m. \<not> beyond (o_price m)) (map (slot_order c) (concat sss)) = []"
      using here True unfolding filter_empty_conv by (metis UnE set_append)
    moreover have "available_from beyond tot (pl # ls) = tot" using True by (simp add: pl)
    moreover have "unat tot \<le> 2 ^ 64 - 1" using unat_u64_bound [of tot] by simp
    ultimately show ?thesis by (simp only: nsum_Nil add_0_right min_absorb2)
  next
    case False
    have "filter (\<lambda>m. \<not> beyond (o_price m)) (map (slot_order c) ss) = map (slot_order c) ss"
      using here False unfolding filter_id_conv by auto
    moreover have "unat (total_qty l) = nsum o_remaining (map (slot_order c) ss)"
      using lr by (simp add: level_rep_def)
    ultimately show ?thesis
      using False pl Cons.IH [OF la srt(1), of "sat_add tot (total_qty l)"]
      by (simp add: sss unat_sat_add del: filter_map)
  qed
qed

lemma available_refine:
  assumes br: "book_rep c b sp"
  shows "available_qty b sd p < q \<longleftrightarrow> spec_available sp sd p < unat q"
proof -
  let ?o = "opposite sd"
  define beyond where "beyond = (\<lambda>x. case sd of Buy \<Rightarrow> x > p | Sell \<Rightarrow> x < p)"
  have "queue_rep c ?o (side_levels b ?o) (queue sp ?o)" using br by (simp add: book_rep_def)
  then obtain sss where srt: "lv_sorted ?o (side_levels b ?o)"
    and la: "list_all2 (level_rep c ?o) (side_levels b ?o) sss"
    and q: "queue sp ?o = map (slot_order c) (concat sss)"
    by (rule queue_repE) (rule that; assumption)
  have "available_qty b sd p = available_from beyond 0 (side_levels b ?o)"
    by (cases sd) (simp_all add: available_qty_def side_levels_def beyond_def)
  moreover have "unat (available_from beyond 0 (side_levels b ?o)) = min (2 ^ 64 - 1)
      (unat (0 :: u64) + nsum o_remaining (filter (\<lambda>m. \<not> beyond (o_price m)) (queue sp ?o)))"
    unfolding q using la srt
    by (rule available_from_sum) (cases sd, auto simp: beyond_def better_def)
  moreover have "spec_available sp sd p = nsum o_remaining (filter (\<lambda>m. \<not> beyond (o_price m)) (queue sp ?o))"
    unfolding spec_available_def by (rule arg_cong [where f = "nsum o_remaining"], rule filter_cong)
      (auto simp: beyond_def split: side.splits)
  ultimately show ?thesis
    using unat_u64_bound [of q] by (simp add: word_less_nat_alt min_def)
qed

section \<open>Inserting into the arena\<close>

text \<open>A key the allocator hands out is vacant; the aggressor sits there unseen by the book.\<close>

lemma arena_insert_eval:
  "arena_insert vk ord b = (vk (hist (arena b)),
     b\<lparr>arena := \<lparr>cells = (cells (arena b))(vk (hist (arena b)) \<mapsto> ord),
       hist = Inserted (vk (hist (arena b))) # hist (arena b)\<rparr>\<rparr>)"
  by (simp add: arena_insert_def slab_insert_def Let_def)

lemma arena_insert_refine:
  assumes al: "slab_allocator vk" and rp: "rep vk b sp" and ins: "arena_insert vk ord b = (ag, b')"
  shows "in_match vk b' ag ord sp" "cells (arena b) ag = None"
    "(cells (arena b'))(ag := None) = cells (arena b)"
    "stop_levels b' sd = stop_levels b sd" "id_index b' = id_index b" "last_trade b' = last_trade b"
    "ag = vk (hist (arena b))"
proof -
  have ok: "slab_ok vk (arena b)" and br: "book_rep (cells (arena b)) b sp" using rp by (simp_all add: rep_def)
  show fr: "cells (arena b) ag = None" and "ag = vk (hist (arena b))"
    using slab_ok_fresh [OF al ok] ins by (simp_all add: arena_insert_eval)
  have b': "b' = b\<lparr>arena := \<lparr>cells = (cells (arena b))(ag \<mapsto> ord), hist = Inserted ag # hist (arena b)\<rparr>\<rparr>"
    using ins by (auto simp: arena_insert_eval)
  have c: "(cells (arena b'))(ag := None) = cells (arena b)" using fr by (auto simp: b' fun_eq_iff)
  then show "(cells (arena b'))(ag := None) = cells (arena b)" .
  have "slab_ok vk (arena b')"
    using ok ins by (auto simp: slab_ok_def b' arena_insert_eval)
  moreover have "book_rep (cells (arena b)) b' sp" using br by (simp add: b' book_rep_def)
  ultimately show "in_match vk b' ag ord sp" using c by (simp add: in_match_def) (simp add: b')
  show "stop_levels b' sd = stop_levels b sd" "id_index b' = id_index b" "last_trade b' = last_trade b"
    by (simp_all add: b')
qed

text \<open>Taking the aggressor out again.\<close>

lemma arena_remove_refine:
  assumes im: "in_match vk b ag agg sp"
  obtains b' where "arena_remove ag b = Inr b'" "rep vk b' sp"
    "cells (arena b') = (cells (arena b))(ag := None)"
    "\<And>sd. stop_levels b' sd = stop_levels b sd" "id_index b' = id_index b"
    "side_levels b' = side_levels b"
proof -
  define b' where "b' = b\<lparr>arena := \<lparr>cells = (cells (arena b))(ag := None), hist = Removed ag # hist (arena b)\<rparr>\<rparr>"
  have ag: "cells (arena b) ag = Some agg" and ok: "slab_ok vk (arena b)"
    and br: "book_rep ((cells (arena b))(ag := None)) b sp"
    using im by (simp_all add: in_match_def)
  show ?thesis
  proof (rule that)
    show "arena_remove ag b = Inr b'" using ag by (simp add: arena_remove_def b'_def)
    have "book_rep ((cells (arena b))(ag := None)) b' sp" using br by (simp add: b'_def book_rep_def)
    then show "rep vk b' sp"
      using slab_ok_remove [OF ok ag] by (simp add: rep_def b'_def)
    show "side_levels b' = side_levels b" by (rule ext) (simp add: b'_def)
  qed (simp_all add: b'_def)
qed

section \<open>Holding a stop\<close>

lemma stop_enqueue_split:
  assumes "\<And>x. x \<in> set xs \<Longrightarrow> \<not> better (opposite sd) (o_stop_price ord) (o_stop_price x)"
    and "\<And>y. y \<in> set ys \<Longrightarrow> better (opposite sd) (o_stop_price ord) (o_stop_price y)"
  shows "stop_enqueue sd ord (xs @ ys) = xs @ ord # ys"
proof -
  have "stop_enqueue sd ord ys = ord # ys" using assms(2) by (cases ys) auto
  then show ?thesis using assms(1) by (induction xs) auto
qed

lemma set_stop_enqueue [simp]: "set (stop_enqueue sd ord q) = insert ord (set q)"
  by (induction sd ord q rule: stop_enqueue.induct) auto

lemma length_stop_enqueue [simp]: "length (stop_enqueue sd ord q) = Suc (length q)"
  by (induction sd ord q rule: stop_enqueue.induct) auto

lemma length_enqueue [simp]: "length (enqueue sd ord q) = Suc (length q)"
  by (induction sd ord q rule: enqueue.induct) auto

text \<open>The trigger map with one more slot at the end of a price's list.\<close>

definition stop_put :: "side \<Rightarrow> price \<Rightarrow> nat \<Rightarrow> (price \<times> nat list) list \<Rightarrow> (price \<times> nat list) list" where
  "stop_put sd p s ls =
     lv_put (opposite sd) p ((case map_of ls p of None \<Rightarrow> [] | Some ss \<Rightarrow> ss) @ [s]) ls"

definition listed :: "(price \<times> nat list) list \<Rightarrow> price \<Rightarrow> nat \<Rightarrow> bool" where
  "listed ls p s \<longleftrightarrow> (\<exists>ss. (p, ss) \<in> set ls \<and> s \<in> set ss)"

lemma listed_simps [simp]:
  "\<not> listed [] p s"
  "listed ((p', ss) # ls) p s \<longleftrightarrow> (p = p' \<and> s \<in> set ss) \<or> listed ls p s"
  "listed (ls @ ls') p s \<longleftrightarrow> listed ls p s \<or> listed ls' p s"
  by (auto simp: listed_def)

lemma stop_slots_listed: "s \<in> set (stop_slots ls) \<longleftrightarrow> (\<exists>p. listed ls p s)"
  by (force simp: listed_def stop_slots_def)

lemma listed_price: "listed ls p s \<Longrightarrow> p \<in> fst ` set ls"
  by (force simp: listed_def)

lemma stop_put_split:
  assumes srt: "lv_sorted (opposite sd) ls"
  obtains l1 l2 where "stop_slots (stop_put sd p s ls) = stop_slots l1 @ s # stop_slots l2"
    "stop_slots ls = stop_slots l1 @ stop_slots l2" "lv_sorted (opposite sd) (stop_put sd p s ls)"
    "\<And>x. x \<in> fst ` set l1 \<Longrightarrow> \<not> better (opposite sd) p x"
    "\<And>x. x \<in> fst ` set l2 \<Longrightarrow> better (opposite sd) p x"
    "\<And>p' x. listed (stop_put sd p s ls) p' x \<longleftrightarrow> (p' = p \<and> x = s) \<or> listed ls p' x"
    "\<And>p' x. listed ls p' x \<longleftrightarrow> listed l1 p' x \<or> listed l2 p' x"
  using srt
proof (cases rule: lv_sorted_split [where p = p])
  case (present k1 l k2)
  have e: "stop_put sd p s ls = k1 @ (p, l @ [s]) # k2"
    unfolding stop_put_def present(1) using lv_put_present [OF present(2)] present(1,4) by simp
  have srt': "lv_sorted (opposite sd) (k1 @ (p, l @ [s]) # k2)"
    using srt present(1) by (simp add: lv_sorted_append lv_sorted_Cons)
  show ?thesis
  proof (rule that [of "k1 @ [(p, l)]" k2])
    show "\<not> better (opposite sd) p x" if "x \<in> fst ` set (k1 @ [(p, l)])" for x
      using that present(2) by (auto dest: better_asym)
    show "better (opposite sd) p x" if "x \<in> fst ` set k2" for x
      using that present(3) by blast
    show "lv_sorted (opposite sd) (stop_put sd p s ls)" unfolding e by (rule srt')
  qed (unfold e, auto simp: present(1) stop_slots_def)
next
  case (absent k1 k2)
  have e: "stop_put sd p s ls = k1 @ (p, [s]) # k2"
    unfolding stop_put_def absent(4) using lv_put_absent [OF absent(2,3)] absent(1) by simp
  have srt': "lv_sorted (opposite sd) (k1 @ (p, [s]) # k2)"
    using srt absent by (simp add: lv_sorted_append lv_sorted_Cons)
  show ?thesis
  proof (rule that [of k1 k2])
    show "\<not> better (opposite sd) p x" if "x \<in> fst ` set k1" for x
      using that absent(2) by (auto dest: better_asym)
    show "better (opposite sd) p x" if "x \<in> fst ` set k2" for x
      using that absent(3) by blast
    show "lv_sorted (opposite sd) (stop_put sd p s ls)" unfolding e by (rule srt')
  qed (unfold e, auto simp: absent(1) stop_slots_def)
qed

lemma stop_rep_listed:
  "stop_rep c sd ls q \<longleftrightarrow>
     lv_sorted (opposite sd) ls \<and> (\<forall>p s. listed ls p s \<longrightarrow> stop_ok c sd p s) \<and>
     distinct (filter (alive c) (stop_slots ls)) \<and>
     (\<forall>s. pends c sd s \<longrightarrow> s \<in> set (stop_slots ls)) \<and>
     q = map (slot_order c) (filter (alive c) (stop_slots ls))"
  unfolding stop_rep_def listed_def by blast

lemma stop_rep_hold:
  assumes sr: "stop_rep c sd ls q" and s: "c s = None" "s \<notin> set (stop_slots ls)"
    and ord: "o_kind ord = StopMarket" "o_side ord = sd" "o_remaining ord \<noteq> 0" "core ord = ord"
  shows "stop_rep (c(s \<mapsto> ord)) sd (stop_put sd (o_stop_price ord) s ls) (stop_enqueue sd ord q)"
proof -
  let ?p = "o_stop_price ord" and ?c = "c(s \<mapsto> ord)"
  have srt: "lv_sorted (opposite sd) ls" and ok: "\<And>p x. listed ls p x \<Longrightarrow> stop_ok c sd p x"
    and dist: "distinct (filter (alive c) (stop_slots ls))"
    and cov: "\<And>x. pends c sd x \<Longrightarrow> x \<in> set (stop_slots ls)"
    and q: "q = map (slot_order c) (filter (alive c) (stop_slots ls))"
    using sr by (auto simp: stop_rep_listed)
  obtain l1 l2 where sl: "stop_slots (stop_put sd ?p s ls) = stop_slots l1 @ s # stop_slots l2"
    "stop_slots ls = stop_slots l1 @ stop_slots l2" "lv_sorted (opposite sd) (stop_put sd ?p s ls)"
    and b1: "\<And>x. x \<in> fst ` set l1 \<Longrightarrow> \<not> better (opposite sd) ?p x"
    and b2: "\<And>x. x \<in> fst ` set l2 \<Longrightarrow> better (opposite sd) ?p x"
    and li: "\<And>p' x. listed (stop_put sd ?p s ls) p' x \<longleftrightarrow> (p' = ?p \<and> x = s) \<or> listed ls p' x"
    and li12: "\<And>p' x. listed ls p' x \<longleftrightarrow> listed l1 p' x \<or> listed l2 p' x"
    by (rule stop_put_split [OF srt]) (rule that; assumption)
  have sn: "s \<notin> set (stop_slots l1)" "s \<notin> set (stop_slots l2)" using s sl by auto
  have al: "filter (alive ?c) (stop_slots k) = filter (alive c) (stop_slots k)"
    "map (slot_order ?c) (filter (alive c) (stop_slots k)) = map (slot_order c) (filter (alive c) (stop_slots k))"
    if "s \<notin> set (stop_slots k)" for k
  proof -
    have "?c x = c x" if "x \<in> set (stop_slots k)" for x using that \<open>s \<notin> set (stop_slots k)\<close> by auto
    then show "filter (alive ?c) (stop_slots k) = filter (alive c) (stop_slots k)"
      "map (slot_order ?c) (filter (alive c) (stop_slots k)) = map (slot_order c) (filter (alive c) (stop_slots k))"
      by (auto intro!: filter_cong simp: alive_def slot_order_def simp del: fun_upd_apply)
  qed
  have price: "o_stop_price x \<in> fst ` set k"
    if "x \<in> set (map (slot_order c) (filter (alive c) (stop_slots k)))"
      and "\<And>p' y. listed k p' y \<Longrightarrow> listed ls p' y" for x k
  proof -
    from that(1) obtain y where y: "y \<in> set (stop_slots k)" "alive c y" "x = slot_order c y" by auto
    then obtain p' where p': "listed k p' y" by (auto simp: stop_slots_listed)
    then have "stop_ok c sd p' y" using that(2) ok by blast
    then have "o_stop_price x = p'" using y by (auto simp: stop_ok_def alive_def slot_order_def)
    then show ?thesis using listed_price [OF p'] by simp
  qed
  have "stop_enqueue sd ord q = map (slot_order c) (filter (alive c) (stop_slots l1)) @ ord #
      map (slot_order c) (filter (alive c) (stop_slots l2))"
    unfolding q sl(2) filter_append map_append
    by (rule stop_enqueue_split) (use price b1 b2 li12 in blast)+
  moreover have "stop_ok ?c sd p' x" if "listed (stop_put sd ?p s ls) p' x" for p' x
  proof -
    have "listed ls p' s \<Longrightarrow> False" using s(2) by (auto simp: stop_slots_listed)
    then show ?thesis using that ok [of p' x] li [of p' x] ord by (auto simp: stop_ok_def)
  qed
  moreover have "distinct (filter (alive ?c) (stop_slots l1 @ s # stop_slots l2))"
    using dist sl(2) sn al by (auto simp: alive_def)
  moreover have "x \<in> set (stop_slots l1 @ s # stop_slots l2)" if "pends ?c sd x" for x
    using that cov [of x] sl(2) by (cases "x = s") (auto simp: pends_def)
  moreover have "slot_order ?c s = ord" "alive ?c s" using ord by (simp_all add: slot_order_def alive_def)
  ultimately show ?thesis
    using sl(3) al sn unfolding stop_rep_listed sl(1) by (simp del: map_eq_conv)
qed

lemma stop_rep_other:
  assumes sr: "stop_rep c sd ls q" and s: "s \<notin> set (stop_slots ls)" "\<not> pends c sd s"
    and "x = None \<or> (\<exists>ord. x = Some ord \<and> (o_kind ord \<noteq> StopMarket \<or> o_side ord \<noteq> sd))"
  shows "stop_rep (c(s := x)) sd ls q"
proof -
  let ?c = "c(s := x)"
  have eq: "?c y = c y" if "y \<in> set (stop_slots ls)" for y using that s by auto
  have "stop_ok ?c sd p y" if "listed ls p y" for p y
  proof -
    have "y \<in> set (stop_slots ls)" using that by (auto simp: stop_slots_listed)
    then show ?thesis using that sr eq [of y] by (simp add: stop_rep_listed stop_ok_def)
  qed
  moreover have "y \<in> set (stop_slots ls)" if "pends ?c sd y" for y
    using that assms(4) sr by (cases "y = s") (auto simp: pends_def stop_rep_listed)
  moreover have "filter (alive ?c) (stop_slots ls) = filter (alive c) (stop_slots ls)"
    "map (slot_order ?c) (filter (alive c) (stop_slots ls)) = map (slot_order c) (filter (alive c) (stop_slots ls))"
    using eq by (auto intro!: filter_cong simp: alive_def slot_order_def simp del: fun_upd_apply)
  ultimately show ?thesis using sr unfolding stop_rep_listed by (simp del: map_eq_conv)
qed

lemma hold_stop_levels:
  "stop_levels (hold_stop vk b no s t) sd =
     (if sd = no_side no then stop_put sd (no_stop_price no) (vk (hist (arena b))) (stop_levels b sd)
      else stop_levels b sd)"
  by (cases sd; cases "no_side no")
    (simp_all add: hold_stop_def arena_insert_eval index_insert_def stop_levels_def stop_put_def
      map_bt_insert_Reverse bt_insert_Sell bt_entry_def bt_get_def map_of_unReverse)

lemma hold_stop_frame [simp]:
  "arena (hold_stop vk b no s t) =
     \<lparr>cells = (cells (arena b))(vk (hist (arena b)) \<mapsto> order_of_new no s t),
      hist = Inserted (vk (hist (arena b))) # hist (arena b)\<rparr>"
  "id_index (hold_stop vk b no s t) = (id_index b)(no_id no \<mapsto>
     \<lparr>loc_price = no_stop_price no, loc_side = no_side no, loc_slot = vk (hist (arena b))\<rparr>)"
  "side_levels (hold_stop vk b no s t) sd = side_levels b sd"
  "last_trade (hold_stop vk b no s t) = last_trade b"
  by (cases "no_side no"; simp add: hold_stop_def arena_insert_eval index_insert_def)+

lemma order_of_new_simps [simp]:
  "o_id (order_of_new no s t) = no_id no" "o_symbol (order_of_new no s t) = no_symbol no"
  "o_side (order_of_new no s t) = no_side no" "o_kind (order_of_new no s t) = no_kind no"
  "o_tif (order_of_new no s t) = no_tif no" "o_price (order_of_new no s t) = no_price no"
  "o_stop_price (order_of_new no s t) = no_stop_price no" "o_qty (order_of_new no s t) = no_qty no"
  "o_remaining (order_of_new no s t) = no_qty no" "o_seq (order_of_new no s t) = s"
  "o_ts (order_of_new no s t) = t" "core (order_of_new no s t) = order_of_new no s t"
  by (simp_all add: order_of_new_def)

lemma no_staleD: "no_stale b \<Longrightarrow> cells (arena b) s = None \<Longrightarrow> s \<notin> set (stop_slots (stop_levels b sd))"
  by (auto simp: no_stale_def)

lemma hold_stop_refine:
  assumes al: "slab_allocator vk" and rp: "rep vk b sp" and ns: "no_stale b"
    and no: "no_kind no = StopMarket" "no_qty no \<noteq> 0" and id: "id_index b (no_id no) = None"
  shows "rep vk (hold_stop vk b no s t) (sp\<lparr>stops := (stops sp)
      (no_side no := stop_enqueue (no_side no) (order_of_new no s t) (stops sp (no_side no)))\<rparr>)"
    and "no_stale (hold_stop vk b no s t)"
proof -
  let ?b = "hold_stop vk b no s t" and ?c = "cells (arena b)" and ?ord = "order_of_new no s t"
  define ag where "ag = vk (hist (arena b))"
  have ok: "slab_ok vk (arena b)" and br: "book_rep ?c b sp" using rp by (simp_all add: rep_def)
  have fr: "?c ag = None" using slab_ok_fresh [OF al ok] by (simp add: ag_def)
  have nl: "ag \<notin> set (stop_slots (stop_levels b sd))" for sd using no_staleD [OF ns fr] .
  have c': "cells (arena ?b) = ?c(ag \<mapsto> ?ord)" by (simp add: ag_def)
  have "book_rep (?c(ag \<mapsto> ?ord)) ?b (sp\<lparr>stops := (stops sp)
      (no_side no := stop_enqueue (no_side no) ?ord (stops sp (no_side no)))\<rparr>)"
  proof (rule book_repI)
    fix sd
    have "queue_rep ?c sd (side_levels b sd) (queue sp sd)" using br by (simp add: book_rep_def)
    then have "queue_rep (?c(ag \<mapsto> ?ord)) sd (side_levels b sd) (queue sp sd)"
      by (rule queue_rep_frame) (use fr no in \<open>auto simp: rests_def split: if_splits\<close>)
    then show "queue_rep (?c(ag \<mapsto> ?ord)) sd (side_levels ?b sd)
        (queue (sp\<lparr>stops := (stops sp)
      (no_side no := stop_enqueue (no_side no) ?ord (stops sp (no_side no)))\<rparr>) sd)" by simp
    have st: "stop_rep ?c sd (stop_levels b sd) (stops sp sd)" using br by (simp add: book_rep_def)
    show "stop_rep (?c(ag \<mapsto> ?ord)) sd (stop_levels ?b sd) (stops (sp\<lparr>stops := (stops sp)
      (no_side no := stop_enqueue (no_side no) ?ord (stops sp (no_side no)))\<rparr>) sd)"
    proof (cases "sd = no_side no")
      case True
      then show ?thesis
        using stop_rep_hold [OF st fr nl, of ?ord] no by (simp add: hold_stop_levels ag_def)
    next
      case False
      then show ?thesis
        using stop_rep_other [OF st nl, of "Some ?ord"] fr by (simp add: hold_stop_levels pends_def)
    qed
  next
    show "index_rep (?c(ag \<mapsto> ?ord)) (id_index ?b)"
      using index_rep_add [of ?c "id_index b" ag ?ord] br fr id no
      by (simp add: book_rep_def loc_of_def ag_def)
    show "o_kind r = Limit \<or> o_kind r = StopMarket" if "(?c(ag \<mapsto> ?ord)) x = Some r" for x r
      using that br no by (auto simp: book_rep_def split: if_splits)
  qed (use br in \<open>simp add: book_rep_def\<close>)
  moreover have "slab_ok vk (arena ?b)" using ok by (auto simp: slab_ok_def)
  ultimately show "rep vk ?b (sp\<lparr>stops := (stops sp)
      (no_side no := stop_enqueue (no_side no) ?ord (stops sp (no_side no)))\<rparr>)"
    by (simp only: rep_def c')
  show "no_stale ?b"
    unfolding no_stale_def c'
  proof (intro allI subsetI)
    fix sd x assume x: "x \<in> set (stop_slots (stop_levels ?b sd))"
    have "lv_sorted (opposite sd) (stop_levels b sd)" using br by (simp add: book_rep_def stop_rep_def)
    then obtain l1 l2 where "stop_slots (stop_put sd (no_stop_price no) ag (stop_levels b sd)) =
        stop_slots l1 @ ag # stop_slots l2" "stop_slots (stop_levels b sd) = stop_slots l1 @ stop_slots l2"
      by (rule stop_put_split) (rule that; assumption)
    then have "x = ag \<or> x \<in> set (stop_slots (stop_levels b sd))"
      using x by (auto simp: hold_stop_levels ag_def split: if_splits)
    then show "x \<in> dom (?c(ag \<mapsto> ?ord))" using ns by (auto simp: no_stale_def)
  qed
qed

section \<open>After matching\<close>

lemma settle_rest_refine:
  assumes im: "in_match vk b ag agg sp" and id: "id_index b (o_id agg) = None"
    and no: "o_kind agg = Limit" "o_remaining agg \<noteq> 0" "o_side agg = sd"
    and room: "nsum o_remaining (queue sp sd) + unat (o_remaining agg) < 2 ^ 64"
    and nl: "\<And>sd'. ag \<notin> set (stop_slots (stop_levels b sd'))"
  obtains b' where "insert_resting ag (index_insert (o_id agg) (loc_of ag agg) b) = Inr b'"
    "rep vk b' (sp\<lparr>queue := (queue sp)(sd := enqueue sd (core agg) (queue sp sd))\<rparr>)"
    "\<And>sd'. stop_levels b' sd' = stop_levels b sd'" "dom (cells (arena b')) = dom (cells (arena b))"
proof -
  let ?b = "index_insert (o_id agg) (loc_of ag agg) b"
  have ag: "cells (arena ?b) ag = Some agg" and ok: "slab_ok vk (arena ?b)"
    and br: "book_rep ((cells (arena ?b))(ag := None)) (?b\<lparr>id_index := id_index b\<rparr>) sp"
    using im by (simp_all add: in_match_def index_insert_def book_rep_def)
  have nl': "\<And>sd'. ag \<notin> set (stop_slots (stop_levels ?b sd'))" using nl by (simp add: index_insert_def)
  obtain b' where "insert_resting ag ?b = Inr b'"
    "rep vk b' (sp\<lparr>queue := (queue sp)(sd := enqueue sd (core agg) (queue sp sd))\<rparr>)"
    "\<And>sd'. stop_levels b' sd' = stop_levels ?b sd'" "dom (cells (arena b')) = dom (cells (arena ?b))"
    using insert_resting_refine [OF ok ag br id _ no(1,3,2) room nl'] by (auto simp: index_insert_def)
  then show ?thesis using that by (simp add: index_insert_def)
qed

lemma settle_refine:
  assumes im: "in_match vk b ag ((order_of_new no s t)\<lparr>o_remaining := r\<rparr>) sp"
    and id: "id_index b (no_id no) = None"
    and no: "no_kind no \<in> {Limit, Market, Ioc, Fok}" "no_qty no \<noteq> 0"
    and lim: "no_kind no = Limit \<Longrightarrow> nsum o_remaining (queue sp (no_side no)) + unat r < 2 ^ 64"
      "\<And>sd. no_kind no = Limit \<Longrightarrow> ag \<notin> set (stop_slots (stop_levels b sd))"
    and sp': "spec_settle sp no r s t = (sp', ev)"
  shows "\<exists>b'. settle_new b no ag (no_qty no - r) s out = Inr (b', out @ ev) \<and> rep vk b' sp' \<and>
     (\<forall>sd. stop_levels b' sd = stop_levels b sd) \<and>
     dom (cells (arena b)) - {ag} \<subseteq> dom (cells (arena b')) \<and>
     (no_kind no \<noteq> Limit \<longrightarrow> cells (arena b') = (cells (arena b))(ag := None))"
proof -
  let ?agg = "(order_of_new no s t)\<lparr>o_remaining := r\<rparr>"
  have ag: "cells (arena b) ag = Some ?agg" using im by (simp add: in_match_def)
  have filled: "0 < no_qty no - r \<longleftrightarrow> r \<noteq> no_qty no"
    by (auto simp: word_neq_0_conv [symmetric])
  have r0: "0 = r \<Longrightarrow> no_qty no \<noteq> r" using no by auto
  obtain b1 where b1: "arena_remove ag b = Inr b1" "rep vk b1 sp"
    "cells (arena b1) = (cells (arena b))(ag := None)"
    "\<And>sd. stop_levels b1 sd = stop_levels b sd" "id_index b1 = id_index b" "side_levels b1 = side_levels b"
    by (rule arena_remove_refine [OF im]) (rule that; assumption)
  have im1: "index_remove (no_id no) b1 = b1" using b1(5) id by (simp add: index_remove_def fun_upd_idem)
  have gone: ?thesis if "settle_new b no ag (no_qty no - r) s out = Inr (b1, out @ ev)" "sp' = sp"
    using that b1 by auto
  show ?thesis
  proof (cases "r = 0 \<or> no_kind no \<noteq> Limit")
    case True
    have "sp' = sp" using sp' True by (auto simp: spec_settle_def Let_def split: if_splits)
    then show ?thesis
      using True sp' no ag b1(1) im1 filled r0
      by (intro gone) (auto simp: settle_new_def spec_settle_def Let_def)
  next
    case False
    have loc: "\<lparr>loc_price = no_price no, loc_side = no_side no, loc_slot = ag\<rparr> = loc_of ag ?agg"
      using False by (simp add: loc_of_def)
    obtain b2 where b2: "insert_resting ag (index_insert (no_id no) (loc_of ag ?agg) b) = Inr b2"
      "rep vk b2 (sp\<lparr>queue := (queue sp)(no_side no :=
         enqueue (no_side no) ?agg (queue sp (no_side no)))\<rparr>)"
      "\<And>sd'. stop_levels b2 sd' = stop_levels b sd'" "dom (cells (arena b2)) = dom (cells (arena b))"
      using settle_rest_refine [OF im, of "no_side no"] id lim False by auto
    have "settle_new b no ag (no_qty no - r) s out = Inr (b2, out @ ev)"
      using False sp' ag b2(1) filled r0
      by (auto simp: settle_new_def spec_settle_def Let_def loc)
    moreover have "sp' = sp\<lparr>queue := (queue sp)(no_side no :=
         enqueue (no_side no) ?agg (queue sp (no_side no)))\<rparr>"
      using False sp' by (auto simp: spec_settle_def Let_def)
    ultimately show ?thesis using b2(2-4) False by auto
  qed
qed

end
