(* ===== verification/Spec_Facts.thy ===== *)
theory Spec_Facts
  imports Spec_Book
begin

text \<open>
  Facts on the specification alone: what \<open>fills\<close> takes from a queue, what a command does
  to the quantities and ids of the book, and that the depth bound of \<open>spec_new\<close> is enough.
\<close>

section \<open>fills\<close>

definition traded :: "(order \<times> qty) list \<Rightarrow> nat" where
  "traded fs = (\<Sum>(m, q)\<leftarrow>fs. unat q)"

lemma traded_simps [simp]:
  "traded [] = 0" "traded ((m, q) # fs) = unat q + traded fs"
  by (simp_all add: traded_def)

lemma fills_length: "fills ok r q = (fs, r', q') \<Longrightarrow> length q' \<le> length q"
proof (induction ok r q arbitrary: fs r' q' rule: fills.induct)
  case (2 ok r m q)
  then show ?case by (fastforce split: if_splits prod.splits)
qed simp

lemma fills_ids: "fills ok r q = (fs, r', q') \<Longrightarrow> o_id ` set q' \<subseteq> o_id ` set q"
proof (induction ok r q arbitrary: fs r' q' rule: fills.induct)
  case (2 ok r m q)
  then show ?case by (fastforce split: if_splits prod.splits)
qed simp

lemma fills_traded:
  "fills ok r q = (fs, r', q') \<Longrightarrow> unat r' + traded fs = unat r"
proof (induction ok r q arbitrary: fs r' q' rule: fills.induct)
  case (2 ok r m q)
  show ?case
  proof (cases "r = 0 \<or> \<not> ok (o_price m)")
    case True
    then show ?thesis using "2.prems" by auto
  next
    case False
    then show ?thesis
    proof (cases "o_remaining m \<le> r")
      case True
      obtain fs1 r1 q1 where f: "fills ok (r - o_remaining m) q = (fs1, r1, q1)" by (metis prod_cases3)
      then have "unat r1 + traded fs1 = unat (r - o_remaining m)" using "2.IH" False True by blast
      moreover have "unat (o_remaining m) \<le> unat r" using True by (simp add: word_le_nat_alt)
      ultimately show ?thesis using "2.prems" False True f by (auto simp: unat_sub_u64)
    next
      case False': False
      then show ?thesis using "2.prems" False by auto
    qed
  qed
qed simp

lemma fills_conserve:
  "fills ok r q = (fs, r', q') \<Longrightarrow> nsum o_remaining q' + traded fs = nsum o_remaining q"
proof (induction ok r q arbitrary: fs r' q' rule: fills.induct)
  case (2 ok r m q)
  show ?case
  proof (cases "r = 0 \<or> \<not> ok (o_price m)")
    case True
    then show ?thesis using "2.prems" by auto
  next
    case False
    then show ?thesis
    proof (cases "o_remaining m \<le> r")
      case True
      obtain fs1 r1 q1 where f: "fills ok (r - o_remaining m) q = (fs1, r1, q1)" by (metis prod_cases3)
      then have "nsum o_remaining q1 + traded fs1 = nsum o_remaining q" using "2.IH" False True by blast
      then show ?thesis using "2.prems" False True f by auto
    next
      case False': False
      then have "unat r \<le> unat (o_remaining m)" by (simp add: word_le_nat_alt)
      then show ?thesis using "2.prems" False False' by (auto simp: unat_sub_u64)
    qed
  qed
qed simp

text \<open>Every maker met was in the queue, at an acceptable price, and gave at most what it had.\<close>

lemma fills_makers:
  "fills ok r q = (fs, r', q') \<Longrightarrow> (m, x) \<in> set fs \<Longrightarrow>
     m \<in> set q \<and> ok (o_price m) \<and> x \<le> o_remaining m"
proof (induction ok r q arbitrary: fs r' q' rule: fills.induct)
  case (2 ok r m' q)
  then show ?case by (auto split: if_splits prod.splits)
qed simp

text \<open>Priority: the makers met are the front of the queue, all but the last in full.\<close>

lemma fills_front:
  "fills ok r q = (fs, r', q') \<Longrightarrow>
     (\<exists>m x rest. fs \<noteq> [] \<and> last fs = (m, x) \<and> x \<noteq> o_remaining m \<and>
         q = map fst fs @ rest \<and> q' = m\<lparr>o_remaining := o_remaining m - x\<rparr> # rest \<and>
         (\<forall>(m', x') \<in> set (butlast fs). x' = o_remaining m')) \<or>
     (q = map fst fs @ q' \<and> (\<forall>(m', x') \<in> set fs. x' = o_remaining m'))"
proof (induction ok r q arbitrary: fs r' q' rule: fills.induct)
  case (2 ok r m q)
  show ?case
  proof (cases "r = 0 \<or> \<not> ok (o_price m)")
    case True
    then show ?thesis using "2.prems" by auto
  next
    case False
    show ?thesis
    proof (cases "o_remaining m \<le> r")
      case True
      obtain fs1 where f: "fills ok (r - o_remaining m) q = (fs1, r', q')" and fs: "fs = (m, o_remaining m) # fs1"
        using "2.prems" False True by (auto split: prod.splits)
      from "2.IH" [OF False True f] show ?thesis unfolding fs by auto
    next
      case False': False
      then show ?thesis using "2.prems" False by auto
    qed
  qed
qed simp

text \<open>Filling stops only when the quantity is used up or no price crosses.\<close>

lemma fills_exhausts:
  "fills ok r q = (fs, r', q') \<Longrightarrow> r' = 0 \<or> q' = [] \<or> \<not> ok (o_price (hd q'))"
proof (induction ok r q arbitrary: fs r' q' rule: fills.induct)
  case (2 ok r m q)
  then show ?case by (auto split: if_splits prod.splits)
qed simp

lemma fills_keep_sorted:
  "fills ok r q = (fs, r', q') \<Longrightarrow> sorted_wrt R (map o_price q) \<Longrightarrow> sorted_wrt R (map o_price q')"
proof (induction ok r q arbitrary: fs r' q' rule: fills.induct)
  case (2 ok r m q)
  then show ?case by (fastforce split: if_splits prod.splits)
qed simp

end
