(* ===== verification/Engine_Refine.thy ===== *)
theory Engine_Refine
  imports New_Refine Spec_Facts
begin

text \<open>
  \<open>apply_cmd\<close> refines \<open>spec_apply\<close>: with a bound above the queue lengths and the number of
  pending stops, every admissible command returns, with the specification's events and a
  book that again represents the specification's. Section by section: matching and settling
  one order, triggering one side's stops, the recursion between the two, the commands.
\<close>

section \<open>Matching and settling\<close>

definition room :: "order_book \<Rightarrow> spec_book \<Rightarrow> new_order \<Rightarrow> bool" where
  "room b sp no \<longleftrightarrow>
     (no_kind no = Limit \<longrightarrow> no_stale b \<and> resting_qty sp + unat (no_qty no) < 2 ^ 64)"

lemma resting_side: "nsum o_remaining (queue sp sd) \<le> resting_qty sp"
  by (cases sd) (simp_all add: resting_qty_def)

lemma spec_ids_match:
  assumes "no_id no \<notin> o_id ` set (book_orders sp)" and "fills ok r (queue sp sd) = (fs, r', q')"
  shows "no_id no \<notin> o_id ` set (book_orders (sp\<lparr>queue := (queue sp)(sd := q'), sp_last := x\<rparr>))"
  using assms(1) fills_ids [OF assms(2)] by (cases sd) (auto simp: book_orders_def)

lemma same_stops_listed:
  assumes sr: "stop_rep c sd ls q" and l: "listed ls p s" and ss: "same_stops c c'"
    and dead: "c' s = None"
  shows "c s = None"
proof (rule ccontr)
  assume "c s \<noteq> None"
  then obtain r where r: "c s = Some r" by blast
  then have "o_kind r = StopMarket" using sr l by (auto simp: stop_rep_listed stop_ok_def)
  then have "c' s = Some r" using ss r unfolding same_stops_def by blast
  then show False using dead by simp
qed

lemma match_settle_refine:
  assumes al: "slab_allocator vk" and rp: "rep vk b sp"
    and no: "no_kind no \<in> {Limit, Market, Ioc, Fok}" "no_qty no \<noteq> 0"
    and id: "no_id no \<notin> o_id ` set (book_orders sp)"
    and n: "length (queue sp (opposite (no_side no))) < n" and rm: "room b sp no"
    and spm: "spec_match sp no s t = (sp1, ev1)"
  obtains slot b0 b1 filled out1 b2 where "arena_insert vk (order_of_new no s t) b = (slot, b0)"
    "match_order n b0 slot s t out = Inr (b1, filled, out1)"
    "settle_new b1 no slot filled s out1 = Inr (b2, out @ ev1)" "rep vk b2 sp1"
    "\<And>sd. stop_levels b2 sd = stop_levels b sd"
    "\<And>sd p x. listed (stop_levels b sd) p x \<Longrightarrow> cells (arena b2) x = None \<Longrightarrow> cells (arena b) x = None"
    "no_kind no \<noteq> Limit \<Longrightarrow> same_stops (cells (arena b)) (cells (arena b2))"
proof -
  let ?sd = "no_side no" and ?agg = "order_of_new no s t"
  let ?o = "opposite ?sd"
  obtain slot b0 where ins: "arena_insert vk ?agg b = (slot, b0)" by fastforce
  note ai = arena_insert_refine [OF al rp ins]
  obtain fs r q where fl: "fills (crosses ?sd (no_kind no) (no_price no)) (no_qty no) (queue sp ?o) = (fs, r, q)"
    by (metis prod_cases3)
  define spq where "spq = sp\<lparr>queue := (queue sp)(?o := q), sp_last := last_price fs (sp_last sp)\<rparr>"
  obtain ev where st: "spec_settle spq no r s t = (sp1, ev)"
    and ev1: "ev1 = concat (map (fill_events s t (no_id no) ?sd) fs) @ ev"
    using spm fl by (auto simp: spec_match_def spq_def split: prod.splits)
  have ag: "cells (arena b0) slot = Some ?agg" using ai(1) by (simp add: in_match_def)
  obtain b1 where ml: "match_loop n ?sd (no_kind no) (no_price no) slot s t 0 b0 out =
       Inr (b1, no_qty no - r, out @ concat (map (fill_events s t (no_id no) ?sd) fs))"
    and mt: "matched vk b0 slot (?agg\<lparr>o_remaining := r\<rparr>) b1 spq"
    using match_loop_refine [OF ai(1) n, of "no_kind no" "no_price no" fs r q s t 0 out] fl
    by (auto simp: spq_def)
  have mo: "match_order n b0 slot s t out =
      Inr (b1, no_qty no - r, out @ concat (map (fill_events s t (no_id no) ?sd) fs))"
    using ml ag by (simp add: match_order_def)
  have im1: "in_match vk b1 slot (?agg\<lparr>o_remaining := r\<rparr>) spq"
    and ss: "same_stops (cells (arena b)) ((cells (arena b1))(slot := None))"
    and sl1: "\<And>sd. stop_levels b1 sd = stop_levels b sd"
    using mt ai(3,4) by (simp_all add: matched_def)
  have id1: "id_index b1 (no_id no) = None"
    using im1 spec_ids_match [OF id fl] index_ids [of "(cells (arena b1))(slot := None)" b1 spq "no_id no"]
    by (simp add: in_match_def spq_def)
  have own: "queue spq ?sd = queue sp ?sd" by (simp add: spq_def)
  have lim1: "nsum o_remaining (queue spq ?sd) + unat r < 2 ^ 64" if "no_kind no = Limit"
  proof -
    have "unat r \<le> unat (no_qty no)" using fills_traded [OF fl] by simp
    then show ?thesis using rm that resting_side [of sp ?sd] by (simp add: room_def own)
  qed
  have lim2: "slot \<notin> set (stop_slots (stop_levels b1 sd))" if "no_kind no = Limit" for sd
    using no_staleD [of b slot sd] rm that ai(2) by (simp add: sl1 room_def)
  obtain b2 where b2: "settle_new b1 no slot (no_qty no - r) s
        (out @ concat (map (fill_events s t (no_id no) ?sd) fs)) = Inr (b2, out @ ev1)"
    "rep vk b2 sp1" "\<And>sd. stop_levels b2 sd = stop_levels b1 sd"
    "dom (cells (arena b1)) - {slot} \<subseteq> dom (cells (arena b2))"
    "no_kind no \<noteq> Limit \<Longrightarrow> cells (arena b2) = (cells (arena b1))(slot := None)"
    using settle_refine [OF im1 id1 no lim1 lim2 st,
        of "out @ concat (map (fill_events s t (no_id no) ?sd) fs)"]
    by (auto simp: ev1)
  show ?thesis
  proof (rule that [OF ins mo b2(1,2)])
    show "stop_levels b2 sd = stop_levels b sd" for sd using b2(3) sl1 by simp
    show "cells (arena b) x = None" if "listed (stop_levels b sd) p x" "cells (arena b2) x = None" for sd p x
    proof -
      have "stop_rep (cells (arena b)) sd (stop_levels b sd) (stops sp sd)"
        using rp by (simp add: rep_def book_rep_def)
      moreover have "((cells (arena b1))(slot := None)) x = None" using b2(4) that(2) by auto
      ultimately show ?thesis using same_stops_listed that(1) ss by blast
    qed
    show "same_stops (cells (arena b)) (cells (arena b2))" if "no_kind no \<noteq> Limit"
      using b2(5) [OF that] ss by simp
  qed
qed

section \<open>What a cascade of triggers leaves alone\<close>

definition shrunk :: "contents \<Rightarrow> contents \<Rightarrow> bool" where
  "shrunk c c' \<longleftrightarrow> (\<forall>s r'. c' s = Some r' \<longrightarrow>
     (\<exists>r. c s = Some r \<and> (o_kind r = StopMarket \<or> o_kind r' = StopMarket \<longrightarrow> r' = r)))"

definition quiet :: "(side \<Rightarrow> price \<Rightarrow> bool) \<Rightarrow> order_book \<Rightarrow> order_book \<Rightarrow> bool" where
  "quiet P b b' \<longleftrightarrow> (\<forall>sd p s. listed (stop_levels b' sd) p s \<longrightarrow>
     listed (stop_levels b sd) p s \<and>
     (cells (arena b') s = None \<longrightarrow> cells (arena b) s = None \<or> P sd p))"

abbreviation none_hit :: "side \<Rightarrow> price \<Rightarrow> bool" where
  "none_hit \<equiv> \<lambda>_ _. False"

lemma shrunk_refl [simp]: "shrunk c c"
  by (simp add: shrunk_def)

lemma shrunk_trans: "shrunk c c' \<Longrightarrow> shrunk c' c'' \<Longrightarrow> shrunk c c''"
  unfolding shrunk_def by metis

lemma shrunk_dead: "shrunk c c' \<Longrightarrow> c s = None \<Longrightarrow> c' s = None"
  unfolding shrunk_def by (metis not_None_eq option.distinct(1))

lemma shrunk_remove [simp]: "shrunk c (c(s := None))"
  by (simp add: shrunk_def)

lemma same_stops_shrunk:
  assumes "same_stops c c'"
  shows "shrunk c c'"
  unfolding shrunk_def
proof (intro allI impI)
  fix s r' assume r': "c' s = Some r'"
  then obtain r where r: "c s = Some r" using assms by (auto simp: same_stops_def)
  then show "\<exists>r. c s = Some r \<and> (o_kind r = StopMarket \<or> o_kind r' = StopMarket \<longrightarrow> r' = r)"
    using r' assms unfolding same_stops_def by (metis option.inject)
qed

lemma quiet_refl [simp]: "quiet P b b"
  by (simp add: quiet_def)

lemma quiet_trans: "quiet P b b' \<Longrightarrow> quiet P b' b'' \<Longrightarrow> quiet P b b''"
  unfolding quiet_def by blast

lemma quiet_mono: "quiet none_hit b b' \<Longrightarrow> quiet P b b'"
  by (simp add: quiet_def)

lemma quiet_no_stale: "quiet none_hit b b' \<Longrightarrow> no_stale b \<Longrightarrow> no_stale b'"
  unfolding quiet_def no_stale_def by (force simp: stop_slots_listed subset_iff domIff)

section \<open>Triggering one side\<close>

definition lens :: "spec_book \<Rightarrow> nat \<Rightarrow> bool" where
  "lens sp Q \<longleftrightarrow> (\<forall>sd. length (queue sp sd) \<le> Q)"

definition stop_taken :: "spec_book \<Rightarrow> side \<Rightarrow> order \<Rightarrow> spec_book" where
  "stop_taken sp sd r = sp\<lparr>stops := (stops sp)(sd := filter (\<lambda>x. x \<noteq> r) (stops sp sd))\<rparr>"

lemma stop_rep_take:
  assumes sr: "stop_rep c sd ls q" and r: "c s = Some r" and ix: "index_rep c idx"
  shows "stop_rep (c(s := None)) sd ls (filter (\<lambda>x. x \<noteq> r) q)"
proof -
  let ?c = "c(s := None)" and ?al = "filter (alive c) (stop_slots ls)"
  have al: "filter (alive ?c) (stop_slots ls) = filter (\<lambda>x. x \<noteq> s) ?al"
    by (simp add: filter_filter) (rule filter_cong, auto simp: alive_def split: if_splits)
  have so: "slot_order c x = r \<longleftrightarrow> x = s" if "x \<in> set ?al" for x
  proof -
    from that obtain r' where r': "c x = Some r'" "x \<in> set (stop_slots ls)" by (auto simp: alive_def)
    from stop_slot_ok [OF sr r'(2,1)] have "slot_order c x = r'" by simp
    moreover have "x = s" if "r' = r" using index_rep_id_inj [OF ix r'(1) r] that by simp
    ultimately show ?thesis using r r'(1) by auto
  qed
  have "map (slot_order ?c) (filter (\<lambda>x. x \<noteq> s) ?al) = map (slot_order c) (filter (\<lambda>x. x \<noteq> s) ?al)"
    by (rule map_cong) (auto simp: slot_order_def)
  also have "\<dots> = filter (\<lambda>x. x \<noteq> r) (map (slot_order c) ?al)"
    unfolding filter_map by (rule arg_cong [where f = "map (slot_order c)"], rule filter_cong) (use so in auto)
  finally have q: "filter (\<lambda>x. x \<noteq> r) q = map (slot_order ?c) (filter (alive ?c) (stop_slots ls))"
    using sr al by (simp add: stop_rep_listed)
  have "stop_ok ?c sd p x" if "listed ls p x" for p x
    using sr that by (auto simp: stop_rep_listed stop_ok_def)
  moreover have "distinct (filter (alive ?c) (stop_slots ls))"
    unfolding al by (rule distinct_filter) (use sr in \<open>simp add: stop_rep_listed\<close>)
  moreover have "x \<in> set (stop_slots ls)" if "pends ?c sd x" for x
    using that sr by (auto simp: stop_rep_listed pends_def split: if_splits)
  ultimately show ?thesis using sr q unfolding stop_rep_listed by blast
qed

lemma stop_take_refine:
  assumes rp: "rep vk b sp" and s: "cells (arena b) s = Some r" "o_kind r = StopMarket" "o_side r = sd"
  obtains b' where "arena_remove s (index_remove (o_id r) b) = Inr b'" "rep vk b' (stop_taken sp sd r)"
    "cells (arena b') = (cells (arena b))(s := None)" "\<And>sd. stop_levels b' sd = stop_levels b sd"
proof -
  let ?c = "cells (arena b)"
  define b' where "b' = (index_remove (o_id r) b)\<lparr>arena := \<lparr>cells = ?c(s := None), hist = Removed s # hist (arena b)\<rparr>\<rparr>"
  have ok: "slab_ok vk (arena b)" and br: "book_rep ?c b sp" using rp by (simp_all add: rep_def)
  have ix: "index_rep ?c (id_index b)" using br by (simp add: book_rep_def)
  have sl: "stop_levels b' sd = stop_levels b sd" for sd by (simp add: b'_def index_remove_def)
  have "book_rep (?c(s := None)) b' (stop_taken sp sd r)"
  proof (rule book_repI)
    fix sd'
    have "queue_rep ?c sd' (side_levels b sd') (queue sp sd')" using br by (simp add: book_rep_def)
    then have "queue_rep (?c(s := None)) sd' (side_levels b sd') (queue sp sd')"
      by (rule queue_rep_frame) (use s in \<open>auto simp: rests_def split: if_splits\<close>)
    then show "queue_rep (?c(s := None)) sd' (side_levels b' sd') (queue (stop_taken sp sd r) sd')"
      by (simp add: b'_def index_remove_def stop_taken_def)
    have st: "stop_rep ?c sd' (stop_levels b sd') (stops sp sd')" using br by (simp add: book_rep_def)
    show "stop_rep (?c(s := None)) sd' (stop_levels b' sd') (stops (stop_taken sp sd r) sd')"
    proof (cases "sd' = sd")
      case True
      then show ?thesis using stop_rep_take [OF st s(1) ix] by (simp add: sl stop_taken_def)
    next
      case False
      have "s \<notin> set (stop_slots (stop_levels b sd'))"
        using stop_slot_ok(2) [OF st _ s(1)] s(3) False by blast
      then show ?thesis
        using stop_rep_other [OF st, of s None] s False by (simp add: sl stop_taken_def pends_def)
    qed
  next
    show "index_rep (?c(s := None)) (id_index b')"
      using index_rep_remove [OF ix s(1)] by (simp add: b'_def index_remove_def)
  qed (use br in \<open>auto simp: book_rep_def b'_def index_remove_def stop_taken_def split: if_splits\<close>)
  moreover have "slab_ok vk (arena b')" using slab_ok_remove [OF ok s(1)] by (simp add: b'_def)
  ultimately have "rep vk b' (stop_taken sp sd r)" by (simp add: rep_def b'_def)
  then show ?thesis
    by (rule that [rotated]) (use s sl in \<open>simp_all add: arena_remove_def b'_def index_remove_def\<close>)
qed

text \<open>What the recursion needs of the nested calls, all of them market orders.\<close>

definition market_sim ::
  "(slab_op list \<Rightarrow> nat) \<Rightarrow> nat \<Rightarrow> nat \<Rightarrow> nat \<Rightarrow> seq_no \<Rightarrow> ts \<Rightarrow> bool" where
  "market_sim vk n k Q s t \<longleftrightarrow> (\<forall>b sp no out sp' ev.
     rep vk b sp \<longrightarrow> no_kind no = Market \<longrightarrow> lens sp Q \<longrightarrow> spec_new k sp no s t = Some (sp', ev) \<longrightarrow>
     (\<exists>b'. apply_new vk n b no s t out = Inr (b', out @ ev) \<and> rep vk b' sp' \<and> lens sp' Q \<and>
        shrunk (cells (arena b)) (cells (arena b')) \<and> quiet none_hit b b'))"

lemma stop_take_quiet:
  assumes rp: "rep vk b sp" and r: "cells (arena b) x = Some r" and P: "P (o_side r) (o_stop_price r)"
    and b': "cells (arena b') = (cells (arena b))(x := None)" "\<And>sd. stop_levels b' sd = stop_levels b sd"
  shows "quiet P b b'"
  unfolding quiet_def b'
proof (intro allI impI conjI)
  fix sd p y assume l: "listed (stop_levels b sd) p y" and dead: "((cells (arena b))(x := None)) y = None"
  have "stop_ok (cells (arena b)) sd p y" using rp l by (simp add: rep_def book_rep_def stop_rep_listed)
  then show "cells (arena b) y = None \<or> P sd p"
    using dead r P by (cases "y = x") (auto simp: stop_ok_def)
qed

lemma pending_in_stops:
  assumes "rep vk b sp" and "cells (arena b) x = Some r" and "o_kind r = StopMarket" and "o_side r = sd"
  shows "r \<in> set (stops sp sd)"
proof -
  have "stop_rep (cells (arena b)) sd (stop_levels b sd) (stops sp sd)"
    using assms(1) by (simp add: rep_def book_rep_def)
  then show ?thesis using pending_slot_order(1) assms by (simp add: pends_def)
qed

lemma not_in_stops:
  assumes rp: "rep vk b sp" and sh: "shrunk c0 (cells (arena b))" and r: "c0 x = Some r"
    and inj: "\<And>y r'. c0 y = Some r' \<Longrightarrow> o_id r' = o_id r \<Longrightarrow> y = x" and dead: "cells (arena b) x = None"
  shows "r \<notin> set (stops sp sd)"
proof
  assume "r \<in> set (stops sp sd)"
  moreover have "stop_rep (cells (arena b)) sd (stop_levels b sd) (stops sp sd)"
    using rp by (simp add: rep_def book_rep_def)
  ultimately obtain y where y: "cells (arena b) y = Some r" "pends (cells (arena b)) sd y"
    using stop_order_slot by blast
  then have "o_kind r = StopMarket" by (auto simp: pends_def)
  then have "c0 y = Some r" using sh y(1) unfolding shrunk_def by fastforce
  then have "y = x" by (rule inj) simp
  then show False using y(1) dead by simp
qed

lemma triggered_order_market: "o_kind r = StopMarket \<Longrightarrow> no_kind (triggered_order r) = Market"
  by (simp add: triggered_order_def)

definition distinct_ids :: "contents \<Rightarrow> bool" where
  "distinct_ids c \<longleftrightarrow> (\<forall>x y r r'. c x = Some r \<longrightarrow> c y = Some r' \<longrightarrow> o_id r' = o_id r \<longrightarrow> y = x)"

definition stops_at :: "contents \<Rightarrow> nat list \<Rightarrow> side \<Rightarrow> (side \<Rightarrow> price \<Rightarrow> bool) \<Rightarrow> bool" where
  "stops_at c ss sd P \<longleftrightarrow> (\<forall>x \<in> set ss. \<forall>r. c x = Some r \<longrightarrow>
     o_kind r = StopMarket \<and> o_side r = sd \<and> P sd (o_stop_price r))"

lemma trigger_slots_refine:
  assumes ms: "market_sim vk n k Q s t" and inj: "distinct_ids c0"
    and "stops_at c0 ss sd P"
    and "rep vk b sp" and "shrunk c0 (cells (arena b))" and "lens sp Q"
    and "spec_trigger k sd (map (the \<circ> c0) (filter (alive c0) ss)) sp s t = Some (sp', ev)"
  shows "\<exists>b'. trigger_slots vk n ss b s t out = Inr (b', out @ ev) \<and> rep vk b' sp' \<and> lens sp' Q \<and>
    shrunk (cells (arena b)) (cells (arena b')) \<and> quiet P b b' \<and>
    (\<forall>x \<in> set ss. cells (arena b') x = None)"
  using assms(3-)
proof (induction ss arbitrary: b sp ev out)
  case Nil
  then show ?case by simp
next
  case (Cons x ss)
  note rp = Cons.prems(2) and sh = Cons.prems(3) and ln = Cons.prems(4) and tr = Cons.prems(5)
  have st': "stops_at c0 ss sd P" using Cons.prems(1) by (simp add: stops_at_def)
  show ?case
  proof (cases "cells (arena b) x")
    case None
    have "spec_trigger k sd (map (the \<circ> c0) (filter (alive c0) ss)) sp s t = Some (sp', ev)"
    proof (cases "c0 x")
      case None
      then show ?thesis using tr by (simp add: alive_def [of c0 x] comp_def)
    next
      case (Some r)
      have "r \<notin> set (stops sp sd)"
        using not_in_stops [OF rp sh Some _ None] inj Some unfolding distinct_ids_def by blast
      then show ?thesis using tr Some by (simp add: alive_def [of c0 x] comp_def)
    qed
    from Cons.IH [OF st' rp sh ln this] obtain b' where b':
      "trigger_slots vk n ss b s t out = Inr (b', out @ ev)" "rep vk b' sp'" "lens sp' Q"
      "shrunk (cells (arena b)) (cells (arena b'))" "quiet P b b'"
      "\<forall>x \<in> set ss. cells (arena b') x = None" by blast
    then show ?thesis using None shrunk_dead [OF b'(4) None] by auto
  next
    case (Some r)
    then obtain r0 where r0: "c0 x = Some r0" using sh by (auto simp: shrunk_def)
    then have k0: "o_kind r0 = StopMarket" "o_side r0 = sd" "P sd (o_stop_price r0)"
      using Cons.prems(1) by (auto simp: stops_at_def)
    have rr: "r0 = r" using sh Some r0 k0 unfolding shrunk_def by fastforce
    have mem: "r \<in> set (stops sp sd)" using pending_in_stops [OF rp Some] k0 rr by simp
    obtain sp1 ev1 sp2 ev2 where sn: "spec_new k (stop_taken sp sd r) (triggered_order r) s t = Some (sp1, ev1)"
      and stt: "spec_trigger k sd (map (the \<circ> c0) (filter (alive c0) ss)) sp1 s t = Some (sp', ev2)"
      and ev: "ev = ev1 @ ev2"
      using tr r0 rr mem by (auto simp: alive_def [of c0 x] comp_def stop_taken_def split: option.splits)
    obtain b1 where b1: "arena_remove x (index_remove (o_id r) b) = Inr b1" "rep vk b1 (stop_taken sp sd r)"
      "cells (arena b1) = (cells (arena b))(x := None)" "\<And>sd. stop_levels b1 sd = stop_levels b sd"
      using stop_take_refine [OF rp Some, of sd] k0 rr by auto
    have q1: "quiet P b b1" using stop_take_quiet [where P = P, OF rp Some _ b1(3,4)] k0 rr by simp
    have ln1: "lens (stop_taken sp sd r) Q" using ln by (simp add: lens_def stop_taken_def)
    obtain b2 where b2: "apply_new vk n b1 (triggered_order r) s t out = Inr (b2, out @ ev1)" "rep vk b2 sp1"
      "lens sp1 Q" "shrunk (cells (arena b1)) (cells (arena b2))" "quiet none_hit b1 b2"
      using ms b1(2) ln1 sn triggered_order_market [of r] k0 rr unfolding market_sim_def by blast
    have sh2: "shrunk (cells (arena b)) (cells (arena b2))"
      using shrunk_trans [OF _ b2(4)] b1(3) by simp
    obtain b3 where b3: "trigger_slots vk n ss b2 s t (out @ ev1) = Inr (b3, (out @ ev1) @ ev2)" "rep vk b3 sp'"
      "lens sp' Q" "shrunk (cells (arena b2)) (cells (arena b3))" "quiet P b2 b3"
      "\<forall>x \<in> set ss. cells (arena b3) x = None"
      using Cons.IH [OF st' b2(2) shrunk_trans [OF sh sh2] b2(3) stt] by blast
    have "trigger_slots vk n (x # ss) b s t out = Inr (b3, out @ ev)"
      using Some b1(1) b2(1) b3(1) ev by simp
    moreover have "quiet P b b3"
      using q1 quiet_mono [OF b2(5)] b3(5) quiet_trans by blast
    moreover have "cells (arena b3) x = None"
      using shrunk_dead [OF b3(4) shrunk_dead [OF b2(4)]] b1(3) by simp
    ultimately show ?thesis using b3(2,3,6) shrunk_trans [OF sh2 b3(4)] by auto
  qed
qed

section \<open>The two sides of \<^verbatim>\<open>trigger_stops\<close>\<close>

definition hits :: "side \<Rightarrow> price \<Rightarrow> price \<Rightarrow> bool" where
  "hits sd lst p = (case sd of Buy \<Rightarrow> p \<le> lst | Sell \<Rightarrow> p \<ge> lst)"

lemma stop_hit_hits: "stop_hit sd lst r = hits sd lst (o_stop_price r)"
  by (simp add: stop_hit_def hits_def)

text \<open>The slots a trigger price range collects, and the sweep of that range.\<close>

definition hit_slots :: "side \<Rightarrow> price \<Rightarrow> order_book \<Rightarrow> nat list" where
  "hit_slots sd lst b = stop_slots (filter (\<lambda>pl. hits sd lst (fst pl)) (stop_levels b sd))"

definition sweep :: "side \<Rightarrow> price \<Rightarrow> order_book \<Rightarrow> order_book" where
  "sweep sd lst b = (case sd of
     Buy \<Rightarrow> b\<lparr>stop_buys := bt_retain (\<lambda>p. p > lst) (stop_buys b)\<rparr>
   | Sell \<Rightarrow> b\<lparr>stop_sells := bt_retain (\<lambda>p. unReverse p < lst) (stop_sells b)\<rparr>)"

lemma hit_slots_code:
  "concat (map snd (bt_range_to lst (stop_buys b))) = hit_slots Buy lst b"
  "concat (map snd (bt_range_to (Reverse lst) (stop_sells b))) = hit_slots Sell lst b"
proof -
  show "concat (map snd (bt_range_to lst (stop_buys b))) = hit_slots Buy lst b"
    by (simp add: hit_slots_def stop_slots_def bt_range_to_def stop_levels_def hits_def)
  have "concat (map snd (filter (\<lambda>kv. fst kv \<le> Reverse lst) m)) =
    concat (map snd (filter (\<lambda>pl. lst \<le> fst pl) (map (\<lambda>(k, l). (unReverse k, l)) m)))" for m :: "(price reverse, nat list) btree"
    by (induction m) (auto simp: less_eq_reverse_def)
  then show "concat (map snd (bt_range_to (Reverse lst) (stop_sells b))) = hit_slots Sell lst b"
    by (simp add: hit_slots_def stop_slots_def bt_range_to_def stop_levels_def hits_def)
qed

lemma trigger_stops_sides:
  "trigger_stops vk n b lst s t out =
     rbind (trigger_slots vk n (hit_slots Buy lst b) b s t out) (\<lambda>(b, out).
     let b = sweep Buy lst b in
     rbind (trigger_slots vk n (hit_slots Sell lst b) b s t out) (\<lambda>(b, out).
     Inr (sweep Sell lst b, out)))"
  by (simp add: hit_slots_code sweep_def Let_def)

lemma sweep_frame [simp]:
  "arena (sweep sd lst b) = arena b" "id_index (sweep sd lst b) = id_index b"
  "last_trade (sweep sd lst b) = last_trade b" "side_levels (sweep sd lst b) sd' = side_levels b sd'"
  by (cases sd; simp add: sweep_def)+

lemma sweep_levels:
  "stop_levels (sweep sd lst b) sd' =
     (if sd' = sd then filter (\<lambda>pl. \<not> hits sd lst (fst pl)) (stop_levels b sd) else stop_levels b sd')"
proof -
  have "map (\<lambda>(k, l). (unReverse k, l)) (filter (\<lambda>kv. unReverse (fst kv) < lst) m) =
    filter (\<lambda>pl. \<not> lst \<le> fst pl) (map (\<lambda>(k, l). (unReverse k, l)) m)" for m :: "(price reverse, nat list) btree"
    by (induction m) auto
  then show ?thesis
    by (cases sd; cases sd') (auto simp: sweep_def stop_levels_def bt_retain_def hits_def not_le)
qed

lemma listed_filter: "listed (filter (\<lambda>pl. F (fst pl)) ls) p s \<longleftrightarrow> listed ls p s \<and> F p"
  by (auto simp: listed_def)

lemma hit_slots_listed: "x \<in> set (hit_slots sd lst b) \<longleftrightarrow> (\<exists>p. listed (stop_levels b sd) p x \<and> hits sd lst p)"
  by (simp add: hit_slots_def stop_slots_listed listed_filter)

text \<open>The orders the specification triggers are the live slots the code collects.\<close>

lemma stop_slots_Cons [simp]: "stop_slots ((p, ss) # ls) = ss @ stop_slots ls"
  by (simp add: stop_slots_def)

lemma hit_orders:
  assumes "\<And>p s. listed ls p s \<Longrightarrow> stop_ok c sd p s"
  shows "filter (stop_hit sd lst) (map (slot_order c) (filter (alive c) (stop_slots ls))) =
    map (the \<circ> c) (filter (alive c) (stop_slots (filter (\<lambda>pl. hits sd lst (fst pl)) ls)))"
  using assms
proof (induction ls)
  case Nil
  then show ?case by (simp add: stop_slots_def)
next
  case (Cons pl ls)
  obtain p ss where pl: "pl = (p, ss)" by fastforce
  have ok: "slot_order c s = the (c s) \<and> stop_hit sd lst (the (c s)) = hits sd lst p"
    if "s \<in> set (filter (alive c) ss)" for s
  proof -
    have "stop_ok c sd p s" using Cons.prems [of p s] that pl by simp
    then show ?thesis using that by (auto simp: stop_ok_def alive_def slot_order_def stop_hit_hits)
  qed
  have "filter (stop_hit sd lst) (map (slot_order c) (filter (alive c) ss)) =
      (if hits sd lst p then map (the \<circ> c) (filter (alive c) ss) else [])"
    using ok by (induction ss) auto
  moreover have "filter (stop_hit sd lst) (map (slot_order c) (filter (alive c) (stop_slots ls))) =
    map (the \<circ> c) (filter (alive c) (stop_slots (filter (\<lambda>pl. hits sd lst (fst pl)) ls)))"
    by (rule Cons.IH) (use Cons.prems pl in auto)
  ultimately show ?case by (simp add: pl del: filter_map)
qed

lemma stop_slots_live_filter:
  assumes "\<And>p s. listed ls p s \<Longrightarrow> F p \<Longrightarrow> c s = None"
  shows "filter (alive c) (stop_slots (filter (\<lambda>pl. \<not> F (fst pl)) ls)) = filter (alive c) (stop_slots ls)"
  using assms
proof (induction ls)
  case (Cons pl ls)
  obtain p ss where pl: "pl = (p, ss)" by fastforce
  have "F p \<Longrightarrow> filter (alive c) ss = []"
    using Cons.prems [of p] pl by (auto simp: filter_empty_conv alive_def)
  moreover have "filter (alive c) (stop_slots (filter (\<lambda>pl. \<not> F (fst pl)) ls)) = filter (alive c) (stop_slots ls)"
    by (rule Cons.IH) (use Cons.prems pl in auto)
  ultimately show ?case by (simp add: pl)
qed simp

lemma stop_rep_sweep:
  assumes sr: "stop_rep c sd ls q" and dead: "\<And>p s. listed ls p s \<Longrightarrow> F p \<Longrightarrow> c s = None"
  shows "stop_rep c sd (filter (\<lambda>pl. \<not> F (fst pl)) ls) q"
proof -
  have eq: "filter (alive c) (stop_slots (filter (\<lambda>pl. \<not> F (fst pl)) ls)) = filter (alive c) (stop_slots ls)"
    by (rule stop_slots_live_filter) (rule dead)
  have "lv_sorted (opposite sd) (filter (\<lambda>pl. \<not> F (fst pl)) ls)"
    using sr by (auto simp: stop_rep_listed lv_sorted_def sorted_wrt_map intro: sorted_wrt_filter)
  moreover have "x \<in> set (stop_slots (filter (\<lambda>pl. \<not> F (fst pl)) ls))" if "pends c sd x" for x
  proof -
    have "x \<in> set (filter (alive c) (stop_slots ls))"
      using that sr by (auto simp: stop_rep_listed pends_def alive_def)
    then show ?thesis unfolding eq [symmetric] by simp
  qed
  ultimately show ?thesis
    using sr unfolding stop_rep_listed eq listed_filter [where F = "\<lambda>p. \<not> F p"] by blast
qed

lemma sweep_refine:
  assumes rp: "rep vk b sp" and dead: "\<And>p x. listed (stop_levels b sd) p x \<Longrightarrow> hits sd lst p \<Longrightarrow> cells (arena b) x = None"
  shows "rep vk (sweep sd lst b) sp"
proof -
  have br: "book_rep (cells (arena b)) b sp" and ok: "slab_ok vk (arena b)" using rp by (simp_all add: rep_def)
  have "book_rep (cells (arena b)) (sweep sd lst b) sp"
  proof (rule book_repI)
    fix sd'
    have st: "stop_rep (cells (arena b)) sd' (stop_levels b sd') (stops sp sd')"
      using br by (simp add: book_rep_def)
    show "stop_rep (cells (arena b)) sd' (stop_levels (sweep sd lst b) sd') (stops sp sd')"
      using st stop_rep_sweep [OF st, of "hits sd lst"] dead by (cases "sd' = sd") (simp_all add: sweep_levels)
  qed (use br in \<open>auto simp: book_rep_def\<close>)
  then show ?thesis using ok by (simp add: rep_def)
qed

definition at_hit :: "side \<Rightarrow> price \<Rightarrow> side \<Rightarrow> price \<Rightarrow> bool" where
  "at_hit sd lst sd' p \<longleftrightarrow> sd' = sd \<and> hits sd lst p"

lemma trigger_side_refine:
  assumes ms: "market_sim vk n k Q s t" and rp: "rep vk b sp" and ln: "lens sp Q"
    and tr: "spec_trigger k sd (filter (stop_hit sd lst) (stops sp sd)) sp s t = Some (sp', ev)"
  obtains b' where "trigger_slots vk n (hit_slots sd lst b) b s t out = Inr (b', out @ ev)"
    "rep vk (sweep sd lst b') sp'" "lens sp' Q"
    "shrunk (cells (arena b)) (cells (arena b'))" "quiet none_hit b (sweep sd lst b')"
proof -
  let ?c = "cells (arena b)"
  have br: "book_rep ?c b sp" using rp by (simp add: rep_def)
  have st: "stop_rep ?c sd (stop_levels b sd) (stops sp sd)" using br by (simp add: book_rep_def)
  have ok: "stop_ok ?c sd p x" if "listed (stop_levels b sd) p x" for p x
    using st that by (simp add: stop_rep_listed)
  have inj: "distinct_ids ?c"
    unfolding distinct_ids_def using br index_rep_id_inj by (metis book_rep_def)
  have hit: "stops_at ?c (hit_slots sd lst b) sd (at_hit sd lst)"
    unfolding stops_at_def using ok by (fastforce simp: hit_slots_listed stop_ok_def at_hit_def)
  have ords: "filter (stop_hit sd lst) (stops sp sd) = map (the \<circ> ?c) (filter (alive ?c) (hit_slots sd lst b))"
    using hit_orders [of "stop_levels b sd" ?c sd lst] ok st by (simp add: stop_rep_listed hit_slots_def)
  obtain b' where b': "trigger_slots vk n (hit_slots sd lst b) b s t out = Inr (b', out @ ev)"
    "rep vk b' sp'" "lens sp' Q" "shrunk ?c (cells (arena b'))" "quiet (at_hit sd lst) b b'"
    and dead: "\<forall>x \<in> set (hit_slots sd lst b). cells (arena b') x = None"
    using trigger_slots_refine [where P = "at_hit sd lst" and ?c0.0 = ?c, OF ms inj hit rp shrunk_refl ln tr [unfolded ords]]
    by blast
  have swept: "cells (arena b') x = None" if "listed (stop_levels b' sd) p x" "hits sd lst p" for p x
    using that b'(5) dead by (auto simp: quiet_def hit_slots_listed)
  have "quiet none_hit b (sweep sd lst b')"
    unfolding quiet_def
  proof (intro allI impI conjI)
    fix sd' p x assume l: "listed (stop_levels (sweep sd lst b') sd') p x"
    then have l': "listed (stop_levels b' sd') p x" "\<not> at_hit sd lst sd' p"
      using listed_filter [where F = "\<lambda>p. \<not> hits sd lst p" and ls = "stop_levels b' sd"]
      by (auto simp: sweep_levels at_hit_def split: if_splits)
    then show "listed (stop_levels b sd') p x" using b'(5) by (simp add: quiet_def)
    assume "cells (arena (sweep sd lst b')) x = None"
    then show "?c x = None \<or> none_hit sd' p" using l' b'(5) by (auto simp: quiet_def)
  qed
  moreover have "rep vk (sweep sd lst b') sp'" using b'(2) swept by (rule sweep_refine)
  ultimately show ?thesis using that b'(1,3,4) by blast
qed

lemma trigger_stops_refine:
  assumes ms: "market_sim vk n k Q s t" and rp: "rep vk b sp" and ln: "lens sp Q"
    and tb: "spec_trigger k Buy (filter (stop_hit Buy lst) (stops sp Buy)) sp s t = Some (sp1, ev1)"
    and ts: "spec_trigger k Sell (filter (stop_hit Sell lst) (stops sp1 Sell)) sp1 s t = Some (sp2, ev2)"
  obtains b' where "trigger_stops vk n b lst s t out = Inr (b', out @ ev1 @ ev2)" "rep vk b' sp2" "lens sp2 Q"
    "shrunk (cells (arena b)) (cells (arena b'))" "quiet none_hit b b'"
proof -
  obtain b1 where b1: "trigger_slots vk n (hit_slots Buy lst b) b s t out = Inr (b1, out @ ev1)"
    "rep vk (sweep Buy lst b1) sp1" "lens sp1 Q"
    "shrunk (cells (arena b)) (cells (arena b1))" "quiet none_hit b (sweep Buy lst b1)"
    by (rule trigger_side_refine [OF ms rp ln tb])
  obtain b2 where b2:
    "trigger_slots vk n (hit_slots Sell lst (sweep Buy lst b1)) (sweep Buy lst b1) s t (out @ ev1) =
       Inr (b2, (out @ ev1) @ ev2)"
    "rep vk (sweep Sell lst b2) sp2" "lens sp2 Q"
    "shrunk (cells (arena (sweep Buy lst b1))) (cells (arena b2))"
    "quiet none_hit (sweep Buy lst b1) (sweep Sell lst b2)"
    by (rule trigger_side_refine [OF ms b1(2,3) ts])
  show ?thesis
  proof (rule that [of "sweep Sell lst b2"])
    show "trigger_stops vk n b lst s t out = Inr (sweep Sell lst b2, out @ ev1 @ ev2)"
      unfolding trigger_stops_sides using b1(1) b2(1) by (simp add: Let_def)
    show "shrunk (cells (arena b)) (cells (arena (sweep Sell lst b2)))"
      using shrunk_trans [OF b1(4)] b2(4) by simp
    show "quiet none_hit b (sweep Sell lst b2)" using b1(5) b2(5) by (rule quiet_trans)
  qed (use b2 in auto)
qed

section \<open>The recursion\<close>

lemma spec_match_lens:
  assumes "spec_match sp no s t = (sp1, ev1)"
  shows "lens sp Q \<Longrightarrow> lens sp1 (Suc Q)" and "lens sp Q \<Longrightarrow> no_kind no \<noteq> Limit \<Longrightarrow> lens sp1 Q"
proof -
  obtain fs r q where fl: "fills (crosses (no_side no) (no_kind no) (no_price no)) (no_qty no)
      (queue sp (opposite (no_side no))) = (fs, r, q)" by (metis prod_cases3)
  have le: "length q \<le> length (queue sp (opposite (no_side no)))" by (rule fills_length [OF fl])
  show "lens sp1 (Suc Q)" if "lens sp Q"
    unfolding lens_def
  proof
    fix sd
    have "length (queue sp sd') \<le> Q" for sd' using that by (simp add: lens_def)
    from this [of sd] this [of "opposite (no_side no)"] le
    show "length (queue sp1 sd) \<le> Suc Q"
      using assms fl by (auto simp: spec_match_def spec_settle_def Let_def split: if_splits)
  qed
  show "lens sp1 Q" if "lens sp Q" "no_kind no \<noteq> Limit"
    unfolding lens_def
  proof
    fix sd
    have "length (queue sp sd') \<le> Q" for sd' using that(1) by (simp add: lens_def)
    from this [of sd] this [of "opposite (no_side no)"] le
    show "length (queue sp1 sd) \<le> Q"
      using assms fl that(2) by (auto simp: spec_match_def spec_settle_def Let_def split: if_splits)
  qed
qed

text \<open>An order that passes validation and is not held: match, settle, trigger.\<close>

lemma apply_new_go:
  assumes al: "slab_allocator vk" and rp: "rep vk b sp"
    and val: "spec_validate sp no = None" and kd: "no_kind no \<in> {Limit, Market, Ioc, Fok}"
    and fok: "\<not> (no_kind no = Fok \<and> spec_available sp (no_side no) (no_price no) < unat (no_qty no))"
    and rm: "room b sp no" and ln: "lens sp Q" and n: "Q < n"
    and ms: "market_sim vk n k Q' s t" and Q': "Q' = (if no_kind no = Limit then Suc Q else Q)"
    and sp': "spec_new (Suc k) sp no s t = Some (sp', ev)"
  obtains b' where "apply_new vk (Suc n) b no s t out = Inr (b', out @ ev)" "rep vk b' sp'" "lens sp' Q'"
    "quiet none_hit b b'" "no_kind no \<noteq> Limit \<Longrightarrow> shrunk (cells (arena b)) (cells (arena b'))"
proof -
  have br: "book_rep (cells (arena b)) b sp" using rp by (simp add: rep_def)
  have qn: "no_qty no \<noteq> 0" and id: "no_id no \<notin> o_id ` set (book_orders sp)"
    using val by (auto simp: spec_validate_def split: if_splits)
  have len: "length (queue sp (opposite (no_side no))) < n"
  proof -
    have "length (queue sp (opposite (no_side no))) \<le> Q" using ln by (simp add: lens_def)
    then show ?thesis using n by simp
  qed
  obtain sp1 ev1 where sm: "spec_match sp no s t = (sp1, ev1)" by fastforce
  have ln1: "lens sp1 Q'" using spec_match_lens [OF sm ln] Q' by auto
  let ?out = "out @ [Accepted (no_id no) s]"
  obtain slot b0 b1 filled out1 b2 where st: "arena_insert vk (order_of_new no s t) b = (slot, b0)"
    "match_order n b0 slot s t ?out = Inr (b1, filled, out1)"
    "settle_new b1 no slot filled s out1 = Inr (b2, ?out @ ev1)" and rp2: "rep vk b2 sp1"
    and sl: "\<And>sd. stop_levels b2 sd = stop_levels b sd"
    and dead: "\<And>sd p x. listed (stop_levels b sd) p x \<Longrightarrow> cells (arena b2) x = None \<Longrightarrow> cells (arena b) x = None"
    and ss: "no_kind no \<noteq> Limit \<Longrightarrow> same_stops (cells (arena b)) (cells (arena b2))"
    by (rule match_settle_refine [OF al rp kd qn id len rm sm, of ?out]) (rule that; assumption)
  have q2: "quiet none_hit b b2" using sl dead by (auto simp: quiet_def)
  have lt: "last_trade b2 = sp_last sp1" using rp2 by (simp add: rep_def book_rep_def)
  have ev_new: "apply_new vk (Suc n) b no s t out =
     (case last_trade b2 of None \<Rightarrow> Inr (b2, ?out @ ev1)
      | Some lst \<Rightarrow> trigger_stops vk n b2 lst s t (?out @ ev1))"
    using validate_refine [OF br, of no] val kd fok st
    by (cases "last_trade b2")
      (auto simp: available_refine [OF br] Let_def simp del: trigger_stops.simps)
  have spn: "spec_new (Suc k) sp no s t =
      (case sp_last sp1 of
         None \<Rightarrow> Some (sp1, Accepted (no_id no) s # ev1)
       | Some lst \<Rightarrow>
           (case spec_trigger k Buy (filter (stop_hit Buy lst) (stops sp1 Buy)) sp1 s t of
              None \<Rightarrow> None
            | Some (sp2, ev2) \<Rightarrow>
                (case spec_trigger k Sell (filter (stop_hit Sell lst) (stops sp2 Sell)) sp2 s t of
                   None \<Rightarrow> None
                 | Some (sp3, ev3) \<Rightarrow> Some (sp3, Accepted (no_id no) s # ev1 @ ev2 @ ev3))))"
    using val kd fok sm by auto
  show ?thesis
  proof (cases "sp_last sp1")
    case None
    then have "apply_new vk (Suc n) b no s t out = Inr (b2, out @ ev)" "sp' = sp1"
      using ev_new spn sp' lt by auto
    then show ?thesis using that rp2 ln1 q2 ss same_stops_shrunk by blast
  next
    case (Some lst)
    then obtain sp2 ev2 ev3 where
      tb: "spec_trigger k Buy (filter (stop_hit Buy lst) (stops sp1 Buy)) sp1 s t = Some (sp2, ev2)"
      and ts: "spec_trigger k Sell (filter (stop_hit Sell lst) (stops sp2 Sell)) sp2 s t = Some (sp', ev3)"
      and ev: "ev = Accepted (no_id no) s # ev1 @ ev2 @ ev3"
      using spn sp' by (auto split: option.splits)
    obtain b3 where b3: "trigger_stops vk n b2 lst s t (?out @ ev1) = Inr (b3, (?out @ ev1) @ ev2 @ ev3)"
      "rep vk b3 sp'" "lens sp' Q'" "shrunk (cells (arena b2)) (cells (arena b3))" "quiet none_hit b2 b3"
      by (rule trigger_stops_refine [OF ms rp2 ln1 tb ts])
    have "apply_new vk (Suc n) b no s t out = Inr (b3, out @ ev)"
      using ev_new lt Some b3(1) ev by simp
    then show ?thesis
      using that b3(2,3) quiet_trans [OF q2 b3(5)] shrunk_trans [OF same_stops_shrunk [OF ss] b3(4)] by blast
  qed
qed

lemma apply_new_market:
  assumes al: "slab_allocator vk"
  shows "k + Q < n \<Longrightarrow> market_sim vk n k Q s t"
proof (induction k arbitrary: n)
  case 0
  then show ?case by (simp add: market_sim_def)
next
  case (Suc k)
  then obtain n' where n': "n = Suc n'" by (cases n) auto
  have ms: "market_sim vk n' k Q s t" using Suc n' by simp
  show ?case
    unfolding market_sim_def n'
  proof (intro allI impI)
    fix b sp no out sp' ev
    assume rp: "rep vk b sp" and kd: "no_kind no = Market" and ln: "lens sp Q"
      and sp': "spec_new (Suc k) sp no s t = Some (sp', ev)"
    show "\<exists>b'. apply_new vk (Suc n') b no s t out = Inr (b', out @ ev) \<and> rep vk b' sp' \<and> lens sp' Q \<and>
        shrunk (cells (arena b)) (cells (arena b')) \<and> quiet none_hit b b'"
    proof (cases "spec_validate sp no")
      case None
      have "Q < n'" using Suc.prems n' by simp
      have k4: "no_kind no \<in> {Limit, Market, Ioc, Fok}" and rm: "room b sp no"
        and nf: "\<not> (no_kind no = Fok \<and> spec_available sp (no_side no) (no_price no) < unat (no_qty no))"
        and Q: "Q = (if no_kind no = Limit then Suc Q else Q)"
        using kd by (simp_all add: room_def)
      obtain b' where "apply_new vk (Suc n') b no s t out = Inr (b', out @ ev)" "rep vk b' sp'" "lens sp' Q"
        "quiet none_hit b b'" "no_kind no \<noteq> Limit \<Longrightarrow> shrunk (cells (arena b)) (cells (arena b'))"
        by (rule apply_new_go [where out = out, OF al rp None k4 nf rm ln \<open>Q < n'\<close> ms Q sp'])
          (rule that; assumption)
      then show ?thesis using kd by auto
    next
      case (Some r)
      have "validate_new b no = Some r" using validate_refine rp Some by (metis rep_def)
      then show ?thesis using Some sp' rp ln by auto
    qed
  qed
qed

text \<open>The orders the refinement covers, and enough recursion and loop bound for them.\<close>

definition admissible :: "order_book \<Rightarrow> spec_book \<Rightarrow> new_order \<Rightarrow> bool" where
  "admissible b sp no \<longleftrightarrow> no_kind no \<noteq> StopLimit \<and> room b sp no \<and> (no_kind no = StopMarket \<longrightarrow> no_stale b)"

lemma apply_new_refine:
  assumes al: "slab_allocator vk" and rp: "rep vk b sp" and ad: "admissible b sp no"
    and ln: "lens sp Q" and n: "Suc (k + Q) < n"
    and sp': "spec_new k sp no s t = Some (sp', ev)"
  obtains b' where "apply_new vk n b no s t out = Inr (b', out @ ev)" "rep vk b' sp'" "lens sp' (Suc Q)"
    "no_stale b \<Longrightarrow> no_stale b'"
proof -
  obtain k' where k: "k = Suc k'" using sp' by (cases k) auto
  obtain n' where n': "n = Suc n'" using n by (cases n) auto
  have ln': "lens sp (Suc Q)" using ln by (auto simp: lens_def le_SucI)
  have br: "book_rep (cells (arena b)) b sp" using rp by (simp add: rep_def)
  note v = validate_refine [OF br, of no]
  consider (reject) r where "spec_validate sp no = Some r"
    | (hold) "spec_validate sp no = None" "no_kind no = StopMarket"
    | (fok) "spec_validate sp no = None" "no_kind no = Fok"
        "spec_available sp (no_side no) (no_price no) < unat (no_qty no)"
    | (go) "spec_validate sp no = None" "no_kind no \<in> {Limit, Market, Ioc, Fok}"
        "\<not> (no_kind no = Fok \<and> spec_available sp (no_side no) (no_price no) < unat (no_qty no))"
    using ad unfolding admissible_def by (cases "spec_validate sp no"; cases "no_kind no") auto
  then show ?thesis
  proof cases
    case reject
    then show ?thesis using that [of b] v sp' rp ln' by (simp add: k n')
  next
    case hold
    have qn: "no_qty no \<noteq> 0" and id: "id_index b (no_id no) = None"
      using hold(1) index_ids [OF br, of "no_id no"] by (auto simp: spec_validate_def split: if_splits)
    have ns: "no_stale b" using ad hold by (simp add: admissible_def)
    note h = hold_stop_refine [OF al rp ns hold(2) qn id, of s t]
    show ?thesis
      using that [of "hold_stop vk b no s t"] h v hold sp' ln' by (auto simp: k n' lens_def)
  next
    case fok
    then show ?thesis using that [of b] v sp' rp ln' by (simp add: k n' Let_def available_refine [OF br])
  next
    case go
    define Q' where "Q' = (if no_kind no = Limit then Suc Q else Q)"
    have ms: "market_sim vk n' k' Q' s t"
      using n by (intro apply_new_market [OF al]) (auto simp: k n' Q'_def)
    have rm: "room b sp no" using ad by (simp add: admissible_def)
    have qn: "Q < n'" using n n' by simp
    obtain b' where b': "apply_new vk (Suc n') b no s t out = Inr (b', out @ ev)" "rep vk b' sp'" "lens sp' Q'"
      "quiet none_hit b b'"
      by (rule apply_new_go [where out = out, OF al rp go rm ln qn ms Q'_def sp' [unfolded k]])
    have "lens sp' (Suc Q)" using b'(3) by (auto simp: Q'_def lens_def le_SucI split: if_splits)
    then show ?thesis using that [of b'] b' quiet_no_stale by (simp add: n')
  qed
qed

end
