(* ===== verification/Cmd_Refine.thy ===== *)
theory Cmd_Refine
  imports Engine_Refine
begin

text \<open>
  Cancel, replace, \<open>apply_cmd\<close> and whole sessions. The specification's depth bound is
  shown to be enough, its resting quantity bounded by what the commands bring in, and so the
  conditions of the refinement are met along every session of admissible commands.
\<close>

section \<open>The specification is total\<close>

lemma spec_match_stops: "spec_match sp no s t = (sp1, ev1) \<Longrightarrow> stops sp1 = stops sp"
  by (auto simp: spec_match_def spec_settle_def Let_def split: prod.splits if_splits)

lemma pending_taken: "r \<in> set (stops sp sd) \<Longrightarrow> pending (stop_taken sp sd r) < pending sp"
proof -
  assume r: "r \<in> set (stops sp sd)"
  then have "length (filter (\<lambda>x. x \<noteq> r) (stops sp sd)) < length (stops sp sd)"
    by (induction "stops sp sd" arbitrary: sp) (auto simp: length_filter_less)
  then show ?thesis by (cases sd) (auto simp: pending_def stop_taken_def)
qed

definition no_new_stop :: "new_order \<Rightarrow> bool" where
  "no_new_stop no \<longleftrightarrow> no_kind no \<noteq> StopMarket \<and> no_kind no \<noteq> StopLimit"

lemma no_new_stop_triggered [simp]: "no_new_stop (triggered_order r)"
  by (simp add: no_new_stop_def triggered_order_def)

lemma spec_new_Suc:
  assumes "spec_validate sp no = None" and "no_new_stop no"
    and "\<not> (no_kind no = Fok \<and> spec_available sp (no_side no) (no_price no) < unat (no_qty no))"
    and "spec_match sp no s t = (sp1, ev1)"
  shows "spec_new (Suc k) sp no s t =
      (case sp_last sp1 of
         None \<Rightarrow> Some (sp1, Accepted (no_id no) s # ev1)
       | Some lst \<Rightarrow>
           (case spec_trigger k Buy (filter (stop_hit Buy lst) (stops sp1 Buy)) sp1 s t of
              None \<Rightarrow> None
            | Some (sp2, ev2) \<Rightarrow>
                (case spec_trigger k Sell (filter (stop_hit Sell lst) (stops sp2 Sell)) sp2 s t of
                   None \<Rightarrow> None
                 | Some (sp3, ev3) \<Rightarrow> Some (sp3, Accepted (no_id no) s # ev1 @ ev2 @ ev3))))"
  using assms by (auto simp: no_new_stop_def)

lemma spec_trigger_Cons:
  "spec_trigger k sd (r # rs) sp s t =
     (if r \<in> set (stops sp sd) then
        (case spec_new k (stop_taken sp sd r) (triggered_order r) s t of
           None \<Rightarrow> None
         | Some (sp1, ev1) \<Rightarrow>
             (case spec_trigger k sd rs sp1 s t of
                None \<Rightarrow> None
              | Some (sp2, ev2) \<Rightarrow> Some (sp2, ev1 @ ev2)))
      else spec_trigger k sd rs sp s t)"
  by (simp add: stop_taken_def)

lemma spec_trigger_total:
  assumes new: "\<And>sp no. pending sp < k \<Longrightarrow> no_new_stop no \<Longrightarrow>
      \<exists>sp' ev. spec_new k sp no s t = Some (sp', ev) \<and> pending sp' \<le> pending sp"
    and "pending sp \<le> k"
  shows "\<exists>sp' ev. spec_trigger k sd rs sp s t = Some (sp', ev) \<and> pending sp' \<le> pending sp"
  using assms(2)
proof (induction rs arbitrary: sp)
  case Nil
  then show ?case by simp
next
  case (Cons r rs)
  show ?case
  proof (cases "r \<in> set (stops sp sd)")
    case True
    note lt = pending_taken [OF this]
    have "pending (stop_taken sp sd r) < k" using lt Cons.prems by simp
    then obtain sp1 ev1 where 1: "spec_new k (stop_taken sp sd r) (triggered_order r) s t = Some (sp1, ev1)"
      "pending sp1 \<le> pending (stop_taken sp sd r)" using new by (metis no_new_stop_triggered)
    then have "pending sp1 \<le> k" using lt Cons.prems by simp
    then obtain sp2 ev2 where "spec_trigger k sd rs sp1 s t = Some (sp2, ev2)" "pending sp2 \<le> pending sp1"
      using Cons.IH by blast
    then show ?thesis using True 1 lt by (simp add: spec_trigger_Cons del: spec_trigger.simps)
  next
    case False
    then show ?thesis using Cons by simp
  qed
qed

lemma spec_new_total:
  "pending sp < k \<Longrightarrow> no_new_stop no \<Longrightarrow>
     \<exists>sp' ev. spec_new k sp no s t = Some (sp', ev) \<and> pending sp' \<le> pending sp"
proof (induction k arbitrary: sp no)
  case 0
  then show ?case by simp
next
  case (Suc k)
  show ?case
  proof (cases "spec_validate sp no")
    case (Some r)
    then show ?thesis by simp
  next
    case val: None
    obtain sp1 ev1 where sm: "spec_match sp no s t = (sp1, ev1)" by fastforce
    have p1: "pending sp1 = pending sp" using spec_match_stops [OF sm] by (simp add: pending_def)
    have le: "pending sp1 \<le> k" using p1 Suc.prems(1) by simp
    show ?thesis
    proof (cases "no_kind no = Fok \<and> spec_available sp (no_side no) (no_price no) < unat (no_qty no)")
      case True
      then show ?thesis using val by simp
    next
      case False
      note e = spec_new_Suc [OF val Suc.prems(2) False sm]
      show ?thesis
      proof (cases "sp_last sp1")
        case None
        then show ?thesis using e p1 by (simp del: spec_new.simps)
      next
        case (Some lst)
        obtain sp2 ev2 where 2: "spec_trigger k Buy (filter (stop_hit Buy lst) (stops sp1 Buy)) sp1 s t = Some (sp2, ev2)"
          "pending sp2 \<le> pending sp1" using spec_trigger_total [OF Suc.IH le] by blast
        then have "pending sp2 \<le> k" using le by simp
        then obtain sp3 ev3 where "spec_trigger k Sell (filter (stop_hit Sell lst) (stops sp2 Sell)) sp2 s t = Some (sp3, ev3)"
          "pending sp3 \<le> pending sp2" using spec_trigger_total [OF Suc.IH] by blast
        then show ?thesis using e 2 Some p1 by (simp del: spec_new.simps spec_trigger.simps)
      qed
    qed
  qed
qed

lemma spec_new_total_any:
  assumes "pending sp < k"
  shows "\<exists>sp' ev. spec_new k sp no s t = Some (sp', ev) \<and> pending sp' \<le> Suc (pending sp)"
proof (cases "no_new_stop no")
  case True
  then show ?thesis using spec_new_total [OF assms, of no] le_SucI by blast
next
  case False
  then obtain k' where "k = Suc k'" using assms by (cases k) auto
  then show ?thesis
    using False by (cases "spec_validate sp no"; cases "no_side no") (auto simp: no_new_stop_def pending_def)
qed

section \<open>Resting quantity and pending stops\<close>

definition limit_qty :: "new_order \<Rightarrow> nat" where
  "limit_qty no = (if no_kind no = Limit then unat (no_qty no) else 0)"

definition market_stops :: "spec_book \<Rightarrow> bool" where
  "market_stops sp \<longleftrightarrow> (\<forall>sd. \<forall>r \<in> set (stops sp sd). o_kind r = StopMarket)"

definition within :: "nat \<Rightarrow> spec_book \<Rightarrow> spec_book \<Rightarrow> bool" where
  "within x sp sp' \<longleftrightarrow> resting_qty sp' \<le> resting_qty sp + x \<and> (\<forall>sd. set (stops sp' sd) \<subseteq> set (stops sp sd))"

lemma within_trans: "within x sp sp1 \<Longrightarrow> within 0 sp1 sp2 \<Longrightarrow> within x sp sp2"
  by (auto simp: within_def)

lemma within_stops: "within x sp sp' \<Longrightarrow> market_stops sp \<Longrightarrow> market_stops sp'"
  unfolding within_def market_stops_def by blast

lemma resting_qty_upd:
  "resting_qty (sp\<lparr>queue := (queue sp)(sd := q)\<rparr>) + nsum o_remaining (queue sp sd) =
     resting_qty sp + nsum o_remaining q"
  by (cases sd) (simp_all add: resting_qty_def)

lemma spec_match_within:
  assumes "spec_match sp no s t = (sp1, ev1)"
  shows "within (limit_qty no) sp sp1"
proof -
  let ?o = "opposite (no_side no)"
  obtain fs r q where fl: "fills (crosses (no_side no) (no_kind no) (no_price no)) (no_qty no)
      (queue sp ?o) = (fs, r, q)" by (metis prod_cases3)
  have le: "nsum o_remaining q \<le> nsum o_remaining (queue sp ?o)" using fills_conserve [OF fl] by simp
  have r: "unat r \<le> unat (no_qty no)" using fills_traded [OF fl] by simp
  have "resting_qty sp1 \<le> resting_qty sp + limit_qty no"
    using assms fl le r
    by (cases "no_side no") (auto simp: spec_match_def spec_settle_def Let_def resting_qty_def limit_qty_def split: if_splits)
  then show ?thesis using spec_match_stops [OF assms] by (simp add: within_def)
qed

lemma spec_trigger_within:
  assumes new: "\<And>sp no sp' ev. market_stops sp \<Longrightarrow> no_new_stop no \<Longrightarrow> spec_new k sp no s t = Some (sp', ev) \<Longrightarrow>
      within (limit_qty no) sp sp'"
    and "market_stops sp" and "spec_trigger k sd rs sp s t = Some (sp', ev)"
  shows "within 0 sp sp'"
  using assms(2,3)
proof (induction rs arbitrary: sp ev)
  case Nil
  then show ?case by (simp add: within_def)
next
  case (Cons r rs)
  show ?case
  proof (cases "r \<in> set (stops sp sd)")
    case True
    then obtain sp1 ev1 ev2 where 1: "spec_new k (stop_taken sp sd r) (triggered_order r) s t = Some (sp1, ev1)"
      and 2: "spec_trigger k sd rs sp1 s t = Some (sp', ev2)"
      using Cons.prems(2) by (auto simp: spec_trigger_Cons simp del: spec_trigger.simps split: option.splits)
    have w0: "within 0 sp (stop_taken sp sd r)"
      by (auto simp: within_def stop_taken_def resting_qty_def)
    have ms: "market_stops (stop_taken sp sd r)" using within_stops [OF w0 Cons.prems(1)] .
    have "limit_qty (triggered_order r) = 0"
      using True Cons.prems(1) by (auto simp: limit_qty_def triggered_order_def market_stops_def)
    then have w1: "within 0 (stop_taken sp sd r) sp1" using new [OF ms _ 1] by simp
    have "within 0 sp1 sp'" using Cons.IH [OF within_stops [OF w1 ms] 2] .
    then show ?thesis using w0 w1 within_trans by blast
  next
    case False
    then show ?thesis using Cons by simp
  qed
qed

lemma spec_new_within:
  "market_stops sp \<Longrightarrow> no_new_stop no \<Longrightarrow> spec_new k sp no s t = Some (sp', ev) \<Longrightarrow>
     within (limit_qty no) sp sp'"
proof (induction k arbitrary: sp no sp' ev)
  case 0
  then show ?case by simp
next
  case (Suc k)
  have refl: "within x sp sp" for x by (simp add: within_def)
  show ?case
  proof (cases "spec_validate sp no")
    case (Some r)
    then show ?thesis using Suc.prems(3) refl by simp
  next
    case val: None
    obtain sp1 ev1 where sm: "spec_match sp no s t = (sp1, ev1)" by fastforce
    note w1 = spec_match_within [OF sm]
    note ms1 = within_stops [OF w1 Suc.prems(1)]
    show ?thesis
    proof (cases "no_kind no = Fok \<and> spec_available sp (no_side no) (no_price no) < unat (no_qty no)")
      case True
      then show ?thesis using val Suc.prems(3) refl by simp
    next
      case False
      note e = spec_new_Suc [OF val Suc.prems(2) False sm, of k]
      show ?thesis
      proof (cases "sp_last sp1")
        case None
        then show ?thesis using e w1 Suc.prems(3) by (simp del: spec_new.simps)
      next
        case (Some lst)
        then obtain sp2 ev2 ev3 where
          2: "spec_trigger k Buy (filter (stop_hit Buy lst) (stops sp1 Buy)) sp1 s t = Some (sp2, ev2)"
          and 3: "spec_trigger k Sell (filter (stop_hit Sell lst) (stops sp2 Sell)) sp2 s t = Some (sp', ev3)"
          using e Suc.prems(3) by (auto simp del: spec_new.simps spec_trigger.simps split: option.splits)
        note w2 = spec_trigger_within [OF Suc.IH ms1 2]
        note w3 = spec_trigger_within [OF Suc.IH within_stops [OF w2 ms1] 3]
        show ?thesis using within_trans [OF within_trans [OF w1 w2] w3] .
      qed
    qed
  qed
qed

lemma stop_enqueue_ids: "o_id ` set (stop_enqueue sd r q) = insert (o_id r) (o_id ` set q)"
  by simp

text \<open>What a new order brings into the book.\<close>

definition stop_ids :: "spec_book \<Rightarrow> order_id set" where
  "stop_ids sp = o_id ` (set (stops sp Buy) \<union> set (stops sp Sell))"

lemma spec_new_bounds:
  assumes ms: "market_stops sp" and kd: "no_kind no \<noteq> StopLimit" and sp': "spec_new k sp no s t = Some (sp', ev)"
  shows "resting_qty sp' \<le> resting_qty sp + limit_qty no" and "market_stops sp'"
    and "stop_ids sp' \<subseteq> stop_ids sp \<union> (if no_kind no = StopMarket then {no_id no} else {})"
proof -
  have "resting_qty sp' \<le> resting_qty sp + limit_qty no \<and> market_stops sp' \<and>
    stop_ids sp' \<subseteq> stop_ids sp \<union> (if no_kind no = StopMarket then {no_id no} else {})"
  proof (cases "no_new_stop no")
    case True
    note w = spec_new_within [OF ms True sp']
    have "stop_ids sp' \<subseteq> stop_ids sp" using w unfolding within_def stop_ids_def by blast
    then show ?thesis using w within_stops [OF w ms] by (auto simp: within_def)
  next
    case False
    then have sm: "no_kind no = StopMarket" using kd by (simp add: no_new_stop_def)
    from sp' obtain k' where "k = Suc k'" by (cases k) auto
    with sp' sm have "sp' = sp \<or> sp' = sp\<lparr>stops := (stops sp)(no_side no :=
        stop_enqueue (no_side no) (order_of_new no s t) (stops sp (no_side no)))\<rparr>"
      by (auto split: option.splits)
    then show ?thesis
      using ms sm
      by (cases "no_side no") (auto simp: resting_qty_def market_stops_def stop_ids_def split: if_splits)
  qed
  then show "resting_qty sp' \<le> resting_qty sp + limit_qty no" "market_stops sp'"
    "stop_ids sp' \<subseteq> stop_ids sp \<union> (if no_kind no = StopMarket then {no_id no} else {})" by auto
qed

section \<open>Cancel and replace\<close>

lemma rep_market_stops: "rep vk b sp \<Longrightarrow> market_stops sp"
  using stop_order_fields(1) by (auto simp: rep_def market_stops_def)

lemma find_Some_in: "List.find P xs = Some x \<Longrightarrow> x \<in> set xs \<and> P x"
  by (induction xs) (auto split: if_splits)

lemma resting_order_Some:
  assumes "book_rep c b sp" and "resting_order sp i = Some x"
  shows "o_id x = i" "x \<in> set (queue sp (o_side x))"
proof -
  from assms(2) have x: "o_id x = i" "x \<in> set (queue sp Buy @ queue sp Sell)"
    using find_Some_in by (fastforce simp: resting_order_def)+
  then show "o_id x = i" by simp
  from x obtain sd where "x \<in> set (queue sp sd)" by auto
  then show "x \<in> set (queue sp (o_side x))" using queue_order_fields(2) [OF assms(1)] by metis
qed

lemma resting_order_None:
  "resting_order sp i = None \<longleftrightarrow> i \<notin> o_id ` (set (queue sp Buy) \<union> set (queue sp Sell))"
  by (auto simp: resting_order_def find_None_iff)

lemma resting_lookup:
  assumes rp: "rep vk b sp" and x: "resting_order sp i = Some x"
  obtains s ord where "id_index b i = Some \<lparr>loc_price = o_price ord, loc_side = o_side ord, loc_slot = s\<rparr>"
    "cells (arena b) s = Some ord" "core ord = x" "o_kind ord = Limit" "o_id ord = i"
proof -
  have br: "book_rep (cells (arena b)) b sp" using rp by (simp add: rep_def)
  have ix: "index_rep (cells (arena b)) (id_index b)" using br by (simp add: book_rep_def)
  note xf = resting_order_Some [OF br x]
  obtain s ord where s: "cells (arena b) s = Some ord" "core ord = x"
    using book_orders_arena [OF br, of x] queue_in_orders [OF xf(2)] by blast
  have f: "o_kind ord = Limit" "o_id ord = i"
    using queue_order_fields(1) [OF br xf(2)] xf(1) s(2) by auto
  show ?thesis
    using that [OF _ s f] index_rep_Some [OF ix s(1)] f by (simp add: loc_of_def)
qed

lemma index_absent:
  assumes "rep vk b sp" and "resting_order sp i = None" and "i \<notin> stop_ids sp"
  shows "id_index b i = None"
  using index_ids [of "cells (arena b)" b sp i] assms
  by (auto simp: rep_def resting_order_None stop_ids_def book_orders_def)

text \<open>The common part of cancel and replace: the order leaves index, level and arena.\<close>

lemma take_off_refine:
  assumes rp: "rep vk b sp" and ns: "no_stale b" and x: "resting_order sp i = Some x"
  obtains s ord b' where
    "id_index b i = Some \<lparr>loc_price = o_price ord, loc_side = o_side ord, loc_slot = s\<rparr>"
    "arena_get (index_remove i b) s = Inr ord" "core ord = x"
    "rbind (remove_slot s (o_side ord) (o_price ord) (o_remaining ord) (index_remove i b)) (arena_remove s) = Inr b'"
    "rep vk b' (spec_cancel sp i)" "no_stale b'"
proof -
  obtain s ord where ix: "id_index b i = Some \<lparr>loc_price = o_price ord, loc_side = o_side ord, loc_slot = s\<rparr>"
    and s: "cells (arena b) s = Some ord" "core ord = x" "o_kind ord = Limit" "o_id ord = i"
    by (rule resting_lookup [OF rp x])
  obtain b' where b': "rbind (remove_slot s (o_side ord) (o_price ord) (o_remaining ord)
      (index_remove (o_id ord) b)) (arena_remove s) = Inr b'"
    "rep vk b' (spec_cancel sp (o_id ord))" "\<And>sd'. stop_levels b' sd' = stop_levels b sd'"
    "dom (cells (arena b')) = dom (cells (arena b)) - {s}"
    by (rule unlink_refine [OF rp s(1,3) refl]) (rule that; assumption)
  have "s \<notin> set (stop_slots (stop_levels b sd))" for sd
  proof
    assume "s \<in> set (stop_slots (stop_levels b sd))"
    moreover have "stop_rep (cells (arena b)) sd (stop_levels b sd) (stops sp sd)"
      using rp by (simp add: rep_def book_rep_def)
    ultimately show False using stop_slot_ok(1) s(1,3) by fastforce
  qed
  then have "no_stale b'" using ns b'(3,4) by (auto simp: no_stale_def)
  moreover have "arena_get (index_remove i b) s = Inr ord" using s(1) by (simp add: index_remove_def)
  ultimately show ?thesis using that [OF ix _ s(2)] b'(1,2) s(4) by simp
qed

lemma apply_cancel_refine:
  assumes rp: "rep vk b sp" and ns: "no_stale b" and i: "i \<notin> stop_ids sp"
  shows "\<exists>b'. apply_cancel b i s out = Inr (b', out @
      (if resting_order sp i = None then [Rejected i UnknownId s] else [Cancelled i s])) \<and>
    rep vk b' (if resting_order sp i = None then sp else spec_cancel sp i) \<and> no_stale b'"
proof (cases "resting_order sp i")
  case None
  then show ?thesis using index_absent [OF rp None i] rp ns by (simp add: apply_cancel_def)
next
  case (Some x)
  obtain sl ord b' where "id_index b i = Some \<lparr>loc_price = o_price ord, loc_side = o_side ord, loc_slot = sl\<rparr>"
    "arena_get (index_remove i b) sl = Inr ord"
    and rm: "rbind (remove_slot sl (o_side ord) (o_price ord) (o_remaining ord) (index_remove i b)) (arena_remove sl) = Inr b'"
    and "rep vk b' (spec_cancel sp i)" "no_stale b'"
    by (rule take_off_refine [OF rp ns Some])
  moreover have "rbind (remove_slot sl (o_side ord) (o_price ord) (o_remaining ord) (index_remove i b))
      (\<lambda>b. rbind (arena_remove sl b) g) = g b'" for g :: "order_book \<Rightarrow> halt + (order_book \<times> output_event list)"
    using rm by (simp add: rbind_assoc [symmetric])
  ultimately show ?thesis using Some by (simp add: apply_cancel_def)
qed

lemma spec_cancel_frame:
  "resting_qty (spec_cancel sp i) \<le> resting_qty sp" "stops (spec_cancel sp i) = stops sp"
  "lens sp Q \<Longrightarrow> lens (spec_cancel sp i) Q" "pending (spec_cancel sp i) = pending sp"
  "stop_ids (spec_cancel sp i) = stop_ids sp" "market_stops sp \<Longrightarrow> market_stops (spec_cancel sp i)"
  by (auto simp: spec_cancel_def resting_qty_def lens_def pending_def stop_ids_def market_stops_def
      intro!: add_mono nsum_filter_le intro: le_trans [OF length_filter_le])

section \<open>apply\<close>

definition cmd_ok :: "order_book \<Rightarrow> spec_book \<Rightarrow> command \<Rightarrow> bool" where
  "cmd_ok b sp c \<longleftrightarrow> no_stale b \<and>
     (case c of
        New no \<Rightarrow> no_kind no \<noteq> StopLimit \<and> resting_qty sp + limit_qty no < 2 ^ 64
      | Cancel i _ \<Rightarrow> i \<notin> stop_ids sp
      | Replace i _ nq _ \<Rightarrow> i \<notin> stop_ids sp \<and> resting_qty sp + unat nq < 2 ^ 64)"

lemma replaced_refine:
  assumes al: "slab_allocator vk" and rp: "rep vk b sp" and ns: "no_stale b"
    and x: "resting_order sp i = Some x" and nq: "nq \<noteq> 0"
    and rm: "resting_qty sp + unat nq < 2 ^ 64"
    and ln: "lens sp Q" and n: "Suc (Suc (pending sp) + Q) < n"
    and sp': "spec_new (Suc (pending sp)) (spec_cancel sp i)
      \<lparr>no_id = i, no_symbol = o_symbol x, no_side = o_side x, no_kind = o_kind x, no_tif = o_tif x,
       no_price = np, no_stop_price = 0, no_qty = nq\<rparr> s t = Some (sp', ev)"
  shows "\<exists>b'. apply_replace vk n b i np nq s t out = Inr (b', out @ Replaced i s # ev) \<and>
    rep vk b' sp' \<and> lens sp' (Suc Q) \<and> no_stale b'"
proof -
  let ?no = "\<lparr>no_id = i, no_symbol = o_symbol x, no_side = o_side x, no_kind = o_kind x, no_tif = o_tif x,
       no_price = np, no_stop_price = 0, no_qty = nq\<rparr>"
  obtain sl ord b1 where ix: "id_index b i = Some \<lparr>loc_price = o_price ord, loc_side = o_side ord, loc_slot = sl\<rparr>"
    and ag: "arena_get (index_remove i b) sl = Inr ord" and x': "core ord = x"
    and rmv: "rbind (remove_slot sl (o_side ord) (o_price ord) (o_remaining ord) (index_remove i b)) (arena_remove sl) = Inr b1"
    and rp1: "rep vk b1 (spec_cancel sp i)" and ns1: "no_stale b1"
    by (rule take_off_refine [OF rp ns x])
  have "o_kind x = Limit"
    using queue_order_fields(1) resting_order_Some(2) x rp unfolding rep_def by blast
  then have ad: "admissible b1 (spec_cancel sp i) ?no"
    using ns1 rm spec_cancel_frame(1) [of sp i] by (simp add: admissible_def room_def)
  obtain b' where b': "apply_new vk n b1 ?no s t (out @ [Replaced i s]) = Inr (b', (out @ [Replaced i s]) @ ev)"
    "rep vk b' sp'" "lens sp' (Suc Q)" "no_stale b1 \<Longrightarrow> no_stale b'"
    by (rule apply_new_refine [OF al rp1 ad spec_cancel_frame(3) [OF ln] n sp', where out = "out @ [Replaced i s]"])
      (rule that; assumption)
  have "rbind (remove_slot sl (o_side ord) (o_price ord) (o_remaining ord) (index_remove i b))
      (\<lambda>b. rbind (arena_remove sl b) g) = g b1" for g :: "order_book \<Rightarrow> halt + (order_book \<times> output_event list)"
    using rmv by (simp add: rbind_assoc [symmetric])
  moreover have "?no = \<lparr>no_id = i, no_symbol = o_symbol ord, no_side = o_side ord, no_kind = o_kind ord,
      no_tif = o_tif ord, no_price = np, no_stop_price = 0, no_qty = nq\<rparr>" using x' by auto
  ultimately have "apply_replace vk n b i np nq s t out = Inr (b', out @ Replaced i s # ev)"
    using ix ag b'(1) nq by (simp add: apply_replace_def)
  then show ?thesis using b' ns1 by blast
qed

lemma apply_cmd_refine:
  assumes al: "slab_allocator vk" and rp: "rep vk b sp" and ok: "cmd_ok b sp (sq_cmd cmd)"
    and ln: "lens sp Q" and n: "pending sp + Q + 2 < n"
  obtains b' sp' ev where "spec_apply sp cmd = Some (sp', ev)"
    "apply_cmd vk n b cmd out = Inr (b', out @ ev)" "rep vk b' sp'" "no_stale b'" "lens sp' (Suc Q)"
    "pending sp' \<le> Suc (pending sp)"
proof -
  have ns: "no_stale b" using ok by (simp add: cmd_ok_def)
  have n': "Suc (Suc (pending sp) + Q) < n" using n by simp
  show ?thesis
  proof (cases "sq_cmd cmd")
    case (New no)
    obtain sp' ev where sp': "spec_new (Suc (pending sp)) sp no (sq_seq cmd) (sq_ts cmd) = Some (sp', ev)"
      and p: "pending sp' \<le> Suc (pending sp)" using spec_new_total_any by blast
    have ad: "admissible b sp no"
      using ok New by (auto simp: cmd_ok_def admissible_def room_def limit_qty_def)
    obtain b' where "apply_new vk n b no (sq_seq cmd) (sq_ts cmd) out = Inr (b', out @ ev)" "rep vk b' sp'"
      "lens sp' (Suc Q)" "no_stale b \<Longrightarrow> no_stale b'"
      by (rule apply_new_refine [OF al rp ad ln n' sp', where out = out]) (rule that; assumption)
    then show ?thesis
      using that sp' New ns p by (simp add: spec_apply_def apply_cmd_def Let_def del: spec_new.simps)
  next
    case (Cancel i sb)
    have ln': "lens sp (Suc Q)" "lens (spec_cancel sp i) (Suc Q)"
      using ln spec_cancel_frame(3) [of sp "Suc Q" i] by (auto simp: lens_def le_SucI)
    obtain b' where "apply_cancel b i (sq_seq cmd) out = Inr (b', out @
        (if resting_order sp i = None then [Rejected i UnknownId (sq_seq cmd)] else [Cancelled i (sq_seq cmd)]))"
      "rep vk b' (if resting_order sp i = None then sp else spec_cancel sp i)" "no_stale b'"
      using apply_cancel_refine [OF rp ns, of i "sq_seq cmd" out] ok Cancel by (auto simp: cmd_ok_def)
    then show ?thesis
      using that [of "if resting_order sp i = None then sp else spec_cancel sp i" _ b'] Cancel ln'
      by (cases "resting_order sp i") (simp_all add: spec_apply_def apply_cmd_def Let_def spec_cancel_frame)
  next
    case (Replace i np nq sb)
    have ln': "lens sp (Suc Q)" using ln by (auto simp: lens_def le_SucI)
    consider "nq = 0" | "nq \<noteq> 0" "resting_order sp i = None" | x where "nq \<noteq> 0" "resting_order sp i = Some x"
      by (cases "resting_order sp i") auto
    then show ?thesis
    proof cases
      case 1
      then show ?thesis
        using that [of sp "[Rejected i ZeroQty (sq_seq cmd)]" b] Replace rp ns ln'
        by (simp add: spec_apply_def apply_cmd_def apply_replace_def Let_def)
    next
      case 2
      have "id_index b i = None" using index_absent [OF rp 2(2)] ok Replace by (simp add: cmd_ok_def)
      then show ?thesis
        using that [of sp "[Rejected i UnknownId (sq_seq cmd)]" b] Replace rp ns ln' 2
        by (simp add: spec_apply_def apply_cmd_def apply_replace_def Let_def)
    next
      case (3 x)
      let ?no = "\<lparr>no_id = i, no_symbol = o_symbol x, no_side = o_side x, no_kind = o_kind x, no_tif = o_tif x,
       no_price = np, no_stop_price = 0, no_qty = nq\<rparr>"
      have "pending (spec_cancel sp i) < Suc (pending sp)" by (simp add: spec_cancel_frame)
      then obtain sp' ev where sp': "spec_new (Suc (pending sp)) (spec_cancel sp i) ?no (sq_seq cmd) (sq_ts cmd) = Some (sp', ev)"
        and p: "pending sp' \<le> Suc (pending sp)" using spec_new_total_any [of "spec_cancel sp i"]
        by (metis spec_cancel_frame(4))
      have rm: "resting_qty sp + unat nq < 2 ^ 64" using ok Replace by (simp add: cmd_ok_def)
      obtain b' where b': "apply_replace vk n b i np nq (sq_seq cmd) (sq_ts cmd) out = Inr (b', out @ Replaced i (sq_seq cmd) # ev)"
        "rep vk b' sp'" "lens sp' (Suc Q)" "no_stale b'"
        using replaced_refine [OF al rp ns 3(2,1) rm ln n' sp', of out] by blast
      show ?thesis
        by (rule that [OF _ _ b'(2,4,3) p])
          (use Replace 3 sp' b'(1) in \<open>simp_all add: spec_apply_def apply_cmd_def Let_def del: spec_new.simps\<close>)
    qed
  qed
qed

section \<open>Sessions\<close>

fun spec_run :: "spec_book \<Rightarrow> sequenced list \<Rightarrow> (spec_book \<times> output_event list) option" where
  "spec_run sp [] = Some (sp, [])"
| "spec_run sp (c # cs) =
     (case spec_apply sp c of
        None \<Rightarrow> None
      | Some (sp1, ev1) \<Rightarrow> map_option (\<lambda>(sp2, ev2). (sp2, ev1 @ ev2)) (spec_run sp1 cs))"

text \<open>
  A session the refinement covers: no \<open>StopLimit\<close> order, no cancel or replace of an id that
  an earlier \<open>StopMarket\<close> order of the session carries, and less than \<open>2 ^ 64\<close> units in all
  its limit orders. What goes wrong outside is in the theory \<open>Stop_Hazards\<close>.
\<close>

definition cmd_limit_qty :: "command \<Rightarrow> nat" where
  "cmd_limit_qty c = (case c of New no \<Rightarrow> limit_qty no | Cancel _ _ \<Rightarrow> 0 | Replace _ _ nq _ \<Rightarrow> unat nq)"

fun clean_session :: "order_id set \<Rightarrow> command list \<Rightarrow> bool" where
  "clean_session I [] = True"
| "clean_session I (c # cs) =
     ((case c of
         New no \<Rightarrow> no_kind no \<noteq> StopLimit
       | Cancel i _ \<Rightarrow> i \<notin> I
       | Replace i _ _ _ \<Rightarrow> i \<notin> I) \<and>
      clean_session (case c of New no \<Rightarrow> if no_kind no = StopMarket then insert (no_id no) I else I | _ \<Rightarrow> I) cs)"

lemma spec_apply_bounds:
  assumes ms: "market_stops sp" and ap: "spec_apply sp cmd = Some (sp', ev)"
    and kd: "case sq_cmd cmd of New no \<Rightarrow> no_kind no \<noteq> StopLimit | _ \<Rightarrow> True"
    and lim: "\<forall>sd. \<forall>x \<in> set (queue sp sd). o_kind x = Limit"
  shows "resting_qty sp' \<le> resting_qty sp + cmd_limit_qty (sq_cmd cmd)"
    and "stop_ids sp' \<subseteq> stop_ids sp \<union> (case sq_cmd cmd of
       New no \<Rightarrow> if no_kind no = StopMarket then {no_id no} else {} | _ \<Rightarrow> {})"
proof -
  have "resting_qty sp' \<le> resting_qty sp + cmd_limit_qty (sq_cmd cmd) \<and>
    stop_ids sp' \<subseteq> stop_ids sp \<union> (case sq_cmd cmd of
       New no \<Rightarrow> if no_kind no = StopMarket then {no_id no} else {} | _ \<Rightarrow> {})"
  proof (cases "sq_cmd cmd")
    case (New no)
    then have "spec_new (Suc (pending sp)) sp no (sq_seq cmd) (sq_ts cmd) = Some (sp', ev)"
      using ap by (simp add: spec_apply_def Let_def del: spec_new.simps)
    with spec_new_bounds [OF ms _ this] New kd show ?thesis by (simp add: cmd_limit_qty_def)
  next
    case (Cancel i sb)
    then show ?thesis
      using ap by (auto simp: spec_apply_def Let_def cmd_limit_qty_def spec_cancel_frame split: option.splits)
  next
    case (Replace i np nq sb)
    show ?thesis
    proof (cases "nq = 0 \<or> resting_order sp i = None")
      case True
      then show ?thesis using ap Replace by (auto simp: spec_apply_def Let_def split: if_splits)
    next
      case False
      then obtain x where x: "resting_order sp i = Some x" by blast
      then have "o_kind x = Limit" using find_Some_in lim by (fastforce simp: resting_order_def)
      moreover obtain ev' where new: "spec_new (Suc (pending sp)) (spec_cancel sp i)
          \<lparr>no_id = i, no_symbol = o_symbol x, no_side = o_side x, no_kind = o_kind x, no_tif = o_tif x,
           no_price = np, no_stop_price = 0, no_qty = nq\<rparr> (sq_seq cmd) (sq_ts cmd) = Some (sp', ev')"
        using ap Replace False x by (auto simp: spec_apply_def Let_def simp del: spec_new.simps)
      ultimately show ?thesis
        using spec_new_bounds(1,3) [OF spec_cancel_frame(6) [OF ms] _ new] Replace spec_cancel_frame(1) [of sp i]
        by (auto simp: cmd_limit_qty_def limit_qty_def spec_cancel_frame(5) simp del: spec_new.simps)
    qed
  qed
  then show "resting_qty sp' \<le> resting_qty sp + cmd_limit_qty (sq_cmd cmd)"
    "stop_ids sp' \<subseteq> stop_ids sp \<union> (case sq_cmd cmd of
       New no \<Rightarrow> if no_kind no = StopMarket then {no_id no} else {} | _ \<Rightarrow> {})" by auto
qed

text \<open>\<open>ready\<close> is what the refinement asks before the commands \<open>cs\<close>; every command keeps it
  for the rest.\<close>

definition ready ::
  "(slab_op list \<Rightarrow> nat) \<Rightarrow> nat \<Rightarrow> sequenced list \<Rightarrow> order_book \<Rightarrow> spec_book \<Rightarrow> bool" where
  "ready vk n cs b sp \<longleftrightarrow> rep vk b sp \<and> no_stale b \<and>
     (\<exists>Q I. lens sp Q \<and> stop_ids sp \<subseteq> I \<and> clean_session I (map sq_cmd cs) \<and>
        resting_qty sp + (\<Sum>c\<leftarrow>cs. cmd_limit_qty (sq_cmd c)) < 2 ^ 64 \<and>
        pending sp + Q + 2 * length cs + 2 \<le> n)"

lemma ready_rep: "ready vk n cs b sp \<Longrightarrow> rep vk b sp \<and> no_stale b"
  by (simp add: ready_def)

lemma ready_step:
  assumes al: "slab_allocator vk" and rd: "ready vk n (c # cs) b sp"
  obtains b1 sp1 ev where "spec_apply sp c = Some (sp1, ev)" "apply_cmd vk n b c out = Inr (b1, out @ ev)"
    "ready vk n cs b1 sp1"
proof -
  obtain Q I where rp: "rep vk b sp" and ns: "no_stale b" and ln: "lens sp Q" and I: "stop_ids sp \<subseteq> I"
    and cl: "clean_session I (map sq_cmd (c # cs))"
    and q: "resting_qty sp + (\<Sum>c\<leftarrow>c # cs. cmd_limit_qty (sq_cmd c)) < 2 ^ 64"
    and n: "pending sp + Q + 2 * length (c # cs) + 2 \<le> n"
    using rd unfolding ready_def by blast
  have ok: "cmd_ok b sp (sq_cmd c)"
    using I cl q ns by (auto simp: cmd_ok_def cmd_limit_qty_def split: command.splits)
  have "pending sp + Q + 2 < n" using n by simp
  then obtain b1 sp1 ev1 where s1: "spec_apply sp c = Some (sp1, ev1)"
    "apply_cmd vk n b c out = Inr (b1, out @ ev1)" "rep vk b1 sp1" "no_stale b1" "lens sp1 (Suc Q)"
    "pending sp1 \<le> Suc (pending sp)"
    by (rule apply_cmd_refine [OF al rp ok ln])
  have kd: "case sq_cmd c of New no \<Rightarrow> no_kind no \<noteq> StopLimit | _ \<Rightarrow> True"
    using cl by (auto split: command.splits)
  have lim: "\<forall>sd. \<forall>x \<in> set (queue sp sd). o_kind x = Limit"
    using queue_order_fields(1) rp unfolding rep_def by blast
  note bd = spec_apply_bounds [OF rep_market_stops [OF rp] s1(1) kd lim]
  define I' where "I' = (case sq_cmd c of New no \<Rightarrow> if no_kind no = StopMarket then insert (no_id no) I else I | _ \<Rightarrow> I)"
  have "stop_ids sp1 \<subseteq> I'" using bd(2) I by (auto simp: I'_def split: command.splits if_splits)
  moreover have "clean_session I' (map sq_cmd cs)" using cl by (simp add: I'_def)
  moreover have "resting_qty sp1 + (\<Sum>c\<leftarrow>cs. cmd_limit_qty (sq_cmd c)) < 2 ^ 64" using bd(1) q by simp
  moreover have "pending sp1 + Suc Q + 2 * length cs + 2 \<le> n" using s1(6) n by simp
  ultimately have "ready vk n cs b1 sp1" unfolding ready_def using s1(3-5) by blast
  with s1(1,2) show ?thesis by (rule that)
qed

lemma apply_all_refine:
  assumes al: "slab_allocator vk"
  shows "ready vk n cs b sp \<Longrightarrow>
    \<exists>b' sp' ev. spec_run sp cs = Some (sp', ev) \<and> apply_all vk n b cs out = Inr (b', out @ ev) \<and>
      rep vk b' sp' \<and> no_stale b'"
proof (induction cs arbitrary: b sp out)
  case Nil
  then show ?case using ready_rep by fastforce
next
  case (Cons c cs)
  obtain b1 sp1 ev1 where s1: "spec_apply sp c = Some (sp1, ev1)"
    "apply_cmd vk n b c out = Inr (b1, out @ ev1)" "ready vk n cs b1 sp1"
    by (rule ready_step [OF al Cons.prems])
  obtain b2 sp2 ev2 where "spec_run sp1 cs = Some (sp2, ev2)"
    "apply_all vk n b1 cs (out @ ev1) = Inr (b2, (out @ ev1) @ ev2)" "rep vk b2 sp2" "no_stale b2"
    using Cons.IH [OF s1(3)] by blast
  then show ?case using s1(1,2) by simp
qed

lemma rep_new: "rep vk (book_new s tk) spec_empty"
proof -
  have e: "side_levels (book_new s tk) sd = []" "stop_levels (book_new s tk) sd = []" for sd
    by (cases sd; simp add: side_levels_def stop_levels_def book_new_def bt_empty_def)+
  have c: "cells (arena (book_new s tk)) = Map.empty" "slab_ok vk (arena (book_new s tk))"
    "id_index (book_new s tk) = Map.empty" "last_trade (book_new s tk) = None"
    by (simp_all add: book_new_def) (simp add: slab_new_def)
  have "queue_rep Map.empty sd [] []" for sd
    by (rule queue_repI [where sss = "[]"]) (simp_all add: rests_def)
  moreover have "stop_rep Map.empty sd [] []" for sd
    by (simp add: stop_rep_def stop_slots_def pends_def)
  ultimately show ?thesis
    by (simp add: rep_def book_rep_def e c index_rep_def spec_empty_def)
qed

lemma no_stale_new: "no_stale (book_new s tk)"
  unfolding no_stale_def
proof
  fix sd show "set (stop_slots (stop_levels (book_new s tk) sd)) \<subseteq> dom (cells (arena (book_new s tk)))"
    by (cases sd) (simp_all add: stop_levels_def book_new_def bt_empty_def stop_slots_def)
qed

end
