(* ===== verification/Spec_Runs.thy ===== *)
theory Spec_Runs
  imports Cmd_Refine
begin

text \<open>
  Relations kept by the specification's steps. The locale \<open>run_relation\<close> asks for the
  steps one by one (reject, accept, hold, take a stop, match and settle) and gives the
  relation for \<open>spec_new\<close>, whatever it triggers. Its interpretations: priority and no
  crossing are kept; quantities are conserved by the trades; events carry the command's
  sequence number.
\<close>

section \<open>The steps of a new order\<close>

locale run_relation =
  fixes R :: "seq_no \<Rightarrow> ts \<Rightarrow> spec_book \<Rightarrow> output_event list \<Rightarrow> spec_book \<Rightarrow> bool"
  assumes base: "R s t sp [] sp"
    and step: "R s t sp e1 sp1 \<Longrightarrow> R s t sp1 e2 sp2 \<Longrightarrow> R s t sp (e1 @ e2) sp2"
    and rejected: "R s t sp [Rejected i why s] sp"
    and accepted: "R s t sp [Accepted i s] sp"
    and held: "no_kind no = StopMarket \<or> no_kind no = StopLimit \<Longrightarrow> R s t sp []
        (sp\<lparr>stops := (stops sp)(no_side no :=
           stop_enqueue (no_side no) (order_of_new no s t) (stops sp (no_side no)))\<rparr>)"
    and taken: "R s t sp [] (stop_taken sp sd r)"
    and matching: "spec_match sp no s t = (sp1, ev1) \<Longrightarrow> no_new_stop no \<Longrightarrow> R s t sp ev1 sp1"
begin

lemma trigger:
  assumes new: "\<And>sp no sp' ev. spec_new k sp no s t = Some (sp', ev) \<Longrightarrow> R s t sp ev sp'"
  shows "spec_trigger k sd rs sp s t = Some (sp', ev) \<Longrightarrow> R s t sp ev sp'"
proof (induction rs arbitrary: sp ev)
  case Nil
  then show ?case by (simp add: base)
next
  case (Cons r rs)
  show ?case
  proof (cases "r \<in> set (stops sp sd)")
    case True
    then obtain sp1 ev1 ev2 where 1: "spec_new k (stop_taken sp sd r) (triggered_order r) s t = Some (sp1, ev1)"
      and 2: "spec_trigger k sd rs sp1 s t = Some (sp', ev2)" and ev: "ev = ev1 @ ev2"
      using Cons.prems by (auto simp: spec_trigger_Cons simp del: spec_trigger.simps split: option.splits)
    have "R s t sp ([] @ ev1) sp1" using step [OF taken new [OF 1]] .
    then show ?thesis using step [OF _ Cons.IH [OF 2]] ev by simp
  next
    case False
    then show ?thesis using Cons by simp
  qed
qed

lemma new: "spec_new k sp no s t = Some (sp', ev) \<Longrightarrow> R s t sp ev sp'"
proof (induction k arbitrary: sp no sp' ev)
  case 0
  then show ?case by simp
next
  case (Suc k)
  have acc: "R s t sp (Accepted (no_id no) s # e) sp2" if "R s t sp e sp2" for e sp2
    using step [OF accepted that, of "no_id no"] by simp
  show ?case
  proof (cases "spec_validate sp no")
    case (Some r)
    then show ?thesis using Suc.prems rejected by auto
  next
    case val: None
    show ?thesis
    proof (cases "no_new_stop no")
      case False
      then have "sp' = sp\<lparr>stops := (stops sp)(no_side no :=
           stop_enqueue (no_side no) (order_of_new no s t) (stops sp (no_side no)))\<rparr>"
        "ev = [Accepted (no_id no) s]"
        using Suc.prems val by (auto simp: no_new_stop_def)
      then show ?thesis using acc held False by (simp add: no_new_stop_def)
    next
      case nns: True
      show ?thesis
      proof (cases "no_kind no = Fok \<and> spec_available sp (no_side no) (no_price no) < unat (no_qty no)")
        case True
        then have "sp' = sp" "ev = [Accepted (no_id no) s, Rejected (no_id no) FokUnfillable s]"
          using Suc.prems val by auto
        then show ?thesis using acc [of "[Rejected (no_id no) FokUnfillable s]"] rejected by simp
      next
        case False
        obtain sp1 ev1 where sm: "spec_match sp no s t = (sp1, ev1)" by fastforce
        note e = spec_new_Suc [OF val nns False sm, of k]
        note m = matching [OF sm nns]
        show ?thesis
        proof (cases "sp_last sp1")
          case None
          then have "sp' = sp1" "ev = Accepted (no_id no) s # ev1" using e Suc.prems by auto
          then show ?thesis using m by (simp add: acc)
        next
          case (Some lst)
          then obtain sp2 ev2 ev3 where
            2: "spec_trigger k Buy (filter (stop_hit Buy lst) (stops sp1 Buy)) sp1 s t = Some (sp2, ev2)"
            and 3: "spec_trigger k Sell (filter (stop_hit Sell lst) (stops sp2 Sell)) sp2 s t = Some (sp', ev3)"
            and ev: "ev = Accepted (no_id no) s # ev1 @ ev2 @ ev3"
            using e Suc.prems by (auto simp del: spec_new.simps spec_trigger.simps split: option.splits)
          have "R s t sp (ev1 @ ev2 @ ev3) sp'"
            using step [OF m step [OF trigger [OF Suc.IH 2] trigger [OF Suc.IH 3]]] .
          then show ?thesis by (simp add: ev acc)
        qed
      qed
    qed
  qed
qed

end

section \<open>Priority and no crossing\<close>

definition prio :: "side \<Rightarrow> order list \<Rightarrow> bool" where
  "prio sd q \<longleftrightarrow> sorted_wrt (\<lambda>x y. \<not> better sd (o_price y) (o_price x)) q"

definition uncrossed :: "spec_book \<Rightarrow> bool" where
  "uncrossed sp \<longleftrightarrow> (\<forall>x \<in> set (queue sp Buy). \<forall>y \<in> set (queue sp Sell). o_price x < o_price y)"

definition orderly :: "spec_book \<Rightarrow> bool" where
  "orderly sp \<longleftrightarrow> (\<forall>sd. prio sd (queue sp sd)) \<and> uncrossed sp"

lemma prio_prices: "prio sd q \<longleftrightarrow> sorted_wrt (\<lambda>p p'. \<not> better sd p' p) (map o_price q)"
  by (simp add: prio_def sorted_wrt_map)

lemma prio_Cons: "prio sd (x # q) \<longleftrightarrow> (\<forall>y \<in> set q. \<not> better sd (o_price y) (o_price x)) \<and> prio sd q"
  by (simp add: prio_def)

lemma prio_enqueue: "prio sd q \<Longrightarrow> prio sd (enqueue sd ord q)"
proof (induction q)
  case Nil
  then show ?case by (simp add: prio_def)
next
  case (Cons x q)
  show ?case
  proof (cases "better sd (o_price ord) (o_price x)")
    case True
    have "\<not> better sd (o_price y) (o_price ord)" if "y \<in> set (x # q)" for y
    proof
      assume "better sd (o_price y) (o_price ord)"
      then have "better sd (o_price y) (o_price x)" using True better_trans by blast
      then show False using Cons.prems that by (auto simp: prio_Cons)
    qed
    then show ?thesis using True Cons.prems by (simp add: prio_Cons)
  next
    case False
    then show ?thesis using Cons by (auto simp: prio_Cons)
  qed
qed

lemma fills_prio: "fills ok r q = (fs, r', q') \<Longrightarrow> prio sd q \<Longrightarrow> prio sd q'"
  unfolding prio_prices by (rule fills_keep_sorted)

lemma fills_prices: "fills ok r q = (fs, r', q') \<Longrightarrow> o_price ` set q' \<subseteq> o_price ` set q"
proof (induction ok r q arbitrary: fs r' q' rule: fills.induct)
  case (2 ok r m q)
  then show ?case by (fastforce split: if_splits prod.splits)
qed simp

lemma limit_left:
  assumes fl: "fills (crosses sd Limit p) r q = (fs, r', q')" and r': "r' \<noteq> 0" and pr: "prio (opposite sd) q"
    and x: "x \<in> set q'"
  shows "\<not> crosses sd Limit p (o_price x)"
proof -
  have pr': "prio (opposite sd) q'" by (rule fills_prio [OF fl pr])
  obtain h q'' where q': "q' = h # q''" using x by (cases q') auto
  have h: "\<not> crosses sd Limit p (o_price h)" using fills_exhausts [OF fl] r' q' by simp
  have "\<not> better (opposite sd) (o_price x) (o_price h)" using pr' x q' by (auto simp: prio_Cons)
  then show ?thesis using h by (cases sd) (auto simp: crosses_def better_def)
qed

lemma spec_match_orderly:
  assumes sm: "spec_match sp no s t = (sp1, ev1)" and o: "orderly sp"
  shows "orderly sp1"
proof -
  let ?sd = "no_side no" and ?o = "opposite (no_side no)"
  obtain fs r q where fl: "fills (crosses ?sd (no_kind no) (no_price no)) (no_qty no) (queue sp ?o) = (fs, r, q)"
    by (metis prod_cases3)
  have pr: "prio ?o (queue sp ?o)" "prio ?sd (queue sp ?sd)" using o by (simp_all add: orderly_def)
  have pq: "prio ?o q" by (rule fills_prio [OF fl pr(1)])
  note ps = fills_prices [OF fl]
  have unc: "\<forall>x \<in> set (queue sp Buy). \<forall>y \<in> set (queue sp Sell). o_price x < o_price y"
    using o by (simp add: orderly_def uncrossed_def)
  show ?thesis
  proof (cases "r = 0 \<or> no_kind no \<noteq> Limit")
    case True
    then have "queue sp1 = (queue sp)(?o := q)"
      using sm fl by (auto simp: spec_match_def spec_settle_def Let_def split: if_splits)
    moreover have "prio sd (((queue sp)(?o := q)) sd)" for sd
      using o pq by (cases "sd = ?o") (auto simp: orderly_def)
    ultimately show ?thesis
      using unc ps by (cases ?sd) (fastforce simp: orderly_def uncrossed_def)+
  next
    case False
    then have q1: "queue sp1 = (queue sp)(?o := q,
        ?sd := enqueue ?sd ((order_of_new no s t)\<lparr>o_remaining := r\<rparr>) (queue sp ?sd))"
      using sm fl by (auto simp: spec_match_def spec_settle_def Let_def split: if_splits)
    have "\<not> crosses ?sd Limit (no_price no) (o_price x)" if "x \<in> set q" for x
      using limit_left [of ?sd "no_price no"] fl False pr that by auto
    moreover have "prio sd (queue sp1 sd)" for sd
      using o pq prio_enqueue [OF pr(2)] neq_side [of sd ?sd] by (cases "sd = ?sd") (auto simp: q1)
    ultimately show ?thesis
      using unc ps by (cases ?sd) (fastforce simp: orderly_def uncrossed_def q1 crosses_def)+
  qed
qed

definition keeps_orderly :: "seq_no \<Rightarrow> ts \<Rightarrow> spec_book \<Rightarrow> output_event list \<Rightarrow> spec_book \<Rightarrow> bool" where
  "keeps_orderly s t sp ev sp' \<longleftrightarrow> (orderly sp \<longrightarrow> orderly sp')"

interpretation orderly_run: run_relation keeps_orderly
  by unfold_locales
    (auto simp: keeps_orderly_def stop_taken_def intro: spec_match_orderly,
     simp_all add: orderly_def uncrossed_def)

end
