(* ===== verification/Book_Views.thy ===== *)
theory Book_Views
  imports Spec_Runs
begin

text \<open>
  What the queries of the book show of the queues: levels, best prices, depth, the crossing
  check and the quantity check, on any represented book. The book properties of the root
  theory are read off these lemmas.
\<close>

section \<open>Levels as a summary of the queue\<close>

definition by_price :: "order list \<Rightarrow> (price \<times> nat) list" where
  "by_price q = map (\<lambda>p. (p, nsum o_remaining (filter (\<lambda>x. o_price x = p) q))) (remdups_adj (map o_price q))"

definition level_view :: "(price \<times> price_level) list \<Rightarrow> (price \<times> nat) list" where
  "level_view ls = map (\<lambda>(p, l). (p, unat (total_qty l))) ls"

lemma remdups_adj_block:
  "ss \<noteq> [] \<Longrightarrow> (\<And>x. x \<in> set ss \<Longrightarrow> f x = p) \<Longrightarrow> p \<notin> f ` set ys \<Longrightarrow>
     remdups_adj (map f (ss @ ys)) = p # remdups_adj (map f ys)"
proof (induction ss)
  case (Cons s ss)
  show ?case
  proof (cases ss)
    case Nil
    then show ?thesis using Cons.prems by (cases ys) auto
  next
    case (Cons s' ss')
    then show ?thesis using Cons.IH Cons.prems by simp
  qed
qed simp

lemma filter_block:
  assumes "\<And>x. x \<in> set ss \<Longrightarrow> f x = p" and "p \<notin> f ` set ys"
  shows "filter (\<lambda>x. f x = p) (ss @ ys) = ss"
    and "p' \<noteq> p \<Longrightarrow> filter (\<lambda>x. f x = p') (ss @ ys) = filter (\<lambda>x. f x = p') ys"
proof -
  have "filter (\<lambda>x. f x = p) ss = ss" "filter (\<lambda>x. f x = p) ys = []"
    using assms by (auto simp: filter_id_conv filter_empty_conv)
  then show "filter (\<lambda>x. f x = p) (ss @ ys) = ss" by simp
  have "p' \<noteq> p \<Longrightarrow> filter (\<lambda>x. f x = p') ss = []" using assms(1) by (auto simp: filter_empty_conv)
  then show "p' \<noteq> p \<Longrightarrow> filter (\<lambda>x. f x = p') (ss @ ys) = filter (\<lambda>x. f x = p') ys" by simp
qed

lemma by_price_block:
  assumes "ss \<noteq> []" and "\<And>x. x \<in> set ss \<Longrightarrow> o_price x = p" and "p \<notin> o_price ` set ys"
  shows "by_price (ss @ ys) = (p, nsum o_remaining ss) # by_price ys"
proof -
  have "map (\<lambda>p'. (p', nsum o_remaining (filter (\<lambda>x. o_price x = p') (ss @ ys)))) (remdups_adj (map o_price ys)) =
      by_price ys"
    unfolding by_price_def
  proof (rule map_cong [OF refl])
    fix p' assume "p' \<in> set (remdups_adj (map o_price ys))"
    then have "p' \<noteq> p" using assms(3) by auto
    then show "(p', nsum o_remaining (filter (\<lambda>x. o_price x = p') (ss @ ys))) =
        (p', nsum o_remaining (filter (\<lambda>x. o_price x = p') ys))"
      using filter_block(2) [of ss o_price p ys p'] assms by simp
  qed
  moreover have "filter (\<lambda>x. o_price x = p) (ss @ ys) = ss"
    using filter_block(1) [of ss o_price p ys] assms by simp
  ultimately show ?thesis
    using remdups_adj_block [of ss o_price p ys] assms by (simp add: by_price_def del: map_append filter_append)
qed

lemma prio_same: "(\<And>x. x \<in> set q \<Longrightarrow> o_price x = p) \<Longrightarrow> prio sd q"
  by (induction q) (auto simp: prio_def)

lemma level_view_levels:
  "list_all2 (level_rep c sd) ls sss \<Longrightarrow> lv_sorted sd ls \<Longrightarrow> [] \<notin> set sss \<Longrightarrow>
     level_view ls = by_price (map (slot_order c) (concat sss)) \<and>
     prio sd (map (slot_order c) (concat sss))"
proof (induction ls arbitrary: sss)
  case Nil
  then show ?case by (simp add: level_view_def by_price_def prio_def)
next
  case (Cons pl ls)
  obtain p l where pl: "pl = (p, l)" by fastforce
  from Cons.prems(1) obtain ss sss' where sss: "sss = ss # sss'" and lr: "level_rep c sd (p, l) ss"
    and la: "list_all2 (level_rep c sd) ls sss'" by (auto simp: list_all2_Cons1 pl)
  let ?h = "map (slot_order c) ss" and ?t = "map (slot_order c) (concat sss')"
  have IH: "level_view ls = by_price ?t" "prio sd ?t"
    using Cons.IH [OF la] Cons.prems sss by (auto simp: lv_sorted_Cons)
  have here: "o_price x = p" if "x \<in> set ?h" for x
    using lr that by (auto simp: level_rep_def slot_ok_def slot_order_def)
  have there: "better sd p (o_price x)" if "x \<in> set ?t" for x
    using orders_price [OF la, of "better sd p" x] Cons.prems(2) pl that by (auto simp: lv_sorted_Cons)
  have ne: "?h \<noteq> []" using Cons.prems(3) sss by auto
  have nt: "p \<notin> o_price ` set ?t"
  proof
    assume "p \<in> o_price ` set ?t"
    then obtain x where "x \<in> set ?t" "p = o_price x" by blast
    then show False using there [of x] by simp
  qed
  have "by_price (?h @ ?t) = (p, nsum o_remaining ?h) # by_price ?t"
    using ne here nt by (rule by_price_block)
  moreover have "unat (total_qty l) = nsum o_remaining ?h" using lr by (simp add: level_rep_def)
  moreover have "prio sd (?h @ ?t)"
    unfolding prio_def sorted_wrt_append
  proof (intro conjI ballI)
    show "sorted_wrt (\<lambda>x y. \<not> better sd (o_price y) (o_price x)) ?h"
      using prio_same [of ?h p sd] here unfolding prio_def by blast
    show "sorted_wrt (\<lambda>x y. \<not> better sd (o_price y) (o_price x)) ?t" using IH(2) by (simp add: prio_def)
    show "\<not> better sd (o_price y) (o_price x)" if "x \<in> set ?h" "y \<in> set ?t" for x y
      using here [OF that(1)] there [OF that(2)] better_asym by blast
  qed
  ultimately show ?case using IH(1) by (simp add: sss pl level_view_def)
qed

lemma queue_view:
  assumes "rep vk b sp"
  shows "level_view (side_levels b sd) = by_price (queue sp sd)" and "prio sd (queue sp sd)"
proof -
  have "queue_rep (cells (arena b)) sd (side_levels b sd) (queue sp sd)"
    using assms by (simp add: rep_def book_rep_def)
  then obtain sss where "lv_sorted sd (side_levels b sd)"
    "list_all2 (level_rep (cells (arena b)) sd) (side_levels b sd) sss" "[] \<notin> set sss"
    "queue sp sd = map (slot_order (cells (arena b))) (concat sss)"
    by (rule queue_repE) (rule that; assumption)
  then show "level_view (side_levels b sd) = by_price (queue sp sd)" "prio sd (queue sp sd)"
    using level_view_levels by metis+
qed

section \<open>best_bid, best_ask, depth\<close>

definition as_nat :: "(price \<times> qty) \<Rightarrow> price \<times> nat" where
  "as_nat = (\<lambda>(p, q). (p, unat q))"

lemma depth_views:
  "map as_nat (bs_bids (depth b n)) = take n (level_view (side_levels b Buy))"
  "map as_nat (bs_asks (depth b n)) = take n (level_view (side_levels b Sell))"
  by (simp_all add: depth_def level_view_def side_levels_def as_nat_def take_map split_beta comp_def)

lemma best_views:
  "map_option as_nat (best_bid b) = (case level_view (side_levels b Buy) of [] \<Rightarrow> None | x # _ \<Rightarrow> Some x)"
  "map_option as_nat (best_ask b) = (case level_view (side_levels b Sell) of [] \<Rightarrow> None | x # _ \<Rightarrow> Some x)"
  by (simp_all add: best_bid_def best_ask_def level_view_def side_levels_def bt_first_def as_nat_def
      split: list.splits)

lemma by_price_head:
  "(case by_price q of [] \<Rightarrow> None | x # _ \<Rightarrow> Some x) =
     (case q of [] \<Rightarrow> None | m # _ \<Rightarrow> Some (o_price m, nsum o_remaining (filter (\<lambda>x. o_price x = o_price m) q)))"
proof (cases q)
  case Nil
  then show ?thesis by (simp add: by_price_def)
next
  case (Cons m q')
  obtain rest where "remdups_adj (o_price m # map o_price q') = o_price m # rest"
    using hd_remdups_adj [of "o_price m # map o_price q'"]
    by (cases "remdups_adj (o_price m # map o_price q')") auto
  then show ?thesis by (simp add: Cons by_price_def)
qed

lemma best_refine:
  assumes "rep vk b sp"
  shows "map_option as_nat (best_bid b) = (case queue sp Buy of [] \<Rightarrow> None
      | m # _ \<Rightarrow> Some (o_price m, nsum o_remaining (filter (\<lambda>x. o_price x = o_price m) (queue sp Buy))))"
    and "map_option as_nat (best_ask b) = (case queue sp Sell of [] \<Rightarrow> None
      | m # _ \<Rightarrow> Some (o_price m, nsum o_remaining (filter (\<lambda>x. o_price x = o_price m) (queue sp Sell))))"
  using best_views [of b] queue_view(1) [OF assms] by_price_head by simp_all

lemma no_cross_refine:
  assumes rp: "rep vk b sp" and un: "uncrossed sp"
  shows "check_no_cross b"
proof -
  have "bp < ap" if "best_bid b = Some (bp, bq)" "best_ask b = Some (ap, aq)" for bp bq ap aq
  proof -
    note best = that
    obtain x q where x: "queue sp Buy = x # q" "o_price x = bp"
      using best_refine(1) [OF rp] best by (cases "queue sp Buy") (auto simp: as_nat_def)
    obtain y q' where y: "queue sp Sell = y # q'" "o_price y = ap"
      using best_refine(2) [OF rp] best by (cases "queue sp Sell") (auto simp: as_nat_def)
    show ?thesis using un x y by (auto simp: uncrossed_def)
  qed
  then show ?thesis by (auto simp: check_no_cross_def split: option.splits)
qed

section \<open>The quantity check\<close>

definition wsum :: "order list \<Rightarrow> qty" where
  "wsum q = sum_list (map o_remaining q)"

lemma wsum_simps [simp]: "wsum [] = 0" "wsum (x # q) = o_remaining x + wsum q" "wsum (q @ q') = wsum q + wsum q'"
  by (simp_all add: wsum_def)

lemma of_nat_nsum: "of_nat (nsum o_remaining q) = wsum q"
  by (induction q) simp_all

lemma levels_wsum:
  "list_all2 (level_rep c sd) ls sss \<Longrightarrow>
     sum_list (map (total_qty \<circ> snd) ls) = wsum (map (slot_order c) (concat sss))"
proof (induction ls arbitrary: sss)
  case (Cons pl ls)
  from Cons.prems obtain ss sss' where sss: "sss = ss # sss'" and lr: "level_rep c sd pl ss"
    and la: "list_all2 (level_rep c sd) ls sss'" by (auto simp: list_all2_Cons1)
  have "unat (total_qty (snd pl)) = nsum o_remaining (map (slot_order c) ss)"
    using lr by (simp add: level_rep_def)
  then have "(of_nat (unat (total_qty (snd pl))) :: u64) = wsum (map (slot_order c) ss)"
    by (simp only: of_nat_nsum)
  then have "total_qty (snd pl) = wsum (map (slot_order c) ss)" by simp
  then show ?case using Cons.IH [OF la] by (simp add: sss)
qed simp

lemma side_wsum:
  assumes "rep vk b sp"
  shows "sum_list (map (total_qty \<circ> snd) (side_levels b sd)) = wsum (queue sp sd)"
proof -
  have "queue_rep (cells (arena b)) sd (side_levels b sd) (queue sp sd)"
    using assms by (simp add: rep_def book_rep_def)
  then show ?thesis by (rule queue_repE) (simp add: levels_wsum)
qed

lemma book_orders_distinct:
  assumes rp: "rep vk b sp"
  shows "distinct (book_orders sp)"
proof -
  have br: "book_rep (cells (arena b)) b sp" using rp by (simp add: rep_def)
  have q: "distinct (queue sp sd)" for sd
    using queue_distinct_ids [OF br, of sd] by (simp add: distinct_map)
  have s: "distinct (stops sp sd)" for sd
  proof -
    let ?c = "cells (arena b)" and ?al = "filter (alive (cells (arena b))) (stop_slots (stop_levels b sd))"
    have sr: "stop_rep ?c sd (stop_levels b sd) (stops sp sd)" using br by (simp add: book_rep_def)
    have ix: "index_rep ?c (id_index b)" using br by (simp add: book_rep_def)
    have "inj_on (slot_order ?c) (set ?al)"
    proof (rule inj_onI)
      fix x y assume "x \<in> set ?al" "y \<in> set ?al" and eq: "slot_order ?c x = slot_order ?c y"
      then obtain r r' where r: "?c x = Some r" "?c y = Some r'" by (auto simp: alive_def)
      then have "o_id r = o_id r'" using arg_cong [OF eq, of o_id] by (simp add: slot_order_def)
      then show "x = y" using index_rep_id_inj [OF ix r] by blast
    qed
    then show ?thesis using sr by (simp add: stop_rep_def distinct_map)
  qed
  have sides: "x \<notin> set (queue sp Sell)" "x \<notin> set (stops sp sd)" if "x \<in> set (queue sp Buy)" for x sd
    using queue_order_fields [OF br that] queue_order_fields [OF br, of x Sell] stop_order_fields [OF br, of x sd]
    by auto
  have sides2: "x \<notin> set (stops sp sd)" if "x \<in> set (queue sp Sell)" for x sd
    using queue_order_fields [OF br that] stop_order_fields [OF br, of x sd] by auto
  have sides3: "x \<notin> set (stops sp Sell)" if "x \<in> set (stops sp Buy)" for x
    using stop_order_fields [OF br that] stop_order_fields [OF br, of x Sell] by auto
  show ?thesis using q s sides sides2 sides3 by (auto simp: book_orders_def)
qed

lemma index_total_eval:
  assumes "\<And>i. i \<in> set ids \<Longrightarrow> \<exists>loc ord. id_index b i = Some loc \<and> cells (arena b) (loc_slot loc) = Some ord \<and>
      o_remaining ord = f i"
  shows "index_total b ids = Inr (sum_list (map f ids))"
  using assms
proof (induction ids)
  case (Cons i ids)
  obtain loc ord where "id_index b i = Some loc" "cells (arena b) (loc_slot loc) = Some ord" "o_remaining ord = f i"
    using Cons.prems [of i] by auto
  then show ?case using Cons by simp
qed simp

lemma qty_check_refine:
  assumes rp: "rep vk b sp" and ids: "distinct ids" "set ids = dom (id_index b)"
  shows "check_qty_conservation ids b = Inr (wsum (stops sp Buy @ stops sp Sell) = 0)"
proof -
  let ?c = "cells (arena b)"
  have br: "book_rep ?c b sp" using rp by (simp add: rep_def)
  have ix: "index_rep ?c (id_index b)" using br by (simp add: book_rep_def)
  define rem where "rem i = o_remaining (the (List.find (\<lambda>x. o_id x = i) (book_orders sp)))" for i
  have rem: "rem (o_id x) = o_remaining x" if "x \<in> set (book_orders sp)" for x
  proof -
    note in_orders = that
    obtain y where y: "List.find (\<lambda>y. o_id y = o_id x) (book_orders sp) = Some y"
      using in_orders by (cases "List.find (\<lambda>y. o_id y = o_id x) (book_orders sp)") (auto simp: find_None_iff)
    then have "y = x" using find_Some_in [OF y] book_orders_id_inj [OF br _ in_orders] by blast
    then show ?thesis using y by (simp add: rem_def)
  qed
  have "index_total b ids = Inr (sum_list (map rem ids))"
  proof (rule index_total_eval)
    fix i assume "i \<in> set ids"
    then obtain loc where l: "id_index b i = Some loc" using ids by auto
    then obtain ord where o: "?c (loc_slot loc) = Some ord" "o_id ord = i" using index_rep_lookup [OF ix] by blast
    then have "core ord \<in> set (book_orders sp)" using book_orders_arena [OF br] by blast
    then have "o_remaining ord = rem i" using rem [of "core ord"] o by simp
    then show "\<exists>loc ord. id_index b i = Some loc \<and> ?c (loc_slot loc) = Some ord \<and> o_remaining ord = rem i"
      using l o by blast
  qed
  moreover have "sum_list (map rem ids) = wsum (book_orders sp)"
  proof -
    have inj: "inj_on o_id (set (book_orders sp))"
      using book_orders_id_inj [OF br] by (blast intro: inj_onI)
    have "set ids = o_id ` set (book_orders sp)" using ids(2) index_ids [OF br] by blast
    then have "sum_list (map rem ids) = sum rem (o_id ` set (book_orders sp))"
      using ids(1) by (simp add: sum_list_distinct_conv_sum_set)
    also have "\<dots> = sum (rem \<circ> o_id) (set (book_orders sp))" by (rule sum.reindex [OF inj])
    also have "\<dots> = sum o_remaining (set (book_orders sp))" by (rule sum.cong) (simp_all add: rem)
    also have "\<dots> = wsum (book_orders sp)"
      using book_orders_distinct [OF rp] by (simp add: wsum_def sum_list_distinct_conv_sum_set)
    finally show ?thesis .
  qed
  moreover have "sum_list (map (total_qty \<circ> snd) (bids b)) = wsum (queue sp Buy)"
    "sum_list (map (total_qty \<circ> snd) (asks b)) = wsum (queue sp Sell)"
    using side_wsum [OF rp, of Buy] side_wsum [OF rp, of Sell]
    by (simp_all add: side_levels_def comp_def split_beta)
  ultimately show ?thesis
    by (simp add: check_qty_conservation_def book_orders_def add.assoc [symmetric])
qed

end
