(* ===== verification/Match_Facts.thy ===== *)
theory Match_Facts
  imports Book_Views
begin

text \<open>
  Facts the properties of matching rest on: the trades an order makes read off \<open>fills\<close>,
  the fill-or-kill guarantee, and that every event a command appends carries its sequence
  number.
\<close>

section \<open>Trades of one order\<close>

lemma trades_of_fills:
  "filter is_trade (concat (map (fill_events s t i sd) fs)) =
     map (\<lambda>(m, q). Trade s i (o_id m) (o_price m) q sd t) fs"
  by (induction fs) (auto simp: fill_events_def)

lemma traded_trades:
  "(\<Sum>e\<leftarrow>map (\<lambda>(m, q). Trade s i (o_id m) (o_price m) q sd t) fs. unat (trade_qty e)) = traded fs"
  by (induction fs) auto

text \<open>Matching a fresh aggressor.\<close>

lemma match_order_refine:
  assumes al: "slab_allocator vk" and rp: "rep vk b sp"
    and ins: "arena_insert vk (order_of_new no s t) b = (slot, b0)"
    and n: "length (queue sp (opposite (no_side no))) < n"
    and fl: "fills (crosses (no_side no) (no_kind no) (no_price no)) (no_qty no)
      (queue sp (opposite (no_side no))) = (fs, r, q)"
  obtains b1 where "match_order n b0 slot s t out =
      Inr (b1, no_qty no - r, out @ concat (map (fill_events s t (no_id no) (no_side no)) fs))"
    "in_match vk b1 slot ((order_of_new no s t)\<lparr>o_remaining := r\<rparr>)
      (sp\<lparr>queue := (queue sp)(opposite (no_side no) := q), sp_last := last_price fs (sp_last sp)\<rparr>)"
proof -
  note ai = arena_insert_refine [OF al rp ins]
  have ag: "cells (arena b0) slot = Some (order_of_new no s t)" using ai(1) by (simp add: in_match_def)
  show ?thesis
    using match_loop_refine [OF ai(1) n, of "no_kind no" "no_price no" fs r q s t 0 out] fl ag that
    by (auto simp: match_order_def matched_def)
qed

lemma fills_filled: "fills ok r q = (fs, r', q') \<Longrightarrow> unat (r - r') = traded fs"
proof -
  assume f: "fills ok r q = (fs, r', q')"
  have "unat r' + traded fs = unat r" by (rule fills_traded [OF f])
  moreover from this have "unat (r - r') = unat r - unat r'" by (intro unat_sub_u64) simp
  ultimately show ?thesis by simp
qed

lemma match_resting:
  assumes "fills ok r (queue sp sd) = (fs, r', q')"
  shows "resting_qty (sp\<lparr>queue := (queue sp)(sd := q'), sp_last := x\<rparr>) + traded fs = resting_qty sp"
  using fills_conserve [OF assms] by (cases sd) (simp_all add: resting_qty_def)

section \<open>Fill or kill\<close>

definition within_limit :: "side \<Rightarrow> price \<Rightarrow> price \<Rightarrow> bool" where
  "within_limit sd limit p = (case sd of Buy \<Rightarrow> p \<le> limit | Sell \<Rightarrow> p \<ge> limit)"

lemma within_limit_crosses: "crosses sd Limit limit p = within_limit sd limit p"
  by (simp add: crosses_def within_limit_def)

lemma within_limit_better: "within_limit sd l p \<Longrightarrow> \<not> better (opposite sd) p p' \<Longrightarrow> within_limit sd l p'"
  by (cases sd) (auto simp: within_limit_def better_def)

lemma spec_available_within:
  "spec_available sp sd p = nsum o_remaining (filter (\<lambda>m. within_limit sd p (o_price m)) (queue sp (opposite sd)))"
  by (simp add: spec_available_def within_limit_def)

lemma fok_fills:
  "fills ok r q = (fs, r', q') \<Longrightarrow> (\<And>p. ok p) \<Longrightarrow> prio (opposite sd) q \<Longrightarrow>
   unat r \<le> nsum o_remaining (filter (\<lambda>m. within_limit sd l (o_price m)) q) \<Longrightarrow>
   r' = 0 \<and> (\<forall>(m, x) \<in> set fs. within_limit sd l (o_price m))"
proof (induction ok r q arbitrary: fs r' q' rule: fills.induct)
  case (1 ok r)
  then show ?case by (simp add: unat_eq_zero)
next
  case (2 ok r m q)
  show ?case
  proof (cases "r = 0")
    case True
    then show ?thesis using "2.prems" by auto
  next
    case False
    then have pos: "unat r > 0" by (simp add: unat_gt_0)
    have okm: "ok (o_price m)" by (rule "2.prems"(2))
    have m: "within_limit sd l (o_price m)"
    proof (rule ccontr)
      assume n: "\<not> within_limit sd l (o_price m)"
      then have "\<not> within_limit sd l (o_price x)" if "x \<in> set q" for x
        using "2.prems"(3) that within_limit_better [of sd l "o_price x" "o_price m"] by (auto simp: prio_Cons)
      then have "filter (\<lambda>m. within_limit sd l (o_price m)) (m # q) = []"
        using n by (simp add: filter_empty_conv)
      then show False using "2.prems"(4) pos by simp
    qed
    show ?thesis
    proof (cases "o_remaining m \<le> r")
      case True
      obtain fs1 where f: "fills ok (r - o_remaining m) q = (fs1, r', q')" and fs: "fs = (m, o_remaining m) # fs1"
        using "2.prems"(1) okm False True by (auto split: prod.splits)
      have "unat (r - o_remaining m) \<le> nsum o_remaining (filter (\<lambda>m. within_limit sd l (o_price m)) q)"
        using "2.prems"(4) m True by (simp add: unat_sub word_le_nat_alt)
      then have "r' = 0 \<and> (\<forall>(m, x) \<in> set fs1. within_limit sd l (o_price m))"
        using "2.IH" [OF _ True f] "2.prems"(2,3) False by (auto simp: prio_Cons)
      then show ?thesis using m fs by auto
    next
      case False': False
      then show ?thesis using "2.prems"(1) okm False m by auto
    qed
  qed
qed

section \<open>Events carry the command's sequence number\<close>

definition tagged :: "seq_no \<Rightarrow> output_event list \<Rightarrow> output_event list \<Rightarrow> bool" where
  "tagged s out out' \<longleftrightarrow> (\<exists>evs. out' = out @ evs \<and> (\<forall>e \<in> set evs. event_seq e = s))"

lemma tagged_refl [simp]: "tagged s out out"
  by (simp add: tagged_def)

lemma tagged_trans: "tagged s a b \<Longrightarrow> tagged s b c \<Longrightarrow> tagged s a c"
  by (auto simp: tagged_def)

lemma tagged_append [simp]: "tagged s out (out @ evs) \<longleftrightarrow> (\<forall>e \<in> set evs. event_seq e = s)"
  by (auto simp: tagged_def)

lemma rbind_InrE:
  assumes "rbind m f = Inr y"
  obtains x where "m = Inr x" "f x = Inr y"
  using assms by (auto simp: rbind_eq_Inr)

lemma fill_maker_tagged:
  "fill_maker sd ag mk p s t b out = Inr (b', q, out') \<Longrightarrow> tagged s out out'"
  unfolding fill_maker_def
  by (elim rbind_InrE) (auto simp: Let_def rbind_eq_Inr split: if_splits)

lemma match_loop_tagged:
  "match_loop n sd kd limit ag s t tot b out = Inr (b', tot', out') \<Longrightarrow> tagged s out out'"
proof (induction n arbitrary: tot b out)
  case (Suc n)
  then show ?case
    by (auto simp: rbind_eq_Inr split: if_splits option.splits
        dest!: fill_maker_tagged Suc.IH intro: tagged_trans)
qed simp

lemma match_order_tagged: "match_order n b ag s t out = Inr (b', q, out') \<Longrightarrow> tagged s out out'"
  unfolding match_order_def by (auto simp: rbind_eq_Inr dest: match_loop_tagged)

lemma settle_new_tagged: "settle_new b no slot q s out = Inr (b', out') \<Longrightarrow> tagged s out out'"
  unfolding settle_new_def
  by (auto simp: rbind_eq_Inr Let_def split: if_splits order_type.splits)

definition new_tagged :: "(slab_op list \<Rightarrow> nat) \<Rightarrow> nat \<Rightarrow> seq_no \<Rightarrow> ts \<Rightarrow> bool" where
  "new_tagged vk n s t \<longleftrightarrow> (\<forall>b no out b' out'.
     apply_new vk n b no s t out = Inr (b', out') \<longrightarrow> tagged s out out')"

lemma trigger_slots_tagged:
  assumes new: "new_tagged vk n s t"
  shows "trigger_slots vk n ss b s t out = Inr (b', out') \<Longrightarrow> tagged s out out'"
proof (induction ss arbitrary: b out)
  case Nil
  then show ?case by simp
next
  case (Cons x ss)
  show ?case
  proof (cases "cells (arena b) x")
    case None
    then show ?thesis using Cons by simp
  next
    case (Some r)
    then obtain b1 b2 out2 where "apply_new vk n b1 (triggered_order r) s t out = Inr (b2, out2)"
      "trigger_slots vk n ss b2 s t out2 = Inr (b', out')"
      using Cons.prems by (auto simp: rbind_eq_Inr)
    then show ?thesis using new Cons.IH tagged_trans unfolding new_tagged_def by blast
  qed
qed

lemma trigger_stops_tagged:
  assumes new: "new_tagged vk n s t"
    and "trigger_stops vk n b lst s t out = Inr (b', out')"
  shows "tagged s out out'"
proof -
  obtain b1 out1 b2 where "trigger_slots vk n (hit_slots Buy lst b) b s t out = Inr (b1, out1)"
    "trigger_slots vk n (hit_slots Sell lst (sweep Buy lst b1)) (sweep Buy lst b1) s t out1 = Inr (b2, out')"
    using assms(2) unfolding trigger_stops_sides by (auto simp: rbind_eq_Inr Let_def)
  then show ?thesis using trigger_slots_tagged [OF new] tagged_trans by blast
qed

lemma apply_new_steps:
  assumes "apply_new vk (Suc n) b no s t out = Inr (b', out')" and "validate_new b no = None"
    and "\<not> (no_kind no = StopMarket \<or> no_kind no = StopLimit)"
    and "\<not> (no_kind no = Fok \<and> available_qty b (no_side no) (no_price no) < no_qty no)"
  obtains slot b0 b1 filled out1 b2 out2 where "arena_insert vk (order_of_new no s t) b = (slot, b0)"
    "match_order n b0 slot s t (out @ [Accepted (no_id no) s]) = Inr (b1, filled, out1)"
    "settle_new b1 no slot filled s out1 = Inr (b2, out2)"
    "(case last_trade b2 of None \<Rightarrow> Inr (b2, out2) | Some lst \<Rightarrow> trigger_stops vk n b2 lst s t out2) = Inr (b', out')"
proof -
  obtain slot b0 where ins: "arena_insert vk (order_of_new no s t) b = (slot, b0)" by fastforce
  have "rbind (match_order n b0 slot s t (out @ [Accepted (no_id no) s])) (\<lambda>(b, filled, out).
      rbind (settle_new b no slot filled s out) (\<lambda>(b, out).
      (case last_trade b of None \<Rightarrow> Inr (b, out) | Some lst \<Rightarrow> trigger_stops vk n b lst s t out))) = Inr (b', out')"
    using assms ins by (simp add: Let_def del: trigger_stops.simps)
  then show ?thesis using that [OF ins] by (auto simp: rbind_eq_Inr simp del: trigger_stops.simps)
qed

lemma apply_new_tagged: "apply_new vk n b no s t out = Inr (b', out') \<Longrightarrow> tagged s out out'"
proof (induction n arbitrary: b no out b' out')
  case 0
  then show ?case by simp
next
  case (Suc n)
  have new: "new_tagged vk n s t" using Suc.IH by (simp add: new_tagged_def)
  show ?case
  proof (cases "validate_new b no")
    case (Some r)
    then show ?thesis using Suc.prems by auto
  next
    case val: None
    show ?thesis
    proof (cases "no_kind no = StopMarket \<or> no_kind no = StopLimit \<or>
        no_kind no = Fok \<and> available_qty b (no_side no) (no_price no) < no_qty no")
      case True
      then show ?thesis using Suc.prems val by (auto simp: Let_def)
    next
      case False
      then have ns: "\<not> (no_kind no = StopMarket \<or> no_kind no = StopLimit)"
        and nf: "\<not> (no_kind no = Fok \<and> available_qty b (no_side no) (no_price no) < no_qty no)" by auto
      obtain slot b0 b1 filled out1 b2 out2 where
        m: "match_order n b0 slot s t (out @ [Accepted (no_id no) s]) = Inr (b1, filled, out1)"
        and st: "settle_new b1 no slot filled s out1 = Inr (b2, out2)"
        and k: "(case last_trade b2 of None \<Rightarrow> Inr (b2, out2)
          | Some lst \<Rightarrow> trigger_stops vk n b2 lst s t out2) = Inr (b', out')"
        by (rule apply_new_steps [OF Suc.prems val ns nf]) (rule that; assumption)
      have "tagged s out (out @ [Accepted (no_id no) s])" by simp
      moreover have "tagged s out2 out'"
      proof (cases "last_trade b2")
        case None
        then show ?thesis using k by simp
      next
        case (Some lst)
        then have "trigger_stops vk n b2 lst s t out2 = Inr (b', out')"
          using k by (simp del: trigger_stops.simps)
        then show ?thesis by (rule trigger_stops_tagged [OF new])
      qed
      ultimately show ?thesis
        using match_order_tagged [OF m] settle_new_tagged [OF st] by (meson tagged_trans)
    qed
  qed
qed

lemma apply_cmd_tagged:
  "apply_cmd vk n b cmd out = Inr (b', out') \<Longrightarrow> tagged (sq_seq cmd) out out'"
proof (cases "sq_cmd cmd")
  case (New no)
  then show "apply_cmd vk n b cmd out = Inr (b', out') \<Longrightarrow> ?thesis"
    by (auto simp: apply_cmd_def intro: apply_new_tagged)
next
  case (Cancel i sb)
  then show "apply_cmd vk n b cmd out = Inr (b', out') \<Longrightarrow> ?thesis"
    by (auto simp: apply_cmd_def apply_cancel_def Let_def rbind_eq_Inr split: option.splits)
next
  case (Replace i np nq sb)
  have r: "tagged (sq_seq cmd) out (out @ [Replaced i (sq_seq cmd)])" by simp
  show "apply_cmd vk n b cmd out = Inr (b', out') \<Longrightarrow> ?thesis"
    using Replace
    by (auto simp: apply_cmd_def apply_replace_def Let_def rbind_eq_Inr split: option.splits if_splits
        intro: tagged_trans [OF r apply_new_tagged])
qed

end
