(* ===== verification/Samples.thy ===== *)
theory Samples
  imports Match_Facts
begin

text \<open>
  Concrete commands and one concrete session with the allocator \<open>stack_key\<close>, on which the
  properties of the book are exercised.
\<close>

definition mk_order :: "order_id \<Rightarrow> side \<Rightarrow> order_type \<Rightarrow> price \<Rightarrow> price \<Rightarrow> qty \<Rightarrow> new_order" where
  "mk_order i sd kd p sp q =
     \<lparr>no_id = i, no_symbol = 1, no_side = sd, no_kind = kd, no_tif = Gtc, no_price = p,
      no_stop_price = sp, no_qty = q\<rparr>"

lemma mk_order_simps [simp]:
  "no_id (mk_order i sd kd p sp q) = i" "no_symbol (mk_order i sd kd p sp q) = 1"
  "no_side (mk_order i sd kd p sp q) = sd" "no_kind (mk_order i sd kd p sp q) = kd"
  "no_tif (mk_order i sd kd p sp q) = Gtc" "no_price (mk_order i sd kd p sp q) = p"
  "no_stop_price (mk_order i sd kd p sp q) = sp" "no_qty (mk_order i sd kd p sp q) = q"
  by (simp_all add: mk_order_def)

definition cmd_at :: "seq_no \<Rightarrow> command \<Rightarrow> sequenced" where
  "cmd_at s c = \<lparr>sq_seq = s, sq_ts = s * 1000, sq_cmd = c\<rparr>"

lemma cmd_at_simps [simp]: "sq_seq (cmd_at s c) = s" "sq_ts (cmd_at s c) = s * 1000" "sq_cmd (cmd_at s c) = c"
  by (simp_all add: cmd_at_def)

text \<open>Two asks at 101, one at 103, a bid at 99.\<close>

definition sample_session :: "sequenced list" where
  "sample_session =
     [cmd_at 1 (New (mk_order 1 Sell Limit 101 0 5)),
      cmd_at 2 (New (mk_order 2 Sell Limit 101 0 7)),
      cmd_at 3 (New (mk_order 3 Sell Limit 103 0 4)),
      cmd_at 4 (New (mk_order 4 Buy Limit 99 0 6))]"

definition sample_order :: "order_id \<Rightarrow> side \<Rightarrow> price \<Rightarrow> qty \<Rightarrow> order" where
  "sample_order i sd p q = order_of_new (mk_order i sd Limit p 0 q) i (i * 1000)"

lemma sample_order_simps [simp]:
  "o_id (sample_order i sd p q) = i" "o_price (sample_order i sd p q) = p"
  "o_remaining (sample_order i sd p q) = q" "o_side (sample_order i sd p q) = sd"
  "o_kind (sample_order i sd p q) = Limit"
  by (simp_all add: sample_order_def)

definition sample_book :: spec_book where
  "sample_book = \<lparr>queue = (\<lambda>sd. case sd of
       Buy \<Rightarrow> [sample_order 4 Buy 99 6]
     | Sell \<Rightarrow> [sample_order 1 Sell 101 5, sample_order 2 Sell 101 7, sample_order 3 Sell 103 4]),
     stops = (\<lambda>_. []), sp_last = None\<rparr>"

lemma sample_book_simps [simp]:
  "queue sample_book Buy = [sample_order 4 Buy 99 6]"
  "queue sample_book Sell = [sample_order 1 Sell 101 5, sample_order 2 Sell 101 7, sample_order 3 Sell 103 4]"
  "stops sample_book sd = []" "sp_last sample_book = None" "stop_ids sample_book = {}"
  "pending sample_book = 0" "resting_qty sample_book = 22"
  by (simp_all add: sample_book_def stop_ids_def pending_def resting_qty_def)

lemma sample_run:
  "spec_run spec_empty sample_session =
     Some (sample_book, [Accepted 1 1, Accepted 2 2, Accepted 3 3, Accepted 4 4])"
proof -
  have q: "(\<lambda>_. []) = (case_side [] [] :: side \<Rightarrow> order list)" by (rule ext) (simp split: side.split)
  have u: "(case_side a c :: side \<Rightarrow> order list)(Buy := x) = case_side x c"
    "(case_side a c :: side \<Rightarrow> order list)(Sell := x) = case_side a x" for a c x
    by (rule ext; simp split: side.split)+
  show ?thesis
    by (simp add: sample_session_def spec_apply_def Let_def spec_empty_def q u spec_validate_def book_orders_def
        spec_match_def spec_settle_def last_price_def crosses_def sample_book_def sample_order_def
        order_of_new_def better_def order_new_def cong del: side.case_cong_weak)
qed

lemma sample_rep:
  obtains b where "apply_all stack_key 30 (book_new 1 1) sample_session [] =
      Inr (b, [Accepted 1 1, Accepted 2 2, Accepted 3 3, Accepted 4 4])"
    "rep stack_key b sample_book" "no_stale b"
proof -
  have cl: "clean_session {} (map sq_cmd sample_session)" by (simp add: sample_session_def)
  have q: "resting_qty spec_empty + (\<Sum>c\<leftarrow>sample_session. cmd_limit_qty (sq_cmd c)) < 2 ^ 64"
    by (simp add: sample_session_def cmd_limit_qty_def limit_qty_def resting_qty_def spec_empty_def)
  have "ready stack_key 30 sample_session (book_new 1 1) spec_empty"
    unfolding ready_def
    by (intro conjI exI [of _ 0] exI [of _ "{}"] rep_new no_stale_new)
      (use cl q in \<open>simp_all add: lens_def spec_empty_def stop_ids_def pending_def sample_session_def\<close>)
  from apply_all_refine [OF stack.slab_allocator_axioms this, of "[]"]
  have "\<exists>b' sp' ev. spec_run spec_empty sample_session = Some (sp', ev) \<and>
      apply_all stack_key 30 (book_new 1 1) sample_session [] = Inr (b', [] @ ev) \<and>
      rep stack_key b' sp' \<and> no_stale b'" .
  then show ?thesis using that unfolding sample_run by auto
qed

lemma sample_orderly: "orderly sample_book"
  unfolding orderly_def uncrossed_def prio_def
  by (auto simp: better_def) (case_tac sd, auto simp: better_def)

end
