(* ===== verification/Sessions.thy ===== *)
theory Sessions
  imports Samples "HOL-Library.Multiset"
begin

text \<open>
  Whole command sessions from an empty book: \<open>session_ok\<close> collects what the refinement
  asks of a session, \<open>session_run\<close> gives the book it ends in, and the specification's
  order is kept by every command.
\<close>

section \<open>Priority and no crossing over commands\<close>

lemma orderly_empty: "orderly spec_empty"
  by (simp add: orderly_def uncrossed_def prio_def spec_empty_def)

lemma orderly_cancel: "orderly sp \<Longrightarrow> orderly (spec_cancel sp i)"
  by (auto simp: orderly_def uncrossed_def prio_def spec_cancel_def sorted_wrt_filter)

lemma orderly_new: "spec_new k sp no s t = Some (sp', ev) \<Longrightarrow> orderly sp \<Longrightarrow> orderly sp'"
  using orderly_run.new by (simp add: keeps_orderly_def)

lemma orderly_apply: "spec_apply sp c = Some (sp', ev) \<Longrightarrow> orderly sp \<Longrightarrow> orderly sp'"
  by (auto simp: spec_apply_def Let_def simp del: spec_new.simps split: command.splits option.splits if_splits
      intro: orderly_new orderly_cancel)

lemma orderly_run: "spec_run sp cs = Some (sp', ev) \<Longrightarrow> orderly sp \<Longrightarrow> orderly sp'"
proof (induction cs arbitrary: sp ev)
  case (Cons c cs)
  then show ?case by (auto split: option.splits intro: orderly_apply)
qed simp

text \<open>A new order goes behind every order of a price at least as good.\<close>

lemma enqueue_priority:
  "prio sd q \<Longrightarrow> \<exists>xs ys. q = xs @ ys \<and> enqueue sd y q = xs @ y # ys \<and>
     (\<forall>m \<in> set xs. \<not> better sd (o_price y) (o_price m)) \<and> (\<forall>m \<in> set ys. better sd (o_price y) (o_price m))"
proof (induction q)
  case Nil
  show ?case by (intro exI [of _ "[]"]) simp
next
  case (Cons x q)
  show ?case
  proof (cases "better sd (o_price y) (o_price x)")
    case True
    have "better sd (o_price y) (o_price m)" if "m \<in> set (x # q)" for m
      using True that Cons.prems by (cases sd) (fastforce simp: prio_Cons better_def)+
    then show ?thesis using True by (intro exI [of _ "[]"] exI [of _ "x # q"]) simp
  next
    case False
    obtain xs ys where "q = xs @ ys" "enqueue sd y q = xs @ y # ys"
      "\<forall>m \<in> set xs. \<not> better sd (o_price y) (o_price m)" "\<forall>m \<in> set ys. better sd (o_price y) (o_price m)"
      using Cons by (auto simp: prio_Cons)
    then show ?thesis using False by (intro exI [of _ "x # xs"] exI [of _ ys]) simp
  qed
qed

section \<open>Sessions the refinement covers\<close>

definition session_ok :: "(slab_op list \<Rightarrow> nat) \<Rightarrow> nat \<Rightarrow> sequenced list \<Rightarrow> bool" where
  "session_ok vk n cs \<longleftrightarrow> slab_allocator vk \<and> clean_session {} (map sq_cmd cs) \<and>
     (\<Sum>c\<leftarrow>cs. cmd_limit_qty (sq_cmd c)) < 2 ^ 64 \<and> 2 * length cs + 2 \<le> n"

lemma spec_empty_simps [simp]: "queue spec_empty sd = []" "stops spec_empty sd = []" "sp_last spec_empty = None"
  "resting_qty spec_empty = 0" "pending spec_empty = 0" "stop_ids spec_empty = {}"
  by (simp_all add: spec_empty_def resting_qty_def pending_def stop_ids_def)

lemma session_ready: "session_ok vk n cs \<Longrightarrow> ready vk n cs (book_new sy tk) spec_empty"
  unfolding ready_def session_ok_def
  by (intro conjI exI [of _ 0] exI [of _ "{}"]) (simp_all add: rep_new no_stale_new lens_def)

lemma session_run:
  assumes "session_ok vk n cs"
  obtains b sp ev where "spec_run spec_empty cs = Some (sp, ev)"
    "apply_all vk n (book_new sy tk) cs [] = Inr (b, ev)" "rep vk b sp" "no_stale b" "orderly sp"
proof -
  have "\<exists>b sp ev. spec_run spec_empty cs = Some (sp, ev) \<and>
      apply_all vk n (book_new sy tk) cs [] = Inr (b, [] @ ev) \<and> rep vk b sp \<and> no_stale b"
    using assms by (intro apply_all_refine session_ready) (simp_all add: session_ok_def)
  then show ?thesis using that orderly_run orderly_empty by fastforce
qed

lemma session_end:
  assumes "session_ok vk n cs" and "apply_all vk n (book_new sy tk) cs [] = Inr (b, ev)"
  obtains sp where "spec_run spec_empty cs = Some (sp, ev)" "rep vk b sp" "no_stale b" "orderly sp"
  using session_run [OF assms(1), of sy tk] assms(2) by (metis prod.inject sum.inject(2))

lemma clean_take: "clean_session I cs \<Longrightarrow> clean_session I (take m cs)"
proof (induction cs arbitrary: I m)
  case (Cons c cs)
  then show ?case by (cases m) (auto split: command.splits)
qed simp

lemma session_ok_take: "session_ok vk n cs \<Longrightarrow> session_ok vk n (take m cs)"
proof -
  assume s: "session_ok vk n cs"
  have "(\<Sum>c\<leftarrow>cs. cmd_limit_qty (sq_cmd c)) =
    (\<Sum>c\<leftarrow>take m cs. cmd_limit_qty (sq_cmd c)) + (\<Sum>c\<leftarrow>drop m cs. cmd_limit_qty (sq_cmd c))"
    by (subst append_take_drop_id [of m cs, symmetric]) (simp only: map_append sum_list_append)
  moreover have "2 * length (take m cs) \<le> 2 * length cs" by simp
  ultimately show ?thesis using s unfolding session_ok_def take_map [symmetric]
    by (auto simp del: take_map length_take intro: clean_take)
qed

text \<open>Without stops every order of the commands is such a session.\<close>

definition stop_free :: "command \<Rightarrow> bool" where
  "stop_free c = (case c of New no \<Rightarrow> no_kind no \<noteq> StopMarket \<and> no_kind no \<noteq> StopLimit | _ \<Rightarrow> True)"

lemma stop_free_clean: "(\<And>c. c \<in> set cs \<Longrightarrow> stop_free c) \<Longrightarrow> clean_session {} cs"
proof (induction cs)
  case (Cons c cs)
  then have "stop_free c" "clean_session {} cs" by auto
  then show ?case by (auto simp: stop_free_def split: command.splits)
qed simp

lemma stop_free_session:
  assumes "slab_allocator vk" and "image_mset sq_cmd (mset cs) \<subseteq># mset all" and "\<forall>c \<in> set all. stop_free c"
    and "(\<Sum>c\<leftarrow>all. cmd_limit_qty c) < 2 ^ 64" and "2 * length all + 2 \<le> n"
  shows "session_ok vk n cs"
proof -
  obtain rest where rest: "mset all = mset (map sq_cmd cs) + rest"
    using assms(2) by (auto simp: subset_mset.le_iff_add)
  then have "(\<Sum>c\<leftarrow>map sq_cmd cs. cmd_limit_qty c) + (\<Sum>c\<in>#rest. cmd_limit_qty c) = (\<Sum>c\<leftarrow>all. cmd_limit_qty c)"
    by (metis image_mset_union mset_map sum_mset.union sum_mset_sum_list)
  moreover have "length cs + size rest = length all" using rest by (metis length_map size_mset size_union)
  moreover have "set (map sq_cmd cs) \<subseteq> set all" using rest by (metis set_mset_mset set_mset_union sup_ge1)
  then have "clean_session {} (map sq_cmd cs)" using assms(3) by (intro stop_free_clean) blast
  ultimately show ?thesis using assms(1,4,5) by (simp add: session_ok_def comp_def)
qed

section \<open>The sample session\<close>

lemma sample_session_ok: "session_ok stack_key 30 sample_session"
  by (simp add: session_ok_def stack.slab_allocator_axioms sample_session_def cmd_limit_qty_def limit_qty_def)

lemma sample_lens: "lens sample_book 3"
proof -
  have "length (queue sample_book sd) \<le> 3" for sd by (cases sd) simp_all
  then show ?thesis by (simp add: lens_def)
qed

lemma loc_of_iff:
  "loc = loc_of s ord \<longleftrightarrow> loc_slot loc = s \<and> loc_side loc = o_side ord \<and>
     loc_price loc = (if o_kind ord = Limit then o_price ord else o_stop_price ord)"
  by (cases loc) (auto simp: loc_of_def)

section \<open>Refusals\<close>

text \<open>The commands the code refuses, with the id and the reason of the reject event.\<close>

definition refusal :: "order_book \<Rightarrow> command \<Rightarrow> (order_id \<times> reject_reason) option" where
  "refusal b c =
     (case c of
        New no \<Rightarrow>
          if no_qty no = 0 then Some (no_id no, ZeroQty)
          else if id_index b (no_id no) \<noteq> None then Some (no_id no, DuplicateId)
          else if no_kind no \<in> {Limit, Ioc, Fok, StopLimit} \<and> no_price no \<le> 0 then Some (no_id no, BadPrice)
          else if no_kind no = Fok \<and> available_qty b (no_side no) (no_price no) < no_qty no
            then Some (no_id no, FokUnfillable)
          else None
      | Cancel i _ \<Rightarrow> if id_index b i = None then Some (i, UnknownId) else None
      | Replace i _ nq _ \<Rightarrow>
          if nq = 0 then Some (i, ZeroQty) else if id_index b i = None then Some (i, UnknownId) else None)"

end
