(* ===== verification/Book_Properties.thy ===== *)
theory Book_Properties
  imports Sessions
begin

text \<open>
  The properties of the matching core. The statements about single operations hold for any
  represented book (\<open>rep\<close>); those about sessions start from the empty book. Each is
  exercised on the sample session, or on the book it ends in.
\<close>

section \<open>Refinement\<close>

text \<open>
  C1: A session of commands applied to a new book gives exactly the events and the book
  the queue specification gives: the arena, the links, the levels, the index and the stop
  maps implement two price-time queues and two lists of pending stops. No step panics and
  the bounds on loop and recursion are never reached.
\<close>

theorem session_refinement:
  assumes "session_ok vk n cs"
  shows "\<exists>b sp ev. spec_run spec_empty cs = Some (sp, ev) \<and>
    apply_all vk n (book_new sy tk) cs [] = Inr (b, ev) \<and> rep vk b sp"
  using session_run [OF assms, of sy tk] by metis

lemma session_refinement_witness:
  "\<exists>b ev. apply_all stack_key 30 (book_new 1 1) sample_session [] = Inr (b, ev) \<and>
     ev = [Accepted 1 1, Accepted 2 2, Accepted 3 3, Accepted 4 4] \<and> rep stack_key b sample_book"
  using session_refinement [OF sample_session_ok, of 1 1] unfolding sample_run by auto

text \<open>
  C3: One \<open>apply\<close>: from any represented book, a command whose preconditions hold ends in a
  represented book with the specification's events, whatever stops it triggers.
\<close>

theorem apply_simulates:
  assumes "slab_allocator vk" and "rep vk b sp" and "cmd_ok b sp (sq_cmd cmd)"
    and "lens sp Q" and "pending sp + Q + 2 < n"
  shows "\<exists>b' sp' ev. spec_apply sp cmd = Some (sp', ev) \<and>
    apply_cmd vk n b cmd out = Inr (b', out @ ev) \<and> rep vk b' sp' \<and> no_stale b' \<and> lens sp' (Suc Q)"
  using apply_cmd_refine [OF assms, of out] by metis

lemma apply_simulates_witness:
  "\<exists>b b'. apply_cmd stack_key 6 b (cmd_at 5 (New (mk_order 9 Buy StopMarket 0 105 3))) [] = Inr (b', [Accepted 9 5])"
proof -
  obtain b where b: "rep stack_key b sample_book" "no_stale b" by (rule sample_rep)
  let ?c = "cmd_at 5 (New (mk_order 9 Buy StopMarket 0 105 3))"
  have "\<exists>b' sp' ev. spec_apply sample_book ?c = Some (sp', ev) \<and>
      apply_cmd stack_key 6 b ?c [] = Inr (b', [] @ ev) \<and> rep stack_key b' sp' \<and> no_stale b' \<and> lens sp' (Suc 3)"
    by (rule apply_simulates [OF stack.slab_allocator_axioms b(1)])
      (use b sample_lens in \<open>simp_all add: cmd_ok_def limit_qty_def\<close>)
  moreover have "\<exists>sp'. spec_apply sample_book ?c = Some (sp', [Accepted 9 5])"
    by (simp add: spec_apply_def spec_validate_def book_orders_def)
  ultimately show ?thesis by clarsimp blast
qed

section \<open>Sessions\<close>

text \<open>
  C5: After every command of a session the book is not crossed: \<open>check_no_cross\<close> holds,
  the best bid is below the best ask.
\<close>

theorem session_never_crossed:
  assumes "session_ok vk n cs"
  shows "\<exists>b ev. apply_all vk n (book_new sy tk) (take m cs) [] = Inr (b, ev) \<and> check_no_cross b"
proof -
  obtain b sp ev where "apply_all vk n (book_new sy tk) (take m cs) [] = Inr (b, ev)" "rep vk b sp" "orderly sp"
    by (rule session_run [OF session_ok_take [OF assms]]) (rule that; assumption)
  then show ?thesis using no_cross_refine unfolding orderly_def by blast
qed

lemma session_never_crossed_witness:
  "\<exists>b ev. apply_all stack_key 30 (book_new 1 1) (take 3 sample_session) [] = Inr (b, ev) \<and> check_no_cross b"
  by (rule session_never_crossed [OF sample_session_ok])

text \<open>
  C14: What the book shows is what the queues hold: \<open>depth\<close> lists, best price first, each
  price at which an order rests with the exact quantity resting there, and \<open>best_bid\<close> and
  \<open>best_ask\<close> are the first of them.
\<close>

theorem depth_shows_queues:
  assumes "rep vk b sp"
  shows "map as_nat (bs_bids (depth b m)) = take m (by_price (queue sp Buy)) \<and>
    map as_nat (bs_asks (depth b m)) = take m (by_price (queue sp Sell)) \<and>
    map_option as_nat (best_bid b) = (case by_price (queue sp Buy) of [] \<Rightarrow> None | x # _ \<Rightarrow> Some x) \<and>
    map_option as_nat (best_ask b) = (case by_price (queue sp Sell) of [] \<Rightarrow> None | x # _ \<Rightarrow> Some x) \<and>
    bs_last_trade (depth b m) = sp_last sp"
  using depth_views [of b] best_views [of b] queue_view(1) [OF assms] assms
  by (simp add: depth_def rep_def book_rep_def)

lemma depth_shows_queues_witness:
  "\<exists>b ev. apply_all stack_key 30 (book_new 1 1) sample_session [] = Inr (b, ev) \<and>
     map as_nat (bs_asks (depth b 5)) = [(101, 12), (103, 4)] \<and> map as_nat (bs_bids (depth b 5)) = [(99, 6)] \<and>
     map_option as_nat (best_ask b) = Some (101, 12)"
proof -
  obtain b where b: "rep stack_key b sample_book"
    "apply_all stack_key 30 (book_new 1 1) sample_session [] = Inr (b, [Accepted 1 1, Accepted 2 2, Accepted 3 3, Accepted 4 4])"
    by (rule sample_rep)
  show ?thesis using depth_shows_queues [OF b(1), of 5] b(2) by (auto simp: by_price_def)
qed

text \<open>
  C12: The book's structure at the end of every session: each level is a non-empty doubly
  linked list through the arena, from its head to its tail, without a slot met twice; every
  slot on it holds a resting limit order of that side and price with quantity left; and the
  level's \<open>total_qty\<close> is the exact sum over the list.
\<close>

theorem levels_well_linked:
  assumes "session_ok vk n cs" and "apply_all vk n (book_new sy tk) cs [] = Inr (b, ev)"
    and "(p, lvl) \<in> set (side_levels b sd)"
  shows "\<exists>ss. ss \<noteq> [] \<and> distinct ss \<and> seg (cells (arena b)) None (head lvl) ss (tail lvl) None \<and>
    (\<forall>s \<in> set ss. slot_ok (cells (arena b)) sd p s) \<and>
    unat (total_qty lvl) = nsum o_remaining (map (slot_order (cells (arena b))) ss)"
proof -
  obtain sp where "rep vk b sp" by (rule session_end [OF assms(1,2)])
  then have "queue_rep (cells (arena b)) sd (side_levels b sd) (queue sp sd)"
    by (simp add: rep_def book_rep_def)
  then obtain sss where q: "list_all2 (level_rep (cells (arena b)) sd) (side_levels b sd) sss" "[] \<notin> set sss"
    "distinct (concat sss)"
    by (rule queue_repE) (rule that; assumption)
  obtain k where k: "k < length (side_levels b sd)" "side_levels b sd ! k = (p, lvl)"
    using assms(3) by (auto simp: in_set_conv_nth)
  have "level_rep (cells (arena b)) sd (p, lvl) (sss ! k)" "sss ! k \<in> set sss"
    using list_all2_nthD [OF q(1) k(1)] k list_all2_lengthD [OF q(1)] by auto
  then show ?thesis using q(2,3) by (intro exI [of _ "sss ! k"]) (auto simp: level_rep_def distinct_concat_iff)
qed

lemma levels_well_linked_witness:
  "\<exists>b ev (lvl :: price_level) ss. apply_all stack_key 30 (book_new 1 1) sample_session [] = Inr (b, ev) \<and>
     ss \<noteq> [] \<and> distinct ss \<and> seg (cells (arena b)) None (head lvl) ss (tail lvl) None \<and> unat (total_qty lvl) = 12"
proof -
  obtain b where b: "rep stack_key b sample_book"
    "apply_all stack_key 30 (book_new 1 1) sample_session [] = Inr (b, [Accepted 1 1, Accepted 2 2, Accepted 3 3, Accepted 4 4])"
    by (rule sample_rep)
  have "level_view (side_levels b Sell) = [(101, 12), (103, 4)]"
    using queue_view(1) [OF b(1), of Sell] by (simp add: by_price_def)
  then obtain lvl where "(101, lvl) \<in> set (side_levels b Sell)" "unat (total_qty lvl) = 12"
    by (auto simp: level_view_def)
  then have "\<exists>ss. ss \<noteq> [] \<and> distinct ss \<and> seg (cells (arena b)) None (head lvl) ss (tail lvl) None \<and>
      unat (total_qty lvl) = 12"
    using levels_well_linked [OF sample_session_ok b(2)] by metis
  then show ?thesis using b(2) by blast
qed

text \<open>
  C13: The index is exact at the end of every session: it finds an id if and only if the
  arena holds an order of that id, at the indexed slot, with the indexed side, and at the
  price it rests at (its stop price while it is pending); no two orders share an id.
\<close>

theorem index_exact:
  assumes "session_ok vk n cs" and "apply_all vk n (book_new sy tk) cs [] = Inr (b, ev)"
  shows "id_index b i = Some loc \<longleftrightarrow> (\<exists>ord. cells (arena b) (loc_slot loc) = Some ord \<and> o_id ord = i \<and>
      loc_side loc = o_side ord \<and> loc_price loc = (if o_kind ord = Limit then o_price ord else o_stop_price ord))"
proof -
  obtain sp where "rep vk b sp" by (rule session_end [OF assms])
  then have "index_rep (cells (arena b)) (id_index b)" by (simp add: rep_def book_rep_def)
  then show ?thesis unfolding index_rep_def loc_of_iff by metis
qed

lemma index_exact_witness:
  "\<exists>b ev. apply_all stack_key 30 (book_new 1 1) sample_session [] = Inr (b, ev) \<and>
    (\<forall>loc. id_index b 2 = Some loc \<longleftrightarrow> (\<exists>ord. cells (arena b) (loc_slot loc) = Some ord \<and> o_id ord = 2 \<and>
      loc_side loc = o_side ord \<and> loc_price loc = (if o_kind ord = Limit then o_price ord else o_stop_price ord)))"
proof -
  obtain b where b: "apply_all stack_key 30 (book_new 1 1) sample_session [] = Inr (b, [Accepted 1 1, Accepted 2 2, Accepted 3 3, Accepted 4 4])"
    by (rule sample_rep)
  show ?thesis using index_exact [OF sample_session_ok b, of 2] b by blast
qed

section \<open>Matching\<close>

text \<open>
  C6: Price-time priority. The makers an order trades with are the front of the opposite
  queue, in its order, one trade each at the maker's price; every one but the last is
  filled completely, and the loop returns the quantity traded.
\<close>

theorem match_takes_front:
  assumes "slab_allocator vk" and "rep vk b sp"
    and "arena_insert vk (order_of_new no s t) b = (slot, b0)"
    and "length (queue sp (opposite (no_side no))) < n"
  shows "\<exists>b1 filled fs. match_order n b0 slot s t out =
      Inr (b1, filled, out @ concat (map (fill_events s t (no_id no) (no_side no)) fs)) \<and>
    map fst fs = take (length fs) (queue sp (opposite (no_side no))) \<and>
    (\<forall>(m, x) \<in> set (butlast fs). x = o_remaining m) \<and> (\<forall>(m, x) \<in> set fs. x \<le> o_remaining m) \<and>
    traded fs = unat filled"
proof -
  let ?q = "queue sp (opposite (no_side no))"
  obtain fs r q where fl: "fills (crosses (no_side no) (no_kind no) (no_price no)) (no_qty no) ?q = (fs, r, q)"
    by (rule prod_cases3)
  obtain b1 where b1: "match_order n b0 slot s t out =
      Inr (b1, no_qty no - r, out @ concat (map (fill_events s t (no_id no) (no_side no)) fs))"
    by (rule match_order_refine [OF assms fl])
  have front: "map fst fs = take (length fs) ?q \<and> (\<forall>(m, x) \<in> set (butlast fs). x = o_remaining m)"
    using fills_front [OF fl] by (auto dest: in_set_butlastD)
  have "\<forall>(m, x) \<in> set fs. x \<le> o_remaining m" using fills_makers [OF fl] by blast
  with b1 front fills_filled [OF fl] show ?thesis by auto
qed

lemma match_takes_front_witness:
  "\<exists>b b1 slot fs filled. match_order 9 b slot 5 5000 [] =
      Inr (b1, filled, concat (map (fill_events 5 5000 5 Buy) fs)) \<and>
     map fst fs = take (length fs) [sample_order 1 Sell 101 5, sample_order 2 Sell 101 7, sample_order 3 Sell 103 4]"
proof -
  obtain b where b: "rep stack_key b sample_book" by (rule sample_rep)
  let ?no = "mk_order 5 Buy Limit 101 0 8"
  obtain slot b0 where i: "arena_insert stack_key (order_of_new ?no 5 5000) b = (slot, b0)" by fastforce
  have "length (queue sample_book (opposite (no_side ?no))) < 9" by simp
  from match_takes_front [OF stack.slab_allocator_axioms b i this, of "[]"] show ?thesis by clarsimp blast
qed

text \<open>
  C10: Conservation. What the aggressor has left plus what it traded is its quantity, the
  trades' quantities add up to it, and the resting quantity of the book falls by exactly
  that much.
\<close>

theorem match_conserves_quantity:
  assumes "slab_allocator vk" and "rep vk b sp"
    and "arena_insert vk (order_of_new no s t) b = (slot, b0)"
    and "length (queue sp (opposite (no_side no))) < n"
  shows "\<exists>b1 filled evs agg sp1. match_order n b0 slot s t out = Inr (b1, filled, out @ evs) \<and>
    in_match vk b1 slot agg sp1 \<and> unat (o_remaining agg) + unat filled = unat (no_qty no) \<and>
    (\<Sum>e\<leftarrow>filter is_trade evs. unat (trade_qty e)) = unat filled \<and>
    resting_qty sp1 + unat filled = resting_qty sp"
proof -
  let ?o = "opposite (no_side no)"
  obtain fs r q where fl: "fills (crosses (no_side no) (no_kind no) (no_price no)) (no_qty no) (queue sp ?o) = (fs, r, q)"
    by (rule prod_cases3)
  obtain b1 where b1: "match_order n b0 slot s t out =
      Inr (b1, no_qty no - r, out @ concat (map (fill_events s t (no_id no) (no_side no)) fs))"
    "in_match vk b1 slot ((order_of_new no s t)\<lparr>o_remaining := r\<rparr>)
      (sp\<lparr>queue := (queue sp)(?o := q), sp_last := last_price fs (sp_last sp)\<rparr>)"
    by (rule match_order_refine [OF assms fl])
  have "unat r + unat (no_qty no - r) = unat (no_qty no)" using fills_filled [OF fl] fills_traded [OF fl] by simp
  with b1 show ?thesis
    using trades_of_fills traded_trades fills_filled [OF fl] match_resting [OF fl, of "last_price fs (sp_last sp)"]
    by (intro exI [of _ b1] exI) (rule conjI, assumption, rule conjI, assumption, simp)
qed

lemma match_conserves_quantity_witness:
  "\<exists>b b1 slot filled evs sp1. match_order 9 b slot 5 5000 [] = Inr (b1, filled, evs) \<and>
     (\<Sum>e\<leftarrow>filter is_trade evs. unat (trade_qty e)) = unat filled \<and> resting_qty sp1 + unat filled = 22"
proof -
  obtain b where b: "rep stack_key b sample_book" by (rule sample_rep)
  let ?no = "mk_order 5 Buy Limit 101 0 8"
  obtain slot b0 where i: "arena_insert stack_key (order_of_new ?no 5 5000) b = (slot, b0)" by fastforce
  have "length (queue sample_book (opposite (no_side ?no))) < 9" by simp
  from match_conserves_quantity [OF stack.slab_allocator_axioms b i this, of "[]"] show ?thesis by clarsimp blast
qed

text \<open>
  C11: A limit order trades only at its limit price or better, and stops with quantity left
  only when no opposite order within its limit remains.
\<close>

theorem limit_respected:
  assumes "slab_allocator vk" and "rep vk b sp" and "orderly sp"
    and "arena_insert vk (order_of_new no s t) b = (slot, b0)"
    and "length (queue sp (opposite (no_side no))) < n" and "no_kind no = Limit"
  shows "\<exists>b1 filled evs agg sp1. match_order n b0 slot s t out = Inr (b1, filled, out @ evs) \<and>
    in_match vk b1 slot agg sp1 \<and>
    (\<forall>e \<in> set evs. is_trade e \<longrightarrow> within_limit (no_side no) (no_price no) (trade_price e)) \<and>
    (o_remaining agg \<noteq> 0 \<longrightarrow> (\<forall>m \<in> set (queue sp1 (opposite (no_side no))).
       \<not> within_limit (no_side no) (no_price no) (o_price m)))"
proof -
  let ?sd = "no_side no" and ?o = "opposite (no_side no)"
  obtain fs r q where fl: "fills (crosses ?sd (no_kind no) (no_price no)) (no_qty no) (queue sp ?o) = (fs, r, q)"
    by (rule prod_cases3)
  note fl' = fl [unfolded assms(6)]
  let ?evs = "concat (map (fill_events s t (no_id no) ?sd) fs)"
  obtain b1 where b1: "match_order n b0 slot s t out = Inr (b1, no_qty no - r, out @ ?evs)"
    "in_match vk b1 slot ((order_of_new no s t)\<lparr>o_remaining := r\<rparr>)
      (sp\<lparr>queue := (queue sp)(?o := q), sp_last := last_price fs (sp_last sp)\<rparr>)"
    by (rule match_order_refine [OF assms(1,2,4,5) fl])
  have pr: "prio ?o (queue sp ?o)" using assms(3) by (simp add: orderly_def)
  have within: "within_limit ?sd (no_price no) (trade_price e)" if "e \<in> set ?evs" "is_trade e" for e
    using that fills_makers [OF fl'] by (auto simp: fill_events_def within_limit_crosses split: if_splits)
  have left: "r \<noteq> 0 \<longrightarrow> (\<forall>m \<in> set q. \<not> within_limit ?sd (no_price no) (o_price m))"
    using limit_left [OF fl' _ pr] by (simp add: within_limit_crosses)
  show ?thesis
    by (intro exI conjI, rule b1(1), rule b1(2)) (use within left in auto)
qed

lemma limit_respected_witness:
  "\<exists>b b1 slot filled evs. match_order 9 b slot 5 5000 [] = Inr (b1, filled, evs) \<and>
     (\<forall>e \<in> set evs. is_trade e \<longrightarrow> trade_price e \<le> 101)"
proof -
  obtain b where b: "rep stack_key b sample_book" by (rule sample_rep)
  let ?no = "mk_order 5 Buy Limit 101 0 20"
  obtain slot b0 where i: "arena_insert stack_key (order_of_new ?no 5 5000) b = (slot, b0)" by fastforce
  have "length (queue sample_book (opposite (no_side ?no))) < 9" "no_kind ?no = Limit" by simp_all
  from limit_respected [OF stack.slab_allocator_axioms b sample_orderly i this, of "[]"]
  show ?thesis by (clarsimp simp: within_limit_def) blast
qed

text \<open>
  C7: Fill or kill. When \<open>available_qty\<close> finds the quantity, the order is filled
  completely, and only at its limit price or better, although the loop itself does not
  look at the limit of a fill-or-kill order.
\<close>

theorem fok_all_or_nothing:
  assumes "slab_allocator vk" and "rep vk b sp" and "orderly sp"
    and "arena_insert vk (order_of_new no s t) b = (slot, b0)"
    and "length (queue sp (opposite (no_side no))) < n" and "no_kind no = Fok"
    and "no_qty no \<le> available_qty b (no_side no) (no_price no)"
  shows "\<exists>b1 evs. match_order n b0 slot s t out = Inr (b1, no_qty no, out @ evs) \<and>
    (\<forall>e \<in> set evs. is_trade e \<longrightarrow> within_limit (no_side no) (no_price no) (trade_price e))"
proof -
  let ?sd = "no_side no" and ?o = "opposite (no_side no)"
  obtain fs r q where fl: "fills (crosses ?sd (no_kind no) (no_price no)) (no_qty no) (queue sp ?o) = (fs, r, q)"
    by (rule prod_cases3)
  obtain b1 where b1: "match_order n b0 slot s t out =
      Inr (b1, no_qty no - r, out @ concat (map (fill_events s t (no_id no) ?sd) fs))"
    by (rule match_order_refine [OF assms(1,2,4,5) fl])
  have "unat (no_qty no) \<le> nsum o_remaining (filter (\<lambda>m. within_limit ?sd (no_price no) (o_price m)) (queue sp ?o))"
    using assms(2,7) available_refine by (metis linorder_not_less rep_def spec_available_within)
  then have f: "r = 0 \<and> (\<forall>(m, x) \<in> set fs. within_limit ?sd (no_price no) (o_price m))"
    using assms(3,6) by (intro fok_fills [OF fl]) (auto simp: crosses_def orderly_def)
  moreover from f have "within_limit ?sd (no_price no) (trade_price e)"
    if "e \<in> set (concat (map (fill_events s t (no_id no) ?sd) fs))" "is_trade e" for e
    using that by (auto simp: fill_events_def split: if_splits)
  ultimately show ?thesis using b1 by auto
qed

lemma fok_all_or_nothing_witness:
  "\<exists>b b1 slot evs. match_order 9 b slot 5 5000 [] = Inr (b1, 12, evs)"
proof -
  obtain b where b: "rep stack_key b sample_book" by (rule sample_rep)
  let ?no = "mk_order 5 Buy Fok 101 0 12"
  obtain slot b0 where i: "arena_insert stack_key (order_of_new ?no 5 5000) b = (slot, b0)" by fastforce
  have "length (queue sample_book (opposite (no_side ?no))) < 9" "no_kind ?no = Fok" by simp_all
  moreover have "no_qty ?no \<le> available_qty b (no_side ?no) (no_price ?no)"
    using available_refine [of "cells (arena b)" b sample_book Buy 101 12] b
    by (simp add: rep_def spec_available_def)
  ultimately show ?thesis
    using fok_all_or_nothing [OF stack.slab_allocator_axioms b sample_orderly i, of 9 "[]"] by auto
qed

section \<open>Cancel, replace and refusals\<close>

text \<open>
  C15: Cancelling a resting order takes it, and nothing else, out of book, index and arena;
  an id that rests nowhere (and is no pending stop) is refused and changes nothing.
\<close>

theorem cancel_exact:
  assumes "rep vk b sp" and "no_stale b" and "i \<notin> stop_ids sp"
  shows "if resting_order sp i = None then apply_cancel b i s out = Inr (b, out @ [Rejected i UnknownId s])
    else \<exists>b'. apply_cancel b i s out = Inr (b', out @ [Cancelled i s]) \<and> rep vk b' (spec_cancel sp i) \<and>
      id_index b' i = None \<and> (\<forall>j. j \<noteq> i \<longrightarrow> (id_index b' j = None) = (id_index b j = None))"
proof (cases "resting_order sp i")
  case None
  then show ?thesis using index_absent [OF assms(1) None assms(3)] by (simp add: apply_cancel_def)
next
  case (Some x)
  obtain b' where b': "apply_cancel b i s out = Inr (b', out @ [Cancelled i s])" "rep vk b' (spec_cancel sp i)"
    using apply_cancel_refine [OF assms, of s out] Some by auto
  have "id_index b' j = None \<longleftrightarrow> j \<notin> o_id ` set (book_orders (spec_cancel sp i))"
    "id_index b j = None \<longleftrightarrow> j \<notin> o_id ` set (book_orders sp)" for j
    using b'(2) assms(1) by (auto simp: rep_def index_ids)
  moreover have "o_id ` set (book_orders (spec_cancel sp i)) = o_id ` set (book_orders sp) - {i}"
    using assms(3) by (auto simp: book_orders_def spec_cancel_def stop_ids_def)
  ultimately show ?thesis using b' Some by auto
qed

lemma cancel_exact_witness:
  "\<exists>b b'. apply_cancel b 2 9 [] = Inr (b', [Cancelled 2 9]) \<and> id_index b' 2 = None \<and>
     rep stack_key b' (spec_cancel sample_book 2)"
proof -
  obtain b where b: "rep stack_key b sample_book" "no_stale b" by (rule sample_rep)
  have "resting_order sample_book 2 = Some (sample_order 2 Sell 101 7)" by (simp add: resting_order_def)
  then show ?thesis using cancel_exact [OF b, of 2 9 "[]"] by auto
qed








section \<open>Events and checks\<close>

text \<open>
  Every event \<open>apply\<close> appends carries the sequence number of the command it answers,
  also the events of the stops it triggers, and the events already there are kept.
\<close>

lemma events_carry_seq:
  assumes "apply_cmd vk n b cmd out = Inr (b', out')"
  shows "\<exists>evs. out' = out @ evs \<and> (\<forall>e \<in> set evs. event_seq e = sq_seq cmd)"
  using apply_cmd_tagged [OF assms] by (simp add: tagged_def)

lemma events_carry_seq_witness:
  "\<exists>evs. [Rejected 5 UnknownId (7 :: seq_no)] = [] @ evs \<and> (\<forall>e \<in> set evs. event_seq e = sq_seq (cmd_at 7 (Cancel 5 1)))"
  by (rule events_carry_seq [of stack_key 1 "book_new 1 1" _ "[]" "book_new 1 1"])
    (simp add: apply_cmd_def apply_cancel_def book_new_def)

text \<open>
  \<open>check_qty_conservation\<close>, in whatever order the hash map lists its keys, holds if
  and only if the quantities of the pending stops sum to zero (modulo \<open>2 ^ 64\<close>): the index
  holds pending stops, the levels do not, so one pending stop is enough to make it fail.
\<close>

lemma qty_check_sees_stops:
  assumes "rep vk b sp" and "distinct ids" and "set ids = dom (id_index b)"
  shows "check_qty_conservation ids b = Inr (wsum (stops sp Buy @ stops sp Sell) = 0)"
  by (rule qty_check_refine [OF assms])

lemma qty_check_sees_stops_witness:
  "\<exists>b ids. rep stack_key b sample_book \<and> check_qty_conservation ids b = Inr True"
proof -
  obtain b where b: "rep stack_key b sample_book" by (rule sample_rep)
  have "i \<in> dom (id_index b) \<longleftrightarrow> i \<in> o_id ` set (book_orders sample_book)" for i
    using b index_ids [of "cells (arena b)" b sample_book i] by (simp only: rep_def domIff) blast
  then have "dom (id_index b) = o_id ` set (book_orders sample_book)" by (rule set_eqI)
  then have "set [1, 2, 3, 4] = dom (id_index b)" by (auto simp: book_orders_def)
  from qty_check_sees_stops [OF b _ this] b show ?thesis by (intro exI [of _ b] exI [of _ "[1, 2, 3, 4]"]) simp
qed

text \<open>
  C38: The scan of \<open>available_qty\<close>, which stops at the first level beyond the limit and adds
  with saturation, compares with any quantity exactly as the true sum of all opposite
  orders within the limit does.
\<close>

theorem available_qty_exact:
  assumes "rep vk b sp"
  shows "(available_qty b sd p < q) = (spec_available sp sd p < unat q)"
  using assms available_refine unfolding rep_def by blast

lemma available_qty_exact_witness:
  "\<exists>b. rep stack_key b sample_book \<and> available_qty b Buy 102 < 13 \<and> \<not> available_qty b Buy 102 < 12"
proof -
  obtain b where b: "rep stack_key b sample_book" by (rule sample_rep)
  show ?thesis
    using b available_qty_exact [OF b, of Buy 102 13] available_qty_exact [OF b, of Buy 102 12]
    by (intro exI [of _ b]) (simp add: spec_available_def)
qed

end
