(* ===== verification/Stop_Hazards.thy ===== *)
theory Stop_Hazards
  imports Samples
begin

text \<open>
  What the code does outside the sessions the refinement covers, shown on concrete command
  sequences with the slab's own choice of keys (last freed, first reused): held
  \<open>StopLimit\<close> orders, cancels and replaces of pending stops, immediate-or-cancel limits,
  level counters and totals beyond 64 bits.
\<close>

definition run_book :: "nat \<Rightarrow> sequenced list \<Rightarrow> halt + (order_book \<times> output_event list)" where
  "run_book n cs = apply_all stack_key n (book_new 1 1) cs []"

definition observe :: "(order_book \<Rightarrow> 'a) \<Rightarrow> halt + (order_book \<times> output_event list) \<Rightarrow> halt + ('a \<times> output_event list)" where
  "observe f r = (case r of Inl h \<Rightarrow> Inl h | Inr (b, ev) \<Rightarrow> Inr (f b, ev))"

lemma observe_Inl: "observe f r = Inl h \<longleftrightarrow> r = Inl h"
  by (auto simp: observe_def split: sum.splits)

section \<open>Immediate or cancel\<close>

text \<open>
  An immediate-or-cancel order trades like a market order: its limit price is checked
  to be positive and then never looked at.
\<close>

lemma ioc_ignores_limit:
  "match_loop n sd Ioc limit ag s t tot b out = match_loop n sd Market limit' ag s t tot b out"
proof (induction n arbitrary: tot b out)
  case (Suc n)
  have c: "crosses sd Ioc limit = crosses sd Market limit'" by (simp add: fun_eq_iff crosses_def)
  show ?case unfolding match_loop.simps c Suc.IH ..
qed simp

section \<open>Cancelling and replacing a pending stop\<close>

text \<open>
  Cancelling a pending stop corrupts the book. The stop is taken off the level of its
  own side at its trigger price: with a bid of 5 at 100 and a pending buy stop of 3 at 100,
  cancelling the stop makes the book show a bid of 2. Its slot stays listed under the
  trigger price, so the next order that gets the slot is triggered in its place: a buy
  stop at 200 becomes a market order when the price reaches 101.
\<close>

lemma cancelled_stop_corrupts:
  "observe best_bid (run_book 30
     [cmd_at 1 (New (mk_order 1 Buy Limit 100 0 5)), cmd_at 2 (New (mk_order 2 Buy StopMarket 0 100 3)),
      cmd_at 3 (Cancel 2 1)]) =
     Inr (Some (100, 2), [Accepted 1 1, Accepted 2 2, Cancelled 2 3]) \<and>
   observe last_trade (run_book 30
     [cmd_at 1 (New (mk_order 1 Buy StopMarket 0 100 1)), cmd_at 2 (Cancel 1 1),
      cmd_at 3 (New (mk_order 2 Buy StopMarket 0 200 3)), cmd_at 4 (New (mk_order 3 Sell Limit 101 0 5)),
      cmd_at 5 (New (mk_order 4 Buy Limit 101 0 1))]) =
     Inr (Some 101, [Accepted 1 1, Cancelled 1 2, Accepted 2 3, Accepted 3 4, Accepted 4 5,
       Trade 5 4 3 101 1 Buy 5000, PartiallyFilled 3 1 4 5, Filled 4 5,
       Accepted 2 5, Trade 5 2 3 101 3 Buy 5000, PartiallyFilled 3 3 1 5, Filled 2 5])"
  by (rule conjI) code_simp+

text \<open>
  Replacing a pending stop loses its trigger: the replacement is held at stop price 0.
  A buy stop at 200 whose quantity is replaced becomes a market order at the next trade, at
  50.
\<close>

lemma replaced_stop_loses_trigger:
  "observe last_trade (run_book 30
     [cmd_at 1 (New (mk_order 1 Buy StopMarket 0 200 1)), cmd_at 2 (Replace 1 0 2 1),
      cmd_at 3 (New (mk_order 2 Sell Limit 50 0 9)), cmd_at 4 (New (mk_order 3 Buy Limit 50 0 1))]) =
     Inr (Some 50, [Accepted 1 1, Replaced 1 2, Accepted 1 2, Accepted 2 3, Accepted 3 4,
       Trade 4 3 2 50 1 Buy 4000, PartiallyFilled 2 1 8 4, Filled 3 4,
       Accepted 1 4, Trade 4 1 2 50 2 Buy 4000, PartiallyFilled 2 2 6 4, Filled 1 4])"
  by code_simp

section \<open>Counters and totals\<close>

text \<open>
  A level's \<open>count\<close> is not its number of orders: filling a maker in part twice counts
  it three times. Nothing in the code reads the counter.
\<close>

lemma level_count_drifts:
  "observe (\<lambda>b. map_option lv_count (get_level b Sell 100)) (run_book 30
     [cmd_at 1 (New (mk_order 1 Sell Limit 100 0 9)), cmd_at 2 (New (mk_order 2 Buy Limit 100 0 1)),
      cmd_at 3 (New (mk_order 3 Buy Limit 100 0 1))]) =
     Inr (Some 3, [Accepted 1 1, Accepted 2 2, Trade 2 2 1 100 1 Buy 2000, PartiallyFilled 1 1 8 2, Filled 2 2,
       Accepted 3 3, Trade 3 3 1 100 1 Buy 3000, PartiallyFilled 1 1 7 3, Filled 3 3])"
  by code_simp

text \<open>
  A level's total wraps at \<open>2 ^ 64\<close>: two offers of \<open>2 ^ 63\<close> at one price show an offer
  of 0, and a fill-or-kill order for a single unit is refused as unfillable.
\<close>

lemma level_total_wraps:
  "observe best_ask (run_book 30
     [cmd_at 1 (New (mk_order 1 Sell Limit 100 0 9223372036854775808)),
      cmd_at 2 (New (mk_order 2 Sell Limit 100 0 9223372036854775808)),
      cmd_at 3 (New (mk_order 3 Buy Fok 100 0 1))]) =
     Inr (Some (100, 0), [Accepted 1 1, Accepted 2 2, Accepted 3 3, Rejected 3 FokUnfillable 3])"
  by code_simp

section \<open>A triggered stop limit\<close>

text \<open>The slots whose triggers are hit at \<open>lst\<close>, in the order they are looked at.\<close>

definition hit_slots :: "side \<Rightarrow> price \<Rightarrow> order_book \<Rightarrow> nat list" where
  "hit_slots sd lst b =
     (case sd of Buy \<Rightarrow> concat (map snd (bt_range_to lst (stop_buys b)))
      | Sell \<Rightarrow> concat (map snd (bt_range_to (Reverse lst) (stop_sells b))))"

text \<open>
  \<open>spinning sd s lst b\<close>: the first trigger hit at the last trade \<open>lst\<close> is that of slot \<open>s\<close>, which
  holds a live order of side \<open>sd\<close> that becomes a limit order (any but a stop-market), and this one
  will rest: it has a positive price and quantity, the best opposite price does not cross it,
  and its price level, if there is one, ends at a live order.
\<close>

definition spinning :: "side \<Rightarrow> nat \<Rightarrow> price \<Rightarrow> order_book \<Rightarrow> bool" where
  "spinning sd s lst b \<longleftrightarrow>
     (\<exists>ord rest. cells (arena b) s = Some ord \<and> o_side ord = sd \<and> o_kind ord \<noteq> StopMarket \<and>
        0 < o_price ord \<and> o_remaining ord \<noteq> 0 \<and> last_trade b = Some lst \<and> hit_slots sd lst b = s # rest \<and>
        (sd = Sell \<longrightarrow> hit_slots Buy lst b = []) \<and>
        (\<forall>p. best_opposite b sd = Some p \<longrightarrow> \<not> crosses sd Limit (o_price ord) p) \<and>
        (\<forall>lvl t. get_level b sd (o_price ord) = Some lvl \<longrightarrow> tail lvl = Some t \<longrightarrow> cells (arena b) t \<noteq> None))"

lemma arena_modify_live:
  "cells (arena b) s = Some r \<Longrightarrow>
     arena_modify s f b = Inr (b\<lparr>arena := (arena b)\<lparr>cells := (cells (arena b))(s \<mapsto> f r)\<rparr>\<rparr>)"
  by (simp add: arena_modify_def)

text \<open>Resting behind the tail of the level, which may be the order's own slot: then it is linked to
  itself.\<close>

lemma insert_resting_again:
  assumes "cells (arena b) s = Some r" "o_side r = sd" "o_remaining r \<noteq> 0"
    and tl: "\<forall>lvl t. get_level b sd (o_price r) = Some lvl \<longrightarrow> tail lvl = Some t \<longrightarrow> cells (arena b) t \<noteq> None"
  obtains b' r' lvl where "insert_resting s b = Inr b'" "cells (arena b') s = Some r'" "o_side r' = sd"
    "o_kind r' = o_kind r" "o_price r' = o_price r" "o_remaining r' = o_remaining r" "stop_buys b' = stop_buys b"
    "stop_sells b' = stop_sells b" "last_trade b' = last_trade b" "best_opposite b' sd = best_opposite b sd"
    "get_level b' sd (o_price r) = Some lvl" "tail lvl = Some s"
proof -
  define l where "l = (case get_level b sd (o_price r) of None \<Rightarrow> level_new | Some l \<Rightarrow> l)"
  have t: "cells (arena b) t \<noteq> None" if "tail l = Some t" for t
    using tl that by (auto simp: l_def level_new_def split: option.splits)
  let ?b = "put_level sd (o_price r) (push_back s (o_remaining r) l) b"
  have pb: "tail (push_back s (o_remaining r) l) = Some s" by (simp add: push_back_def Let_def)
  have g: "get_level (b'\<lparr>arena := a\<rparr>) sd p = get_level b' sd p" "best_opposite (b'\<lparr>arena := a\<rparr>) sd = best_opposite b' sd" for b' a p
    by (simp_all add: get_level_def best_opposite_def cong: side.case_cong)
  have gp: "get_level ?b sd (o_price r) = Some (push_back s (o_remaining r) l)"
    by (simp add: get_level_def put_level_def btree_simps split: side.split)
  have c: "arena ?b = arena b" by (simp add: put_level_def split: side.split)
  have fr: "stop_buys ?b = stop_buys b" "stop_sells ?b = stop_sells b" "last_trade ?b = last_trade b" "best_opposite ?b sd = best_opposite b sd"
    by (simp_all add: put_level_def best_opposite_def split: side.split)
  define r1 where "r1 = r\<lparr>o_prev := tail l, o_next := None\<rparr>"
  have r1: "o_side r1 = o_side r" "o_kind r1 = o_kind r" "o_price r1 = o_price r" "o_remaining r1 = o_remaining r"
    by (simp_all add: r1_def)
  define b1 where "b1 = ?b\<lparr>arena := (arena b)\<lparr>cells := (cells (arena b))(s \<mapsto> r1)\<rparr>\<rparr>"
  have m1: "arena_modify s (\<lambda>r. r\<lparr>o_prev := tail l, o_next := None\<rparr>) ?b = Inr b1"
    using arena_modify_live [of ?b s r] assms(1) by (simp add: c b1_def r1_def)
  have cells: "cells (arena b1) = (cells (arena b))(s \<mapsto> r1)" by (simp add: b1_def)
  have same: "stop_buys b1 = stop_buys b" "stop_sells b1 = stop_sells b" "last_trade b1 = last_trade b"
    "best_opposite b1 sd = best_opposite b sd" "get_level b1 sd (o_price r) = Some (push_back s (o_remaining r) l)"
    using fr gp by (simp_all add: b1_def g)
  have ins: "insert_resting s b = arena_modify_opt (tail l) (\<lambda>r. r\<lparr>o_next := Some s\<rparr>) b1"
    using assms(1,2) m1 by (simp add: insert_resting_def Let_def arena_get_def slab_get_def l_def [symmetric])
  show ?thesis
  proof (cases "tail l")
    case None
    then have "insert_resting s b = Inr b1" using ins by (simp add: arena_modify_opt_def)
    then show ?thesis using r1 assms(2) cells by (intro that [of b1 r1, OF _ _ _ _ _ _ same pb]) simp_all
  next
    case (Some u)
    then obtain x where x: "cells (arena b) u = Some x" using t by blast
    define y where "y = (if u = s then r1 else x)\<lparr>o_next := Some s\<rparr>"
    define b2 where "b2 = b1\<lparr>arena := (arena b1)\<lparr>cells := (cells (arena b1))(u \<mapsto> y)\<rparr>\<rparr>"
    have "cells (arena b1) u = Some (if u = s then r1 else x)" using x by (simp add: cells)
    from arena_modify_live [OF this, of "\<lambda>r. r\<lparr>o_next := Some s\<rparr>"] have r2: "insert_resting s b = Inr b2"
      using ins Some by (simp add: arena_modify_opt_def b2_def y_def)
    have same2: "stop_buys b2 = stop_buys b" "stop_sells b2 = stop_sells b" "last_trade b2 = last_trade b"
      "best_opposite b2 sd = best_opposite b sd" "get_level b2 sd (o_price r) = Some (push_back s (o_remaining r) l)"
      using same by (simp_all add: b2_def g)
    show ?thesis
    proof (cases "u = s")
      case True
      then have "cells (arena b2) s = Some y" "o_side y = o_side r" "o_kind y = o_kind r" "o_price y = o_price r" "o_remaining y = o_remaining r"
        using r1 by (simp_all add: b2_def y_def)
      then show ?thesis using assms(2) by (intro that [of b2 y, OF r2 _ _ _ _ _ same2 pb]) simp_all
    next
      case False
      then have "cells (arena b2) s = Some r1" by (simp add: b2_def cells)
      then show ?thesis using r1 assms(2) by (intro that [of b2 r1, OF r2 _ _ _ _ _ same2 pb]) simp_all
    qed
  qed
qed

lemma stack_key_removed: "stack_key (Removed k # h) = k"
  by (simp add: stack_key_def split: prod.splits)

text \<open>If going through the slots does not return, triggering does not.\<close>

lemma stops_of_slots:
  assumes "\<And>b rest out. spinning sd s lst b \<Longrightarrow> trigger_slots vk n (s # rest) b sq t out = Inl Out_of_fuel" and "spinning sd s lst b"
  shows "trigger_stops vk n b lst sq t out = Inl Out_of_fuel"
proof (cases sd)
  case Buy
  then obtain rest where "concat (map snd (bt_range_to lst (stop_buys b))) = s # rest"
    using assms(2) by (auto simp: spinning_def hit_slots_def)
  then show ?thesis using assms(1) [OF assms(2)] by simp
next
  case Sell
  let ?b = "b\<lparr>stop_buys := bt_retain (\<lambda>p. p > lst) (stop_buys b)\<rparr>"
  obtain rest where rest: "concat (map snd (bt_range_to lst (stop_buys b))) = []"
    "concat (map snd (bt_range_to (Reverse lst) (stop_sells b))) = s # rest"
    using assms(2) Sell by (auto simp: spinning_def hit_slots_def)
  have "bt_range_to lst (bt_retain (\<lambda>p. p > lst) m) = []" for m :: "(price, nat list) btree"
    by (auto simp: bt_range_to_def bt_retain_def filter_empty_conv)
  then have hit: "hit_slots Buy lst ?b = []" "hit_slots Sell lst ?b = hit_slots Sell lst b" by (simp_all add: hit_slots_def)
  have "best_opposite ?b sd = best_opposite b sd" "get_level ?b sd p = get_level b sd p" for p
    using Sell by (simp_all add: best_opposite_def get_level_def)
  then have "spinning sd s lst ?b"
    using assms(2) hit Sell unfolding spinning_def by simp blast
  then show ?thesis unfolding trigger_stops.simps rest(1) trigger_slots.simps(1) using assms(1) rest(2)
    by (simp del: trigger_slots.simps)
qed

text \<open>The order is taken out of its slot, rests in it again, and is triggered again.\<close>

lemma slots_spin:
  assumes vk: "\<And>k h. vk (Removed k # h) = k"
  shows "spinning sd s lst b \<Longrightarrow> trigger_slots vk n (s # rest) b sq t out = Inl Out_of_fuel"
proof (induction n arbitrary: b rest out)
  case 0
  then show ?case by (auto simp: spinning_def arena_remove_def slab_remove_def index_remove_def)
next
  case (Suc n)
  obtain ord rest' where o: "cells (arena b) s = Some ord" "o_side ord = sd" "o_kind ord \<noteq> StopMarket"
    "0 < o_price ord" "o_remaining ord \<noteq> 0" and b: "last_trade b = Some lst" "hit_slots sd lst b = s # rest'"
    "sd = Sell \<longrightarrow> hit_slots Buy lst b = []" "\<forall>p. best_opposite b sd = Some p \<longrightarrow> \<not> crosses sd Limit (o_price ord) p"
    and tl: "\<forall>lvl t. get_level b sd (o_price ord) = Some lvl \<longrightarrow> tail lvl = Some t \<longrightarrow> cells (arena b) t \<noteq> None"
    using Suc.prems unfolding spinning_def by blast
  define b1 where "b1 = (index_remove (o_id ord) b)\<lparr>arena := \<lparr>cells = (cells (arena b))(s := None), hist = Removed s # hist (arena b)\<rparr>\<rparr>"
  have b1: "arena_remove s (index_remove (o_id ord) b) = Inr b1"
    using o(1) by (simp add: arena_remove_def slab_remove_def index_remove_def b1_def)
  let ?no = "triggered_order ord"
  have no: "no_kind ?no = Limit" "no_side ?no = sd" "no_price ?no = o_price ord" "no_qty ?no = o_remaining ord" "no_id ?no = o_id ord"
    using o(2,3) by (auto simp: triggered_order_def)
  have val: "validate_new b1 ?no = None"
    using o(4,5) by (simp add: validate_new_def no b1_def index_remove_def)
  define r where "r = order_of_new ?no sq t"
  define b2 where "b2 = b1\<lparr>arena := \<lparr>cells = (cells (arena b1))(s \<mapsto> r), hist = Inserted s # hist (arena b1)\<rparr>\<rparr>"
  have ins: "arena_insert vk r b1 = (s, b2)"
    using vk by (simp add: arena_insert_def slab_insert_def Let_def b1_def b2_def)
  have r: "o_side r = sd" "o_kind r = Limit" "o_price r = o_price ord" "o_remaining r = o_remaining ord"
    using no by (simp_all add: r_def order_of_new_def)
  have g: "get_level b2 sd p = get_level b sd p" "best_opposite b2 sd = best_opposite b sd" "last_trade b2 = last_trade b"
    "hit_slots sd' lst b2 = hit_slots sd' lst b" for p sd'
    by (simp_all add: get_level_def best_opposite_def hit_slots_def b2_def b1_def index_remove_def cong: side.case_cong)
  have new: "apply_new vk (Suc n) b1 ?no sq t out = Inl Out_of_fuel" for out
  proof (cases n)
    case 0
    have "match_order 0 b2 s sq t (out @ [Accepted (o_id ord) sq]) = Inl Out_of_fuel"
      by (simp add: match_order_def b2_def)
    then show ?thesis
      using 0 val no ins unfolding r_def by simp
  next
    case (Suc k)
    have mo: "match_order n b2 s sq t out = Inr (b2, 0, out)" for out
      using Suc r o(5) b(4) g(2) by (simp add: match_order_def arena_get_def slab_get_def b2_def split: option.split)
    let ?loc = "\<lparr>loc_price = o_price ord, loc_side = sd, loc_slot = s\<rparr>"
    let ?b3 = "index_insert (o_id ord) ?loc b2"
    have b3: "get_level ?b3 sd p = get_level b2 sd p" "best_opposite ?b3 sd = best_opposite b2 sd" "last_trade ?b3 = last_trade b2"
      "stop_buys ?b3 = stop_buys b2" "stop_sells ?b3 = stop_sells b2" "arena ?b3 = arena b2" for p
      by (simp_all add: index_insert_def get_level_def best_opposite_def cong: side.case_cong)
    have pre: "cells (arena ?b3) s = Some r" "o_side r = sd" "o_remaining r \<noteq> 0"
      "\<forall>lvl t. get_level ?b3 sd (o_price r) = Some lvl \<longrightarrow> tail lvl = Some t \<longrightarrow> cells (arena ?b3) t \<noteq> None"
    proof -
      have cells: "cells (arena ?b3) = (cells (arena b))(s \<mapsto> r)" by (simp add: index_insert_def b2_def b1_def)
      show "cells (arena ?b3) s = Some r" "o_side r = sd" "o_remaining r \<noteq> 0" using r o(5) by (simp_all add: cells)
      have "get_level ?b3 sd (o_price r) = get_level b sd (o_price ord)" using r(3) g(1) b3(1) by simp
      then show "\<forall>lvl t. get_level ?b3 sd (o_price r) = Some lvl \<longrightarrow> tail lvl = Some t \<longrightarrow> cells (arena ?b3) t \<noteq> None"
        using tl by (simp add: cells)
    qed
    obtain b4 r' lvl where b4: "insert_resting s ?b3 = Inr b4" "cells (arena b4) s = Some r'" "o_side r' = sd"
      "o_kind r' = o_kind r" "o_price r' = o_price r" "o_remaining r' = o_remaining r" "stop_buys b4 = stop_buys ?b3"
      "stop_sells b4 = stop_sells ?b3" "last_trade b4 = last_trade ?b3" "best_opposite b4 sd = best_opposite ?b3 sd"
      "get_level b4 sd (o_price r) = Some lvl" "tail lvl = Some s"
      by (rule insert_resting_again [OF pre]) (rule that; assumption)
    have st: "settle_new b2 ?no s 0 sq out = Inr (b4, out)" for out
      using b4(1) no o(5) by (simp add: settle_new_def b2_def arena_get_def slab_get_def Let_def)
    have last: "last_trade b4 = Some lst" using b4(9) b(1) b3(3) g(3) by simp
    have "hit_slots sd' lst b4 = hit_slots sd' lst b" for sd'
      using b4(7,8) b3(4,5) g(4) [of sd'] by (simp add: hit_slots_def cong: side.case_cong)
    then have "spinning sd s lst b4"
      unfolding spinning_def using b4 b3(2) g(2) r o(4,5) b last by (intro exI [of _ r'] exI [of _ rest']) simp
    from stops_of_slots [OF Suc.IH this] show ?thesis
      using Suc val no ins mo st last unfolding r_def by (simp del: trigger_stops.simps)
  qed
  show ?case
    unfolding trigger_slots.simps using o(1) b1 new by (simp del: apply_new.simps)
qed

text \<open>
  C39: A triggered stop-limit order that rests is never done with. Take any book in which the
  first trigger hit at the last trade belongs to a live order that becomes a limit order and
  will rest, of either side (\<open>spinning\<close>), and any allocator that gives out the slot it freed
  last first, as \<^verbatim>\<open>slab\<close> does: triggering does not return at any recursion depth. The order rests
  in the slot its trigger still lists and is triggered again; in the code the stack overflows.
\<close>

theorem stop_limit_never_returns:
  assumes "\<And>k h. vk (Removed k # h) = k" and "spinning sd s lst b"
  shows "trigger_stops vk n b lst sq t out = Inl Out_of_fuel"
  by (rule stops_of_slots [OF slots_spin [OF assms(1)] assms(2)])

definition stop_limit_session :: "sequenced list" where
  "stop_limit_session =
     [cmd_at 1 (New (mk_order 1 Sell Limit 100 0 1)), cmd_at 2 (New (mk_order 2 Buy StopLimit 90 100 1)),
      cmd_at 3 (New (mk_order 3 Buy Limit 100 0 1))]"

text \<open>It happens: an offer of 1 at 100, a buy stop-limit at 100 with limit 90, and a buy of 1 at 100;
  the third command never returns.\<close>

lemma stop_limit_never_returns_witness: "\<forall>n. run_book n stop_limit_session = Inl Out_of_fuel"
proof
  fix n
  have "observe (\<lambda>_. ()) (run_book n stop_limit_session) = Inl Out_of_fuel" if "n \<in> {0, 1, 2, 3}" for n
    using that by (elim insertE emptyE) (simp only:, code_simp)+
  then have small: "run_book n stop_limit_session = Inl Out_of_fuel" if "n \<in> {0, 1, 2, 3}" for n
    using that observe_Inl by blast
  consider "n = 0" | "n = 1" | "n = 2" | "n = 3" | k where "n = Suc (Suc (Suc (Suc k)))"
    by (metis One_nat_def Suc_1 numeral_3_eq_3 old.nat.exhaust)
  then show "run_book n stop_limit_session = Inl Out_of_fuel"
  proof cases
    case 5
    show ?thesis
      unfolding run_book_def stop_limit_session_def 5
      by (simp add: book_new_def bt_empty_def slab_new_def apply_cmd_def validate_new_def Let_def hold_stop_def
          arena_insert_def slab_insert_def stack_key_def order_of_new_def order_new_def mk_order_def
          index_insert_def index_remove_def match_order_def best_opposite_def bt_first_def settle_new_def
          insert_resting_def get_level_def put_level_def push_back_def level_new_def arena_modify_def
          arena_modify_opt_def slab_modify_def slab_get_def slab_remove_def arena_get_def arena_remove_def bt_get_def bt_entry_def crosses_def
          pop_ask_head_def pop_head_def pop_front_def sat_sub_def fill_maker_def remove_empty_ask_def
          remove_empty_def level_is_empty_def drop_level_def bt_remove_def stop_limit_never_returns [OF stack_key_removed, where sd = Buy and s = 1] spinning_def hit_slots_def bt_range_to_def
          del: trigger_stops.simps)
  qed (simp_all add: small)
qed

end
