(* ===== verification/Bytes.thy ===== *)
theory Bytes
  imports Prelude
begin

text \<open>
  Fixed-width little-endian integers, as \<^verbatim>\<open>to_le_bytes\<close> / \<^verbatim>\<open>from_le_bytes\<close> and the
  \<^verbatim>\<open>put_*_le\<close> / \<^verbatim>\<open>get_*_le\<close> of the wire and log formats write and read them, and the parsers
  built on them. The locale \<open>fixed_codec\<close> is what a format relies on of an integer codec,
  \<open>tag_codec\<close> what it relies on of a one-byte enumeration.
\<close>

type_synonym bytes = "u8 list"

section \<open>Little endian\<close>

fun le_nat :: "nat \<Rightarrow> nat \<Rightarrow> bytes" where
  "le_nat 0 x = []"
| "le_nat (Suc n) x = word_of_nat (x mod 256) # le_nat n (x div 256)"

fun nat_le :: "bytes \<Rightarrow> nat" where
  "nat_le [] = 0"
| "nat_le (b # bs) = unat b + 256 * nat_le bs"

lemma length_le_nat [simp]: "length (le_nat n x) = n"
  by (induction n arbitrary: x) simp_all

lemma unat_byte [simp]: "unat (word_of_nat (x mod 256) :: u8) = x mod 256"
  by (simp add: unat_of_nat)

lemma nat_le_nat [simp]: "nat_le (le_nat n x) = x mod 256 ^ n"
proof (induction n arbitrary: x)
  case (Suc n)
  have "x mod (256 * 256 ^ n) = 256 * (x div 256 mod 256 ^ n) + x mod 256" by (rule mod_mult2_eq)
  then show ?case by (simp add: Suc)
qed simp

lemma byte_bound: "unat (b :: u8) < 256"
  using unsigned_less [of b] by simp

lemma nat_le_bound: "nat_le bs < 256 ^ length bs"
proof (induction bs)
  case (Cons b bs)
  then have "unat b + 256 * nat_le bs < 256 + 256 * (256 ^ length bs - 1)"
    using byte_bound [of b] by (intro add_less_le_mono mult_le_mono2) simp_all
  also have "\<dots> = 256 * 256 ^ length bs" by (simp add: right_diff_distrib')
  finally show ?case by simp
qed simp

lemma le_nat_le [simp]: "le_nat (length bs) (nat_le bs) = bs"
proof (induction bs)
  case (Cons b bs)
  have "(unat b + 256 * nat_le bs) mod 256 = unat b" "(unat b + 256 * nat_le bs) div 256 = nat_le bs"
    using byte_bound [of b] by simp_all
  then show ?case using Cons by simp
qed simp

section \<open>Codecs\<close>

text \<open>
  A codec writes a value as \<open>width\<close> bytes and reads it back; \<open>valid\<close> are the values it can
  write without loss.
\<close>

locale fixed_codec =
  fixes width :: nat and enc :: "'a \<Rightarrow> bytes" and dec :: "bytes \<Rightarrow> 'a" and valid :: "'a \<Rightarrow> bool"
  assumes length_enc: "length (enc x) = width"
    and dec_enc: "valid x \<Longrightarrow> dec (enc x) = x"
    and enc_dec: "length bs = width \<Longrightarrow> enc (dec bs) = bs"
    and valid_dec: "length bs = width \<Longrightarrow> valid (dec bs)"
begin

lemma enc_inj: "valid x \<Longrightarrow> valid y \<Longrightarrow> enc x = enc y \<Longrightarrow> x = y"
  by (metis dec_enc)

lemma enc_prefix_inj:
  assumes "valid x" "valid y" "enc x @ r = enc y @ r'"
  shows "x = y \<and> r = r'"
  using assms enc_inj length_enc by (metis append_eq_append_conv)

lemma enc_append: "valid x \<Longrightarrow> valid y \<Longrightarrow> enc x @ r = enc y @ r' \<longleftrightarrow> x = y \<and> r = r'"
  using enc_prefix_inj by blast

lemma take_enc [simp]: "take width (enc x @ r) = enc x"
  by (simp add: length_enc)

lemma drop_enc [simp]: "drop width (enc x @ r) = r"
  by (simp add: length_enc)

lemma dec_front: "valid x \<Longrightarrow> dec (take width (enc x @ r)) = x"
  by (subst take_enc) (rule dec_enc)

lemma enc_dec_front: "width \<le> length bs \<Longrightarrow> enc (dec (take width bs)) @ drop width bs = bs"
  by (simp add: enc_dec)

lemma enc_onto: "length bs = width \<Longrightarrow> \<exists>x. valid x \<and> bs = enc x"
  using enc_dec valid_dec by metis

end

definition u8_le :: "u8 \<Rightarrow> bytes" where "u8_le w = [w]"
definition le_u8 :: "bytes \<Rightarrow> u8" where "le_u8 bs = hd bs"
definition u32_le :: "u32 \<Rightarrow> bytes" where "u32_le w = le_nat 4 (unat w)"
definition le_u32 :: "bytes \<Rightarrow> u32" where "le_u32 bs = word_of_nat (nat_le bs)"
definition u64_le :: "u64 \<Rightarrow> bytes" where "u64_le w = le_nat 8 (unat w)"
definition le_u64 :: "bytes \<Rightarrow> u64" where "le_u64 bs = word_of_nat (nat_le bs)"

text \<open>An \<open>i64\<close> is the integer it stands for; it is written in two's complement.\<close>

definition i64 :: "int \<Rightarrow> bool" where "i64 p \<longleftrightarrow> - (2 ^ 63) \<le> p \<and> p < 2 ^ 63"
definition i64_le :: "int \<Rightarrow> bytes" where "i64_le p = u64_le (word_of_int p)"
definition le_i64 :: "bytes \<Rightarrow> int" where "le_i64 bs = sint (le_u64 bs)"

interpretation u8c: fixed_codec 1 u8_le le_u8 "\<lambda>_. True"
  by unfold_locales (auto simp: u8_le_def le_u8_def length_Suc_conv)

interpretation u32c: fixed_codec 4 u32_le le_u32 "\<lambda>_. True"
proof
  fix w :: u32 and bs :: bytes
  show "length (u32_le w) = 4" by (simp add: u32_le_def)
  have "unat w < 2 ^ 32" using unsigned_less [of w] by simp
  then show "le_u32 (u32_le w) = w" by (simp add: u32_le_def le_u32_def)
  assume l: "length bs = 4"
  then have "nat_le bs < 2 ^ 32" using nat_le_bound [of bs] by simp
  then have "unat (le_u32 bs) = nat_le bs" by (simp add: le_u32_def unat_of_nat)
  then show "u32_le (le_u32 bs) = bs" using le_nat_le [of bs] l by (simp add: u32_le_def)
qed simp

interpretation u64c: fixed_codec 8 u64_le le_u64 "\<lambda>_. True"
proof
  fix w :: u64 and bs :: bytes
  show "length (u64_le w) = 8" by (simp add: u64_le_def)
  show "le_u64 (u64_le w) = w" using unat_u64_bound [of w] by (simp add: u64_le_def le_u64_def)
  assume l: "length bs = 8"
  then have "nat_le bs < 2 ^ 64" using nat_le_bound [of bs] by simp
  then have "unat (le_u64 bs) = nat_le bs" by (simp add: le_u64_def unat_of_nat)
  then show "u64_le (le_u64 bs) = bs" using le_nat_le [of bs] l by (simp add: u64_le_def)
qed simp

lemma sint_i64: "i64 (sint (w :: u64))"
  using sint_greater_eq [of w] sint_less [of w] by (simp add: i64_def)

lemma sint_of_i64: "i64 p \<Longrightarrow> sint (word_of_int p :: u64) = p"
  by (simp add: i64_def sint_sbintrunc' signed_take_bit_int_eq_self)

interpretation i64c: fixed_codec 8 i64_le le_i64 i64
  by unfold_locales
    (simp_all add: i64_le_def le_i64_def u64c.length_enc u64c.dec_enc u64c.enc_dec sint_of_i64 sint_i64)

section \<open>One-byte enumerations\<close>

locale tag_codec =
  fixes tag :: "'a \<Rightarrow> u8" and untag :: "u8 \<Rightarrow> 'a option"
  assumes untag_tag: "untag (tag x) = Some x"
    and untag_Some: "untag b = Some x \<Longrightarrow> tag x = b"
begin

lemma tag_inj: "tag x = tag y \<longleftrightarrow> x = y"
  by (metis option.inject untag_tag)

lemma untag_iff: "untag b = Some x \<longleftrightarrow> b = tag x"
  using untag_tag untag_Some by blast

lemma untag_None: "untag b = None \<longleftrightarrow> b \<notin> range tag"
  by (metis not_None_eq rangeE rangeI untag_iff)

end

end
