(* ===== verification/Parsers.thy ===== *)
theory Parsers
  imports Bytes
begin

text \<open>
  Decoders over a byte buffer, as the \<^verbatim>\<open>bytes::Buf\<close> methods make them: a decoder consumes
  from the front and answers with a value or an error; reading an integer past the end
  panics (\<open>Buf_underflow\<close>), so that a decoder that checks \<^verbatim>\<open>remaining()\<close> first can be shown
  not to. The two rules per combinator describe exactly when a decoder succeeds and
  when it panics.
\<close>

type_synonym ('e, 'a) parser = "bytes \<Rightarrow> halt + (('e + 'a) \<times> bytes)"

definition preturn :: "'a \<Rightarrow> ('e, 'a) parser" where
  "preturn x = (\<lambda>buf. Inr (Inr x, buf))"

definition pfail :: "'e \<Rightarrow> ('e, 'a) parser" where
  "pfail e = (\<lambda>buf. Inr (Inl e, buf))"

text \<open>A result already computed, with the early return of \<open>?\<close>.\<close>

definition plift :: "'e + 'a \<Rightarrow> ('e, 'a) parser" where
  "plift r = (\<lambda>buf. Inr (r, buf))"

definition pbind :: "('e, 'a) parser \<Rightarrow> ('a \<Rightarrow> ('e, 'b) parser) \<Rightarrow> ('e, 'b) parser" where
  "pbind p f = (\<lambda>buf. case p buf of
       Inl h \<Rightarrow> Inl h
     | Inr (Inl e, r) \<Rightarrow> Inr (Inl e, r)
     | Inr (Inr x, r) \<Rightarrow> f x r)"

definition get_fixed :: "nat \<Rightarrow> (bytes \<Rightarrow> 'a) \<Rightarrow> ('e, 'a) parser" where
  "get_fixed w dec = (\<lambda>buf. if length buf < w then Inl Buf_underflow
     else Inr (Inr (dec (take w buf)), drop w buf))"

text \<open>The guard \<^verbatim>\<open>if buf.remaining() < n { return Err(e); }\<close>.\<close>

definition pguard :: "nat \<Rightarrow> 'e \<Rightarrow> ('e, 'a) parser \<Rightarrow> ('e, 'a) parser" where
  "pguard n e p = (\<lambda>buf. if length buf < n then Inr (Inl e, buf) else p buf)"

definition get_u8 :: "('e, u8) parser" where "get_u8 = get_fixed 1 le_u8"
definition get_u32_le :: "('e, u32) parser" where "get_u32_le = get_fixed 4 le_u32"
definition get_u64_le :: "('e, u64) parser" where "get_u64_le = get_fixed 8 le_u64"
definition get_i64_le :: "('e, int) parser" where "get_i64_le = get_fixed 8 le_i64"

section \<open>Success\<close>

named_theorems parses \<open>when a decoder succeeds\<close>

lemma pbind_ok [parses]:
  "pbind p f buf = Inr (Inr y, r) \<longleftrightarrow> (\<exists>x r'. p buf = Inr (Inr x, r') \<and> f x r' = Inr (Inr y, r))"
  by (auto simp: pbind_def split: sum.splits)

lemma preturn_ok [parses]: "preturn x buf = Inr (Inr y, r) \<longleftrightarrow> x = y \<and> buf = r"
  by (simp add: preturn_def)

lemma pfail_ok [parses]: "pfail e buf \<noteq> Inr (Inr y, r)"
  by (simp add: pfail_def)

lemma plift_ok [parses]: "plift v buf = Inr (Inr y, r) \<longleftrightarrow> v = Inr y \<and> buf = r"
  by (simp add: plift_def)

lemma pguard_ok [parses]: "pguard n e p buf = Inr (Inr y, r) \<longleftrightarrow> n \<le> length buf \<and> p buf = Inr (Inr y, r)"
  by (simp add: pguard_def)

context fixed_codec
begin

lemma get_ok: "get_fixed width dec buf = Inr (Inr x, r) \<longleftrightarrow> valid x \<and> buf = enc x @ r"
proof
  assume "get_fixed width dec buf = Inr (Inr x, r)"
  then have "width \<le> length buf" "x = dec (take width buf)" "r = drop width buf"
    by (auto simp: get_fixed_def split: if_splits)
  then show "valid x \<and> buf = enc x @ r" using enc_dec_front valid_dec by simp
next
  assume "valid x \<and> buf = enc x @ r"
  then show "get_fixed width dec buf = Inr (Inr x, r)"
    using dec_front [of x r] by (simp add: get_fixed_def length_enc del: take_append)
qed

end

lemmas get_ok [parses] =
  u8c.get_ok [folded get_u8_def, simplified] u32c.get_ok [folded get_u32_le_def, simplified]
  u64c.get_ok [folded get_u64_le_def, simplified] i64c.get_ok [folded get_i64_le_def]

lemma enc_eq [simp]:
  "u8_le x = u8_le y \<longleftrightarrow> x = y" "u32_le a = u32_le b \<longleftrightarrow> a = b" "u64_le c = u64_le d \<longleftrightarrow> c = d"
  using u8c.enc_inj u32c.enc_inj u64c.enc_inj by blast+

lemma i64_eq [simp]: "i64 p \<Longrightarrow> i64 q \<and> i64_le p = i64_le q \<and> P \<longleftrightarrow> q = p \<and> P"
  using i64c.enc_inj by blast

section \<open>No panic\<close>

text \<open>\<open>safe n p\<close>: with at least \<open>n\<close> bytes in the buffer, \<open>p\<close> does not read past its end.\<close>

definition safe :: "nat \<Rightarrow> ('e, 'a) parser \<Rightarrow> bool" where
  "safe n p \<longleftrightarrow> (\<forall>buf h. n \<le> length buf \<longrightarrow> p buf \<noteq> Inl h)"

named_theorems safety \<open>decoders that do not panic\<close>

lemma safe_return [safety]: "safe 0 (preturn x)" "safe 0 (pfail e)" "safe 0 (plift v)"
  by (simp_all add: safe_def preturn_def pfail_def plift_def)

lemma safe_mono: "safe m p \<Longrightarrow> m \<le> n \<Longrightarrow> safe n p"
  unfolding safe_def by (meson le_trans)

lemma safe_guard [safety]: "safe n p \<Longrightarrow> safe 0 (pguard n e p)"
  by (auto simp: safe_def pguard_def)

lemma safe_get: "(\<And>x. safe n (f x)) \<Longrightarrow> safe (w + n) (pbind (get_fixed w dec) f)"
  by (auto simp: safe_def pbind_def get_fixed_def)

lemma safe_lift: "(\<And>x. safe n (f x)) \<Longrightarrow> safe n (pbind (plift v) f)"
  by (auto simp: safe_def pbind_def plift_def split: sum.splits)

lemmas safe_reads [safety] =
  safe_get [where w = 1 and dec = le_u8, folded get_u8_def]
  safe_get [where w = 4 and dec = le_u32, folded get_u32_le_def]
  safe_get [where w = 8 and dec = le_u64, folded get_u64_le_def]
  safe_get [where w = 8 and dec = le_i64, folded get_i64_le_def] safe_lift

lemma safe_no_panic: "safe 0 p \<Longrightarrow> p buf \<noteq> Inl h"
  by (simp add: safe_def)

section \<open>Errors\<close>

named_theorems errs \<open>when a decoder fails\<close>

lemma pbind_err [errs]:
  "pbind p f buf = Inr (Inl e, r) \<longleftrightarrow>
     p buf = Inr (Inl e, r) \<or> (\<exists>x r'. p buf = Inr (Inr x, r') \<and> f x r' = Inr (Inl e, r))"
  by (auto simp: pbind_def split: sum.splits)

lemma simple_err [errs]:
  "preturn x buf \<noteq> Inr (Inl e, r)" "pfail e' buf = Inr (Inl e, r) \<longleftrightarrow> e = e' \<and> buf = r"
  "plift v buf = Inr (Inl e, r) \<longleftrightarrow> v = Inl e \<and> buf = r"
  "pguard n e' p buf = Inr (Inl e, r) \<longleftrightarrow>
     (if length buf < n then e = e' \<and> r = buf else p buf = Inr (Inl e, r))"
  by (auto simp: preturn_def pfail_def plift_def pguard_def)

lemma get_err [errs]:
  "get_u8 buf \<noteq> Inr (Inl e, r)" "get_u32_le buf \<noteq> Inr (Inl e, r)" "get_u64_le buf \<noteq> Inr (Inl e, r)"
  "get_i64_le buf \<noteq> Inr (Inl e, r)"
  by (simp_all add: get_u8_def get_u32_le_def get_u64_le_def get_i64_le_def get_fixed_def)

end
