(* ===== verification/Binary.thy ===== *)
theory Binary
  imports Parsers Types
begin

text \<open>
  \<^verbatim>\<open>crates/protocol/src/binary.rs\<close> and \<^verbatim>\<open>error.rs\<close>: the binary wire protocol. The inbound
  layout the clients write (the code only decodes it) is \<open>inbound_wire\<close>, as the comments of
  the message structs and the unit test lay it out.
\<close>

section \<open>Messages\<close>

datatype proto_error = Truncated | UnknownTag u8 | BadField string | Json string

definition TAG_NEW_ORDER :: u8 where "TAG_NEW_ORDER = 78"
definition TAG_CANCEL :: u8 where "TAG_CANCEL = 67"
definition TAG_REPLACE :: u8 where "TAG_REPLACE = 82"
definition TAG_ACK :: u8 where "TAG_ACK = 65"
definition TAG_REJECT :: u8 where "TAG_REJECT = 74"
definition TAG_FILL :: u8 where "TAG_FILL = 70"
definition TAG_CANCELLED :: u8 where "TAG_CANCELLED = 88"
definition TAG_REPLACED :: u8 where "TAG_REPLACED = 90"

lemmas tag_defs = TAG_NEW_ORDER_def TAG_CANCEL_def TAG_REPLACE_def TAG_ACK_def TAG_REJECT_def
  TAG_FILL_def TAG_CANCELLED_def TAG_REPLACED_def

record bin_new_order =
  bn_order_id :: u64
  bn_symbol_id :: u32
  bn_side :: side
  bn_order_type :: order_type
  bn_tif :: time_in_force
  bn_price :: int
  bn_stop_price :: int
  bn_qty :: u64

record bin_cancel =
  bc_order_id :: u64
  bc_symbol_id :: u32

record bin_replace =
  br_order_id :: u64
  br_symbol_id :: u32
  br_new_price :: int
  br_new_qty :: u64

datatype inbound_msg = NewOrderMsg bin_new_order | CancelMsg bin_cancel | ReplaceMsg bin_replace

datatype outbound_msg =
  AckMsg u64 u64 u8
| RejectMsg u64 u64 u8
| FillMsg u64 u64 int u64 u64 bool
| CancelledMsg u64 u64
| ReplacedMsg u64 u64

section \<open>Encoding\<close>

text \<open>The messages are appended to the buffer.\<close>

fun encode_outbound :: "outbound_msg \<Rightarrow> bytes \<Rightarrow> bytes" where
  "encode_outbound (AckMsg i s st) buf = buf @ u8_le TAG_ACK @ u64_le i @ u64_le s @ u8_le st"
| "encode_outbound (RejectMsg i s why) buf = buf @ u8_le TAG_REJECT @ u64_le i @ u64_le s @ u8_le why"
| "encode_outbound (FillMsg i s p q leaves maker) buf =
     buf @ u8_le TAG_FILL @ u64_le i @ u64_le s @ i64_le p @ u64_le q @ u64_le leaves @
     u8_le (if maker then 1 else 0)"
| "encode_outbound (CancelledMsg i s) buf = buf @ u8_le TAG_CANCELLED @ u64_le i @ u64_le s"
| "encode_outbound (ReplacedMsg i s) buf = buf @ u8_le TAG_REPLACED @ u64_le i @ u64_le s"

section \<open>Decoding\<close>

definition decode_side :: "u8 \<Rightarrow> proto_error + side" where
  "decode_side b = (if b = 0 then Inr Buy else if b = 1 then Inr Sell else Inl (BadField ''side''))"

definition decode_order_type :: "u8 \<Rightarrow> proto_error + order_type" where
  "decode_order_type b =
     (if b = 0 then Inr Limit else if b = 1 then Inr Market else if b = 2 then Inr Ioc
      else if b = 3 then Inr Fok else if b = 4 then Inr StopMarket else if b = 5 then Inr StopLimit
      else Inl (BadField ''order_type''))"

definition decode_tif :: "u8 \<Rightarrow> proto_error + time_in_force" where
  "decode_tif b = (if b = 0 then Inr Gtc else if b = 1 then Inr Day else Inl (BadField ''tif''))"

definition decode_new_order :: "(proto_error, inbound_msg) parser" where
  "decode_new_order = pguard 39 Truncated
     (pbind get_u64_le (\<lambda>order_id. pbind get_u32_le (\<lambda>symbol_id.
      pbind get_u8 (\<lambda>b. pbind (plift (decode_side b)) (\<lambda>sd.
      pbind get_u8 (\<lambda>b. pbind (plift (decode_order_type b)) (\<lambda>kd.
      pbind get_u8 (\<lambda>b. pbind (plift (decode_tif b)) (\<lambda>tf.
      pbind get_i64_le (\<lambda>p. pbind get_i64_le (\<lambda>sp. pbind get_u64_le (\<lambda>q.
      preturn (NewOrderMsg \<lparr>bn_order_id = order_id, bn_symbol_id = symbol_id, bn_side = sd,
        bn_order_type = kd, bn_tif = tf, bn_price = p, bn_stop_price = sp, bn_qty = q\<rparr>)))))))))))))"

definition decode_cancel :: "(proto_error, inbound_msg) parser" where
  "decode_cancel = pguard 12 Truncated
     (pbind get_u64_le (\<lambda>order_id. pbind get_u32_le (\<lambda>symbol_id.
      preturn (CancelMsg \<lparr>bc_order_id = order_id, bc_symbol_id = symbol_id\<rparr>))))"

definition decode_replace :: "(proto_error, inbound_msg) parser" where
  "decode_replace = pguard 28 Truncated
     (pbind get_u64_le (\<lambda>order_id. pbind get_u32_le (\<lambda>symbol_id.
      pbind get_i64_le (\<lambda>p. pbind get_u64_le (\<lambda>q.
      preturn (ReplaceMsg \<lparr>br_order_id = order_id, br_symbol_id = symbol_id, br_new_price = p,
        br_new_qty = q\<rparr>))))))"

definition decode_inbound :: "(proto_error, inbound_msg) parser" where
  "decode_inbound = pguard 1 Truncated
     (pbind get_u8 (\<lambda>tag.
        if tag = TAG_NEW_ORDER then decode_new_order
        else if tag = TAG_CANCEL then decode_cancel
        else if tag = TAG_REPLACE then decode_replace
        else pfail (UnknownTag tag)))"

definition new_order_of_bin :: "bin_new_order \<Rightarrow> new_order" where
  "new_order_of_bin bn =
     \<lparr>no_id = bn_order_id bn, no_symbol = bn_symbol_id bn, no_side = bn_side bn,
      no_kind = bn_order_type bn, no_tif = bn_tif bn, no_price = bn_price bn,
      no_stop_price = bn_stop_price bn, no_qty = bn_qty bn\<rparr>"

section \<open>The field codes\<close>

fun side_tag :: "side \<Rightarrow> u8" where
  "side_tag Buy = 0" | "side_tag Sell = 1"

fun kind_tag :: "order_type \<Rightarrow> u8" where
  "kind_tag Limit = 0" | "kind_tag Market = 1" | "kind_tag Ioc = 2" | "kind_tag Fok = 3"
| "kind_tag StopMarket = 4" | "kind_tag StopLimit = 5"

fun tif_tag :: "time_in_force \<Rightarrow> u8" where
  "tif_tag Gtc = 0" | "tif_tag Day = 1"

definition right :: "'e + 'a \<Rightarrow> 'a option" where
  "right r = (case r of Inl _ \<Rightarrow> None | Inr x \<Rightarrow> Some x)"

lemma right_Some: "right r = Some x \<longleftrightarrow> r = Inr x"
  by (cases r) (auto simp: right_def)

interpretation side_code: tag_codec side_tag "right \<circ> decode_side"
proof
  fix sd b
  show "(right \<circ> decode_side) (side_tag sd) = Some sd" by (cases sd) (simp_all add: decode_side_def right_def)
  assume "(right \<circ> decode_side) b = Some sd"
  then show "side_tag sd = b" by (auto simp: right_Some decode_side_def split: if_splits)
qed

interpretation kind_code: tag_codec kind_tag "right \<circ> decode_order_type"
proof
  fix kd b
  show "(right \<circ> decode_order_type) (kind_tag kd) = Some kd"
    by (cases kd) (simp_all add: decode_order_type_def right_def)
  assume "(right \<circ> decode_order_type) b = Some kd"
  then show "kind_tag kd = b" by (auto simp: right_Some decode_order_type_def split: if_splits)
qed

interpretation tif_code: tag_codec tif_tag "right \<circ> decode_tif"
proof
  fix tf b
  show "(right \<circ> decode_tif) (tif_tag tf) = Some tf" by (cases tf) (simp_all add: decode_tif_def right_def)
  assume "(right \<circ> decode_tif) b = Some tf"
  then show "tif_tag tf = b" by (auto simp: right_Some decode_tif_def split: if_splits)
qed

lemmas field_codes [parses] =
  side_code.untag_iff [unfolded comp_def right_Some] kind_code.untag_iff [unfolded comp_def right_Some]
  tif_code.untag_iff [unfolded comp_def right_Some]

section \<open>The layout of inbound messages\<close>

fun inbound_wire :: "inbound_msg \<Rightarrow> bytes" where
  "inbound_wire (NewOrderMsg no) =
     u8_le TAG_NEW_ORDER @ u64_le (bn_order_id no) @ u32_le (bn_symbol_id no) @ u8_le (side_tag (bn_side no)) @
     u8_le (kind_tag (bn_order_type no)) @ u8_le (tif_tag (bn_tif no)) @ i64_le (bn_price no) @
     i64_le (bn_stop_price no) @ u64_le (bn_qty no)"
| "inbound_wire (CancelMsg c) = u8_le TAG_CANCEL @ u64_le (bc_order_id c) @ u32_le (bc_symbol_id c)"
| "inbound_wire (ReplaceMsg r) =
     u8_le TAG_REPLACE @ u64_le (br_order_id r) @ u32_le (br_symbol_id r) @ i64_le (br_new_price r) @
     u64_le (br_new_qty r)"

text \<open>Prices that are \<open>i64\<close> values.\<close>

fun inbound_ok :: "inbound_msg \<Rightarrow> bool" where
  "inbound_ok (NewOrderMsg no) \<longleftrightarrow> i64 (bn_price no) \<and> i64 (bn_stop_price no)"
| "inbound_ok (CancelMsg c) \<longleftrightarrow> True"
| "inbound_ok (ReplaceMsg r) \<longleftrightarrow> i64 (br_new_price r)"

lemmas codec_lengths [simp] = u8c.length_enc u32c.length_enc u64c.length_enc i64c.length_enc

lemma decode_new_order_ok:
  "decode_new_order buf = Inr (Inr m, r) \<longleftrightarrow>
     (\<exists>no. m = NewOrderMsg no \<and> inbound_ok m \<and> u8_le TAG_NEW_ORDER @ buf = inbound_wire m @ r)"
proof
  assume "decode_new_order buf = Inr (Inr m, r)"
  then show "\<exists>no. m = NewOrderMsg no \<and> inbound_ok m \<and> u8_le TAG_NEW_ORDER @ buf = inbound_wire m @ r"
    by (auto simp: decode_new_order_def parses)
next
  assume "\<exists>no. m = NewOrderMsg no \<and> inbound_ok m \<and> u8_le TAG_NEW_ORDER @ buf = inbound_wire m @ r"
  then obtain no where "m = NewOrderMsg no" "inbound_ok m" "u8_le TAG_NEW_ORDER @ buf = inbound_wire m @ r" by blast
  then show "decode_new_order buf = Inr (Inr m, r)"
    by (cases no) (auto simp: decode_new_order_def parses)
qed

lemma decode_cancel_ok:
  "decode_cancel buf = Inr (Inr m, r) \<longleftrightarrow>
     (\<exists>c. m = CancelMsg c \<and> u8_le TAG_CANCEL @ buf = inbound_wire m @ r)"
proof
  assume "\<exists>c. m = CancelMsg c \<and> u8_le TAG_CANCEL @ buf = inbound_wire m @ r"
  then obtain c where "m = CancelMsg c" "u8_le TAG_CANCEL @ buf = inbound_wire m @ r" by blast
  then show "decode_cancel buf = Inr (Inr m, r)" by (cases c) (auto simp: decode_cancel_def parses)
qed (auto simp: decode_cancel_def parses)

lemma decode_replace_ok:
  "decode_replace buf = Inr (Inr m, r) \<longleftrightarrow>
     (\<exists>x. m = ReplaceMsg x \<and> inbound_ok m \<and> u8_le TAG_REPLACE @ buf = inbound_wire m @ r)"
proof
  assume "\<exists>x. m = ReplaceMsg x \<and> inbound_ok m \<and> u8_le TAG_REPLACE @ buf = inbound_wire m @ r"
  then obtain x where "m = ReplaceMsg x" "inbound_ok m" "u8_le TAG_REPLACE @ buf = inbound_wire m @ r" by blast
  then show "decode_replace buf = Inr (Inr m, r)" by (cases x) (auto simp: decode_replace_def parses)
qed (auto simp: decode_replace_def parses)

end
