(* ===== verification/Dollars.thy ===== *)
theory Dollars
  imports Types "HOL-Library.Log_Nat"
begin

text \<open>
  The price conversions of \<^verbatim>\<open>crates/protocol/src/json_codec.rs\<close> and the \<^verbatim>\<open>f64\<close> they use. A
  finite double is the rational number it stands for, and an operation rounds the exact
  result to 53 significant bits, ties to even (\<open>fl\<close>). Exponents are unbounded here: where a
  double would overflow the conversion saturates, and where it would lose bits below
  \<open>2 ^ -1022\<close> it rounds to 0, with the same outcome. JSON has no infinities and no NaN.
\<close>

section \<open>f64\<close>

type_synonym f64 = rat

definition floor_log2 :: "rat \<Rightarrow> int" where
  "floor_log2 x =
     (let (p, q) = quotient_of x; k = bitlen p - bitlen q in if 2 powi k \<le> x then k else k - 1)"

definition round_even :: "rat \<Rightarrow> int" where
  "round_even x =
     (let f = \<lfloor>x\<rfloor>; d = x - of_int f in
      if d < 1 / 2 then f else if d > 1 / 2 then f + 1 else if even f then f else f + 1)"

definition fl :: "rat \<Rightarrow> f64" where
  "fl x =
     (if x = 0 then 0
      else let u = 2 powi (floor_log2 \<bar>x\<bar> - 52) in sgn x * of_int (round_even (\<bar>x\<bar> / u)) * u)"

definition f64_of_int :: "int \<Rightarrow> f64" where "f64_of_int n = fl (of_int n)"

definition f64_mul :: "f64 \<Rightarrow> f64 \<Rightarrow> f64" where "f64_mul x y = fl (x * y)"

definition f64_div :: "f64 \<Rightarrow> f64 \<Rightarrow> f64" where "f64_div x y = fl (x / y)"

text \<open>\<^verbatim>\<open>round\<close> goes away from zero on ties; \<^verbatim>\<open>as i64\<close> truncates and saturates.\<close>

definition f64_round :: "f64 \<Rightarrow> f64" where
  "f64_round x = sgn x * of_int \<lfloor>\<bar>x\<bar> + 1 / 2\<rfloor>"

definition as_i64 :: "f64 \<Rightarrow> int" where
  "as_i64 x = max (- (2 ^ 63)) (min (2 ^ 63 - 1) (if 0 \<le> x then \<lfloor>x\<rfloor> else \<lceil>x\<rceil>))"

section \<open>json_codec.rs\<close>

definition TICK_SCALE :: int where "TICK_SCALE = 10000"

definition dollars_to_ticks :: "f64 \<Rightarrow> price" where
  "dollars_to_ticks d = as_i64 (f64_round (f64_mul d (f64_of_int TICK_SCALE)))"

definition ticks_to_dollars :: "price \<Rightarrow> f64" where
  "ticks_to_dollars t = f64_div (f64_of_int t) (f64_of_int TICK_SCALE)"

section \<open>Rounding error\<close>

lemma floor_log2_le:
  assumes "0 < x"
  shows "2 powi floor_log2 x \<le> x"
proof -
  obtain p q where pq: "quotient_of x = (p, q)" by (cases "quotient_of x")
  then have q: "0 < q" and x: "x = of_int p / of_int q"
    by (auto intro: quotient_of_denom_pos quotient_of_div)
  then have p: "0 < p" using assms by (simp add: zero_less_divide_iff)
  have "(2 :: int) ^ nat (bitlen p - 1) \<le> p" "q < 2 ^ nat (bitlen q)"
    using bitlen_bounds [OF p] bitlen_bounds [OF q] by auto
  then have "(2 :: rat) ^ nat (bitlen p - 1) \<le> of_int p" "of_int q < (2 :: rat) ^ nat (bitlen q)"
    by (metis of_int_le_iff of_int_numeral of_int_power, metis of_int_less_iff of_int_numeral of_int_power)
  moreover have "0 < bitlen p" "0 < bitlen q" using p q by (simp_all add: bitlen_eq_zero_iff less_le bitlen_nonneg)
  ultimately have b: "2 powi (bitlen p - 1) \<le> (of_int p :: rat)" "of_int q < (2 :: rat) powi bitlen q"
    by (simp_all add: power_int_def)
  have "(2 :: rat) powi (bitlen p - bitlen q - 1) * of_int q \<le> 2 powi (bitlen p - bitlen q - 1) * 2 powi bitlen q"
    using b(2) by (intro mult_left_mono) auto
  also have "\<dots> = 2 powi (bitlen p - 1)" by (subst power_int_add [symmetric]) auto
  finally have "2 powi (bitlen p - bitlen q - 1) \<le> x" using b(1) q by (simp add: x field_simps)
  then show ?thesis by (simp add: floor_log2_def pq Let_def)
qed

lemma round_even_error: "\<bar>of_int (round_even x) - x\<bar> \<le> 1 / 2"
proof -
  have fl: "of_int \<lfloor>x\<rfloor> \<le> x" "x < of_int \<lfloor>x\<rfloor> + 1" by linarith+
  have "\<bar>of_int f - x\<bar> \<le> 1 / 2" if "f = \<lfloor>x\<rfloor> \<and> x - of_int \<lfloor>x\<rfloor> \<le> 1 / 2 \<or> f = \<lfloor>x\<rfloor> + 1 \<and> 1 / 2 \<le> x - of_int \<lfloor>x\<rfloor>" for f
    using that fl unfolding abs_le_iff by (elim disjE conjE; simp only: of_int_add of_int_1; linarith)
  then show ?thesis by (simp add: round_even_def Let_def)
qed

lemma fl_error: "\<bar>fl x - x\<bar> \<le> \<bar>x\<bar> / 2 ^ 53"
proof (cases "x = 0")
  case True
  then show ?thesis by (simp add: fl_def)
next
  case False
  define u :: rat where "u = 2 powi (floor_log2 \<bar>x\<bar> - 52)"
  have u: "0 < u" by (simp add: u_def)
  have "2 ^ 52 * u = 2 powi floor_log2 \<bar>x\<bar>"
    by (simp add: u_def power_int_diff)
  then have big: "2 ^ 52 * u \<le> \<bar>x\<bar>" using floor_log2_le [of "\<bar>x\<bar>"] False by simp
  have "fl x - x = sgn x * ((of_int (round_even (\<bar>x\<bar> / u)) - \<bar>x\<bar> / u) * u)"
    using False u by (simp add: fl_def u_def [symmetric] Let_def sgn_if field_simps)
  then have "\<bar>fl x - x\<bar> = \<bar>of_int (round_even (\<bar>x\<bar> / u)) - \<bar>x\<bar> / u\<bar> * u"
    using u False by (simp add: abs_mult sgn_if)
  also have "\<dots> \<le> 1 / 2 * u" using round_even_error [of "\<bar>x\<bar> / u"] u by (intro mult_right_mono) auto
  also have "\<dots> \<le> \<bar>x\<bar> / 2 ^ 53" using big by simp
  finally show ?thesis .
qed

lemma f64_tick_scale: "f64_of_int TICK_SCALE = 10000"
  by code_simp

lemma nearest_ticks:
  assumes "\<bar>x - of_int t\<bar> < 1 / 2" and "\<bar>t\<bar> < 2 ^ 63"
  shows "as_i64 (f64_round x) = t"
proof -
  have near: "x - of_int t < 1 / 2" "of_int t - x < 1 / 2" using assms(1) unfolding abs_less_iff by simp_all
  have "f64_round x = of_int t"
  proof (cases x "0 :: rat" rule: linorder_cases)
    case greater
    have "\<lfloor>x + 1 / 2\<rfloor> = t" by (rule floor_unique) (use near in linarith)+
    then show ?thesis using greater by (simp add: f64_round_def)
  next
    case equal
    then have "t = 0" using near by linarith
    then show ?thesis using equal by (simp add: f64_round_def)
  next
    case less
    have "\<lfloor>- x + 1 / 2\<rfloor> = - t" by (rule floor_unique) (use near in \<open>simp add: algebra_simps\<close>)+
    then show ?thesis using less by (simp add: f64_round_def)
  qed
  then show ?thesis using assms(2) by (simp add: as_i64_def abs_less_iff max_def min_def)
qed

lemma ticks_exact:
  assumes "\<bar>t\<bar> \<le> 2 ^ 50"
  shows "dollars_to_ticks (ticks_to_dollars t) = t"
proof -
  let ?a = "fl (of_int t)" and ?b = "fl (fl (of_int t) / 10000)"
  have t: "\<bar>of_int t :: rat\<bar> \<le> 2 ^ 50" using assms by (metis of_int_abs of_int_le_iff of_int_numeral of_int_power)
  have a: "\<bar>?a - of_int t\<bar> \<le> 1 / 8" using fl_error [of "of_int t"] t by simp
  then have a': "\<bar>?a\<bar> \<le> 2 ^ 50 + 1 / 8" using t by linarith
  have "\<bar>?b * 10000 - ?a\<bar> = \<bar>?b - ?a / 10000\<bar> * 10000" by (simp add: abs_if algebra_simps)
  also have "\<dots> \<le> 1 / 7" using fl_error [of "?a / 10000"] a' by simp
  finally have b: "\<bar>?b * 10000 - ?a\<bar> \<le> 1 / 7" .
  then have b': "\<bar>?b * 10000\<bar> \<le> 2 ^ 50 + 1" using a' by linarith
  have c: "\<bar>fl (?b * 10000) - ?b * 10000\<bar> \<le> 1 / 7" using fl_error [of "?b * 10000"] b' by simp
  have "\<bar>fl (?b * 10000) - of_int t\<bar> < 1 / 2" using a b c by linarith
  then have "as_i64 (f64_round (fl (?b * 10000))) = t" by (rule nearest_ticks) (use assms in simp)
  then show ?thesis
    unfolding dollars_to_ticks_def ticks_to_dollars_def f64_tick_scale f64_mul_def f64_div_def
    by (simp add: f64_of_int_def)
qed

text \<open>A price that arrives as a decimal text, read as the nearest double.\<close>

lemma decimal_ticks:
  assumes "\<bar>t\<bar> \<le> 2 ^ 50"
  shows "dollars_to_ticks (fl (of_int t / 10000)) = t"
proof -
  let ?b = "fl (of_int t / 10000)"
  have t: "\<bar>of_int t :: rat\<bar> \<le> 2 ^ 50" using assms by (metis of_int_abs of_int_le_iff of_int_numeral of_int_power)
  have "\<bar>?b * 10000 - of_int t\<bar> = \<bar>?b - of_int t / 10000\<bar> * 10000" by (simp add: abs_if algebra_simps)
  also have "\<dots> \<le> 1 / 7" using fl_error [of "of_int t / 10000"] t by simp
  finally have b: "\<bar>?b * 10000 - of_int t\<bar> \<le> 1 / 7" .
  then have "\<bar>?b * 10000\<bar> \<le> 2 ^ 50 + 1" using t by linarith
  then have "\<bar>fl (?b * 10000) - ?b * 10000\<bar> \<le> 1 / 7" using fl_error [of "?b * 10000"] by simp
  then have "\<bar>fl (?b * 10000) - of_int t\<bar> < 1 / 2" using b by linarith
  then have "as_i64 (f64_round (fl (?b * 10000))) = t" by (rule nearest_ticks) (use assms in simp)
  then show ?thesis unfolding dollars_to_ticks_def f64_tick_scale f64_mul_def .
qed

end
