(* ===== verification/Json_Codec.thy ===== *)
theory Json_Codec
  imports Bytes Dollars
begin

text \<open>
  The typed side of the JSON protocol: \<^verbatim>\<open>crates/protocol/src/json_codec.rs\<close> (message types,
  the symbol hash, the conversion to core orders) and \<^verbatim>\<open>crates/gateway/src/router.rs\<close>.
  Parsing and printing are \<^verbatim>\<open>serde_json\<close>'s. Prices arrive as \<^verbatim>\<open>f64\<close> dollars (theory
  \<open>Dollars\<close>). A symbol is the list of its
  UTF-8 bytes.
\<close>

section \<open>Messages\<close>

datatype json_side = JBuy | JSell

datatype json_order_type = JLimit | JMarket | JIoc | JFok | JStopMarket | JStopLimit

datatype json_tif = JGtc | JDay

record json_new_order =
  jn_id :: u64
  jn_symbol :: bytes
  jn_side :: json_side
  jn_kind :: json_order_type
  jn_tif :: json_tif
  jn_price :: f64
  jn_stop_price :: f64
  jn_qty :: u64

record json_cancel =
  jc_id :: u64
  jc_symbol :: bytes

record json_replace =
  jr_id :: u64
  jr_symbol :: bytes
  jr_new_price :: f64
  jr_new_qty :: u64

datatype json_inbound =
  JNew json_new_order
| JCancel json_cancel
| JReplace json_replace

text \<open>What the format can say to a client.\<close>

datatype json_outbound =
  JAck (ja_id: u64) (ja_seq: u64)
| JReject (ja_id: u64) (ja_seq: u64) (ja_reason: string)
| JTrade (ja_taker: u64) (ja_maker: u64) (ja_price: f64) (ja_qty: u64) (ja_side: string) (ja_seq: u64)
| JFill (ja_id: u64) (ja_price: f64) (ja_qty: u64) (ja_leaves: u64) (ja_seq: u64)
| JCancelled (ja_id: u64) (ja_seq: u64)
| JReplaced (ja_id: u64) (ja_seq: u64)
| JSnapshot (ja_symbol: bytes) (ja_seq: u64) (ja_bids: "(f64 \<times> f64) list") (ja_asks: "(f64 \<times> f64) list")
| JDelta (ja_symbol: bytes) (ja_seq: u64) (ja_bids: "(f64 \<times> f64) list") (ja_asks: "(f64 \<times> f64) list")
| JMarketTrade (ja_symbol: bytes) (ja_price: f64) (ja_qty: u64) (ja_side: string) (ja_seq: u64) (ja_ts: u64)

section \<open>Symbols\<close>

definition hash_byte :: "u32 \<Rightarrow> u8 \<Rightarrow> u32" where
  "hash_byte h b = (xor h (ucast b)) * 0x01000193"

definition symbol_to_id :: "bytes \<Rightarrow> symbol_id" where
  "symbol_to_id s = foldl hash_byte 0x811c9dc5 s"

section \<open>Conversion to core commands\<close>

fun core_side :: "json_side \<Rightarrow> side" where
  "core_side JBuy = Buy" | "core_side JSell = Sell"

fun core_kind :: "json_order_type \<Rightarrow> order_type" where
  "core_kind JLimit = Limit" | "core_kind JMarket = Market" | "core_kind JIoc = Ioc"
| "core_kind JFok = Fok" | "core_kind JStopMarket = StopMarket" | "core_kind JStopLimit = StopLimit"

fun core_tif :: "json_tif \<Rightarrow> time_in_force" where
  "core_tif JGtc = Gtc" | "core_tif JDay = Day"

definition new_order_of_json :: "json_new_order \<Rightarrow> new_order" where
  "new_order_of_json j =
     \<lparr>no_id = jn_id j, no_symbol = symbol_to_id (jn_symbol j), no_side = core_side (jn_side j),
      no_kind = core_kind (jn_kind j), no_tif = core_tif (jn_tif j),
      no_price = dollars_to_ticks (jn_price j), no_stop_price = dollars_to_ticks (jn_stop_price j), no_qty = jn_qty j\<rparr>"

fun json_to_command :: "json_inbound \<Rightarrow> command option" where
  "json_to_command (JNew no) = Some (New (new_order_of_json no))"
| "json_to_command (JCancel c) = Some (Cancel (jc_id c) (symbol_to_id (jc_symbol c)))"
| "json_to_command (JReplace r) =
     Some (Replace (jr_id r) (dollars_to_ticks (jr_new_price r)) (jr_new_qty r) (symbol_to_id (jr_symbol r)))"

fun reject_reason_str :: "reject_reason \<Rightarrow> string" where
  "reject_reason_str UnknownSymbol = ''unknown_symbol''"
| "reject_reason_str DuplicateId = ''duplicate_id''"
| "reject_reason_str UnknownId = ''unknown_id''"
| "reject_reason_str ZeroQty = ''zero_qty''"
| "reject_reason_str BadPrice = ''bad_price''"
| "reject_reason_str FokUnfillable = ''fok_unfillable''"
| "reject_reason_str MarketNoLiquidity = ''no_liquidity''"
| "reject_reason_str SelfTrade = ''self_trade''"
| "reject_reason_str RateLimited = ''rate_limited''"

section \<open>The gateway's symbols\<close>

definition ascii :: "nat list \<Rightarrow> bytes" where "ascii = map word_of_nat"

definition AAPL :: bytes where "AAPL = ascii [65, 65, 80, 76]"
definition MSFT :: bytes where "MSFT = ascii [77, 83, 70, 84]"
definition TSLA :: bytes where "TSLA = ascii [84, 83, 76, 65]"
definition GOOG :: bytes where "GOOG = ascii [71, 79, 79, 71]"

definition symbol_names :: "bytes list" where "symbol_names = [AAPL, MSFT, TSLA, GOOG]"

text \<open>One step of the hash is invertible: the multiplier is odd.\<close>

lemma fnv_prime_inverse: "(0x01000193 :: u32) * 0x359c449b = 1"
  by simp

lemma fnv_cancel: "x * (0x01000193 :: u32) = y * 0x01000193 \<longleftrightarrow> x = y"
proof
  assume "x * 0x01000193 = y * 0x01000193"
  then have "x * 0x01000193 * 0x359c449b = y * 0x01000193 * 0x359c449b" by (rule arg_cong)
  then show "x = y" by (simp only: mult.assoc fnv_prime_inverse mult_1_right)
qed simp

lemma xor_cancel: "xor x a = xor y a \<longleftrightarrow> x = (y :: u32)"
  by (metis xor.assoc xor_self_eq xor.right_neutral)

lemma hash_byte_inj: "hash_byte h b = hash_byte h' b \<longleftrightarrow> h = h'"
  by (simp add: hash_byte_def fnv_cancel xor_cancel)

lemma foldl_hash_inj: "foldl hash_byte h t = foldl hash_byte h' t \<longleftrightarrow> h = h'"
  by (induction t arbitrary: h h') (simp_all add: hash_byte_inj)

lemma ucast_u8_inj: "(ucast b :: u32) = ucast b' \<longleftrightarrow> b = (b' :: u8)"
  by transfer simp

lemma hash_byte_last: "hash_byte h b = hash_byte h b' \<longleftrightarrow> b = b'"
  by (simp add: hash_byte_def fnv_cancel xor.commute [of h] xor_cancel ucast_u8_inj)

text \<open>Two symbols that differ in exactly one byte never collide.\<close>

lemma symbol_one_byte: "symbol_to_id (s @ b # t) = symbol_to_id (s @ b' # t) \<longleftrightarrow> b = b'"
  by (simp add: symbol_to_id_def foldl_hash_inj hash_byte_last)

end
