(* ===== verification/Wire_Properties.thy ===== *)
theory Wire_Properties
  imports Binary Json_Codec
begin

text \<open>
  The properties of the two client protocols: the binary decoder accepts exactly the
  documented layout, never reads past the buffer and classifies every error; outbound
  messages are uniquely decodable; symbol ids.
\<close>

section \<open>Inbound\<close>

text \<open>
  C18: \<open>decode_inbound\<close> succeeds on exactly the documented layout: it returns a message
  and the rest of the buffer if and only if the buffer is that message's bytes followed by
  that rest. So every encoded message is read back, and nothing else is accepted.
\<close>

theorem decode_inbound_exact:
  "decode_inbound buf = Inr (Inr m, rest) \<longleftrightarrow> inbound_ok m \<and> buf = inbound_wire m @ rest"
proof
  assume "decode_inbound buf = Inr (Inr m, rest)"
  then show "inbound_ok m \<and> buf = inbound_wire m @ rest"
    by (auto simp: decode_inbound_def parses decode_new_order_ok decode_cancel_ok decode_replace_ok split: if_splits)
next
  assume "inbound_ok m \<and> buf = inbound_wire m @ rest"
  then show "decode_inbound buf = Inr (Inr m, rest)"
    by (cases m)
      (auto simp: decode_inbound_def parses decode_new_order_ok decode_cancel_ok decode_replace_ok tag_defs)
qed

lemma safe_decoders: "safe 0 decode_new_order" "safe 0 decode_cancel" "safe 0 decode_replace"
proof -
  have "safe (8 + (4 + (1 + (1 + (1 + (8 + (8 + (8 + 0))))))))
     (pbind get_u64_le (\<lambda>i. pbind get_u32_le (\<lambda>sy. pbind get_u8 (\<lambda>b. pbind (plift (decode_side b)) (\<lambda>sd.
      pbind get_u8 (\<lambda>b. pbind (plift (decode_order_type b)) (\<lambda>kd. pbind get_u8 (\<lambda>b. pbind (plift (decode_tif b)) (\<lambda>tf.
      pbind get_i64_le (\<lambda>p. pbind get_i64_le (\<lambda>sp. pbind get_u64_le (\<lambda>q. preturn (f i sy sd kd tf p sp q)))))))))))))"
    for f :: "_ \<Rightarrow> _ \<Rightarrow> _ \<Rightarrow> _ \<Rightarrow> _ \<Rightarrow> _ \<Rightarrow> _ \<Rightarrow> _ \<Rightarrow> inbound_msg"
    by (intro safety)
  then show "safe 0 decode_new_order" unfolding decode_new_order_def by (intro safe_guard) simp
  have "safe (8 + (4 + 0)) (pbind get_u64_le (\<lambda>i. pbind get_u32_le (\<lambda>sy. preturn (f i sy))))"
    for f :: "_ \<Rightarrow> _ \<Rightarrow> inbound_msg" by (intro safety)
  then show "safe 0 decode_cancel" unfolding decode_cancel_def by (intro safe_guard) simp
  have "safe (8 + (4 + (8 + (8 + 0)))) (pbind get_u64_le (\<lambda>i. pbind get_u32_le (\<lambda>sy.
      pbind get_i64_le (\<lambda>p. pbind get_u64_le (\<lambda>q. preturn (f i sy p q))))))"
    for f :: "_ \<Rightarrow> _ \<Rightarrow> _ \<Rightarrow> _ \<Rightarrow> inbound_msg" by (intro safety)
  then show "safe 0 decode_replace" unfolding decode_replace_def by (intro safe_guard) simp
qed

lemma safe_decode_inbound: "safe 0 decode_inbound"
proof -
  have "safe (1 + 0) (pbind get_u8 (\<lambda>tag. if tag = TAG_NEW_ORDER then decode_new_order
        else if tag = TAG_CANCEL then decode_cancel else if tag = TAG_REPLACE then decode_replace
        else pfail (UnknownTag tag)))"
    by (intro safety) (simp add: safe_decoders safety)
  then show ?thesis unfolding decode_inbound_def by (intro safe_guard) simp
qed

text \<open>The length of a message by its tag, the tag included.\<close>

definition msg_length :: "u8 \<Rightarrow> nat option" where
  "msg_length tag =
     (if tag = TAG_NEW_ORDER then Some 40 else if tag = TAG_CANCEL then Some 13
      else if tag = TAG_REPLACE then Some 29 else None)"

lemma decode_new_order_err:
  "decode_new_order buf = Inr (Inl Truncated, r) \<Longrightarrow> length buf < 39"
  "decode_new_order buf \<noteq> Inr (Inl (UnknownTag t), r)"
  by (auto simp: decode_new_order_def errs decode_side_def decode_order_type_def decode_tif_def split: if_splits)

lemma decode_short_err:
  "decode_cancel buf = Inr (Inl e, r) \<longleftrightarrow> length buf < 12 \<and> e = Truncated \<and> r = buf"
  "decode_replace buf = Inr (Inl e, r) \<longleftrightarrow> length buf < 28 \<and> e = Truncated \<and> r = buf"
  by (auto simp: decode_cancel_def decode_replace_def errs)

lemma truncated_new_order: "length buf < 39 \<Longrightarrow> decode_new_order buf = Inr (Inl Truncated, buf)"
  by (simp add: decode_new_order_def pguard_def)

lemma decode_step:
  "decode_inbound (b # buf) =
     (if b = TAG_NEW_ORDER then decode_new_order buf else if b = TAG_CANCEL then decode_cancel buf
      else if b = TAG_REPLACE then decode_replace buf else Inr (Inl (UnknownTag b), buf))"
  by (simp add: decode_inbound_def pguard_def pbind_def get_u8_def get_fixed_def le_u8_def pfail_def)

text \<open>
  \<open>decode_inbound\<close> never panics, whatever bytes it is given, and its errors say what is
  wrong: \<open>Truncated\<close> for an empty buffer or one shorter than the message its tag announces,
  \<open>UnknownTag\<close> for any other first byte.
\<close>

lemma decode_inbound_total:
  "(\<exists>res rest. decode_inbound buf = Inr (res, rest)) \<and>
   ((\<exists>rest. decode_inbound buf = Inr (Inl Truncated, rest)) \<longleftrightarrow>
      buf = [] \<or> (\<exists>n. msg_length (hd buf) = Some n \<and> length buf < n)) \<and>
   ((\<exists>rest. decode_inbound buf = Inr (Inl (UnknownTag t), rest)) \<longleftrightarrow>
      buf \<noteq> [] \<and> hd buf = t \<and> msg_length t = None)"
proof (cases buf)
  case Nil
  then show ?thesis by (simp add: decode_inbound_def pguard_def)
next
  case (Cons b bs)
  have total: "\<exists>res rest. decode_inbound buf = Inr (res, rest)"
    using safe_no_panic [OF safe_decode_inbound, of buf] by (cases "decode_inbound buf") auto
  have short: "(\<exists>rest. decode_new_order bs = Inr (Inl Truncated, rest)) \<longleftrightarrow> length bs < 39"
    using decode_new_order_err(1) truncated_new_order by blast
  consider "b = TAG_NEW_ORDER" | "b = TAG_CANCEL" | "b = TAG_REPLACE" | "msg_length b = None"
    unfolding msg_length_def by metis
  then have "((\<exists>rest. decode_inbound buf = Inr (Inl Truncated, rest)) \<longleftrightarrow>
      (\<exists>n. msg_length b = Some n \<and> length buf < n)) \<and>
    ((\<exists>rest. decode_inbound buf = Inr (Inl (UnknownTag t), rest)) \<longleftrightarrow> b = t \<and> msg_length t = None)"
  proof cases
    case 1
    then show ?thesis using short decode_new_order_err(2) by (auto simp: Cons decode_step msg_length_def)
  next
    case 4
    then show ?thesis by (auto simp: Cons decode_step msg_length_def split: if_splits)
  qed (auto simp: Cons decode_step decode_short_err msg_length_def tag_defs)
  with total show ?thesis by (simp add: Cons)
qed

section \<open>Outbound\<close>

fun outbound_ok :: "outbound_msg \<Rightarrow> bool" where
  "outbound_ok (FillMsg i s p q leaves maker) = i64 p"
| "outbound_ok _ = True"

lemma outbound_append: "encode_outbound m buf = buf @ encode_outbound m []"
  by (cases m) simp_all

lemmas enc_append_eq = u8c.enc_append u64c.enc_append i64c.enc_append

lemma i64_le_eq: "i64 p \<Longrightarrow> i64 q \<Longrightarrow> i64_le p = i64_le q \<longleftrightarrow> p = q"
  using i64c.enc_inj by blast

text \<open>
  Outbound messages are uniquely decodable from a stream: whatever follows, two
  messages with the same bytes at the front are the same message, and the fields (with the
  tag) take 18, 18, 42, 17 and 17 bytes.
\<close>

lemma outbound_unique:
  assumes "outbound_ok m" and "outbound_ok m'" and "encode_outbound m [] @ r = encode_outbound m' [] @ r'"
  shows "m = m' \<and> r = r' \<and> length (encode_outbound m []) =
    (case m of AckMsg _ _ _ \<Rightarrow> 18 | RejectMsg _ _ _ \<Rightarrow> 18 | FillMsg _ _ _ _ _ _ \<Rightarrow> 42 | _ \<Rightarrow> 17)"
  using assms
  by (cases m; cases m') (auto simp: enc_append_eq i64_le_eq tag_defs split: if_splits)

lemma outbound_unique_witness:
  "outbound_ok (FillMsg 1 2 (- 3) 4 5 True) \<and> length (encode_outbound (FillMsg 1 2 (- 3) 4 5 True) []) = 42"
  using outbound_unique [of "FillMsg 1 2 (- 3) 4 5 True" "FillMsg 1 2 (- 3) 4 5 True" "[]" "[]"]
  by (simp add: i64_def)

section \<open>Symbols\<close>

text \<open>
  The gateway's four symbols have four different ids, and no two symbols that differ in
  exactly one byte ever share an id. Longer differences can collide: two five-letter
  symbols with one id would share one book.
\<close>

lemma symbol_ids:
  "distinct (map symbol_to_id symbol_names) \<and>
   (symbol_to_id (s @ b # t) = symbol_to_id (s @ b' # t) \<longleftrightarrow> b = b') \<and>
   symbol_to_id (ascii [76, 81, 78, 81, 88]) = symbol_to_id (ascii [90, 65, 79, 82, 66])"
  by (simp add: symbol_one_byte)
    (simp add: symbol_names_def AAPL_def MSFT_def TSLA_def GOOG_def ascii_def symbol_to_id_def hash_byte_def)

section \<open>Prices\<close>

text \<open>
  C35: Dollar prices survive the boundary: up to \<open>2 ^ 50\<close> ticks (over a hundred billion
  dollars) a price that was shown in dollars comes back as the same number of ticks, and an
  order or a replacement entered at it gets exactly that price. Beyond, \<^verbatim>\<open>f64\<close> runs out:
  3459311654825770 ticks do not come back.
\<close>

theorem json_price_roundtrip:
  assumes "\<bar>t\<bar> \<le> 2 ^ 50"
  shows "dollars_to_ticks (ticks_to_dollars t) = t \<and>
    (\<exists>no. json_to_command (JNew (j\<lparr>jn_price := ticks_to_dollars t\<rparr>)) = Some (New no) \<and> no_price no = t) \<and>
    json_to_command (JReplace \<lparr>jr_id = i, jr_symbol = sy, jr_new_price = ticks_to_dollars t, jr_new_qty = q\<rparr>) =
      Some (Replace i t q (symbol_to_id sy)) \<and>
    dollars_to_ticks (ticks_to_dollars 3459311654825770) \<noteq> 3459311654825770"
proof -
  have "dollars_to_ticks (ticks_to_dollars 3459311654825770) \<noteq> 3459311654825770" by code_simp
  then show ?thesis using ticks_exact [OF assms] by (simp add: new_order_of_json_def)
qed

lemma json_price_roundtrip_witness:
  "dollars_to_ticks (ticks_to_dollars 1502500) = 1502500 \<and> \<bar>1502500 :: int\<bar> \<le> 2 ^ 50"
  using json_price_roundtrip [of 1502500] by simp

text \<open>
  Reject reasons are reported faithfully: different reasons have different texts, and
  the conversions of sides, kinds and times in force lose nothing.
\<close>

lemma json_names_faithful:
  "(reject_reason_str r = reject_reason_str r' \<longleftrightarrow> r = r') \<and> bij core_side \<and> bij core_kind \<and> bij core_tif"
proof -
  have "bij core_side" by (rule o_bij [where g = "\<lambda>s. case s of Buy \<Rightarrow> JBuy | Sell \<Rightarrow> JSell"])
    (auto simp: fun_eq_iff split: side.split; case_tac x; simp)+
  moreover have "bij core_tif" by (rule o_bij [where g = "\<lambda>s. case s of Gtc \<Rightarrow> JGtc | Day \<Rightarrow> JDay"])
    (auto simp: fun_eq_iff split: time_in_force.split; case_tac x; simp)+
  moreover have "bij core_kind" by (rule o_bij [where g = "\<lambda>k. case k of Limit \<Rightarrow> JLimit | Market \<Rightarrow> JMarket
      | Ioc \<Rightarrow> JIoc | Fok \<Rightarrow> JFok | StopMarket \<Rightarrow> JStopMarket | StopLimit \<Rightarrow> JStopLimit"])
    (auto simp: fun_eq_iff split: order_type.split; case_tac x; simp)+
  moreover have "reject_reason_str r = reject_reason_str r' \<longleftrightarrow> r = r'" by (cases r; cases r') simp_all
  ultimately show ?thesis by simp
qed

end
