(* ===== verification/Decimal.thy ===== *)
theory Decimal
  imports Prelude "HOL-Library.Char_ord" "HOL-Library.List_Lexorder"
begin

text \<open>
  Decimal numerals as \<^verbatim>\<open>format!\<close> prints them and \<^verbatim>\<open>str::parse::<u64>\<close> reads them, and the
  byte order of zero-padded numerals, on which the order of log segments and snapshots
  rests.
\<close>

section \<open>Printing\<close>

definition digit :: "nat \<Rightarrow> char" where
  "digit d = char_of (48 + d)"

fun nat_str :: "nat \<Rightarrow> string" where
  "nat_str n = (if n < 10 then [digit n] else nat_str (n div 10) @ [digit (n mod 10)])"

declare nat_str.simps [simp del]

lemma nat_str_steps:
  "n < 10 \<Longrightarrow> nat_str n = [digit n]" "10 \<le> n \<Longrightarrow> nat_str n = nat_str (n div 10) @ [digit (n mod 10)]"
  by (simp_all add: nat_str.simps [of n])

text \<open>\<^verbatim>\<open>{:0w}\<close>: at least \<open>w\<close> digits, filled up with zeros.\<close>

definition pad_str :: "nat \<Rightarrow> nat \<Rightarrow> string" where
  "pad_str w n = replicate (w - length (nat_str n)) (digit 0) @ nat_str n"

section \<open>Parsing\<close>

definition is_digit :: "char \<Rightarrow> bool" where
  "is_digit c \<longleftrightarrow> 48 \<le> (of_char c :: nat) \<and> (of_char c :: nat) \<le> 57"

definition digit_val :: "char \<Rightarrow> nat" where
  "digit_val c = of_char c - 48"

definition digits_val :: "string \<Rightarrow> nat" where
  "digits_val s = foldl (\<lambda>v c. 10 * v + digit_val c) 0 s"

text \<open>\<^verbatim>\<open>u64::from_str\<close>: an optional plus sign, at least one digit, a value below \<open>2 ^ 64\<close>.\<close>

definition parse_u64 :: "string \<Rightarrow> u64 option" where
  "parse_u64 s =
     (let ds = (case s of c # cs \<Rightarrow> if c = CHR ''+'' then cs else s | [] \<Rightarrow> [])
      in if ds \<noteq> [] \<and> list_all is_digit ds \<and> digits_val ds < 2 ^ 64
         then Some (word_of_nat (digits_val ds)) else None)"

section \<open>Round trip\<close>

lemma of_char_digit [simp]: "d < 10 \<Longrightarrow> of_char (digit d) = (48 + d :: nat)"
  by (simp add: digit_def)

lemma digit_facts [simp]: "d < 10 \<Longrightarrow> is_digit (digit d)" "d < 10 \<Longrightarrow> digit_val (digit d) = d"
  by (simp_all add: is_digit_def digit_val_def)

lemma digits_val_append [simp]: "digits_val (s @ [c]) = 10 * digits_val s + digit_val c"
  by (simp add: digits_val_def)

lemma digits_val_Nil [simp]: "digits_val [] = 0"
  by (simp add: digits_val_def)

lemma foldl_digits: "foldl (\<lambda>v c. 10 * v + digit_val c) v s = v * 10 ^ length s + digits_val s"
proof (induction s rule: rev_induct)
  case (snoc c s)
  then show ?case by simp
qed simp

lemma digits_val_Cons [simp]: "digits_val (c # s) = digit_val c * 10 ^ length s + digits_val s"
  using foldl_digits [of "digit_val c" s] by (simp add: digits_val_def)

lemma digits_val_zeros [simp]: "digits_val (replicate k (digit 0) @ s) = digits_val s"
  by (induction k) simp_all

lemma nat_str_facts: "nat_str n \<noteq> [] \<and> list_all is_digit (nat_str n) \<and> digits_val (nat_str n) = n"
proof (induction n rule: nat_str.induct)
  case (1 n)
  then show ?case by (cases "n < 10") (simp_all add: nat_str.simps [of n])
qed

lemma pad_str_facts: "pad_str w n \<noteq> []" "list_all is_digit (pad_str w n)" "digits_val (pad_str w n) = n"
  using nat_str_facts [of n] by (auto simp: pad_str_def list_all_iff)

lemma parse_pad: "n < 2 ^ 64 \<Longrightarrow> parse_u64 (pad_str w n) = Some (word_of_nat n)"
proof -
  assume n: "n < 2 ^ 64"
  obtain c cs where s: "pad_str w n = c # cs" using pad_str_facts(1) by (cases "pad_str w n") auto
  then have "is_digit c" using pad_str_facts(2) [of w n] by simp
  then have "c \<noteq> CHR ''+''" by (auto simp: is_digit_def)
  then show ?thesis using n pad_str_facts [of w n] by (simp add: parse_u64_def Let_def s)
qed

lemma nat_str_length: "n < 10 ^ w \<Longrightarrow> 0 < w \<Longrightarrow> length (nat_str n) \<le> w"
proof (induction n arbitrary: w rule: nat_str.induct)
  case (1 n)
  show ?case
  proof (cases "n < 10")
    case True
    then show ?thesis using 1 by (simp add: nat_str.simps [of n])
  next
    case False
    then obtain v where w: "w = Suc v" "0 < v"
      using "1.prems" by (cases w; cases "w = 1") auto
    then have "n div 10 < 10 ^ v" using "1.prems" by (simp add: less_mult_imp_div_less mult.commute)
    then show ?thesis using "1.IH" [OF False _ w(2)] False w(1) by (simp add: nat_str.simps [of n])
  qed
qed

lemma pad_str_length: "n < 10 ^ w \<Longrightarrow> 0 < w \<Longrightarrow> length (pad_str w n) = w"
  using nat_str_length [of n w] by (simp add: pad_str_def)

section \<open>Order\<close>

lemma digits_val_bound: "list_all is_digit s \<Longrightarrow> digits_val s < 10 ^ length s"
proof (induction s)
  case (Cons c s)
  have "digit_val c \<le> 9" using Cons.prems by (auto simp: is_digit_def digit_val_def)
  then have "digit_val c * 10 ^ length s \<le> 9 * 10 ^ length s" by (rule mult_le_mono1)
  moreover have "digits_val s < 10 ^ length s" using Cons by simp
  ultimately have "digit_val c * 10 ^ length s + digits_val s < 9 * 10 ^ length s + 10 ^ length s"
    by (rule add_le_less_mono)
  then show ?case by simp
qed simp

lemma digit_val_less: "is_digit c \<Longrightarrow> is_digit c' \<Longrightarrow> digit_val c < digit_val c' \<longleftrightarrow> c < c'"
  by (auto simp: is_digit_def digit_val_def less_char_def)

lemma digit_val_eq:
  assumes d: "is_digit c" "is_digit c'"
  shows "digit_val c = digit_val c' \<longleftrightarrow> c = c'"
proof
  assume "digit_val c = digit_val c'"
  with d have "(of_char c :: nat) = of_char c'" unfolding is_digit_def digit_val_def by arith
  then show "c = c'" by simp
qed simp

text \<open>Numerals of the same length compare as strings as they do as numbers.\<close>

lemma digits_lex:
  "length s = length t \<Longrightarrow> list_all is_digit s \<Longrightarrow> list_all is_digit t \<Longrightarrow>
     s < t \<longleftrightarrow> digits_val s < digits_val t"
proof (induction s t rule: list_induct2)
  case (Cons c s d t)
  have b: "digits_val s < 10 ^ length s" "digits_val t < 10 ^ length s"
    using digits_val_bound [of s] digits_val_bound [of t] Cons.prems Cons.hyps by simp_all
  consider "c < d" | "c = d" | "d < c" by (rule linorder_less_linear [THEN disjE]) auto
  then show ?case
  proof cases
    case 1
    then have "digit_val c + 1 \<le> digit_val d" using digit_val_less [of c d] Cons.prems by simp
    then have "(digit_val c + 1) * 10 ^ length s \<le> digit_val d * 10 ^ length s" by (rule mult_le_mono1)
    then show ?thesis using 1 b Cons by simp
  next
    case 2
    then show ?thesis using Cons by simp
  next
    case 3
    then have "digit_val d + 1 \<le> digit_val c" using digit_val_less [of d c] Cons.prems by simp
    then have "(digit_val d + 1) * 10 ^ length s \<le> digit_val c * 10 ^ length s" by (rule mult_le_mono1)
    then show ?thesis using 3 b Cons by auto
  qed
qed simp

lemma lex_append_same: "length s = length t \<Longrightarrow> s @ u < t @ u \<longleftrightarrow> s < (t :: string)"
  by (induction s t rule: list_induct2) auto

lemma pad_str_less:
  assumes "m < 10 ^ w" "n < 10 ^ w" "0 < w"
  shows "pad_str w m @ u < pad_str w n @ u \<longleftrightarrow> m < n"
  using assms digits_lex [of "pad_str w m" "pad_str w n"] pad_str_facts
  by (simp add: lex_append_same pad_str_length)

end
