(* ===== verification/Wal_Record.thy ===== *)
theory Wal_Record
  imports Bytes Decimal
begin

text \<open>
  \<^verbatim>\<open>crates/wal/src/record.rs\<close>: the framing of one log record. The checksum (\<^verbatim>\<open>crc32fast\<close>)
  is the argument \<open>crc\<close>; nothing is assumed of it.
\<close>

section \<open>Records\<close>

datatype record_type = Command_rec | Event_rec | Snap_rec

text \<open>\<^verbatim>\<open>rec_type as u8\<close> and \<^verbatim>\<open>RecordType::from_u8\<close>.\<close>

fun rec_byte :: "record_type \<Rightarrow> u8" where
  "rec_byte Command_rec = 1" | "rec_byte Event_rec = 2" | "rec_byte Snap_rec = 3"

definition from_u8 :: "u8 \<Rightarrow> record_type option" where
  "from_u8 b = (if b = 1 then Some Command_rec else if b = 2 then Some Event_rec
     else if b = 3 then Some Snap_rec else None)"

interpretation rec_code: tag_codec rec_byte from_u8
proof
  fix k b
  show "from_u8 (rec_byte k) = Some k" by (cases k) (simp_all add: from_u8_def)
  assume "from_u8 b = Some k"
  then show "rec_byte k = b" by (auto simp: from_u8_def split: if_splits)
qed

record wal_record =
  wr_seq :: u64
  wr_ts :: u64
  wr_type :: record_type
  wr_payload :: bytes

datatype wal_error = Io string | Crc u32 u32 | WTruncated u64 | Serialise string

definition record_new :: "u64 \<Rightarrow> u64 \<Rightarrow> record_type \<Rightarrow> bytes \<Rightarrow> wal_record" where
  "record_new s t k p = \<lparr>wr_seq = s, wr_ts = t, wr_type = k, wr_payload = p\<rparr>"

section \<open>Encoding and decoding\<close>

definition record_body :: "wal_record \<Rightarrow> bytes" where
  "record_body r = u64_le (wr_seq r) @ u64_le (wr_ts r) @ u8_le (rec_byte (wr_type r)) @ wr_payload r"

text \<open>\<^verbatim>\<open>body_len as u32\<close> truncates.\<close>

definition encode :: "(bytes \<Rightarrow> u32) \<Rightarrow> wal_record \<Rightarrow> bytes" where
  "encode crc r =
     (let body = record_body r in
      u32_le (word_of_nat (length body)) @ u32_le (crc body) @ body)"

definition decode :: "(bytes \<Rightarrow> u32) \<Rightarrow> bytes \<Rightarrow> wal_error + (wal_record \<times> nat)" where
  "decode crc buf =
     (if length buf < 8 then Inl (WTruncated 0)
      else
        let payload_len = unat (le_u32 (take 4 buf));
            stored_crc = le_u32 (take 4 (drop 4 buf));
            total = 8 + payload_len
        in
        if length buf < total then Inl (WTruncated 8)
        else
          let body = drop 8 (take total buf);
              actual_crc = crc body
          in
          if actual_crc \<noteq> stored_crc then Inl (Crc stored_crc actual_crc)
          else if length body < 17 then Inl (WTruncated 8)
          else
            (case from_u8 (body ! 16) of
               None \<Rightarrow> Inl (Serialise (''unknown rec_type '' @ nat_str (unat (body ! 16))))
             | Some k \<Rightarrow>
                 Inr (\<lparr>wr_seq = le_u64 (take 8 body), wr_ts = le_u64 (take 8 (drop 8 body)),
                       wr_type = k, wr_payload = drop 17 body\<rparr>, total)))"

section \<open>Facts\<close>

lemmas codec_lengths [simp] = u8c.length_enc u32c.length_enc u64c.length_enc i64c.length_enc

lemma length_body [simp]: "length (record_body r) = 17 + length (wr_payload r)"
  by (simp add: record_body_def)

lemma length_encode [simp]: "length (encode crc r) = 25 + length (wr_payload r)"
  by (simp add: encode_def Let_def)

lemma unat_u32_of_nat: "n < 2 ^ 32 \<Longrightarrow> unat (word_of_nat n :: u32) = n"
  by (simp add: unat_of_nat)

text \<open>A buffer that starts with a header: what \<open>decode\<close> makes of the bytes behind it.\<close>

lemma decode_frame:
  assumes "n < 2 ^ 32"
  shows "decode crc (u32_le (word_of_nat n) @ u32_le c @ bs) =
    (if length bs < n then Inl (WTruncated 8)
     else if crc (take n bs) \<noteq> c then Inl (Crc c (crc (take n bs)))
     else if n < 17 then Inl (WTruncated 8)
     else case from_u8 (bs ! 16) of
        None \<Rightarrow> Inl (Serialise (''unknown rec_type '' @ nat_str (unat (bs ! 16))))
      | Some k \<Rightarrow> Inr (\<lparr>wr_seq = le_u64 (take 8 bs), wr_ts = le_u64 (take 8 (drop 8 bs)), wr_type = k,
            wr_payload = drop 17 (take n bs)\<rparr>, 8 + n))"
proof -
  let ?buf = "u32_le (word_of_nat n) @ u32_le c @ bs"
  have h: "le_u32 (take 4 ?buf) = word_of_nat n" by (rule u32c.dec_front) simp
  have d: "drop 4 ?buf = u32_le c @ bs" by (rule u32c.drop_enc)
  have c: "le_u32 (take 4 (drop 4 ?buf)) = c" unfolding d by (rule u32c.dec_front) simp
  have b: "drop 8 (take (8 + n) ?buf) = take n bs" by (simp add: take_add)
  have u: "unat (word_of_nat n :: u32) = n" by (rule unat_u32_of_nat [OF assms])
  show ?thesis
    unfolding decode_def h c Let_def u b
    by (cases "length bs < n"; cases "n < 17") (simp_all add: take_drop min_absorb1 min_absorb2 split: option.split)
qed

lemma header_split:
  assumes "8 \<le> length buf"
  obtains n c bs where "n < 2 ^ 32" "buf = u32_le (word_of_nat n) @ u32_le c @ bs"
proof -
  obtain w where w: "take 4 buf = u32_le w" using u32c.enc_onto [of "take 4 buf"] assms by auto
  obtain c where c: "take 4 (drop 4 buf) = u32_le c" using u32c.enc_onto [of "take 4 (drop 4 buf)"] assms by auto
  have "buf = take 4 buf @ take 4 (drop 4 buf) @ drop 4 (drop 4 buf)" by (simp only: append_take_drop_id)
  then have "buf = u32_le (word_of_nat (unat w)) @ u32_le c @ drop 4 (drop 4 buf)" using w c by simp
  moreover have "unat w < 2 ^ 32" using unsigned_less [of w] by simp
  ultimately show ?thesis using that by blast
qed

text \<open>A payload the length field can hold.\<close>

definition fits :: "wal_record \<Rightarrow> bool" where
  "fits r \<longleftrightarrow> 17 + length (wr_payload r) < 2 ^ 32"

lemma body_fields:
  "take 8 (record_body r @ rest) = u64_le (wr_seq r)"
  "take 8 (drop 8 (record_body r @ rest)) = u64_le (wr_ts r)"
  "(record_body r @ rest) ! 16 = rec_byte (wr_type r)"
  "drop 17 (record_body r) = wr_payload r"
  by (simp_all add: record_body_def u8_le_def nth_append)

lemma decode_encode: "fits r \<Longrightarrow> decode crc (encode crc r @ rest) = Inr (r, length (encode crc r))"
  unfolding encode_def Let_def append_assoc fits_def
  by (subst decode_frame)
    (simp_all add: body_fields body_fields(1-3) [where rest = "[]", simplified] rec_code.untag_tag u64c.dec_enc del: append_assoc)

lemma decode_only:
  assumes "decode crc buf = Inr (r, m)"
  shows "fits r \<and> m = length (encode crc r) \<and> take m buf = encode crc r"
proof -
  have "8 \<le> length buf" using assms by (simp add: decode_def split: if_splits)
  then obtain n c bs where n: "n < 2 ^ 32" and buf: "buf = u32_le (word_of_nat n) @ u32_le c @ bs"
    by (rule header_split)
  from assms obtain k where l: "n \<le> length bs" "crc (take n bs) = c" "17 \<le> n" "from_u8 (bs ! 16) = Some k"
    and r: "r = \<lparr>wr_seq = le_u64 (take 8 bs), wr_ts = le_u64 (take 8 (drop 8 bs)), wr_type = k,
            wr_payload = drop 17 (take n bs)\<rparr>" and m: "m = 8 + n"
    unfolding buf decode_frame [OF n] by (auto split: if_splits option.splits)
  have bs: "take n bs = take 8 bs @ take 8 (drop 8 bs) @ [bs ! 16] @ drop 17 (take n bs)"
  proof -
    have "take n bs = take 16 (take n bs) @ take n bs ! 16 # drop (Suc 16) (take n bs)"
      using l(1,3) by (intro id_take_nth_drop) simp
    moreover have "take 16 (take n bs) = take 8 bs @ take 8 (drop 8 bs)"
      using l(3) take_add [of 8 8 bs] by (simp add: min_def)
    moreover have "take n bs ! 16 = bs ! 16" using l(3) by simp
    ultimately show ?thesis by simp
  qed
  then have body: "record_body r = take n bs"
    using l rec_code.untag_Some [OF l(4)]
    by (simp add: r record_body_def u64c.enc_dec u8_le_def)
  have "length (record_body r) = n" using l(1) by (simp add: body)
  then have "length (wr_payload r) + 17 = n" by simp
  then show ?thesis
    using n m l(1,2) body by (simp add: fits_def encode_def Let_def buf min_def)
qed

lemma decode_prefix:
  assumes "fits r" and "j < length (encode crc r)"
  shows "\<exists>off. decode crc (take j (encode crc r)) = Inl (WTruncated off)"
proof (cases "j < 8")
  case True
  then show ?thesis by (simp add: decode_def)
next
  case False
  define n where "n = length (record_body r)"
  have n: "n < 2 ^ 32" "n = 17 + length (wr_payload r)" using assms(1) by (simp_all add: n_def fits_def)
  have "take j (encode crc r) = u32_le (word_of_nat n) @ u32_le (crc (record_body r)) @ take (j - 8) (record_body r)"
    using False by (simp add: encode_def Let_def n_def del: length_body)
  moreover have "length (take (j - 8) (record_body r)) < n" using assms(2) False n(2) by simp
  ultimately show ?thesis by (simp only: decode_frame [OF n(1)] if_True) blast
qed

lemma decode_corrupt:
  assumes "fits r" and "length bs = length (record_body r)" and "crc bs \<noteq> c"
  shows "decode crc (u32_le (word_of_nat (length (record_body r))) @ u32_le c @ bs @ rest) = Inl (Crc c (crc bs))"
proof -
  have "length bs < 2 ^ 32" using assms(1,2) by (simp add: fits_def)
  then show ?thesis unfolding assms(2) [symmetric] using assms(3) by (simp add: decode_frame)
qed

end
