(* ===== verification/Wal_Log.thy ===== *)
theory Wal_Log
  imports Wal_Record
begin

text \<open>
  \<^verbatim>\<open>crates/wal/src/segment.rs\<close>, \<^verbatim>\<open>reader.rs\<close> and \<^verbatim>\<open>writer.rs\<close>: a log directory of
  numbered segment files. A directory is the list of its files; system calls succeed. The
  writer's \<^verbatim>\<open>BufWriter\<close> is a buffer in front of the current file, with the rules of the
  standard library for when it spills; \<open>synced\<close> is what the last \<^verbatim>\<open>sync_data\<close> of each file
  made durable.
\<close>

section \<open>segment.rs\<close>

type_synonym dir = "(string \<times> bytes) list"

definition SEGMENT_SIZE :: nat where "SEGMENT_SIZE = 64 * 1024 * 1024"

text \<open>\<^verbatim>\<open>Path::file_stem\<close> and \<^verbatim>\<open>Path::extension\<close>: the name is split at its last dot,
  unless that dot is its first character or there is none.\<close>

definition file_split :: "string \<Rightarrow> string \<times> string option" where
  "file_split s =
     (let r = rev s;
          ext = takeWhile (\<lambda>c. c \<noteq> CHR ''.'') r;
          stem = drop (Suc (length ext)) r
      in if stem = [] then (s, None) else (rev stem, Some (rev ext)))"

definition segment_index :: "string \<Rightarrow> u64 option" where
  "segment_index name = parse_u64 (fst (file_split name))"

definition segment_path :: "u64 \<Rightarrow> string" where
  "segment_path idx = pad_str 10 (unat idx) @ ''.wal''"

definition list_segments :: "dir \<Rightarrow> string list" where
  "list_segments d = sort (filter (\<lambda>p. snd (file_split p) = Some ''wal'') (map fst d))"

definition fs_read :: "dir \<Rightarrow> string \<Rightarrow> bytes" where
  "fs_read d p = (case map_of d p of None \<Rightarrow> [] | Some bs \<Rightarrow> bs)"

text \<open>Opening with \<^verbatim>\<open>create\<close> and \<^verbatim>\<open>append\<close>, then writing at the end.\<close>

fun append_file :: "string \<Rightarrow> bytes \<Rightarrow> dir \<Rightarrow> dir" where
  "append_file p bs [] = [(p, bs)]"
| "append_file p bs ((q, cs) # d) = (if p = q then (q, cs @ bs) # d else (q, cs) # append_file p bs d)"

fun store_file :: "string \<Rightarrow> bytes \<Rightarrow> dir \<Rightarrow> dir" where
  "store_file p bs [] = [(p, bs)]"
| "store_file p bs ((q, cs) # d) = (if p = q then (q, bs) # d else (q, cs) # store_file p bs d)"

section \<open>reader.rs\<close>

text \<open>
  The inner \<^verbatim>\<open>loop\<close> over one segment: \<open>data\<close> is what is left behind \<open>offset\<close>. The callback
  \<open>f\<close> carries the state of the closure.
\<close>

function replay_bytes ::
  "(bytes \<Rightarrow> u32) \<Rightarrow> u64 \<Rightarrow> (wal_record \<Rightarrow> 's \<Rightarrow> (wal_error + unit) \<times> 's) \<Rightarrow> bytes \<Rightarrow> u64 \<Rightarrow> 's \<Rightarrow>
   (wal_error + u64) \<times> 's" where
  "replay_bytes crc after f data last_seq st =
     (if data = [] then (Inr last_seq, st)
      else
        (case decode crc data of
           Inr (r, consumed) \<Rightarrow>
             if wr_seq r > after then
               (case f r st of
                  (Inl e, st) \<Rightarrow> (Inl e, st)
                | (Inr _, st) \<Rightarrow> replay_bytes crc after f (drop consumed data) (wr_seq r) st)
             else replay_bytes crc after f (drop consumed data) last_seq st
         | Inl (WTruncated _) \<Rightarrow> (Inr last_seq, st)
         | Inl e \<Rightarrow> (Inl e, st)))"
  by pat_completeness auto
termination
proof (relation "measure (\<lambda>(_, _, _, data, _). length data)")
  fix data :: bytes and crc after last_seq f x a r consumed xa y xb ya and st :: 's
  have less: "length (drop consumed data) < length data"
    if "data \<noteq> []" "decode crc data = Inr (r, consumed)" for crc data consumed r
    using that decode_only [OF that(2)] by simp
  show "((crc, after, f, drop ya data, wr_seq xb, y), crc, after, f, data, last_seq, st)
      \<in> measure (\<lambda>(_, _, _, data, _). length data)"
    if "data \<noteq> []" "decode crc data = Inr xa" "(xb, ya) = xa" for xb ya xa y
    using less that by auto
  show "((crc, after, f, drop ya data, last_seq, st), crc, after, f, data, last_seq, st)
      \<in> measure (\<lambda>(_, _, _, data, _). length data)"
    if "data \<noteq> []" "decode crc data = Inr xa" "(xb, ya) = xa" for xb ya xa
    using less that by auto
qed simp

declare replay_bytes.simps [simp del]

fun replay_segments ::
  "(bytes \<Rightarrow> u32) \<Rightarrow> u64 \<Rightarrow> (wal_record \<Rightarrow> 's \<Rightarrow> (wal_error + unit) \<times> 's) \<Rightarrow> dir \<Rightarrow> string list \<Rightarrow>
   u64 \<Rightarrow> 's \<Rightarrow> (wal_error + u64) \<times> 's" where
  "replay_segments crc after f d [] last_seq st = (Inr last_seq, st)"
| "replay_segments crc after f d (p # ps) last_seq st =
     (case replay_bytes crc after f (fs_read d p) last_seq st of
        (Inl e, st) \<Rightarrow> (Inl e, st)
      | (Inr last_seq, st) \<Rightarrow> replay_segments crc after f d ps last_seq st)"

definition replay ::
  "(bytes \<Rightarrow> u32) \<Rightarrow> u64 \<Rightarrow> (wal_record \<Rightarrow> 's \<Rightarrow> (wal_error + unit) \<times> 's) \<Rightarrow> dir \<Rightarrow> 's \<Rightarrow>
   (wal_error + u64) \<times> 's" where
  "replay crc after f d st = replay_segments crc after f d (list_segments d) after st"

definition wal_count :: "(bytes \<Rightarrow> u32) \<Rightarrow> dir \<Rightarrow> wal_error + nat" where
  "wal_count crc d =
     (case replay crc 0 (\<lambda>_ n. (Inr (), Suc n)) d 0 of (Inl e, _) \<Rightarrow> Inl e | (Inr _, n) \<Rightarrow> Inr n)"

section \<open>writer.rs\<close>

datatype fsync_policy = PerRecord | Every nat | Off

record wal_writer =
  ww_seg_idx :: u64
  ww_seg_bytes :: u64
  ww_buf :: bytes
  ww_fsync :: fsync_policy
  ww_write_count :: nat

record disk =
  files :: dir
  synced :: dir

definition BUF_CAPACITY :: nat where "BUF_CAPACITY = 8192"

definition ww_path :: "wal_writer \<Rightarrow> string" where
  "ww_path w = segment_path (ww_seg_idx w)"

definition buf_flush :: "wal_writer \<times> disk \<Rightarrow> wal_writer \<times> disk" where
  "buf_flush = (\<lambda>(w, d). (w\<lparr>ww_buf := []\<rparr>, d\<lparr>files := append_file (ww_path w) (ww_buf w) (files d)\<rparr>))"

text \<open>\<^verbatim>\<open>BufWriter::write_all\<close>.\<close>

definition buf_write :: "bytes \<Rightarrow> wal_writer \<times> disk \<Rightarrow> wal_writer \<times> disk" where
  "buf_write bs wd =
     (if length bs < BUF_CAPACITY - length (ww_buf (fst wd)) then
        ((fst wd)\<lparr>ww_buf := ww_buf (fst wd) @ bs\<rparr>, snd wd)
      else
        let (w, d) = (if length bs > BUF_CAPACITY - length (ww_buf (fst wd)) then buf_flush wd else wd)
        in if length bs \<ge> BUF_CAPACITY then (w, d\<lparr>files := append_file (ww_path w) bs (files d)\<rparr>)
           else (w\<lparr>ww_buf := ww_buf w @ bs\<rparr>, d))"

definition open_segment :: "u64 \<Rightarrow> disk \<Rightarrow> disk" where
  "open_segment idx d = d\<lparr>files := append_file (segment_path idx) [] (files d)\<rparr>"

definition wal_open :: "fsync_policy \<Rightarrow> disk \<Rightarrow> wal_writer \<times> disk" where
  "wal_open fsync d =
     (let segs = list_segments (files d);
          top = (if segs = [] then None else segment_index (last segs));
          seg_idx = (case top of None \<Rightarrow> 0 | Some i \<Rightarrow> i) + 1;
          d = open_segment seg_idx d
      in (\<lparr>ww_seg_idx = seg_idx,
           ww_seg_bytes = word_of_nat (length (fs_read (files d) (segment_path seg_idx))),
           ww_buf = [], ww_fsync = fsync, ww_write_count = 0\<rparr>, d))"

definition do_fsync :: "wal_writer \<times> disk \<Rightarrow> wal_writer \<times> disk" where
  "do_fsync wd =
     (let (w, d) = buf_flush wd
      in (w, d\<lparr>synced := store_file (ww_path w) (fs_read (files d) (ww_path w)) (synced d)\<rparr>))"

definition roll_segment :: "wal_writer \<times> disk \<Rightarrow> wal_writer \<times> disk" where
  "roll_segment wd =
     (let (w, d) = buf_flush wd;
          w = w\<lparr>ww_seg_idx := ww_seg_idx w + 1, ww_seg_bytes := 0\<rparr>
      in (w, open_segment (ww_seg_idx w) d))"

text \<open>\<^verbatim>\<open>self.write_count % n\<close> panics for \<open>n = 0\<close>.\<close>

definition maybe_sync :: "wal_writer \<times> disk \<Rightarrow> halt + (wal_writer \<times> disk)" where
  "maybe_sync wd =
     (case ww_fsync (fst wd) of
        PerRecord \<Rightarrow> Inr (do_fsync wd)
      | Every n \<Rightarrow>
          if n = 0 then Inl Div_by_zero
          else Inr (if ww_write_count (fst wd) mod n = 0 then do_fsync wd else wd)
      | Off \<Rightarrow> Inr wd)"

definition wal_append ::
  "(bytes \<Rightarrow> u32) \<Rightarrow> u64 \<Rightarrow> u64 \<Rightarrow> record_type \<Rightarrow> bytes \<Rightarrow> wal_writer \<times> disk \<Rightarrow>
   halt + (wal_writer \<times> disk)" where
  "wal_append crc s t k payload wd =
     (let bs = encode crc (record_new s t k payload);
          (w, d) = buf_write bs wd;
          w = w\<lparr>ww_seg_bytes := ww_seg_bytes w + word_of_nat (length bs),
                ww_write_count := ww_write_count w + 1\<rparr>
      in rbind (maybe_sync (w, d)) (\<lambda>(w, d).
         Inr (if unat (ww_seg_bytes w) \<ge> SEGMENT_SIZE then roll_segment (w, d) else (w, d))))"

definition wal_flush :: "wal_writer \<times> disk \<Rightarrow> wal_writer \<times> disk" where
  "wal_flush wd = buf_flush wd"

end
