(* ===== verification/Wal_Facts.thy ===== *)
theory Wal_Facts
  imports Wal_Log
begin

text \<open>
  What the log promises: a directory holds a sequence of records (\<open>dir_holds\<close>), reading it
  feeds them to the callback, and the writer keeps the invariant \<open>winv\<close>: closed segments
  hold whole records, and the current file with the buffer behind it is the encoding of
  the records appended since.
\<close>

section \<open>Reading a segment\<close>

definition encodes :: "(bytes \<Rightarrow> u32) \<Rightarrow> wal_record list \<Rightarrow> bytes" where
  "encodes crc rs = concat (map (encode crc) rs)"

definition torn :: "(bytes \<Rightarrow> u32) \<Rightarrow> bytes \<Rightarrow> bool" where
  "torn crc t \<longleftrightarrow> t = [] \<or> (\<exists>off. decode crc t = Inl (WTruncated off))"

definition seg_holds :: "(bytes \<Rightarrow> u32) \<Rightarrow> bytes \<Rightarrow> wal_record list \<Rightarrow> bool" where
  "seg_holds crc bs rs \<longleftrightarrow> list_all fits rs \<and> (\<exists>t. bs = encodes crc rs @ t \<and> torn crc t)"

text \<open>The records with \<open>seq > after\<close>, handed to the callback in order.\<close>

fun feed ::
  "u64 \<Rightarrow> (wal_record \<Rightarrow> 's \<Rightarrow> (wal_error + unit) \<times> 's) \<Rightarrow> wal_record list \<Rightarrow> u64 \<Rightarrow> 's \<Rightarrow>
   (wal_error + u64) \<times> 's" where
  "feed after f [] last_seq st = (Inr last_seq, st)"
| "feed after f (r # rs) last_seq st =
     (if wr_seq r > after then
        (case f r st of
           (Inl e, st) \<Rightarrow> (Inl e, st)
         | (Inr _, st) \<Rightarrow> feed after f rs (wr_seq r) st)
      else feed after f rs last_seq st)"

lemma encodes_simps [simp]: "encodes crc [] = []" "encodes crc (r # rs) = encode crc r @ encodes crc rs"
  "encodes crc (rs @ rs') = encodes crc rs @ encodes crc rs'"
  by (simp_all add: encodes_def)

lemma encode_ne [simp]: "encode crc r \<noteq> []"
  using length_encode [of crc r] by (metis add_is_0 list.size(3) zero_neq_numeral)

lemma replay_torn: "torn crc t \<Longrightarrow> replay_bytes crc after f t last_seq st = (Inr last_seq, st)"
  by (auto simp: torn_def replay_bytes.simps [of crc after f t])

lemma replay_record:
  assumes "fits r"
  shows "replay_bytes crc after f (encode crc r @ bs) last_seq st =
    (if wr_seq r > after then
       (case f r st of
          (Inl e, st) \<Rightarrow> (Inl e, st)
        | (Inr _, st) \<Rightarrow> replay_bytes crc after f bs (wr_seq r) st)
     else replay_bytes crc after f bs last_seq st)"
proof -
  have d: "drop (length (encode crc r)) (encode crc r @ bs) = bs" by simp
  show ?thesis
    by (subst replay_bytes.simps)
      (simp add: decode_encode [OF assms] d del: length_encode drop_append split: prod.split sum.split)
qed

lemma replay_bytes_holds:
  "seg_holds crc bs rs \<Longrightarrow> replay_bytes crc after f bs last_seq st = feed after f rs last_seq st"
proof (induction rs arbitrary: bs last_seq st)
  case Nil
  then show ?case by (simp add: seg_holds_def replay_torn)
next
  case (Cons r rs)
  then obtain t where bs: "bs = encode crc r @ encodes crc rs @ t" and "torn crc t" "fits r" "list_all fits rs"
    by (auto simp: seg_holds_def)
  then have rest: "seg_holds crc (encodes crc rs @ t) rs" by (auto simp: seg_holds_def)
  show ?case
    unfolding bs replay_record [OF \<open>fits r\<close>] feed.simps
    by (simp add: Cons.IH [OF rest] split: prod.split sum.split)
qed

lemma feed_append:
  "feed after f (rs @ rs') last_seq st =
     (case feed after f rs last_seq st of (Inl e, st) \<Rightarrow> (Inl e, st) | (Inr l, st) \<Rightarrow> feed after f rs' l st)"
  by (induction rs arbitrary: last_seq st) (auto split: prod.split sum.split)

section \<open>Directories of segments\<close>

definition seg_name :: "nat \<Rightarrow> string" where
  "seg_name k = segment_path (word_of_nat k)"

definition seg_names :: "nat \<Rightarrow> string list" where
  "seg_names k = map seg_name [1..<Suc k]"

lemma unat_small: "k < 10 ^ 10 \<Longrightarrow> unat (word_of_nat k :: u64) = k"
  by (simp add: unat_of_nat)

lemma seg_name_split: "file_split (segment_path i) = (pad_str 10 (unat i), Some ''wal'')"
  using pad_str_facts(1) [of 10 "unat i"] by (simp add: file_split_def segment_path_def Let_def)

lemma segment_index_path: "segment_index (segment_path i) = Some i"
  using unat_u64_bound [of i] by (simp add: segment_index_def seg_name_split parse_pad)

lemma seg_name_less: "i < 10 ^ 10 \<Longrightarrow> j < 10 ^ 10 \<Longrightarrow> seg_name i < seg_name j \<longleftrightarrow> i < j"
  using pad_str_less [of i 10 j "''.wal''"] by (simp add: seg_name_def segment_path_def unat_small)

lemma seg_name_eq: "i < 10 ^ 10 \<Longrightarrow> j < 10 ^ 10 \<Longrightarrow> seg_name i = seg_name j \<longleftrightarrow> i = j"
  using seg_name_less [of i j] seg_name_less [of j i] by (metis linorder_neq_iff less_irrefl)

lemma seg_names_sorted: "k < 10 ^ 10 \<Longrightarrow> sorted_wrt (<) (seg_names k)"
  unfolding seg_names_def sorted_wrt_map
  by (rule sorted_wrt_mono_rel [OF _ sorted_wrt_upt]) (auto simp: seg_name_less)

lemma list_segments_names:
  assumes "map fst d = seg_names k" and "k < 10 ^ 10"
  shows "list_segments d = seg_names k"
proof -
  have "filter (\<lambda>p. snd (file_split p) = Some ''wal'') (seg_names k) = seg_names k"
    by (auto simp: filter_id_conv seg_names_def seg_name_def seg_name_split)
  moreover have "sorted (seg_names k)" using seg_names_sorted [OF assms(2)] by (simp add: strict_sorted_iff)
  ultimately show ?thesis using assms(1) by (simp add: list_segments_def sorted_sort_id)
qed

lemma seg_names_distinct: "k < 10 ^ 10 \<Longrightarrow> distinct (seg_names k)"
  using seg_names_sorted strict_sorted_iff by blast

definition dir_holds :: "(bytes \<Rightarrow> u32) \<Rightarrow> dir \<Rightarrow> wal_record list list \<Rightarrow> bool" where
  "dir_holds crc d recss \<longleftrightarrow> map fst d = seg_names (length recss) \<and> length recss < 10 ^ 10 \<and>
     list_all2 (seg_holds crc) (map snd d) recss"

lemma replay_segments_holds:
  "list_all2 (\<lambda>p rs. seg_holds crc (fs_read d p) rs) ps recss \<Longrightarrow>
     replay_segments crc after f d ps last_seq st = feed after f (concat recss) last_seq st"
proof (induction ps recss arbitrary: last_seq st rule: list_all2_induct)
  case (Cons p ps rs recss)
  then show ?case
    by (simp add: replay_bytes_holds feed_append split: prod.split sum.split)
qed simp

lemma replay_holds:
  assumes "dir_holds crc d recss"
  shows "replay crc after f d st = feed after f (concat recss) after st"
proof -
  have nm: "map fst d = seg_names (length recss)" and k: "length recss < 10 ^ 10"
    and h: "list_all2 (seg_holds crc) (map snd d) recss"
    using assms by (simp_all add: dir_holds_def)
  have "fs_read d (fst x) = snd x" if "x \<in> set d" for x
  proof -
    have "map_of d (fst x) = Some (snd x)"
      by (rule map_of_is_SomeI) (use that seg_names_distinct [OF k] in \<open>simp_all add: nm\<close>)
    then show ?thesis by (simp add: fs_read_def)
  qed
  then have "list_all2 (\<lambda>p rs. seg_holds crc (fs_read d p) rs) (map fst d) recss"
    using h by (simp add: list.rel_map list_all2_conv_all_nth)
  then show ?thesis
    unfolding replay_def list_segments_names [OF nm k] nm [symmetric] by (rule replay_segments_holds)
qed

section \<open>Torn tails\<close>

lemma encodes_prefix:
  "list_all fits rs \<Longrightarrow> bs @ buf = encodes crc rs \<Longrightarrow> \<exists>j. seg_holds crc bs (take j rs) \<and> (buf = [] \<longrightarrow> take j rs = rs)"
proof (induction rs arbitrary: bs)
  case Nil
  then show ?case by (simp add: seg_holds_def torn_def)
next
  case (Cons r rs)
  show ?case
  proof (cases "length (encode crc r) \<le> length bs")
    case True
    let ?n = "length (encode crc r)"
    define bs' where "bs' = drop ?n bs"
    have "take ?n (bs @ buf) = encode crc r" "drop ?n (bs @ buf) = encodes crc rs"
      unfolding Cons.prems(2) by (simp_all del: length_encode)
    then have bs: "bs = encode crc r @ bs'" and rest: "bs' @ buf = encodes crc rs"
      using True by (simp_all add: bs'_def del: length_encode) (metis append_take_drop_id)
    then obtain j where j: "seg_holds crc bs' (take j rs)" "buf = [] \<longrightarrow> take j rs = rs"
      using Cons.IH [OF _ rest] Cons.prems(1) by auto
    then have "seg_holds crc bs (take (Suc j) (r # rs))" using bs Cons.prems(1) by (auto simp: seg_holds_def)
    then show ?thesis using j(2) by (intro exI [of _ "Suc j"]) simp
  next
    case False
    have "bs = take (length bs) (bs @ buf)" by simp
    also have "\<dots> = take (length bs) (encode crc r)" using False by (simp add: Cons.prems(2) del: length_encode)
    finally have "\<exists>off. decode crc bs = Inl (WTruncated off)"
      using decode_prefix [of r "length bs" crc] False Cons.prems(1) by auto
    moreover have "buf \<noteq> []"
    proof
      assume "buf = []"
      then have "length bs = length (encodes crc (r # rs))" using Cons.prems(2) by simp
      then show False using False by simp
    qed
    ultimately show ?thesis by (intro exI [of _ 0]) (simp add: seg_holds_def torn_def)
  qed
qed

section \<open>Writing\<close>

text \<open>
  \<open>winv crc k d rs (w, dk)\<close>: the closed segments of the disk are the \<open>k\<close> files \<open>d\<close>; the current
  one comes last, and with the writer's buffer behind it is the encoding of \<open>rs\<close>.
\<close>

definition winv ::
  "(bytes \<Rightarrow> u32) \<Rightarrow> wal_record list list \<Rightarrow> wal_record list \<Rightarrow> wal_writer \<times> disk \<Rightarrow> bool" where
  "winv crc recss rs wd \<longleftrightarrow>
     (\<exists>d bs. files (snd wd) = d @ [(ww_path (fst wd), bs)] \<and> dir_holds crc d recss \<and>
        Suc (length recss) < 10 ^ 10 \<and> ww_seg_idx (fst wd) = word_of_nat (Suc (length recss)) \<and>
        list_all fits rs \<and> bs @ ww_buf (fst wd) = encodes crc rs)"

lemma append_file_last: "p \<notin> fst ` set d \<Longrightarrow> append_file p bs (d @ [(p, cs)]) = d @ [(p, cs @ bs)]"
  by (induction d) auto

lemma append_file_new: "p \<notin> fst ` set d \<Longrightarrow> append_file p bs d = d @ [(p, bs)]"
  by (induction d) auto

lemma current_fresh:
  assumes "dir_holds crc d recss" and "Suc (length recss) < 10 ^ 10"
  shows "seg_name (Suc (length recss)) \<notin> fst ` set d"
proof -
  have "set (map fst d) = set (seg_names (length recss))"
    using assms(1) by (simp only: dir_holds_def)
  moreover have "seg_name (Suc (length recss)) \<noteq> seg_name i" if "i < Suc (length recss)" for i
    using seg_name_eq [of "Suc (length recss)" i] that assms(2) by simp
  then have "seg_name (Suc (length recss)) \<notin> set (seg_names (length recss))"
    unfolding seg_names_def set_map by (metis (no_types, lifting) atLeastLessThan_iff imageE set_upt)
  ultimately show ?thesis by simp
qed

lemma winv_path: "winv crc recss rs wd \<Longrightarrow> ww_path (fst wd) = seg_name (Suc (length recss))"
  by (auto simp: winv_def ww_path_def seg_name_def)

text \<open>Moving bytes from the buffer, or from the caller, to the end of the current file.\<close>

lemma winv_write:
  assumes "winv crc recss rs wd" and "bs @ buf = ww_buf (fst wd) @ encodes crc rs'" and "list_all fits rs'"
  shows "winv crc recss (rs @ rs') ((fst wd)\<lparr>ww_buf := buf\<rparr>,
    (snd wd)\<lparr>files := append_file (ww_path (fst wd)) bs (files (snd wd))\<rparr>)"
proof -
  obtain d cs where w: "files (snd wd) = d @ [(ww_path (fst wd), cs)]" "dir_holds crc d recss"
    "Suc (length recss) < 10 ^ 10" "ww_seg_idx (fst wd) = word_of_nat (Suc (length recss))" "list_all fits rs"
    "cs @ ww_buf (fst wd) = encodes crc rs"
    using assms(1) by (auto simp: winv_def)
  have "ww_path (fst wd) \<notin> fst ` set d"
    using current_fresh [OF w(2,3)] winv_path [OF assms(1)] by simp
  then have "append_file (ww_path (fst wd)) bs (files (snd wd)) = d @ [(ww_path (fst wd), cs @ bs)]"
    by (simp add: w(1) append_file_last)
  moreover have "(cs @ bs) @ buf = encodes crc (rs @ rs')"
    using w(6) assms(2) by (simp add: append.assoc [symmetric])
  ultimately show ?thesis
    unfolding winv_def using w assms(3) by (intro exI [of _ d] exI [of _ "cs @ bs"]) (simp add: ww_path_def)
qed

lemma winv_buffer:
  assumes "winv crc recss rs wd" and "list_all fits rs'"
  shows "winv crc recss (rs @ rs') ((fst wd)\<lparr>ww_buf := ww_buf (fst wd) @ encodes crc rs'\<rparr>, snd wd)"
  using assms by (fastforce simp: winv_def ww_path_def)

lemma winv_flush: "winv crc recss rs wd \<Longrightarrow> winv crc recss rs (buf_flush wd)"
  using winv_write [of crc recss rs wd "ww_buf (fst wd)" "[]" "[]"] by (simp add: buf_flush_def split_beta)

lemma flush_buf [simp]: "ww_buf (fst (buf_flush wd)) = []"
  by (simp add: buf_flush_def split_beta)

lemma winv_buf_write:
  assumes "winv crc recss rs wd" and "fits r"
  shows "winv crc recss (rs @ [r]) (buf_write (encode crc r) wd)"
proof -
  let ?b = "encode crc r"
  define wd1 where "wd1 = (if length ?b > BUF_CAPACITY - length (ww_buf (fst wd)) then buf_flush wd else wd)"
  have 1: "winv crc recss rs wd1" using assms(1) winv_flush by (simp add: wd1_def)
  have buf1: "ww_buf (fst wd1) = []" if "BUF_CAPACITY \<le> length ?b"
  proof (cases "length ?b > BUF_CAPACITY - length (ww_buf (fst wd))")
    case True
    then show ?thesis by (simp add: wd1_def)
  next
    case False
    then have "length (ww_buf (fst wd)) = 0" using that unfolding BUF_CAPACITY_def by linarith
    then show ?thesis using False by (simp add: wd1_def)
  qed
  have r: "list_all fits [r]" "encodes crc [r] = ?b" using assms(2) by simp_all
  show ?thesis
  proof (cases "length ?b < BUF_CAPACITY - length (ww_buf (fst wd))")
    case True
    then show ?thesis using winv_buffer [OF assms(1) r(1)] r(2) by (simp add: buf_write_def del: length_encode)
  next
    case False
    then have e: "buf_write ?b wd = (if BUF_CAPACITY \<le> length ?b
        then (fst wd1, (snd wd1)\<lparr>files := append_file (ww_path (fst wd1)) ?b (files (snd wd1))\<rparr>)
        else ((fst wd1)\<lparr>ww_buf := ww_buf (fst wd1) @ ?b\<rparr>, snd wd1))"
      by (simp add: buf_write_def Let_def split_beta wd1_def del: length_encode)
    show ?thesis
    proof (cases "BUF_CAPACITY \<le> length ?b")
      case True
      have same: "(fst wd1)\<lparr>ww_buf := []\<rparr> = fst wd1" using buf1 [OF True] by (cases "fst wd1") simp
      have "?b @ [] = ww_buf (fst wd1) @ encodes crc [r]" using buf1 [OF True] by simp
      from winv_write [OF 1 this r(1), unfolded same] True show ?thesis by (simp add: e del: length_encode)
    next
      case False
      then show ?thesis using winv_buffer [OF 1 r(1)] r(2) by (simp add: e del: length_encode)
    qed
  qed
qed

text \<open>Counters, sync points and fields the invariant does not mention.\<close>

lemma winv_counters:
  "winv crc recss rs (w\<lparr>ww_seg_bytes := x, ww_write_count := y\<rparr>, d) \<longleftrightarrow> winv crc recss rs (w, d)"
  "winv crc recss rs (w, d\<lparr>synced := z\<rparr>) \<longleftrightarrow> winv crc recss rs (w, d)"
  by (simp_all add: winv_def ww_path_def)

lemma winv_fsync: "winv crc recss rs wd \<Longrightarrow> winv crc recss rs (do_fsync wd)"
  using winv_flush [of crc recss rs wd] by (simp add: do_fsync_def Let_def split_beta winv_counters)

lemma winv_closed:
  assumes "winv crc recss rs wd" and "ww_buf (fst wd) = []"
  shows "dir_holds crc (files (snd wd)) (recss @ [rs])"
proof -
  obtain d bs where w: "files (snd wd) = d @ [(ww_path (fst wd), bs)]" "dir_holds crc d recss"
    "Suc (length recss) < 10 ^ 10" "list_all fits rs" "bs = encodes crc rs"
    using assms by (auto simp: winv_def)
  have "seg_holds crc bs rs" using w(4,5) by (simp add: seg_holds_def torn_def)
  then have "list_all2 (seg_holds crc) (map snd d @ [bs]) (recss @ [rs])"
    using w(2) by (intro list_all2_appendI) (simp_all add: dir_holds_def)
  then show ?thesis
    using w(1-3) winv_path [OF assms(1)] by (simp add: dir_holds_def seg_names_def)
qed

lemma winv_roll:
  assumes "winv crc recss rs wd" and "Suc (Suc (length recss)) < 10 ^ 10"
  shows "winv crc (recss @ [rs]) [] (roll_segment wd)"
proof -
  let ?wd = "buf_flush wd"
  have wf: "winv crc recss rs ?wd" by (rule winv_flush [OF assms(1)])
  have dh: "dir_holds crc (files (snd ?wd)) (recss @ [rs])" by (rule winv_closed [OF wf]) simp
  have idx: "ww_seg_idx (fst ?wd) + 1 = word_of_nat (Suc (length (recss @ [rs])))"
    using wf by (auto simp: winv_def)
  have nm: "segment_path (ww_seg_idx (fst ?wd) + 1) \<notin> fst ` set (files (snd ?wd))"
    using current_fresh [OF dh] assms(2) unfolding idx seg_name_def by simp
  show ?thesis
    unfolding winv_def roll_segment_def Let_def split_beta
    using dh assms(2) append_file_new [OF nm, of "[]"] idx
    by (intro exI [of _ "files (snd ?wd)"] exI [of _ "[]"]) (simp add: open_segment_def ww_path_def)
qed

section \<open>Appending, opening, crashing\<close>

lemma record_new_fields [simp]:
  "record_new (wr_seq r) (wr_ts r) (wr_type r) (wr_payload r) = r"
  by (simp add: record_new_def)

definition counted :: "bytes \<Rightarrow> wal_writer \<times> disk \<Rightarrow> wal_writer \<times> disk" where
  "counted bs wd = ((fst wd)\<lparr>ww_seg_bytes := ww_seg_bytes (fst wd) + word_of_nat (length bs),
      ww_write_count := Suc (ww_write_count (fst wd))\<rparr>, snd wd)"

definition maybe_roll :: "wal_writer \<times> disk \<Rightarrow> wal_writer \<times> disk" where
  "maybe_roll wd = (if SEGMENT_SIZE \<le> unat (ww_seg_bytes (fst wd)) then roll_segment wd else wd)"

lemma wal_append_steps:
  "wal_append crc s t k payload wd =
     (let bs = encode crc (record_new s t k payload)
      in rbind (maybe_sync (counted bs (buf_write bs wd))) (\<lambda>wd. Inr (maybe_roll wd)))"
proof -
  have "(\<lambda>(w, d). Inr (if SEGMENT_SIZE \<le> unat (ww_seg_bytes w) then roll_segment (w, d) else (w, d))) =
      (\<lambda>wd. Inr (maybe_roll wd) :: halt + (wal_writer \<times> disk))"
    by (simp add: fun_eq_iff maybe_roll_def)
  then show ?thesis by (simp only: wal_append_def counted_def Let_def split_beta Suc_eq_plus1)
qed

lemma ww_fsync_steps [simp]:
  "ww_fsync (fst (buf_write bs wd)) = ww_fsync (fst wd)" "ww_fsync (fst (counted bs wd)) = ww_fsync (fst wd)"
  "ww_fsync (fst (do_fsync wd)) = ww_fsync (fst wd)" "ww_fsync (fst (maybe_roll wd)) = ww_fsync (fst wd)"
  by (simp_all add: buf_write_def buf_flush_def counted_def do_fsync_def maybe_roll_def roll_segment_def
      Let_def split_beta)

lemma winv_append:
  assumes "winv crc recss rs wd" and "fits r" and "ww_fsync (fst wd) \<noteq> Every 0"
    and "Suc (Suc (length recss)) < 10 ^ 10"
  obtains wd' recss' rs' where
    "wal_append crc (wr_seq r) (wr_ts r) (wr_type r) (wr_payload r) wd = Inr wd'"
    "winv crc recss' rs' wd'" "concat recss' @ rs' = concat recss @ rs @ [r]"
    "length recss' \<le> Suc (length recss)" "ww_fsync (fst wd') = ww_fsync (fst wd)"
proof -
  let ?b = "encode crc r"
  let ?wd = "counted ?b (buf_write ?b wd)"
  have 2: "winv crc recss (rs @ [r]) ?wd"
    using winv_buf_write [OF assms(1,2)] by (simp add: counted_def winv_counters)
  obtain wd3 where ms: "maybe_sync ?wd = Inr wd3" and wd3: "wd3 = ?wd \<or> wd3 = do_fsync ?wd"
    using assms(3) by (cases "ww_fsync (fst wd)") (auto simp: maybe_sync_def)
  have 3: "winv crc recss (rs @ [r]) wd3" using wd3 2 winv_fsync by blast
  have ap: "wal_append crc (wr_seq r) (wr_ts r) (wr_type r) (wr_payload r) wd = Inr (maybe_roll wd3)"
    using ms by (simp add: wal_append_steps)
  have fs: "ww_fsync (fst (maybe_roll wd3)) = ww_fsync (fst wd)" using wd3 by auto
  show ?thesis
  proof (cases "SEGMENT_SIZE \<le> unat (ww_seg_bytes (fst wd3))")
    case True
    have "winv crc (recss @ [rs @ [r]]) [] (maybe_roll wd3)"
      using winv_roll [OF 3 assms(4)] True by (simp add: maybe_roll_def)
    then show ?thesis using that [OF ap _ _ _ fs] by simp
  next
    case False
    then show ?thesis using that [OF ap _ _ _ fs] 3 by (simp add: maybe_roll_def)
  qed
qed

fun wal_append_all ::
  "(bytes \<Rightarrow> u32) \<Rightarrow> wal_record list \<Rightarrow> wal_writer \<times> disk \<Rightarrow> halt + (wal_writer \<times> disk)" where
  "wal_append_all crc [] wd = Inr wd"
| "wal_append_all crc (r # rs) wd =
     rbind (wal_append crc (wr_seq r) (wr_ts r) (wr_type r) (wr_payload r) wd) (wal_append_all crc rs)"

lemma winv_append_all:
  "winv crc recss rs wd \<Longrightarrow> list_all fits rs' \<Longrightarrow> ww_fsync (fst wd) \<noteq> Every 0 \<Longrightarrow>
   Suc (length recss) + length rs' < 10 ^ 10 \<Longrightarrow>
   \<exists>wd' recss' cur. wal_append_all crc rs' wd = Inr wd' \<and> winv crc recss' cur wd' \<and>
     concat recss' @ cur = concat recss @ rs @ rs' \<and> ww_fsync (fst wd') = ww_fsync (fst wd)"
proof (induction rs' arbitrary: recss rs wd)
  case Nil
  then show ?case by fastforce
next
  case (Cons r rs')
  obtain wd1 recss1 cur1 where 1: "wal_append crc (wr_seq r) (wr_ts r) (wr_type r) (wr_payload r) wd = Inr wd1"
    "winv crc recss1 cur1 wd1" "concat recss1 @ cur1 = concat recss @ rs @ [r]"
    "length recss1 \<le> Suc (length recss)" "ww_fsync (fst wd1) = ww_fsync (fst wd)"
    by (rule winv_append [OF Cons.prems(1), of r]) (use Cons.prems in \<open>auto intro: that\<close>)
  obtain wd2 recss2 cur2 where "wal_append_all crc rs' wd1 = Inr wd2" "winv crc recss2 cur2 wd2"
    "concat recss2 @ cur2 = concat recss1 @ cur1 @ rs'" "ww_fsync (fst wd2) = ww_fsync (fst wd1)"
    using Cons.IH [OF 1(2)] Cons.prems 1(4,5) by auto
  moreover from this(3) have "concat recss2 @ cur2 = concat recss @ rs @ r # rs'"
    using 1(3) by (metis append.assoc append_Cons append_Nil)
  ultimately show ?case using 1 by (intro exI [of _ wd2] exI [of _ recss2] exI [of _ cur2]) simp
qed

text \<open>Opening the log starts a new segment behind the ones that are there.\<close>

lemma winv_open:
  assumes "dir_holds crc (files dk) recss" and "Suc (length recss) < 10 ^ 10"
  shows "winv crc recss [] (wal_open p dk)"
proof -
  let ?k = "length recss"
  have ls: "list_segments (files dk) = seg_names ?k"
    using assms by (intro list_segments_names) (auto simp: dir_holds_def)
  have top: "(if seg_names ?k = [] then None else segment_index (last (seg_names ?k))) =
      (if ?k = 0 then None else Some (word_of_nat ?k))"
    by (cases ?k) (simp_all add: seg_names_def seg_name_def segment_index_path)
  have idx: "(case if ?k = 0 then None else Some (word_of_nat ?k :: u64) of None \<Rightarrow> 0 | Some i \<Rightarrow> i) + 1 =
      word_of_nat (Suc ?k)" by simp
  have nm: "segment_path (word_of_nat (Suc ?k)) \<notin> fst ` set (files dk)"
    using current_fresh [OF assms] by (simp add: seg_name_def)
  show ?thesis
    unfolding winv_def wal_open_def Let_def ls top idx
    using assms append_file_new [OF nm, of "[]"]
    by (intro exI [of _ "files dk"] exI [of _ "[]"]) (simp add: open_segment_def ww_path_def)
qed

lemma dir_holds_empty: "dir_holds crc [] []"
  by (simp add: dir_holds_def seg_names_def)

text \<open>
  A crash loses the buffer and any number of bytes at the end of the newest segment: the
  directory still holds a prefix of the records.
\<close>

definition cut_last :: "nat \<Rightarrow> dir \<Rightarrow> dir" where
  "cut_last m d = (if d = [] then [] else butlast d @ [(fst (last d), take m (snd (last d)))])"

lemma cut_last_snoc [simp]: "cut_last m (d @ [(p, bs)]) = d @ [(p, take m bs)]"
  by (simp add: cut_last_def)

lemma winv_cut:
  assumes "winv crc recss rs wd"
  obtains j where "dir_holds crc (cut_last m (files (snd wd))) (recss @ [take j rs])"
    "ww_buf (fst wd) = [] \<Longrightarrow> length (snd (last (files (snd wd)))) \<le> m \<Longrightarrow> take j rs = rs"
proof -
  obtain d bs where w: "files (snd wd) = d @ [(ww_path (fst wd), bs)]" "dir_holds crc d recss"
    "Suc (length recss) < 10 ^ 10" "list_all fits rs" "bs @ ww_buf (fst wd) = encodes crc rs"
    using assms by (auto simp: winv_def)
  have "take m bs @ (drop m bs @ ww_buf (fst wd)) = encodes crc rs"
    unfolding append_assoc [symmetric] append_take_drop_id by (rule w(5))
  from encodes_prefix [OF w(4) this] obtain j where
    j: "seg_holds crc (take m bs) (take j rs)" "drop m bs @ ww_buf (fst wd) = [] \<longrightarrow> take j rs = rs" by blast
  then have "list_all2 (seg_holds crc) (map snd d @ [take m bs]) (recss @ [take j rs])"
    using w(2) by (intro list_all2_appendI) (simp_all add: dir_holds_def)
  then have "dir_holds crc (cut_last m (files (snd wd))) (recss @ [take j rs])"
    using w(1-3) winv_path [OF assms] by (simp add: dir_holds_def seg_names_def)
  then show ?thesis using that j(2) w(1) by simp
qed

lemma winv_crash:
  assumes "winv crc recss rs wd"
  obtains j where "dir_holds crc (files (snd wd)) (recss @ [take j rs])" "ww_buf (fst wd) = [] \<Longrightarrow> take j rs = rs"
proof -
  have "files (snd wd) \<noteq> []" using assms by (auto simp: winv_def)
  then have "cut_last (length (snd (last (files (snd wd))))) (files (snd wd)) = files (snd wd)"
    by (simp add: cut_last_def)
  then show ?thesis using winv_cut [OF assms, of "length (snd (last (files (snd wd))))"] that by (metis order_refl)
qed

section \<open>Durability\<close>

lemma fs_read_append: "fs_read (append_file p bs d) q = (if p = q then fs_read d q @ bs else fs_read d q)"
  by (induction p bs d rule: append_file.induct) (auto simp: fs_read_def)

lemma fs_read_store: "fs_read (store_file p bs d) q = (if p = q then bs else fs_read d q)"
  by (induction p bs d rule: store_file.induct) (auto simp: fs_read_def)

text \<open>\<open>durable wd\<close>: nothing is buffered and every file is on disk as it was last synced.\<close>

definition durable :: "wal_writer \<times> disk \<Rightarrow> bool" where
  "durable wd \<longleftrightarrow> ww_buf (fst wd) = [] \<and> (\<forall>p. fs_read (synced (snd wd)) p = fs_read (files (snd wd)) p)"

lemma durable_open: "fs_read (synced dk) = fs_read (files dk) \<Longrightarrow> durable (wal_open pol dk)"
  by (simp add: durable_def wal_open_def Let_def open_segment_def fs_read_append)

lemma buf_write_frame:
  "ww_path (fst (buf_write bs wd)) = ww_path (fst wd)" "synced (snd (buf_write bs wd)) = synced (snd wd)"
  "p \<noteq> ww_path (fst wd) \<Longrightarrow> fs_read (files (snd (buf_write bs wd))) p = fs_read (files (snd wd)) p"
  by (simp_all add: buf_write_def buf_flush_def Let_def split_beta ww_path_def fs_read_append)

lemma durable_fsync:
  assumes "\<And>p. p \<noteq> ww_path (fst wd) \<Longrightarrow> fs_read (synced (snd wd)) p = fs_read (files (snd wd)) p"
  shows "durable (do_fsync wd)"
  using assms
  by (auto simp: durable_def do_fsync_def buf_flush_def Let_def split_beta fs_read_store fs_read_append ww_path_def)

lemma durable_roll: "durable wd \<Longrightarrow> durable (roll_segment wd)"
  by (simp add: durable_def roll_segment_def buf_flush_def Let_def split_beta open_segment_def fs_read_append)

lemma durable_maybe_roll: "durable wd \<Longrightarrow> durable (maybe_roll wd)"
  by (simp add: maybe_roll_def durable_roll)

lemma durable_append:
  assumes "durable wd" and "ww_fsync (fst wd) = PerRecord" and "wal_append crc s t k payload wd = Inr wd'"
  shows "durable wd' \<and> ww_fsync (fst wd') = PerRecord"
proof -
  let ?b = "encode crc (record_new s t k payload)"
  let ?wd = "counted ?b (buf_write ?b wd)"
  have d: "durable (do_fsync ?wd)"
  proof (rule durable_fsync)
    fix p assume "p \<noteq> ww_path (fst ?wd)"
    then have "p \<noteq> ww_path (fst wd)" using buf_write_frame(1) [of ?b wd] by (simp add: counted_def ww_path_def)
    then show "fs_read (synced (snd ?wd)) p = fs_read (files (snd ?wd)) p"
      using assms(1) by (simp add: counted_def buf_write_frame durable_def)
  qed
  have "maybe_sync ?wd = Inr (do_fsync ?wd)" using assms(2) by (simp add: maybe_sync_def)
  then have "wd' = maybe_roll (do_fsync ?wd)"
    using assms(3) unfolding wal_append_steps Let_def by (simp only: rbind_Inr sum.inject)
  then show ?thesis using durable_maybe_roll [OF d] assms(2) by (simp only: ww_fsync_steps simp_thms)
qed

lemma durable_append_all:
  "durable wd \<Longrightarrow> ww_fsync (fst wd) = PerRecord \<Longrightarrow> wal_append_all crc rs wd = Inr wd' \<Longrightarrow> durable wd'"
proof (induction rs arbitrary: wd)
  case (Cons r rs)
  obtain wd1 where 1: "wal_append crc (wr_seq r) (wr_ts r) (wr_type r) (wr_payload r) wd = Inr wd1"
    and 2: "wal_append_all crc rs wd1 = Inr wd'"
    using Cons.prems(3) by (auto simp: rbind_eq_Inr)
  have "durable wd1 \<and> ww_fsync (fst wd1) = PerRecord" by (rule durable_append [OF Cons.prems(1,2) 1])
  then show ?case using Cons.IH [OF _ _ 2] by simp
qed simp

section \<open>Whole runs of the log\<close>

lemma log_replays:
  assumes "dir_holds crc (files dk) recss" and "list_all fits rs" and "pol \<noteq> Every 0"
    and "Suc (length recss) + length rs < 10 ^ 10"
  shows "\<exists>wd. wal_append_all crc rs (wal_open pol dk) = Inr wd \<and>
    replay crc after f (files (snd (wal_flush wd))) st = feed after f (concat recss @ rs) after st"
proof -
  have "winv crc recss [] (wal_open pol dk)" "ww_fsync (fst (wal_open pol dk)) = pol"
    using winv_open [OF assms(1)] assms(4) by (simp_all add: wal_open_def Let_def)
  then obtain wd recss' cur where w: "wal_append_all crc rs (wal_open pol dk) = Inr wd" "winv crc recss' cur wd"
    "concat recss' @ cur = concat recss @ rs"
    using winv_append_all [of crc recss "[]" "wal_open pol dk" rs] assms by auto
  have "dir_holds crc (files (snd (wal_flush wd))) (recss' @ [cur])"
    unfolding wal_flush_def by (rule winv_closed [OF winv_flush [OF w(2)]]) simp
  then have "replay crc after f (files (snd (wal_flush wd))) st = feed after f (concat recss @ rs) after st"
    using w(3) by (simp add: replay_holds)
  then show ?thesis using w(1) by (intro exI [of _ wd]) simp
qed

text \<open>What a log written from nothing and flushed holds.\<close>

lemma log_written:
  assumes "list_all fits rs" and "pol \<noteq> Every 0" and "Suc (length rs) < 10 ^ 10"
  obtains wd recss where "wal_append_all crc rs (wal_open pol \<lparr>files = [], synced = []\<rparr>) = Inr wd"
    "dir_holds crc (files (snd (wal_flush wd))) recss" "concat recss = rs"
proof -
  let ?o = "wal_open pol \<lparr>files = [], synced = []\<rparr>"
  have "ww_fsync (fst ?o) = pol" by (simp add: wal_open_def Let_def)
  moreover have "winv crc [] [] ?o" using winv_open [of crc "\<lparr>files = [], synced = []\<rparr>" "[]"] dir_holds_empty by simp
  ultimately obtain wd recss cur where w: "wal_append_all crc rs ?o = Inr wd" "winv crc recss cur wd" "concat recss @ cur = rs"
    using winv_append_all [of crc "[]" "[]" ?o rs] assms by auto
  have "dir_holds crc (files (snd (wal_flush wd))) (recss @ [cur])"
    unfolding wal_flush_def by (rule winv_closed [OF winv_flush [OF w(2)]]) simp
  then show thesis using that [OF w(1)] w(3) by simp
qed

lemma crash_replays:
  assumes "list_all fits rs" and "pol \<noteq> Every 0" and "Suc (length rs) < 10 ^ 10"
  shows "\<exists>wd. wal_append_all crc rs (wal_open pol \<lparr>files = [], synced = []\<rparr>) = Inr wd \<and>
    (\<forall>m. \<exists>j. \<forall>after f (st :: 's). replay crc after f (cut_last m (files (snd wd))) st = feed after f (take j rs) after st) \<and>
    (\<exists>j. (\<forall>after f (st :: 's). replay crc after f (files (snd wd)) st = feed after f (take j rs) after st) \<and>
      (pol = PerRecord \<longrightarrow> take j rs = rs \<and> fs_read (synced (snd wd)) = fs_read (files (snd wd))))"
proof -
  let ?o = "wal_open pol \<lparr>files = [], synced = []\<rparr>"
  have pol: "ww_fsync (fst ?o) = pol" by (simp add: wal_open_def Let_def)
  have "winv crc [] [] ?o" using winv_open [of crc "\<lparr>files = [], synced = []\<rparr>" "[]"] dir_holds_empty by simp
  then obtain wd recss cur where w: "wal_append_all crc rs ?o = Inr wd" "winv crc recss cur wd"
    "concat recss @ cur = rs" using winv_append_all [of crc "[]" "[]" ?o rs] assms pol by auto
  have prefix: "take (length (concat recss) + j) rs = concat recss @ take j cur" for j by (simp add: w(3) [symmetric])
  have cut: "\<exists>j. \<forall>after f (st :: 's). replay crc after f (cut_last m (files (snd wd))) st = feed after f (take j rs) after st" for m
  proof -
    obtain j where h: "dir_holds crc (cut_last m (files (snd wd))) (recss @ [take j cur])"
      by (rule winv_cut [OF w(2), of m]) (rule that; assumption)
    show ?thesis by (intro exI [of _ "length (concat recss) + j"] allI) (simp add: prefix replay_holds [OF h])
  qed
  obtain j where j: "dir_holds crc (files (snd wd)) (recss @ [take j cur])" "ww_buf (fst wd) = [] \<Longrightarrow> take j cur = cur"
    by (rule winv_crash [OF w(2)]) (rule that; assumption)
  have "durable wd" if "pol = PerRecord"
    using durable_append_all [OF durable_open _ w(1)] that pol by simp
  then have "pol = PerRecord \<longrightarrow> take (length (concat recss) + j) rs = rs \<and> fs_read (synced (snd wd)) = fs_read (files (snd wd))"
    using j(2) w(3) prefix by (auto simp: durable_def)
  moreover have "\<forall>after f (st :: 's). replay crc after f (files (snd wd)) st =
      feed after f (take (length (concat recss) + j) rs) after st"
    by (intro allI) (simp add: prefix replay_holds [OF j(1)])
  ultimately show ?thesis using w(1) cut by (intro exI [of _ wd]) blast
qed

text \<open>Closing the log (a flush) keeps every record, so a cut loses only what was cut off.\<close>

lemma torn_loss:
  assumes "list_all fits rs" and "encodes crc (take j rs) @ t = take m (encodes crc rs)" and "torn crc t" and "j < length rs"
  shows "25 * (length rs - Suc j) < length (encodes crc rs) - m"
proof -
  let ?r = "rs ! j"
  have split: "rs = take j rs @ ?r # drop (Suc j) rs" using assms(4) by (simp add: id_take_nth_drop)
  have rest: "t @ drop m (encodes crc rs) = encode crc ?r @ encodes crc (drop (Suc j) rs)"
  proof -
    have "encodes crc (take j rs) @ t @ drop m (encodes crc rs) = encodes crc rs"
      using assms(2) by (metis append_assoc append_take_drop_id)
    also have "\<dots> = encodes crc (take j rs) @ encode crc ?r @ encodes crc (drop (Suc j) rs)"
      by (subst split) simp
    finally show ?thesis by simp
  qed
  have "fits ?r" using assms(1,4) by (simp add: list_all_length)
  have short: "length t < length (encode crc ?r)"
  proof (rule ccontr)
    assume "\<not> length t < length (encode crc ?r)"
    then have "t = encode crc ?r @ drop (length (encode crc ?r)) t"
      using rest by (metis append_eq_append_conv_if append_take_drop_id not_less)
    then have "decode crc t = Inr (?r, length (encode crc ?r))" using decode_encode [OF \<open>fits ?r\<close>] by metis
    moreover have "t \<noteq> []" using \<open>t = _\<close> by (metis Nil_is_append_conv encode_ne)
    ultimately show False using assms(3) by (auto simp: torn_def)
  qed
  have "25 * length xs \<le> length (encodes crc xs)" for xs by (induction xs) simp_all
  from this [of "drop (Suc j) rs"] have "25 * (length rs - Suc j) \<le> length (encodes crc (drop (Suc j) rs))" by simp
  moreover have "length t + length (drop m (encodes crc rs)) = length (encode crc ?r) + length (encodes crc (drop (Suc j) rs))"
    using arg_cong [OF rest, of length] by simp
  ultimately show ?thesis using short by simp
qed

lemma cut_replays:
  assumes "list_all fits rs" and "pol \<noteq> Every 0" and "Suc (length rs) < 10 ^ 10"
  shows "\<exists>wd. wal_append_all crc rs (wal_open pol \<lparr>files = [], synced = []\<rparr>) = Inr wd \<and>
    (\<forall>m. \<exists>j \<le> length rs.
      (\<forall>after f (st :: 's). replay crc after f (cut_last m (files (snd (wal_flush wd)))) st = feed after f (take j rs) after st) \<and>
      (j < length rs \<longrightarrow> 25 * (length rs - Suc j) < length (snd (last (files (snd (wal_flush wd))))) - m))"
proof -
  let ?o = "wal_open pol \<lparr>files = [], synced = []\<rparr>"
  have pol: "ww_fsync (fst ?o) = pol" by (simp add: wal_open_def Let_def)
  have "winv crc [] [] ?o" using winv_open [of crc "\<lparr>files = [], synced = []\<rparr>" "[]"] dir_holds_empty by simp
  then obtain wd recss cur where w: "wal_append_all crc rs ?o = Inr wd" "winv crc recss cur wd"
    "concat recss @ cur = rs" using winv_append_all [of crc "[]" "[]" ?o rs] assms pol by auto
  have fl: "winv crc recss cur (wal_flush wd)" "ww_buf (fst (wal_flush wd)) = []"
    using winv_flush [OF w(2)] by (simp_all add: wal_flush_def)
  then obtain d p where d: "files (snd (wal_flush wd)) = d @ [(p, encodes crc cur)]" "dir_holds crc d recss"
    "list_all fits cur" by (auto simp: winv_def)
  have "\<exists>j \<le> length rs.
      (\<forall>after f (st :: 's). replay crc after f (cut_last m (files (snd (wal_flush wd)))) st = feed after f (take j rs) after st) \<and>
      (j < length rs \<longrightarrow> 25 * (length rs - Suc j) < length (encodes crc cur) - m)" for m
  proof -
    have "take m (encodes crc cur) @ drop m (encodes crc cur) = encodes crc cur" by simp
    from encodes_prefix [OF d(3) this] obtain i where "seg_holds crc (take m (encodes crc cur)) (take i cur)" by blast
    then obtain j where j: "j \<le> length cur" "seg_holds crc (take m (encodes crc cur)) (take j cur)"
      by (metis linorder_le_cases order_refl take_all)
    then obtain t where t: "encodes crc (take j cur) @ t = take m (encodes crc cur)" "torn crc t"
      by (auto simp: seg_holds_def)
    have "list_all2 (seg_holds crc) (map snd d @ [take m (encodes crc cur)]) (recss @ [take j cur])"
      using d(2) j(2) by (intro list_all2_appendI) (simp_all add: dir_holds_def)
    then have h: "dir_holds crc (cut_last m (files (snd (wal_flush wd)))) (recss @ [take j cur])"
      using d fl(1) winv_path [OF fl(1)] by (auto simp: dir_holds_def seg_names_def winv_def)
    have prefix: "take (length (concat recss) + j) rs = concat recss @ take j cur"
      "length rs = length (concat recss) + length cur" by (simp_all add: w(3) [symmetric])
    have "25 * (length cur - Suc j) < length (encodes crc cur) - m" if "j < length cur"
      by (rule torn_loss [OF d(3) t that])
    then show ?thesis
      using j(1) prefix by (intro exI [of _ "length (concat recss) + j"]) (simp add: replay_holds [OF h])
  qed
  then show ?thesis using w(1) d(1) by (intro exI [of _ wd]) simp
qed

end
