(* ===== verification/Wal_Properties.thy ===== *)
theory Wal_Properties
  imports Wal_Facts
begin

text \<open>
  The properties of the write-ahead log: the framing of records, what reading a log gives
  after any sequence of appends, a flush or a crash, and where the log's naming and
  options stop working. The checksum is arbitrary throughout; the witnesses take a sum.
\<close>

definition sum_crc :: "bytes \<Rightarrow> u32" where
  "sum_crc bs = word_of_nat (sum_list (map unat bs))"

definition sample_records :: "wal_record list" where
  "sample_records = [record_new 1 100 Command_rec [104, 105], record_new 2 200 Command_rec []]"

section \<open>Records\<close>

text \<open>
  C22: Decoding is exact: \<open>decode\<close> returns a record and a length if and only if the buffer
  starts with that record's encoding, of that length (and the payload fits the 32-bit
  length field). So every encoding is read back, and no other bytes are accepted.
\<close>

theorem record_decode_exact:
  "decode crc buf = Inr (r, n) \<longleftrightarrow> fits r \<and> n = length (encode crc r) \<and> take n buf = encode crc r"
proof
  assume "decode crc buf = Inr (r, n)"
  then show "fits r \<and> n = length (encode crc r) \<and> take n buf = encode crc r" by (rule decode_only)
next
  assume r: "fits r \<and> n = length (encode crc r) \<and> take n buf = encode crc r"
  then have "buf = encode crc r @ drop n buf" by (metis append_take_drop_id)
  then show "decode crc buf = Inr (r, n)" using decode_encode r by metis
qed

section \<open>Damage\<close>

text \<open>\<open>detects crc\<close>: a change of a single byte changes the checksum, as it does for CRC-32, which
  detects every burst of up to 32 bits. The sum of the witnesses does so as well.\<close>

definition detects :: "(bytes \<Rightarrow> u32) \<Rightarrow> bool" where
  "detects crc \<longleftrightarrow> (\<forall>us a b vs. a \<noteq> b \<longrightarrow> crc (us @ a # vs) \<noteq> crc (us @ b # vs))"

lemma sum_crc_detects: "detects sum_crc"
proof -
  have inj: "m = n" if "word_of_nat m = (word_of_nat n :: u32)" "m < 2 ^ 32" "n < 2 ^ 32" for m n
    using arg_cong [OF that(1), of unat] that(2,3) by (simp add: unat_of_nat)
  have "a = b" if "word_of_nat (unat a) = (word_of_nat (unat b) :: u32)" for a b :: u8
  proof -
    have less: "unat c < 2 ^ 32" for c :: u8
    proof -
      have "unat c < 2 ^ 8" using unsigned_less [of c] by simp
      then show ?thesis by simp
    qed
    have "unat a = unat b" by (rule inj [OF that less less])
    then show ?thesis by (simp add: word_unat_eq_iff)
  qed
  then show ?thesis by (auto simp: detects_def sum_crc_def)
qed

text \<open>The same record with a byte behind its length field changed.\<close>

lemma decode_damaged:
  assumes "detects crc" and "fits r" and "4 \<le> i" and "i < length (encode crc r)" and "b \<noteq> encode crc r ! i"
  shows "\<exists>c c'. decode crc ((encode crc r)[i := b] @ rest) = Inl (Crc c c')"
proof -
  let ?body = "record_body r"
  define n where "n = length ?body"
  have n: "n < 2 ^ 32" using assms(2) by (simp add: fits_def n_def)
  have e: "encode crc r = u32_le (word_of_nat n) @ u32_le (crc ?body) @ ?body" by (simp add: encode_def Let_def n_def del: length_body)
  show ?thesis
  proof (cases "i < 8")
    case True
    let ?cs = "(u32_le (crc ?body))[i - 4 := b]"
    obtain c where c: "?cs = u32_le c" using u32c.enc_onto [of ?cs] by auto
    have "crc ?body \<noteq> c"
    proof
      assume "crc ?body = c"
      then have "?cs ! (i - 4) = u32_le (crc ?body) ! (i - 4)" using c by simp
      moreover have "i - 4 < 4" using True assms(3) by simp
      ultimately show False using assms(3,5) by (simp add: e nth_append)
    qed
    moreover have "(encode crc r)[i := b] @ rest = u32_le (word_of_nat n) @ u32_le c @ ?body @ rest"
    proof -
      have "i - 4 < 4" using True assms(3) by simp
      then show ?thesis using assms(3) c by (simp add: e list_update_append)
    qed
    ultimately show ?thesis using decode_frame [OF n, of crc c "?body @ rest"] by (simp add: n_def del: length_body)
  next
    case False
    then have i: "i - 8 < length ?body" using assms(4) by (simp add: n_def)
    let ?bs = "?body[i - 8 := b]"
    have "?body = take (i - 8) ?body @ ?body ! (i - 8) # drop (Suc (i - 8)) ?body" "?bs = take (i - 8) ?body @ b # drop (Suc (i - 8)) ?body"
      using i by (simp_all add: id_take_nth_drop [symmetric] upd_conv_take_nth_drop del: length_body)
    moreover have "?body ! (i - 8) \<noteq> b"
    proof -
      have "\<not> i - 4 < 4" "i - 4 - 4 = i - 8" using False by simp_all
      then show ?thesis using assms(5) False by (auto simp: e nth_append)
    qed
    ultimately have "crc ?bs \<noteq> crc ?body" using assms(1) unfolding detects_def by metis
    moreover have "(encode crc r)[i := b] @ rest = u32_le (word_of_nat n) @ u32_le (crc ?body) @ ?bs @ rest"
    proof -
      have "\<not> i - 4 < 4" "i - 4 - 4 = i - 8" using False by simp_all
      then show ?thesis using False by (simp add: e list_update_append)
    qed
    ultimately show ?thesis using decode_frame [OF n, of crc "crc ?body" "?bs @ rest"] by (simp add: n_def del: length_body)
  qed
qed

text \<open>A replay that hands over \<open>rs\<close> and then fails with \<open>e\<close>.\<close>

definition feed_then ::
  "wal_error \<Rightarrow> u64 \<Rightarrow> (wal_record \<Rightarrow> 's \<Rightarrow> (wal_error + unit) \<times> 's) \<Rightarrow> wal_record list \<Rightarrow> u64 \<Rightarrow> 's \<Rightarrow> (wal_error + u64) \<times> 's" where
  "feed_then e after f rs l st = (case feed after f rs l st of (Inl e, st) \<Rightarrow> (Inl e, st) | (Inr _, st) \<Rightarrow> (Inl e, st))"

lemma feed_then_append:
  "feed_then e after f (rs @ rs') l st = (case feed after f rs l st of (Inl e, st) \<Rightarrow> (Inl e, st) | (Inr l, st) \<Rightarrow> feed_then e after f rs' l st)"
  by (simp add: feed_then_def feed_append split: prod.split sum.split)

lemma replay_bytes_damaged:
  "list_all fits rs \<Longrightarrow> decode crc bad = Inl (Crc c c') \<Longrightarrow>
     replay_bytes crc after f (encodes crc rs @ bad) l st = feed_then (Crc c c') after f rs l st"
proof (induction rs arbitrary: l st)
  case Nil
  then have "bad \<noteq> []" by (auto simp: decode_def)
  then show ?case using Nil by (simp add: replay_bytes.simps [of crc after f bad] feed_then_def)
next
  case (Cons r rs)
  then have "fits r" by simp
  then show ?case using Cons by (simp add: replay_record feed_then_def split: prod.split sum.split)
qed

lemma replay_segments_damaged:
  assumes "list_all2 (\<lambda>p rs. seg_holds crc (fs_read d p) rs) ps recss" and "list_all fits rs"
    and "fs_read d p = encodes crc rs @ bad" and "decode crc bad = Inl (Crc c c')"
  shows "replay_segments crc after f d (ps @ p # qs) l st = feed_then (Crc c c') after f (concat recss @ rs) l st"
  using assms(1)
proof (induction ps recss arbitrary: l st rule: list_all2_induct)
  case Nil
  show ?case by (simp add: assms(3) replay_bytes_damaged [OF assms(2,4)] feed_then_def split: prod.split sum.split)
next
  case (Cons p ps rs recss)
  then show ?case by (simp add: replay_bytes_holds feed_then_append split: prod.split sum.split)
qed

lemma store_file_names: "p \<in> fst ` set d \<Longrightarrow> map fst (store_file p bs d) = map fst d"
  by (induction p bs d rule: store_file.induct) auto

text \<open>Where a record of a directory is.\<close>

lemma concat_split:
  "concat xss = xs @ y # zs \<Longrightarrow> \<exists>as us vs bs. xss = as @ (us @ y # vs) # bs \<and> xs = concat as @ us"
proof (induction xss arbitrary: xs)
  case (Cons ws xss)
  show ?case
  proof (cases "length xs < length ws")
    case True
    then have "ws = take (length xs) ws @ ws ! length xs # drop (Suc (length xs)) ws" by (simp add: id_take_nth_drop)
    moreover have "take (length xs) ws = xs" "ws ! length xs = y"
      using Cons.prems True by (auto dest: arg_cong [of _ _ "take (length xs)"] arg_cong [of _ _ "\<lambda>l. l ! length xs"] simp: nth_append)
    ultimately show ?thesis
      by (intro exI [of _ "[]"] exI [of _ xs] exI [of _ "drop (Suc (length xs)) ws"] exI [of _ xss]) simp
  next
    case False
    then have xs: "xs = ws @ drop (length ws) xs" using Cons.prems by (metis append_eq_append_conv_if concat.simps(2) append_take_drop_id not_less)
    then have "concat xss = drop (length ws) xs @ y # zs" using Cons.prems by (metis append.assoc concat.simps(2) same_append_eq)
    then obtain as us vs bs where "xss = as @ (us @ y # vs) # bs" "drop (length ws) xs = concat as @ us" using Cons.IH by blast
    then show ?thesis using xs by (intro exI [of _ "ws # as"] exI [of _ us] exI [of _ vs] exI [of _ bs]) simp
  qed
qed simp

lemma damaged_dir:
  assumes "dir_holds crc d recss" and "concat recss = rs1 @ r # rs2" and "detects crc"
  shows "\<exists>p pre post. fs_read d p = pre @ encode crc r @ post \<and>
    (\<forall>i b. 4 \<le> i \<longrightarrow> i < length (encode crc r) \<longrightarrow> b \<noteq> encode crc r ! i \<longrightarrow>
      (\<exists>c c'. \<forall>after f (st :: 's). replay crc after f (store_file p (pre @ (encode crc r)[i := b] @ post) d) st =
         feed_then (Crc c c') after f rs1 after st))"
proof -
  obtain as us vs bs where split: "recss = as @ (us @ r # vs) # bs" "rs1 = concat as @ us" using concat_split [OF assms(2)] by blast
  let ?k = "length as"
  have nm: "map fst d = seg_names (length recss)" and len: "length recss < 10 ^ 10" and h: "list_all2 (seg_holds crc) (map snd d) recss"
    using assms(1) by (simp_all add: dir_holds_def)
  have dis: "distinct (map fst d)" unfolding nm by (rule seg_names_distinct [OF len])
  have k: "?k < length d" using list_all2_lengthD [OF h] split(1) by simp
  obtain p bytes where p: "d ! ?k = (p, bytes)" by (cases "d ! ?k")
  have "seg_holds crc bytes (us @ r # vs)" using list_all2_nthD2 [OF h, of ?k] k p split(1) by (simp add: nth_append)
  then obtain t where t: "bytes = encodes crc us @ encode crc r @ encodes crc vs @ t" "list_all fits (us @ r # vs)"
    by (auto simp: seg_holds_def)
  have read: "fs_read d (fst (d ! j)) = snd (d ! j)" if "j < length d" for j
  proof -
    have "map_of d (fst (d ! j)) = Some (snd (d ! j))" by (rule map_of_is_SomeI) (use that dis in simp_all)
    then show ?thesis by (simp add: fs_read_def)
  qed
  have here: "fs_read d p = encodes crc us @ encode crc r @ (encodes crc vs @ t)" using read [OF k] p t(1) by simp
  have "\<exists>c c'. \<forall>after f (st :: 's). replay crc after f (store_file p (encodes crc us @ (encode crc r)[i := b] @ encodes crc vs @ t) d) st =
      feed_then (Crc c c') after f rs1 after st" if i: "4 \<le> i" "i < length (encode crc r)" "b \<noteq> encode crc r ! i" for i b
  proof -
    let ?d = "store_file p (encodes crc us @ (encode crc r)[i := b] @ encodes crc vs @ t) d"
    have "fits r" "list_all fits us" using t(2) by simp_all
    then obtain c c' where bad: "decode crc ((encode crc r)[i := b] @ encodes crc vs @ t) = Inl (Crc c c')"
      using decode_damaged [OF assms(3) _ i] by blast
    have "p \<in> fst ` set d" using k p by (metis fst_conv image_eqI nth_mem)
    then have "map fst ?d = seg_names (length recss)" using store_file_names nm by metis
    then have ls: "list_segments ?d = map fst d" unfolding nm by (rule list_segments_names [OF _ len])
    have names: "map fst d = map fst (take ?k d) @ p # map fst (drop (Suc ?k) d)"
      using id_take_nth_drop [OF k] p by (metis list.simps(9) map_append fst_conv)
    have other: "fs_read ?d q = fs_read d q" if "q \<in> set (map fst (take ?k d))" for q
      using that dis names by (auto simp: fs_read_store)
    have "list_all2 (\<lambda>q rs. seg_holds crc (fs_read ?d q) rs) (map fst (take ?k d)) as"
      unfolding list_all2_conv_all_nth
    proof (intro conjI allI impI)
      show "length (map fst (take ?k d)) = length as" using k by simp
      fix j assume j: "j < length (map fst (take ?k d))"
      then have jd: "j < length d" "j < ?k" by simp_all
      have "map fst (take ?k d) ! j \<in> set (map fst (take ?k d))" using j by (rule nth_mem)
      then have "fs_read ?d (map fst (take ?k d) ! j) = snd (d ! j)" using other read [OF jd(1)] jd by simp
      then show "seg_holds crc (fs_read ?d (map fst (take ?k d) ! j)) (as ! j)"
        using list_all2_nthD [OF h, of j] jd split(1) by (simp add: nth_append)
    qed
    from replay_segments_damaged [OF this \<open>list_all fits us\<close> _ bad, of p] show ?thesis
      unfolding replay_def ls names split(2) by (intro exI allI) (simp add: fs_read_store)
  qed
  then show ?thesis using here by (intro exI [of _ p] exI [of _ "encodes crc us"] exI [of _ "encodes crc vs @ t"]) blast
qed

text \<open>
  C37: A damaged byte is never taken for data. Whatever was appended, over as many segments as it
  took, each of its records is somewhere in the log such that, when any one byte of it behind
  the length field is changed, a replay hands over exactly the records before it and then
  ends with a \<open>Crc\<close> error: nothing damaged, and nothing behind the damage, is handed over. Of
  the checksum it asks that a change of one byte changes it. (The length field is not covered
  by the checksum; damage there can end the segment quietly.)
\<close>

theorem damage_detected:
  assumes "detects crc" and "list_all fits (rs1 @ r # rs2)" and "pol \<noteq> Every 0" and "Suc (length (rs1 @ r # rs2)) < 10 ^ 10"
  shows "\<exists>wd p pre post. wal_append_all crc (rs1 @ r # rs2) (wal_open pol \<lparr>files = [], synced = []\<rparr>) = Inr wd \<and>
    fs_read (files (snd (wal_flush wd))) p = pre @ encode crc r @ post \<and>
    (\<forall>i b. 4 \<le> i \<longrightarrow> i < length (encode crc r) \<longrightarrow> b \<noteq> encode crc r ! i \<longrightarrow>
      (\<exists>c c'. \<forall>after f (st :: 's). replay crc after f (store_file p (pre @ (encode crc r)[i := b] @ post) (files (snd (wal_flush wd)))) st =
         (case feed after f rs1 after st of (Inl e, st) \<Rightarrow> (Inl e, st) | (Inr _, st) \<Rightarrow> (Inl (Crc c c'), st))))"
proof -
  obtain wd recss where "wal_append_all crc (rs1 @ r # rs2) (wal_open pol \<lparr>files = [], synced = []\<rparr>) = Inr wd"
    "dir_holds crc (files (snd (wal_flush wd))) recss" "concat recss = rs1 @ r # rs2"
    by (rule log_written [OF assms(2-4)])
  then show ?thesis using damaged_dir [OF _ _ assms(1), where 's = 's] unfolding feed_then_def by blast
qed

text \<open>The first byte of the payload of the first record becomes 0.\<close>

lemma damage_detected_witness:
  "\<exists>wd p pre post c c'. wal_append_all sum_crc sample_records (wal_open Off \<lparr>files = [], synced = []\<rparr>) = Inr wd \<and>
     replay sum_crc 0 (\<lambda>r st. (Inr (), st @ [wr_seq r]))
       (store_file p (pre @ (encode sum_crc (record_new 2 200 Command_rec []))[8 := 0] @ post) (files (snd (wal_flush wd)))) [] = (Inl (Crc c c'), [1])"
proof -
  let ?r1 = "record_new 1 100 Command_rec [104, 105]" and ?r2 = "record_new 2 200 Command_rec []"
  have fit: "list_all fits ([?r1] @ ?r2 # [])" by (simp add: fits_def record_new_def)
  have dm: "4 \<le> (8 :: nat)" "8 < length (encode sum_crc ?r2)" "(0 :: u8) \<noteq> encode sum_crc ?r2 ! 8"
    by (simp, simp add: record_new_def, code_simp)
  have "Suc (length ([?r1] @ ?r2 # [])) < 10 ^ 10" by simp
  from damage_detected [OF sum_crc_detects fit _ this, of Off, where 's = "u64 list"] obtain wd p pre post c c' where
    w: "wal_append_all sum_crc ([?r1] @ ?r2 # []) (wal_open Off \<lparr>files = [], synced = []\<rparr>) = Inr wd"
    "\<forall>after f st. replay sum_crc after f (store_file p (pre @ (encode sum_crc ?r2)[8 := 0] @ post) (files (snd (wal_flush wd)))) st =
         (case feed after f [?r1] after st of (Inl e, st :: u64 list) \<Rightarrow> (Inl e, st) | (Inr _, st) \<Rightarrow> (Inl (Crc c c'), st))"
    using dm by blast
  show ?thesis
    by (intro exI [of _ wd] exI [of _ p] exI [of _ pre] exI [of _ post] exI [of _ c] exI [of _ c'] conjI)
      (use w(1) in \<open>simp add: sample_records_def\<close>, simp add: w(2), simp add: record_new_def)
qed

section \<open>The log\<close>

text \<open>
  C19: What is appended is what is replayed. Opening a log behind the records of earlier
  runs, appending any records (over as many segments as they need) and flushing, a replay
  hands the callback the earlier and the new records with \<open>seq > after\<close>, in order.
\<close>

theorem log_roundtrip:
  assumes "dir_holds crc (files dk) recss" and "list_all fits rs" and "pol \<noteq> Every 0"
    and "Suc (length recss) + length rs < 10 ^ 10"
  shows "\<exists>wd. wal_append_all crc rs (wal_open pol dk) = Inr wd \<and>
    replay crc after f (files (snd (wal_flush wd))) st = feed after f (concat recss @ rs) after st"
  using log_replays [OF assms] .

lemma log_roundtrip_witness:
  "\<exists>wd. wal_append_all sum_crc sample_records (wal_open Off \<lparr>files = [], synced = []\<rparr>) = Inr wd \<and>
     replay sum_crc 1 (\<lambda>r st. (Inr (), st @ [wr_seq r])) (files (snd (wal_flush wd))) [] = (Inr 2, [2])"
proof -
  have "list_all fits sample_records" by (simp add: sample_records_def fits_def record_new_def)
  moreover have "dir_holds sum_crc (files \<lparr>files = [], synced = []\<rparr>) []" using dir_holds_empty by simp
  ultimately show ?thesis
    using log_roundtrip [of sum_crc "\<lparr>files = [], synced = []\<rparr>" "[]" sample_records Off 1 "\<lambda>r st. (Inr (), st @ [wr_seq r])" "[]"]
    by (simp add: sample_records_def record_new_def)
qed

text \<open>
  C20: Crash recovery. If the process dies between two appends, so that the writer's buffer
  is lost, replaying the directory hands over a prefix of the appended records: no record is
  damaged, reordered or skipped. With \<open>PerRecord\<close> none is lost, and every file reads the same
  from what was synced to disk. The same holds when the newest segment has lost any number
  of bytes at its end, a torn record included.
\<close>

theorem crash_gives_prefix:
  assumes "list_all fits rs" and "pol \<noteq> Every 0" and "Suc (length rs) < 10 ^ 10"
  shows "\<exists>wd. wal_append_all crc rs (wal_open pol \<lparr>files = [], synced = []\<rparr>) = Inr wd \<and>
    (\<forall>m. \<exists>j. \<forall>after f (st :: 's). replay crc after f (cut_last m (files (snd wd))) st = feed after f (take j rs) after st) \<and>
    (\<exists>j. (\<forall>after f (st :: 's). replay crc after f (files (snd wd)) st = feed after f (take j rs) after st) \<and>
      (pol = PerRecord \<longrightarrow> take j rs = rs \<and> fs_read (synced (snd wd)) = fs_read (files (snd wd))))"
  by (rule crash_replays [OF assms])

lemma crash_gives_prefix_witness:
  "\<exists>wd. wal_append_all sum_crc sample_records (wal_open PerRecord \<lparr>files = [], synced = []\<rparr>) = Inr wd \<and>
     replay sum_crc 0 (\<lambda>r st. (Inr (), st @ [wr_seq r])) (files (snd wd)) [] = (Inr 2, [1, 2])"
proof -
  have "list_all fits sample_records" by (simp add: sample_records_def fits_def record_new_def)
  moreover have "Suc (length sample_records) < 10 ^ 10" by (simp add: sample_records_def)
  ultimately obtain wd j where "wal_append_all sum_crc sample_records (wal_open PerRecord \<lparr>files = [], synced = []\<rparr>) = Inr wd"
    "\<forall>after f (st :: u64 list). replay sum_crc after f (files (snd wd)) st = feed after f (take j sample_records) after st"
    "take j sample_records = sample_records"
    using crash_gives_prefix [of sample_records PerRecord sum_crc] by blast
  then show ?thesis by (simp add: sample_records_def record_new_def)
qed

text \<open>
  C28: How much a torn tail costs. A record takes at least 25 bytes on disk, so a flushed log,
  written from nothing, whose newest segment lost \<open>k\<close> bytes at its end has lost at most \<open>k / 25\<close>
  records and one more, all from the end of the log: those before them are replayed
  whole and in order. Here \<open>m\<close> bytes of the segment are left.
\<close>

theorem torn_tail_loss:
  assumes "list_all fits rs" and "pol \<noteq> Every 0" and "Suc (length rs) < 10 ^ 10"
  shows "\<exists>wd. wal_append_all crc rs (wal_open pol \<lparr>files = [], synced = []\<rparr>) = Inr wd \<and>
    (\<forall>m. \<exists>j \<le> length rs.
      (\<forall>after f (st :: 's). replay crc after f (cut_last m (files (snd (wal_flush wd)))) st = feed after f (take j rs) after st) \<and>
      (j < length rs \<longrightarrow> 25 * (length rs - Suc j) < length (snd (last (files (snd (wal_flush wd))))) - m))"
  by (rule cut_replays [OF assms])

text \<open>Two records, and the last three bytes of the segment lost: the first one is still there.\<close>

lemma torn_tail_loss_witness:
  "\<exists>wd j. wal_append_all sum_crc sample_records (wal_open Off \<lparr>files = [], synced = []\<rparr>) = Inr wd \<and> 1 \<le> j \<and>
     (\<forall>after f (st :: u64 list). replay sum_crc after f
        (cut_last (length (snd (last (files (snd (wal_flush wd))))) - 3) (files (snd (wal_flush wd)))) st =
      feed after f (take j sample_records) after st)"
proof -
  have "list_all fits sample_records" by (simp add: sample_records_def fits_def record_new_def)
  moreover have two: "length sample_records = 2" by (simp add: sample_records_def)
  ultimately obtain wd where wd: "wal_append_all sum_crc sample_records (wal_open Off \<lparr>files = [], synced = []\<rparr>) = Inr wd"
    "\<And>m. \<exists>j \<le> 2. (\<forall>after f (st :: u64 list). replay sum_crc after f (cut_last m (files (snd (wal_flush wd)))) st = feed after f (take j sample_records) after st) \<and>
      (j < 2 \<longrightarrow> 25 * (2 - Suc j) < length (snd (last (files (snd (wal_flush wd))))) - m)"
    using torn_tail_loss [of sample_records Off sum_crc, where 's = "u64 list"] by auto
  let ?n = "length (snd (last (files (snd (wal_flush wd)))))"
  obtain j where "j < 2 \<longrightarrow> 25 * (2 - Suc j) < ?n - (?n - 3)"
    "\<forall>after f (st :: u64 list). replay sum_crc after f (cut_last (?n - 3) (files (snd (wal_flush wd)))) st = feed after f (take j sample_records) after st"
    using wd(2) [of "?n - 3"] by blast
  moreover from this(1) have "1 \<le> j" by (cases j) auto
  ultimately show ?thesis using wd(1) by blast
qed

text \<open>
  Segment names: the index is read back from the name for every index, and names sort
  like their numbers up to ten digits; at ten billion the order breaks, and the newest
  segment sorts before the one it follows.
\<close>

lemma segment_names:
  "segment_index (segment_path i) = Some i \<and>
   (m < 10 ^ 10 \<longrightarrow> k < 10 ^ 10 \<longrightarrow> (segment_path (word_of_nat m) < segment_path (word_of_nat k)) = (m < k)) \<and>
   segment_path 10000000000 < segment_path 9999999999"
  using seg_name_less [of m k]
  by (simp add: segment_index_path seg_name_def)
    (simp add: segment_path_def pad_str_def nat_str_steps digit_def less_char_def)

lemma segment_names_witness:
  "segment_path (word_of_nat 9) < segment_path (word_of_nat 10)"
  using segment_names [of 0 9 10] by simp

text \<open>
  \<open>FsyncPolicy::Every(0)\<close> makes every append panic (\<open>% 0\<close>), after the record has gone
  to the buffer; every other policy appends without panic, whatever the state.
\<close>

lemma append_panics_iff:
  "wal_append crc s t k payload wd = Inl h \<longleftrightarrow> ww_fsync (fst wd) = Every 0 \<and> h = Div_by_zero"
proof -
  have "ww_fsync (fst (buf_write bs wd)) = ww_fsync (fst wd)" for bs
    by (simp add: buf_write_def buf_flush_def Let_def split_beta)
  then show ?thesis
    by (cases "ww_fsync (fst wd)") (auto simp: wal_append_def Let_def split_beta maybe_sync_def)
qed

section \<open>What reaches stable storage\<close>

lemma buf_write_synced: "synced (snd (buf_write bs wd)) = synced (snd wd)"
  by (simp add: buf_write_def buf_flush_def Let_def split_beta)

lemma maybe_roll_synced: "synced (snd (maybe_roll wd)) = synced (snd wd)"
  by (simp add: maybe_roll_def roll_segment_def buf_flush_def open_segment_def Let_def split_beta)

text \<open>
  Without a sync policy nothing is ever synced, not by rolling a segment and not by the flush a
  shard ends with: \<^verbatim>\<open>flush\<close> hands the bytes to the operating system only.
\<close>

lemma off_never_syncs:
  "ww_fsync (fst wd) = Off \<Longrightarrow> wal_append_all crc rs wd = Inr wd' \<Longrightarrow> synced (snd (wal_flush wd')) = synced (snd wd)"
proof (induction rs arbitrary: wd)
  case Nil
  then show ?case by (simp add: wal_flush_def buf_flush_def split_beta)
next
  case (Cons r rs)
  let ?wd = "maybe_roll (counted (encode crc r) (buf_write (encode crc r) wd))"
  have "wal_append crc (wr_seq r) (wr_ts r) (wr_type r) (wr_payload r) wd = Inr ?wd"
    using Cons.prems(1) by (simp add: wal_append_steps maybe_sync_def Let_def)
  then have "wal_append_all crc rs ?wd = Inr wd'" using Cons.prems(2) by simp
  from Cons.IH [OF _ this] show ?case
    using Cons.prems(1) by (simp add: maybe_roll_synced buf_write_synced counted_def)
qed

text \<open>
  Rolling does not sync the segment it leaves, and later syncs are of the new segment only: what
  the old one held beyond its last sync stays unsynced while younger records are synced. A
  power failure can then lose records from the middle of the log.
\<close>

lemma roll_leaves_unsynced:
  assumes "p = ww_path (fst wd)" and "ww_path (fst (roll_segment wd)) \<noteq> p"
    and "wd' = do_fsync (buf_write bs (roll_segment wd))"
  shows "fs_read (synced (snd wd')) p = fs_read (synced (snd wd)) p"
    and "fs_read (files (snd wd')) p = fs_read (files (snd wd)) p @ ww_buf (fst wd)"
proof -
  let ?r = "roll_segment wd"
  have r: "synced (snd ?r) = synced (snd wd)" "fs_read (files (snd ?r)) p = fs_read (files (snd wd)) p @ ww_buf (fst wd)"
    using assms(1,2) by (auto simp: roll_segment_def buf_flush_def open_segment_def fs_read_append ww_path_def Let_def split_beta)
  note b = buf_write_frame [where bs = bs and wd = ?r]
  have path: "ww_path (fst (buf_write bs ?r)) \<noteq> p" using assms(2) b(1) by simp
  show "fs_read (synced (snd wd')) p = fs_read (synced (snd wd)) p"
    using path r(1) b(2) by (simp add: assms(3) do_fsync_def buf_flush_def fs_read_store ww_path_def Let_def split_beta)
  show "fs_read (files (snd wd')) p = fs_read (files (snd wd)) p @ ww_buf (fst wd)"
    using path r(2) b(3) assms(2)
    by (simp add: assms(3) do_fsync_def buf_flush_def fs_read_append ww_path_def Let_def split_beta)
qed

end
