(* ===== verification/Snapshot.thy ===== *)
theory Snapshot
  imports Wal_Log Sessions
begin

text \<open>
  \<^verbatim>\<open>crates/wal/src/snapshot.rs\<close>. JSON is \<^verbatim>\<open>serde_json\<close>'s: \<open>to_json\<close> prints a snapshot and
  \<open>of_json\<close> reads it back or fails. \<^verbatim>\<open>save_snapshot\<close> goes over \<^verbatim>\<open>id_index.values()\<close> in the
  hash map's own order, so the list \<open>ids\<close> of its keys in that order is an argument.
\<close>

section \<open>Data\<close>

record snap_order =
  so_id :: order_id
  so_side :: u8
  so_kind :: u8
  so_tif :: u8
  so_price :: price
  so_stop_price :: price
  so_qty :: qty
  so_remaining :: qty
  so_seq :: seq_no
  so_ts :: u64
  so_status :: u8

record snapshot =
  sn_symbol :: symbol_id
  sn_tick :: price
  sn_last_seq :: seq_no
  sn_last_trade :: "price option"
  sn_resting :: "snap_order list"

section \<open>Saving\<close>

fun snap_side :: "side \<Rightarrow> u8" where
  "snap_side Buy = 0" | "snap_side Sell = 1"

fun snap_kind :: "order_type \<Rightarrow> u8" where
  "snap_kind Limit = 0" | "snap_kind Market = 1" | "snap_kind Ioc = 2" | "snap_kind Fok = 3"
| "snap_kind StopMarket = 4" | "snap_kind StopLimit = 5"

fun snap_tif :: "time_in_force \<Rightarrow> u8" where
  "snap_tif Gtc = 0" | "snap_tif Day = 1"

fun snap_status :: "order_status \<Rightarrow> u8" where
  "snap_status SNew = 0" | "snap_status SAccepted = 1" | "snap_status SPartiallyFilled = 2"
| "snap_status SFilled = 3" | "snap_status SCancelled = 4" | "snap_status SRejected = 5"

definition snap_order_of :: "order \<Rightarrow> snap_order" where
  "snap_order_of r =
     \<lparr>so_id = o_id r, so_side = snap_side (o_side r), so_kind = snap_kind (o_kind r),
      so_tif = snap_tif (o_tif r), so_price = o_price r, so_stop_price = o_stop_price r,
      so_qty = o_qty r, so_remaining = o_remaining r, so_seq = o_seq r, so_ts = o_ts r,
      so_status = snap_status (o_status r)\<rparr>"

fun snap_orders :: "order_book \<Rightarrow> order_id list \<Rightarrow> halt + snap_order list" where
  "snap_orders b [] = Inr []"
| "snap_orders b (i # ids) =
     (case id_index b i of
        None \<Rightarrow> snap_orders b ids
      | Some loc \<Rightarrow>
          rbind (arena_get b (loc_slot loc)) (\<lambda>r.
          rbind (snap_orders b ids) (\<lambda>sos. Inr (snap_order_of r # sos))))"

definition take_snapshot :: "order_id list \<Rightarrow> order_book \<Rightarrow> seq_no \<Rightarrow> halt + snapshot" where
  "take_snapshot ids b last_seq =
     rbind (snap_orders b ids) (\<lambda>sos.
     Inr \<lparr>sn_symbol = ob_symbol b, sn_tick = ob_tick b, sn_last_seq = last_seq,
          sn_last_trade = last_trade b, sn_resting = sos\<rparr>)"

definition snapshot_path :: "seq_no \<Rightarrow> string" where
  "snapshot_path last_seq = ''snapshot-'' @ pad_str 10 (unat last_seq) @ ''.json''"

definition save_snapshot ::
  "(snapshot \<Rightarrow> wal_error + bytes) \<Rightarrow> order_id list \<Rightarrow> order_book \<Rightarrow> seq_no \<Rightarrow> dir \<Rightarrow>
   halt + (wal_error + (string \<times> dir))" where
  "save_snapshot to_json ids b last_seq d =
     rbind (take_snapshot ids b last_seq) (\<lambda>sn.
     Inr (case to_json sn of
            Inl e \<Rightarrow> Inl e
          | Inr js \<Rightarrow> Inr (snapshot_path last_seq, store_file (snapshot_path last_seq) js d)))"

section \<open>Loading\<close>

definition side_of_snap :: "u8 \<Rightarrow> side" where
  "side_of_snap c = (if c = 0 then Buy else Sell)"

definition kind_of_snap :: "u8 \<Rightarrow> order_type" where
  "kind_of_snap c =
     (if c = 0 then Limit else if c = 1 then Market else if c = 2 then Ioc else if c = 3 then Fok
      else if c = 4 then StopMarket else StopLimit)"

definition tif_of_snap :: "u8 \<Rightarrow> time_in_force" where
  "tif_of_snap c = (if c = 0 then Gtc else Day)"

definition order_of_snap :: "symbol_id \<Rightarrow> snap_order \<Rightarrow> order" where
  "order_of_snap sy so =
     order_new (so_id so) sy (side_of_snap (so_side so)) (kind_of_snap (so_kind so)) (tif_of_snap (so_tif so))
       (so_price so) (so_stop_price so) (so_remaining so) (so_seq so) (so_ts so)"

definition restore_order ::
  "(slab_op list \<Rightarrow> nat) \<Rightarrow> symbol_id \<Rightarrow> snap_order \<Rightarrow> order_book \<Rightarrow> halt + order_book" where
  "restore_order vk sy so b =
     (let (slot, b) = arena_insert vk (order_of_snap sy so) b in
      rbind (arena_modify slot (\<lambda>r. r\<lparr>o_qty := so_qty so\<rparr>) b) (\<lambda>b.
      rbind (arena_modify slot (\<lambda>r. r\<lparr>o_remaining := so_remaining so\<rparr>) b) (\<lambda>b.
      insert_resting slot
        (index_insert (so_id so)
           \<lparr>loc_price = so_price so, loc_side = side_of_snap (so_side so), loc_slot = slot\<rparr> b))))"

fun restore_orders ::
  "(slab_op list \<Rightarrow> nat) \<Rightarrow> symbol_id \<Rightarrow> snap_order list \<Rightarrow> order_book \<Rightarrow> halt + order_book" where
  "restore_orders vk sy [] b = Inr b"
| "restore_orders vk sy (so # sos) b = rbind (restore_order vk sy so b) (restore_orders vk sy sos)"

definition restore_book :: "(slab_op list \<Rightarrow> nat) \<Rightarrow> snapshot \<Rightarrow> halt + order_book" where
  "restore_book vk sn =
     restore_orders vk (sn_symbol sn) (sn_resting sn)
       ((book_new (sn_symbol sn) (sn_tick sn))\<lparr>last_trade := sn_last_trade sn\<rparr>)"

definition load_snapshot ::
  "(slab_op list \<Rightarrow> nat) \<Rightarrow> (bytes \<Rightarrow> wal_error + snapshot) \<Rightarrow> dir \<Rightarrow> string \<Rightarrow>
   halt + (wal_error + (order_book \<times> seq_no))" where
  "load_snapshot vk of_json d path =
     (case of_json (fs_read d path) of
        Inl e \<Rightarrow> Inr (Inl e)
      | Inr sn \<Rightarrow> rbind (restore_book vk sn) (\<lambda>b. Inr (Inr (b, sn_last_seq sn))))"

definition latest_snapshot :: "dir \<Rightarrow> string option" where
  "latest_snapshot d =
     (case sort (filter (\<lambda>p. take 9 p = ''snapshot-'' \<and> drop (length p - 5) p = ''.json'' \<and> 5 \<le> length p) (map fst d)) of
        [] \<Rightarrow> None
      | ps \<Rightarrow> Some (last ps))"

section \<open>The field codes\<close>

interpretation snap_side_code: tag_codec snap_side "\<lambda>c. if c < 2 then Some (side_of_snap c) else None"
proof
  fix sd c
  show "(if snap_side sd < 2 then Some (side_of_snap (snap_side sd)) else None) = Some sd"
    by (cases sd) (simp_all add: side_of_snap_def)
  assume "(if c < 2 then Some (side_of_snap c) else None) = Some sd"
  then show "snap_side sd = c"
    by (auto simp: side_of_snap_def word_less_nat_alt word_unat_eq_iff less_2_cases_iff split: if_splits)
qed

lemma kind_of_snap_kind [simp]: "kind_of_snap (snap_kind k) = k"
  by (cases k) (simp_all add: kind_of_snap_def)

lemma tif_of_snap_tif [simp]: "tif_of_snap (snap_tif tf) = tf"
  by (cases tf) (simp_all add: tif_of_snap_def)

lemma side_of_snap_side [simp]: "side_of_snap (snap_side sd) = sd"
  by (cases sd) (simp_all add: side_of_snap_def)

section \<open>What a round trip keeps\<close>

text \<open>An order as it comes back: the book's symbol, a fresh status, no links.\<close>

definition restored :: "symbol_id \<Rightarrow> order \<Rightarrow> order" where
  "restored sy r = (core r)\<lparr>o_symbol := sy, o_status := SNew\<rparr>"

lemma restored_fields [simp]:
  "o_id (restored sy r) = o_id r" "o_side (restored sy r) = o_side r" "o_kind (restored sy r) = o_kind r"
  "o_price (restored sy r) = o_price r" "o_remaining (restored sy r) = o_remaining r"
  "o_qty (restored sy r) = o_qty r" "core (restored sy r) = restored sy r"
  by (simp_all add: restored_def core_def)

lemma restored_snap:
  "(order_of_snap sy (snap_order_of r))\<lparr>o_qty := o_qty r, o_remaining := o_remaining r\<rparr> = restored sy r"
  by (simp add: order_of_snap_def snap_order_of_def order_new_def restored_def core_def)

text \<open>The queues after restoring the orders one by one.\<close>

definition enqueue_order :: "order \<Rightarrow> spec_book \<Rightarrow> spec_book" where
  "enqueue_order r sp = sp\<lparr>queue := (queue sp)(o_side r := enqueue (o_side r) r (queue sp (o_side r)))\<rparr>"

lemma enqueue_nsum: "nsum f (enqueue sd x q) = unat (f x) + nsum f q"
  by (induction q) auto

lemma enqueue_set: "set (enqueue sd x q) = insert x (set q)"
  by (induction q) auto

lemma restore_order_refine:
  assumes al: "slab_allocator vk" and rp: "rep vk b sp" and ns: "no_stale b"
    and fresh: "o_id r \<notin> o_id ` set (book_orders sp)"
    and r: "o_kind r = Limit" "o_remaining r \<noteq> 0"
    and room: "resting_qty sp + unat (o_remaining r) < 2 ^ 64"
  obtains b' where "restore_order vk sy (snap_order_of r) b = Inr b'"
    "rep vk b' (enqueue_order (restored sy r) sp)" "no_stale b'"
proof -
  let ?so = "snap_order_of r"
  obtain slot b0 where ins: "arena_insert vk (order_of_snap sy ?so) b = (slot, b0)" by fastforce
  note ai = arena_insert_refine [OF al rp ins]
  define b1 where "b1 = index_insert (o_id r)
    \<lparr>loc_price = o_price r, loc_side = o_side r, loc_slot = slot\<rparr>
    (b0\<lparr>arena := (arena b0)\<lparr>cells := (cells (arena b0))(slot \<mapsto> restored sy r)\<rparr>\<rparr>)"
  have c0: "cells (arena b0) slot = Some (order_of_snap sy ?so)" using ai(1) by (simp add: in_match_def)
  have so: "so_qty ?so = o_qty r" "so_remaining ?so = o_remaining r" "so_id ?so = o_id r" "so_price ?so = o_price r"
    "side_of_snap (so_side ?so) = o_side r"
    by (simp_all add: snap_order_of_def)
  have ev: "restore_order vk sy ?so b = insert_resting slot b1"
    using c0 restored_snap [where sy = sy and r = r]
    by (simp add: restore_order_def ins arena_modify_def so b1_def)
  have cells1: "(cells (arena b1))(slot := None) = cells (arena b)"
    using ai(3) by (simp add: b1_def index_insert_def)
  have ok: "slab_ok vk (arena b1)"
    using ai(1) slab_ok_modify [OF _ c0, of vk] by (simp add: b1_def index_insert_def in_match_def)
  have br: "book_rep ((cells (arena b1))(slot := None)) (b1\<lparr>id_index := id_index b\<rparr>) sp"
  proof -
    have "book_rep ((cells (arena b0))(slot := None)) b0 sp" using ai(1) by (simp add: in_match_def)
    then have "book_rep (cells (arena b)) b0 sp" using ai(3) by simp
    then show ?thesis
      unfolding cells1
      using ai(5)
      by (auto simp: book_rep_def b1_def index_insert_def side_levels_def stop_levels_def split: side.splits)
  qed
  have idn: "id_index b (o_id (restored sy r)) = None"
    using fresh index_ids [of "cells (arena b)" b sp] rp by (simp add: rep_def)
  have idx: "id_index b1 = (id_index b)(o_id (restored sy r) \<mapsto> loc_of slot (restored sy r))"
    using ai(5) r(1) by (simp add: b1_def index_insert_def loc_of_def)
  have st: "stop_levels b1 sd = stop_levels b sd" for sd
    using ai(4) [of sd] by (simp add: b1_def index_insert_def stop_levels_def split: side.splits)
  have nsl: "slot \<notin> set (stop_slots (stop_levels b1 sd))" for sd
    using ns ai(2) st [of sd] by (auto simp: no_stale_def)
  have c1: "cells (arena b1) slot = Some (restored sy r)" by (simp add: b1_def index_insert_def)
  have "nsum o_remaining (queue sp (o_side r)) + unat (o_remaining r) < 2 ^ 64"
    using room resting_side [of sp "o_side r"] by simp
  then obtain b' where b': "insert_resting slot b1 = Inr b'"
    "rep vk b' (sp\<lparr>queue := (queue sp)(o_side r := enqueue (o_side r) (core (restored sy r)) (queue sp (o_side r)))\<rparr>)"
    "\<And>sd'. stop_levels b' sd' = stop_levels b1 sd'" "dom (cells (arena b')) = dom (cells (arena b1))"
    using insert_resting_refine [OF ok c1 br idn idx, of "o_side r"] r nsl by auto
  have "dom (cells (arena b)) \<subseteq> dom (cells (arena b1))"
    unfolding cells1 [symmetric] by (auto split: if_splits)
  then have "no_stale b'" using ns unfolding no_stale_def b'(3,4) st by blast
  then show ?thesis using that b'(1,2) ev by (simp add: enqueue_order_def)
qed

definition enqueue_all :: "order list \<Rightarrow> spec_book \<Rightarrow> spec_book" where
  "enqueue_all = fold enqueue_order"

lemma enqueue_all_simps [simp]:
  "enqueue_all [] sp = sp" "enqueue_all (r # rs) sp = enqueue_all rs (enqueue_order r sp)"
  by (simp_all add: enqueue_all_def)

lemma enqueue_order_facts:
  "resting_qty (enqueue_order r sp) = resting_qty sp + unat (o_remaining r)"
  "o_id ` set (book_orders (enqueue_order r sp)) = insert (o_id r) (o_id ` set (book_orders sp))"
  "stops (enqueue_order r sp) = stops sp" "sp_last (enqueue_order r sp) = sp_last sp"
  by (cases "o_side r"; auto simp: enqueue_order_def resting_qty_def enqueue_nsum book_orders_def enqueue_set)+

lemma restore_orders_refine:
  assumes al: "slab_allocator vk"
  shows "rep vk b sp \<Longrightarrow> no_stale b \<Longrightarrow> distinct (map o_id rs) \<Longrightarrow>
    o_id ` set rs \<inter> o_id ` set (book_orders sp) = {} \<Longrightarrow>
    (\<forall>r \<in> set rs. o_kind r = Limit \<and> o_remaining r \<noteq> 0) \<Longrightarrow>
    resting_qty sp + nsum o_remaining rs < 2 ^ 64 \<Longrightarrow>
    \<exists>b'. restore_orders vk sy (map snap_order_of rs) b = Inr b' \<and>
      rep vk b' (enqueue_all (map (restored sy) rs) sp) \<and> no_stale b'"
proof (induction rs arbitrary: b sp)
  case Nil
  then show ?case by simp
next
  case (Cons r rs)
  have fresh: "o_id r \<notin> o_id ` set (book_orders sp)" using Cons.prems(4) by auto
  have room: "resting_qty sp + unat (o_remaining r) < 2 ^ 64" using Cons.prems(6) by simp
  have r: "o_kind r = Limit" "o_remaining r \<noteq> 0" using Cons.prems(5) by simp_all
  obtain b1 where b1: "restore_order vk sy (snap_order_of r) b = Inr b1"
    "rep vk b1 (enqueue_order (restored sy r) sp)" "no_stale b1"
    by (rule restore_order_refine [OF al Cons.prems(1,2) fresh r room]) (rule that; assumption)
  have "o_id ` set rs \<inter> o_id ` set (book_orders (enqueue_order (restored sy r) sp)) = {}"
    using Cons.prems(3,4) by (auto simp: enqueue_order_facts)
  then show ?case
    using Cons.IH [OF b1(2,3)] Cons.prems(3,5,6) b1(1) by (simp add: enqueue_order_facts)
qed

text \<open>Saving reads the live orders, in the order of the keys.\<close>

lemma snap_orders_eval:
  assumes rp: "rep vk b sp" and st: "pending sp = 0"
  shows "set ids \<subseteq> dom (id_index b) \<Longrightarrow> distinct ids \<Longrightarrow> \<exists>rs. snap_orders b ids = Inr (map snap_order_of rs) \<and>
    map o_id rs = ids \<and> (\<forall>r \<in> set rs. core r \<in> set (queue sp Buy @ queue sp Sell) \<and> o_kind r = Limit \<and> o_remaining r \<noteq> 0)"
proof (induction ids)
  case Nil
  then show ?case by simp
next
  case (Cons i ids)
  have br: "book_rep (cells (arena b)) b sp" using rp by (simp add: rep_def)
  have ix: "index_rep (cells (arena b)) (id_index b)" using br by (simp add: book_rep_def)
  obtain loc where loc: "id_index b i = Some loc" using Cons.prems by auto
  obtain r where r: "cells (arena b) (loc_slot loc) = Some r" "o_id r = i"
    using index_rep_lookup [OF ix loc] by blast
  have "core r \<in> set (book_orders sp)" using book_orders_arena [OF br] r(1) by blast
  then have c: "core r \<in> set (queue sp Buy @ queue sp Sell)"
    using st by (auto simp: book_orders_def pending_def)
  then obtain sd where "core r \<in> set (queue sp sd)" by auto
  from queue_order_fields [OF br this] have "o_kind r = Limit" "o_remaining r \<noteq> 0" by simp_all
  moreover obtain rs where "snap_orders b ids = Inr (map snap_order_of rs)" "map o_id rs = ids"
    "\<forall>r \<in> set rs. core r \<in> set (queue sp Buy @ queue sp Sell) \<and> o_kind r = Limit \<and> o_remaining r \<noteq> 0"
    using Cons by auto
  ultimately show ?case
    using loc r c by (intro exI [of _ "r # rs"]) (simp add: arena_get_def slab_get_def)
qed

end
