(* ===== verification/Snapshot_Properties.thy ===== *)
theory Snapshot_Properties
  imports Snapshot Stop_Hazards Wal_Facts "HOL-Library.Multiset"
begin

text \<open>
  The properties of snapshots: what a save and a load keep of a book, and what they lose.
\<close>

section \<open>Equal levels\<close>

lemma remdups_sorted: "sorted xs \<Longrightarrow> sorted_wrt (<) (remdups_adj (xs :: price list))"
  by (induction xs rule: remdups_adj.induct) force+

lemma prio_sorted: "prio Sell q \<longleftrightarrow> sorted (map o_price q)" "prio Buy q \<longleftrightarrow> sorted (rev (map o_price q))"
  unfolding prio_prices sorted_wrt_rev by (simp_all add: better_def not_less)

lemma prio_remdups_unique:
  assumes "prio sd q" "prio sd q'" "o_price ` set q = o_price ` set q'"
  shows "remdups_adj (map o_price q) = remdups_adj (map o_price q')"
proof -
  have u: "xs = ys" if "sorted_wrt (<) xs" "sorted_wrt (<) ys" "set xs = set ys" for xs ys :: "price list"
    using that strict_sorted_equal by blast
  show ?thesis
  proof (cases sd)
    case Sell
    then show ?thesis
      using assms by (intro u) (simp_all add: prio_sorted remdups_sorted)
  next
    case Buy
    have "remdups_adj (rev (map o_price q)) = remdups_adj (rev (map o_price q'))"
      using assms Buy by (intro u remdups_sorted) (simp_all add: prio_sorted)
    then show ?thesis by (simp only: remdups_adj_rev rev_is_rev_conv)
  qed
qed

lemma nsum_mset: "nsum f q = sum_mset (image_mset (unat \<circ> f) (mset q))"
  by (induction q) simp_all

text \<open>Queues with the same prices and quantities, in whatever order, show the same levels.\<close>

lemma by_price_mset:
  assumes "prio sd q" "prio sd q'"
    and m: "image_mset (\<lambda>x. (o_price x, o_remaining x)) (mset q) = image_mset (\<lambda>x. (o_price x, o_remaining x)) (mset q')"
  shows "by_price q = by_price q'"
proof -
  have "set_mset (image_mset fst (image_mset (\<lambda>x. (o_price x, o_remaining x)) (mset q))) =
      set_mset (image_mset fst (image_mset (\<lambda>x. (o_price x, o_remaining x)) (mset q')))"
    by (simp only: m)
  then have "o_price ` set q = o_price ` set q'" by (simp add: image_image)
  then have r: "remdups_adj (map o_price q) = remdups_adj (map o_price q')"
    by (rule prio_remdups_unique [OF assms(1,2)])
  have at: "nsum o_remaining (filter (\<lambda>x. o_price x = p) q) = sum_mset (image_mset (unat \<circ> snd)
      (filter_mset (\<lambda>y. fst y = p) (image_mset (\<lambda>x. (o_price x, o_remaining x)) (mset q))))" for p q
    by (induction q) auto
  have "nsum o_remaining (filter (\<lambda>x. o_price x = p) q) = nsum o_remaining (filter (\<lambda>x. o_price x = p) q')" for p
    unfolding at m ..
  then show ?thesis by (simp add: by_price_def r)
qed

lemma enqueue_mset: "mset (enqueue sd x q) = add_mset x (mset q)"
  by (induction q) auto

lemma enqueue_all_queue:
  "mset (queue (enqueue_all rs sp) sd) = mset (filter (\<lambda>r. o_side r = sd) rs) + mset (queue sp sd)"
  by (induction rs arbitrary: sp) (auto simp: enqueue_order_def enqueue_mset)

lemma enqueue_all_frame:
  "stops (enqueue_all rs sp) = stops sp" "sp_last (enqueue_all rs sp) = sp_last sp"
  by (induction rs arbitrary: sp) (auto simp: enqueue_order_facts)

section \<open>The round trip\<close>

lemma as_nat_inj: "map as_nat xs = map as_nat ys \<longleftrightarrow> xs = ys"
  by (rule inj_map_eq_map) (auto simp: as_nat_def inj_def word_unat_eq_iff split: prod.splits)

lemma distinct_ids_unique:
  assumes "distinct (map o_id q)" "distinct (map o_id q')" "set q = set q'"
  shows "mset q = mset q'"
  using assms by (metis distinct_map set_eq_iff_mset_eq_distinct)

text \<open>The restored orders of a book, side by side with its queues.\<close>

lemma saved_orders:
  assumes rp: "rep vk b sp" and st: "pending sp = 0" and ids: "set ids = dom (id_index b)" "distinct ids"
  obtains rs where "snap_orders b ids = Inr (map snap_order_of rs)" "distinct (map o_id rs)"
    "\<forall>r \<in> set rs. o_kind r = Limit \<and> o_remaining r \<noteq> 0"
    "\<And>sd. mset (filter (\<lambda>r. o_side r = sd) (map core rs)) = mset (queue sp sd)"
proof -
  have br: "book_rep (cells (arena b)) b sp" using rp by (simp add: rep_def)
  obtain rs where rs: "snap_orders b ids = Inr (map snap_order_of rs)" "map o_id rs = ids"
    "\<forall>r \<in> set rs. core r \<in> set (queue sp Buy @ queue sp Sell) \<and> o_kind r = Limit \<and> o_remaining r \<noteq> 0"
    using snap_orders_eval [OF rp st _ ids(2)] ids(1) by blast
  have d: "distinct (map o_id (map core rs))" using rs(2) ids(2) by (simp add: comp_def)
  have "mset (filter (\<lambda>r. o_side r = sd) (map core rs)) = mset (queue sp sd)" for sd
  proof (rule distinct_ids_unique)
    show "distinct (map o_id (filter (\<lambda>r. o_side r = sd) (map core rs)))"
      using d by (simp add: distinct_map_filter)
    show "distinct (map o_id (queue sp sd))" by (rule queue_distinct_ids [OF br])
    show "set (filter (\<lambda>r. o_side r = sd) (map core rs)) = set (queue sp sd)"
    proof (intro equalityI subsetI)
      fix x assume x: "x \<in> set (filter (\<lambda>r. o_side r = sd) (map core rs))"
      then obtain sd' where sd': "x \<in> set (queue sp sd')" using rs(3) by auto
      then have "o_side x = sd'" by (rule queue_order_fields(2) [OF br])
      then show "x \<in> set (queue sp sd)" using x sd' by simp
    next
      fix x assume x: "x \<in> set (queue sp sd)"
      have "o_id x \<in> set ids"
        using index_ids [OF br, of "o_id x"] queue_in_orders [OF x] ids(1) by (auto simp: domIff)
      then obtain r where r: "r \<in> set rs" "o_id r = o_id x" using rs(2) by (metis imageE list.set_map)
      then have "core r \<in> set (book_orders sp)" using rs(3) by (auto simp: book_orders_def)
      then have "core r = x" using book_orders_id_inj [OF br _ queue_in_orders [OF x]] r(2) by simp
      then show "x \<in> set (filter (\<lambda>r. o_side r = sd) (map core rs))"
        using r(1) queue_order_fields(2) [OF br x] by force
    qed
  qed
  then show ?thesis using that [OF rs(1)] rs(2,3) ids(2) by blast
qed

lemma restored_core: "restored sy (core r) = restored sy r"
  by (simp add: restored_def)

text \<open>The saved orders hold the resting quantity.\<close>

lemma nsum_sides:
  "nsum o_remaining rs = nsum o_remaining (filter (\<lambda>r. o_side r = Buy) rs) + nsum o_remaining (filter (\<lambda>r. o_side r = Sell) rs)"
proof (induction rs)
  case (Cons r rs)
  then show ?case by (cases "o_side r") simp_all
qed simp

lemma saved_qty:
  assumes "\<And>sd. mset (filter (\<lambda>r. o_side r = sd) (map core rs)) = mset (queue sp sd)"
  shows "nsum o_remaining rs = resting_qty sp"
proof -
  have "nsum o_remaining (filter (\<lambda>r. o_side r = sd) rs) = nsum o_remaining (queue sp sd)" for sd
  proof -
    have "nsum o_remaining (filter (\<lambda>r. o_side r = sd) (map core rs)) = nsum o_remaining (queue sp sd)"
      unfolding nsum_mset assms ..
    then show ?thesis by (simp add: filter_map nsum_map comp_def)
  qed
  then show ?thesis unfolding resting_qty_def by (metis nsum_sides)
qed

text \<open>The same orders, up to what restoring changes in them, give the same levels.\<close>

lemma restored_views:
  assumes "rep vk b sp" and "rep vk b' sp'"
    and "\<And>sd. mset (queue sp' sd) = image_mset (restored sy) (mset (queue sp sd))"
  shows "bs_bids (depth b' m) = bs_bids (depth b m) \<and> bs_asks (depth b' m) = bs_asks (depth b m)"
proof -
  have views: "by_price (queue sp' sd) = by_price (queue sp sd)" for sd
    by (rule by_price_mset [of sd]) (simp_all add: queue_view(2) [OF assms(2)] queue_view(2) [OF assms(1)] assms(3) multiset.map_comp comp_def)
  then show ?thesis
    using depth_views [of b' m] depth_views [of b m] queue_view(1) [OF assms(2)] queue_view(1) [OF assms(1)]
    by (simp_all add: as_nat_inj [symmetric])
qed

text \<open>
  C30: Saving a book without pending stops and loading it gives a book with the same orders
  (id, side, price, quantities), the same last trade and exactly the same depth at every
  level count, whatever order the hash map lists its keys in. Of the JSON printer and parser
  it asks that they round-trip this snapshot.
\<close>

theorem snapshot_restores:
  assumes "slab_allocator vk" and "rep vk b sp" and "pending sp = 0" and "resting_qty sp < 2 ^ 64"
    and "set ids = dom (id_index b)" and "distinct ids"
    and "\<And>sn. take_snapshot ids b q = Inr sn \<Longrightarrow> \<exists>js. to_json sn = Inr js \<and> of_json js = Inr sn"
  shows "\<exists>path d' b' sp'. save_snapshot to_json ids b q d = Inr (Inr (path, d')) \<and>
    load_snapshot vk of_json d' path = Inr (Inr (b', q)) \<and> rep vk b' sp' \<and>
    (\<forall>sd. mset (queue sp' sd) = image_mset (restored (ob_symbol b)) (mset (queue sp sd))) \<and>
    (\<forall>m. depth b' m = depth b m)"
proof -
  let ?sy = "ob_symbol b"
  obtain rs where rs: "snap_orders b ids = Inr (map snap_order_of rs)" "distinct (map o_id rs)"
    "\<forall>r \<in> set rs. o_kind r = Limit \<and> o_remaining r \<noteq> 0"
    "\<And>sd. mset (filter (\<lambda>r. o_side r = sd) (map core rs)) = mset (queue sp sd)"
    by (rule saved_orders [OF assms(2,3,5,6)]) (rule that; assumption)
  define sn where "sn = \<lparr>sn_symbol = ?sy, sn_tick = ob_tick b, sn_last_seq = q, sn_last_trade = last_trade b,
    sn_resting = map snap_order_of rs\<rparr>"
  define sp0 where "sp0 = spec_empty\<lparr>sp_last := last_trade b\<rparr>"
  define b0 where "b0 = (book_new ?sy (ob_tick b))\<lparr>last_trade := last_trade b\<rparr>"
  define sp' where "sp' = enqueue_all (map (restored ?sy) rs) sp0"
  have b0: "rep vk b0 sp0" "no_stale b0"
    using rep_new [of vk ?sy "ob_tick b"] no_stale_new [of ?sy "ob_tick b"]
    by (simp_all add: rep_def book_rep_def b0_def sp0_def no_stale_def side_levels_def stop_levels_def
        cong: side.case_cong)
  have sum: "nsum o_remaining rs = resting_qty sp" by (rule saved_qty [OF rs(4)])
  have e: "book_orders sp0 = []" "resting_qty sp0 = 0" by (simp_all add: sp0_def book_orders_def resting_qty_def)
  obtain b' where b': "restore_orders vk ?sy (map snap_order_of rs) b0 = Inr b'" "rep vk b' sp'"
    using restore_orders_refine [OF assms(1) b0 rs(2), of ?sy] rs(3) assms(4) sum e by (auto simp: sp'_def)
  have "take_snapshot ids b q = Inr sn" using rs(1) by (simp add: take_snapshot_def sn_def)
  then obtain js where js: "to_json sn = Inr js" "of_json js = Inr sn" using assms(7) by blast
  let ?p = "snapshot_path q"
  have save: "save_snapshot to_json ids b q d = Inr (Inr (?p, store_file ?p js d))"
    using rs(1) js(1) by (simp add: save_snapshot_def take_snapshot_def sn_def)
  have load: "load_snapshot vk of_json (store_file ?p js d) ?p = Inr (Inr (b', q))"
    using js(2) b'(1) by (simp add: load_snapshot_def fs_read_store restore_book_def sn_def b0_def)
  have qs: "mset (queue sp' sd) = image_mset (restored ?sy) (mset (queue sp sd))" for sd
  proof -
    have "mset (queue sp' sd) = mset (map (restored ?sy) (filter (\<lambda>r. o_side r = sd) (map core rs)))"
      by (simp add: sp'_def enqueue_all_queue sp0_def filter_map comp_def restored_core)
    then show ?thesis by (simp only: mset_map rs(4))
  qed
  have "bs_bids (depth b' m) = bs_bids (depth b m)" "bs_asks (depth b' m) = bs_asks (depth b m)" for m
    using restored_views [OF assms(2) b'(2) qs] by simp_all
  moreover have "last_trade b' = last_trade b"
    using b'(2) by (simp add: rep_def book_rep_def sp'_def enqueue_all_frame sp0_def)
  ultimately have "depth b' m = depth b m" for m by (simp add: depth_def)
  then show ?thesis using save load b'(2) qs by blast
qed

lemma snapshot_restores_witness:
  "\<exists>b sn path d' b'. rep stack_key b sample_book \<and> take_snapshot [1, 2, 3, 4] b 4 = Inr sn \<and>
     save_snapshot (\<lambda>_. Inr [1]) [1, 2, 3, 4] b 4 [] = Inr (Inr (path, d')) \<and>
     load_snapshot stack_key (\<lambda>js. if js = [1] then Inr sn else Inl (Serialise [])) d' path = Inr (Inr (b', 4)) \<and>
     depth b' 3 = depth b 3"
proof -
  obtain b where b: "rep stack_key b sample_book" by (rule sample_rep)
  have "i \<in> dom (id_index b) \<longleftrightarrow> i \<in> o_id ` set (book_orders sample_book)" for i
    using b index_ids [of "cells (arena b)" b sample_book i] by (simp only: rep_def domIff) blast
  then have "dom (id_index b) = o_id ` set (book_orders sample_book)" by (rule set_eqI)
  then have ids: "set [1, 2, 3, 4] = dom (id_index b)" by (auto simp: book_orders_def)
  obtain rs where "snap_orders b [1, 2, 3, 4] = Inr (map snap_order_of rs)"
    by (rule saved_orders [OF b _ ids]) simp_all
  then obtain sn where sn: "take_snapshot [1, 2, 3, 4] b 4 = Inr sn" by (simp add: take_snapshot_def)
  have "\<exists>path d' b' sp'. save_snapshot (\<lambda>_. Inr [1]) [1, 2, 3, 4] b 4 [] = Inr (Inr (path, d')) \<and>
    load_snapshot stack_key (\<lambda>js. if js = [1] then Inr sn else Inl (Serialise [])) d' path = Inr (Inr (b', 4)) \<and>
    rep stack_key b' sp' \<and>
    (\<forall>sd. mset (queue sp' sd) = image_mset (restored (ob_symbol b)) (mset (queue sample_book sd))) \<and>
    (\<forall>m. depth b' m = depth b m)"
    by (rule snapshot_restores [OF stack.slab_allocator_axioms b _ _ ids]) (simp_all add: sn)
  then show ?thesis using b sn by blast
qed

section \<open>What is lost\<close>

definition two_bids :: "sequenced list" where
  "two_bids = [cmd_at 1 (New (mk_order 1 Buy Limit 100 0 5)), cmd_at 2 (New (mk_order 2 Buy Limit 100 0 5))]"

definition restored_after ::
  "order_id list \<Rightarrow> sequenced list \<Rightarrow> sequenced list \<Rightarrow> halt + (order_book \<times> output_event list)" where
  "restored_after ids cs cs' =
     rbind (run_book 30 cs) (\<lambda>(b, _).
     rbind (take_snapshot ids b 0) (\<lambda>sn.
     rbind (restore_book stack_key sn) (\<lambda>b. apply_all stack_key 30 b cs' [])))"

text \<open>
  What a snapshot loses. Time priority: of two bids at one price the first to be
  restored, in the hash map's order, becomes the first in the queue; with the keys listed as
  2, 1 a sell that would have met order 1 trades with order 2. And stops: a sell stop-market
  at 80 comes back as a resting offer at its price field 0, and the restored book is crossed.
\<close>

lemma snapshot_loses_priority_and_stops:
  "observe (\<lambda>_. ()) (restored_after [2, 1] two_bids [cmd_at 3 (New (mk_order 3 Sell Limit 100 0 5))]) =
     Inr ((), [Accepted 3 3, Trade 3 3 2 100 5 Sell 3000, Filled 2 3, Filled 3 3]) \<and>
   observe (\<lambda>_. ()) (run_book 30 (two_bids @ [cmd_at 3 (New (mk_order 3 Sell Limit 100 0 5))])) =
     Inr ((), [Accepted 1 1, Accepted 2 2, Accepted 3 3, Trade 3 3 1 100 5 Sell 3000, Filled 1 3, Filled 3 3]) \<and>
   observe (\<lambda>b. (best_bid b, best_ask b, check_no_cross b, stop_sells b)) (restored_after [1, 2]
     [cmd_at 1 (New (mk_order 1 Buy Limit 100 0 5)), cmd_at 2 (New (mk_order 2 Sell StopMarket 0 80 3))] []) =
     Inr ((Some (100, 5), Some (0, 3), False, []), [])"
  by (intro conjI) code_simp+

end
