(* ===== verification/Engine.thy ===== *)
theory Engine
  imports Matcher
begin

text \<open>
  \<^verbatim>\<open>crates/engine/src/\<close>\<open>sequencer\<close>, \<^verbatim>\<open>ring.rs\<close> and the front half of \<^verbatim>\<open>lib.rs\<close>: a command gets
  its sequence number and goes to the ring of its symbol's shard. The ring wraps a
  \<^verbatim>\<open>crossbeam\<close> channel; \<open>send\<close> is its \<^verbatim>\<open>try_send\<close>, an argument of the operations, and the
  locale \<open>bounded_channel\<close> states what its documentation promises of it (a receive on an
  empty channel gives no command: it blocks, or fails when the senders are gone). The clock is read
  by the caller: \<open>now\<close> is \<^verbatim>\<open>epoch.elapsed().as_nanos()\<close>.
\<close>

section \<open>sequencer.rs\<close>

record sequencer =
  sq_next :: u64

definition sequencer_new :: sequencer where
  "sequencer_new = \<lparr>sq_next = 1\<rparr>"

text \<open>\<^verbatim>\<open>fetch_add\<close> wraps; the 128-bit nanoseconds are truncated.\<close>

definition next_seq :: "nat \<Rightarrow> sequencer \<Rightarrow> (u64 \<times> u64) \<times> sequencer" where
  "next_seq now q = ((sq_next q, word_of_nat now), q\<lparr>sq_next := sq_next q + 1\<rparr>)"

definition current :: "sequencer \<Rightarrow> u64" where
  "current q = sq_next q"

section \<open>ring.rs\<close>

datatype 'a try_send_error = Full 'a | Disconnected 'a

text \<open>Both ways of failing give the command back.\<close>

definition ring_try_push ::
  "('a \<Rightarrow> 'c \<Rightarrow> ('a try_send_error + unit) \<times> 'c) \<Rightarrow> 'a \<Rightarrow> 'c \<Rightarrow> ('a + unit) \<times> 'c" where
  "ring_try_push send x ch =
     (case send x ch of
        (Inl (Full y), ch) \<Rightarrow> (Inl y, ch)
      | (Inl (Disconnected y), ch) \<Rightarrow> (Inl y, ch)
      | (Inr _, ch) \<Rightarrow> (Inr (), ch))"

text \<open>\<^verbatim>\<open>pop\<close>: the next command, or None when all senders are gone.\<close>

definition ring_pop :: "('c \<Rightarrow> ('e + 'a) \<times> 'c) \<Rightarrow> 'c \<Rightarrow> 'a option \<times> 'c" where
  "ring_pop recv ch = (case recv ch of (Inl _, ch) \<Rightarrow> (None, ch) | (Inr x, ch) \<Rightarrow> (Some x, ch))"

locale bounded_channel =
  fixes queued :: "'c \<Rightarrow> 'a list" and capacity :: "'c \<Rightarrow> nat" and is_open :: "'c \<Rightarrow> bool"
    and send :: "'a \<Rightarrow> 'c \<Rightarrow> ('a try_send_error + unit) \<times> 'c"
    and recv :: "'c \<Rightarrow> (unit + 'a) \<times> 'c"
  assumes send_room: "is_open ch \<Longrightarrow> length (queued ch) < capacity ch \<Longrightarrow>
      \<exists>ch'. send x ch = (Inr (), ch') \<and> queued ch' = queued ch @ [x] \<and> capacity ch' = capacity ch \<and> is_open ch'"
    and send_full: "is_open ch \<Longrightarrow> \<not> length (queued ch) < capacity ch \<Longrightarrow> send x ch = (Inl (Full x), ch)"
    and send_closed: "\<not> is_open ch \<Longrightarrow> send x ch = (Inl (Disconnected x), ch)"
    and recv_first: "queued ch = x # xs \<Longrightarrow>
      \<exists>ch'. recv ch = (Inr x, ch') \<and> queued ch' = xs \<and> capacity ch' = capacity ch \<and> is_open ch' = is_open ch"
    and recv_empty: "queued ch = [] \<Longrightarrow> recv ch = (Inl (), ch)"
begin

lemma push_cases:
  "(is_open ch \<and> length (queued ch) < capacity ch \<and>
      (\<exists>ch'. ring_try_push send x ch = (Inr (), ch') \<and> queued ch' = queued ch @ [x] \<and>
         capacity ch' = capacity ch \<and> is_open ch')) \<or>
   (\<not> (is_open ch \<and> length (queued ch) < capacity ch) \<and> ring_try_push send x ch = (Inl x, ch))"
proof (cases "is_open ch \<and> length (queued ch) < capacity ch")
  case True
  then show ?thesis using send_room [of ch x] by (auto simp: ring_try_push_def)
next
  case False
  then have "ring_try_push send x ch = (Inl x, ch)"
    by (cases "is_open ch") (simp_all add: ring_try_push_def send_full send_closed)
  then show ?thesis using False by blast
qed

lemma push_bound:
  "ring_try_push send x ch = (res, ch') \<Longrightarrow> length (queued ch) \<le> capacity ch \<Longrightarrow>
     length (queued ch') \<le> capacity ch' \<and> capacity ch' = capacity ch"
  using push_cases [of ch x] by (auto simp: Suc_le_eq)

lemma pop_first:
  "queued ch = x # xs \<Longrightarrow> \<exists>ch'. ring_pop recv ch = (Some x, ch') \<and> queued ch' = xs"
  using recv_first by (fastforce simp: ring_pop_def)

lemma pop_only: "ring_pop recv ch = (Some x, ch') \<Longrightarrow> queued ch = x # queued ch'"
  using recv_first [of ch] recv_empty [of ch] by (cases "queued ch") (fastforce simp: ring_pop_def)+

end

text \<open>A list with a bound is such a channel.\<close>

record 'a bounded_queue =
  bq_items :: "'a list"
  bq_capacity :: nat
  bq_connected :: bool

definition bq_send :: "'a \<Rightarrow> 'a bounded_queue \<Rightarrow> ('a try_send_error + unit) \<times> 'a bounded_queue" where
  "bq_send x ch =
     (if \<not> bq_connected ch then (Inl (Disconnected x), ch)
      else if length (bq_items ch) < bq_capacity ch then (Inr (), ch\<lparr>bq_items := bq_items ch @ [x]\<rparr>)
      else (Inl (Full x), ch))"

definition bq_recv :: "'a bounded_queue \<Rightarrow> (unit + 'a) \<times> 'a bounded_queue" where
  "bq_recv ch = (case bq_items ch of [] \<Rightarrow> (Inl (), ch) | x # xs \<Rightarrow> (Inr x, ch\<lparr>bq_items := xs\<rparr>))"

interpretation bq: bounded_channel bq_items bq_capacity bq_connected bq_send bq_recv
  by unfold_locales (auto simp: bq_send_def bq_recv_def)

section \<open>lib.rs\<close>

definition cmd_symbol :: "command \<Rightarrow> symbol_id" where
  "cmd_symbol c = (case c of New no \<Rightarrow> no_symbol no | Cancel _ s \<Rightarrow> s | Replace _ _ _ s \<Rightarrow> s)"

text \<open>\<^verbatim>\<open>(symbol as usize) % num_shards\<close> panics without shards.\<close>

definition shard_for :: "symbol_id \<Rightarrow> nat \<Rightarrow> halt + nat" where
  "shard_for s n = (if n = 0 then Inl Div_by_zero else Inr (unat s mod n))"

fun assign_symbols :: "nat \<Rightarrow> (symbol_id \<times> price) list \<Rightarrow> (symbol_id \<times> price) list list \<Rightarrow>
   halt + (symbol_id \<times> price) list list" where
  "assign_symbols n [] sss = Inr sss"
| "assign_symbols n ((s, tk) # ss) sss =
     rbind (shard_for s n) (\<lambda>k.
     if k < length sss then assign_symbols n ss (sss[k := sss ! k @ [(s, tk)]])
     else Inl Index_out_of_bounds)"

definition shard_symbols :: "nat \<Rightarrow> (symbol_id \<times> price) list \<Rightarrow> halt + (symbol_id \<times> price) list list" where
  "shard_symbols n symbols = assign_symbols n symbols (replicate n [])"

record 'c engine =
  en_senders :: "'c list"
  en_sequencer :: sequencer
  en_num_shards :: nat

text \<open>\<open>mk\<close> makes a ring of the configured capacity; the second result is each shard's symbols.\<close>

definition engine_start ::
  "(nat \<Rightarrow> 'c) \<Rightarrow> nat \<Rightarrow> nat \<Rightarrow> (symbol_id \<times> price) list \<Rightarrow>
   halt + ('c engine \<times> (symbol_id \<times> price) list list)" where
  "engine_start mk cap n symbols =
     rbind (shard_symbols n symbols) (\<lambda>sss.
     Inr (\<lparr>en_senders = replicate n (mk cap), en_sequencer = sequencer_new, en_num_shards = n\<rparr>, sss))"

text \<open>
  \<^verbatim>\<open>submit\<close> is two atomic steps, between which other threads may run: \<open>stamp\<close> takes a number
  and the time, \<open>deliver\<close> pushes to the ring. The result is the sequence number, or the
  command back when the ring is full.
\<close>

definition stamp :: "nat \<Rightarrow> command \<Rightarrow> 'c engine \<Rightarrow> sequenced \<times> 'c engine" where
  "stamp now cmd en =
     (let ((s, t), q) = next_seq now (en_sequencer en)
      in (\<lparr>sq_seq = s, sq_ts = t, sq_cmd = cmd\<rparr>, en\<lparr>en_sequencer := q\<rparr>))"

definition deliver ::
  "(sequenced \<Rightarrow> 'c \<Rightarrow> (sequenced try_send_error + unit) \<times> 'c) \<Rightarrow> nat \<Rightarrow> sequenced \<Rightarrow> 'c engine \<Rightarrow>
   halt + ((command + u64) \<times> 'c engine)" where
  "deliver send k sc en =
     (if k < length (en_senders en) then
        (case ring_try_push send sc (en_senders en ! k) of
           (Inl _, ch) \<Rightarrow> Inr (Inl (sq_cmd sc), en\<lparr>en_senders := (en_senders en)[k := ch]\<rparr>)
         | (Inr _, ch) \<Rightarrow> Inr (Inr (sq_seq sc), en\<lparr>en_senders := (en_senders en)[k := ch]\<rparr>))
      else Inl Index_out_of_bounds)"

definition submit ::
  "(sequenced \<Rightarrow> 'c \<Rightarrow> (sequenced try_send_error + unit) \<times> 'c) \<Rightarrow> nat \<Rightarrow> command \<Rightarrow> 'c engine \<Rightarrow>
   halt + ((command + u64) \<times> 'c engine)" where
  "submit send now cmd en =
     rbind (shard_for (cmd_symbol cmd) (en_num_shards en)) (\<lambda>k.
     let (sc, en) = stamp now cmd en in deliver send k sc en)"

end
