(* ===== verification/Shard.thy ===== *)
theory Shard
  imports Engine Wal_Log
begin

text \<open>
  \<^verbatim>\<open>crates/engine/src/shard.rs\<close>: the thread that owns the books of its symbols. A command
  is logged, then applied to the book of its symbol, its events are sent to the egress bus
  and counted. \<open>ser\<close> is \<^verbatim>\<open>serde_json::to_vec\<close>, \<open>match_ts\<close> the clock; the gauges hold the
  integers the code converts to \<^verbatim>\<open>f64\<close>. Pinning the thread to a core is left out.
\<close>

section \<open>Metrics\<close>

datatype metric =
  Orders string string
| Trades string
| Rejects string
| Book_depth string string qty
| Spread string int

fun type_label :: "command \<Rightarrow> string" where
  "type_label (New no) =
     (case no_kind no of
        Limit \<Rightarrow> ''limit'' | Market \<Rightarrow> ''market'' | Ioc \<Rightarrow> ''ioc'' | Fok \<Rightarrow> ''fok''
      | StopMarket \<Rightarrow> ''stop_market'' | StopLimit \<Rightarrow> ''stop_limit'')"
| "type_label (Cancel _ _) = ''cancel''"
| "type_label (Replace _ _ _ _) = ''replace''"

fun reason_label :: "reject_reason \<Rightarrow> string" where
  "reason_label UnknownSymbol = ''unknown_symbol''"
| "reason_label DuplicateId = ''duplicate_id''"
| "reason_label UnknownId = ''unknown_id''"
| "reason_label ZeroQty = ''zero_qty''"
| "reason_label BadPrice = ''bad_price''"
| "reason_label FokUnfillable = ''fok_unfillable''"
| "reason_label MarketNoLiquidity = ''no_liquidity''"
| "reason_label SelfTrade = ''self_trade''"
| "reason_label RateLimited = ''rate_limited''"

definition sym_label :: "symbol_id \<Rightarrow> string" where
  "sym_label s = nat_str (unat s)"

definition event_metrics :: "symbol_id \<Rightarrow> output_event \<Rightarrow> metric list" where
  "event_metrics s e =
     (case e of
        Trade _ _ _ _ _ _ _ \<Rightarrow> [Trades (sym_label s)]
      | Rejected _ why _ \<Rightarrow> [Rejects (reason_label why)]
      | _ \<Rightarrow> [])"

definition book_metrics :: "symbol_id \<Rightarrow> order_book \<Rightarrow> metric list" where
  "book_metrics s b =
     (let sn = depth b 1 in
      case (bs_bids sn, bs_asks sn) of
        ((bid, bq) # _, (ask, aq) # _) \<Rightarrow>
          [Book_depth (sym_label s) ''bid'' bq, Book_depth (sym_label s) ''ask'' aq,
           Spread (sym_label s) (sint (word_of_int (ask - bid) :: u64))]
      | _ \<Rightarrow> [])"

section \<open>State\<close>

record shard =
  sh_books :: "symbol_id \<rightharpoonup> order_book"
  sh_wal :: "wal_writer \<times> disk"
  sh_out :: "output_event list"
  sh_metrics :: "metric list"
  sh_latency :: "u64 list"

text \<open>A symbol listed twice keeps its last book.\<close>

definition shard_start :: "fsync_policy \<Rightarrow> (symbol_id \<times> price) list \<Rightarrow> disk \<Rightarrow> shard" where
  "shard_start fsync symbols d =
     \<lparr>sh_books = map_of (rev (map (\<lambda>(s, tk). (s, book_new s tk)) symbols)),
      sh_wal = wal_open fsync d, sh_out = [], sh_metrics = [], sh_latency = []\<rparr>"

section \<open>The loop\<close>

text \<open>The two halves of the body of the loop. Between them the command is in the log and nowhere
  else: the books and the events are the thread's own until they are sent.\<close>

definition shard_log :: "(bytes \<Rightarrow> u32) \<Rightarrow> (sequenced \<Rightarrow> bytes) \<Rightarrow> sequenced \<Rightarrow> shard \<Rightarrow> halt + shard" where
  "shard_log crc ser cmd sh =
     rbind (wal_append crc (sq_seq cmd) (sq_ts cmd) Command_rec (ser cmd) (sh_wal sh)) (\<lambda>wal. Inr (sh\<lparr>sh_wal := wal\<rparr>))"

definition shard_apply :: "(slab_op list \<Rightarrow> nat) \<Rightarrow> nat \<Rightarrow> u64 \<Rightarrow> sequenced \<Rightarrow> shard \<Rightarrow> halt + shard" where
  "shard_apply vk n match_ts cmd sh =
     (let s = cmd_symbol (sq_cmd cmd) in
      rbind (case sh_books sh s of
               None \<Rightarrow> Inr sh
             | Some b \<Rightarrow>
                 rbind (apply_cmd vk n b cmd []) (\<lambda>(b, events).
                 Inr (sh\<lparr>sh_books := (sh_books sh)(s \<mapsto> b), sh_out := sh_out sh @ events,
                         sh_metrics := sh_metrics sh @ [Orders (sym_label s) (type_label (sq_cmd cmd))] @
                           concat (map (event_metrics s) events) @ book_metrics s b\<rparr>))) (\<lambda>sh.
      Inr (sh\<lparr>sh_latency := sh_latency sh @ [sat_sub match_ts (sq_ts cmd)]\<rparr>)))"

definition shard_step ::
  "(slab_op list \<Rightarrow> nat) \<Rightarrow> nat \<Rightarrow> (bytes \<Rightarrow> u32) \<Rightarrow> (sequenced \<Rightarrow> bytes) \<Rightarrow> u64 \<Rightarrow> sequenced \<Rightarrow> shard \<Rightarrow>
   halt + shard" where
  "shard_step vk n crc ser match_ts cmd sh = rbind (shard_log crc ser cmd sh) (shard_apply vk n match_ts cmd)"

lemmas shard_step_defs = shard_step_def shard_log_def shard_apply_def

text \<open>The commands in the order the ring gives them, each with the clock at its pop; the
  log is flushed when the senders are gone.\<close>

fun shard_steps ::
  "(slab_op list \<Rightarrow> nat) \<Rightarrow> nat \<Rightarrow> (bytes \<Rightarrow> u32) \<Rightarrow> (sequenced \<Rightarrow> bytes) \<Rightarrow> (u64 \<times> sequenced) list \<Rightarrow>
   shard \<Rightarrow> halt + shard" where
  "shard_steps vk n crc ser [] sh = Inr sh"
| "shard_steps vk n crc ser ((now, cmd) # cmds) sh =
     rbind (shard_step vk n crc ser now cmd sh) (shard_steps vk n crc ser cmds)"

definition run_shard ::
  "(slab_op list \<Rightarrow> nat) \<Rightarrow> nat \<Rightarrow> (bytes \<Rightarrow> u32) \<Rightarrow> (sequenced \<Rightarrow> bytes) \<Rightarrow> fsync_policy \<Rightarrow>
   (symbol_id \<times> price) list \<Rightarrow> disk \<Rightarrow> (u64 \<times> sequenced) list \<Rightarrow> halt + shard" where
  "run_shard vk n crc ser fsync symbols d cmds =
     rbind (shard_steps vk n crc ser cmds (shard_start fsync symbols d)) (\<lambda>sh.
     Inr (sh\<lparr>sh_wal := wal_flush (sh_wal sh)\<rparr>))"

end
