(* ===== verification/Shard_Facts.thy ===== *)
theory Shard_Facts
  imports Shard Sessions Wal_Facts
begin

text \<open>
  A shard's run taken apart: what it logs, what it does to its books (\<open>books_run\<close>), and the
  specification of a shard, one two-queue book per symbol (\<open>spec_shard\<close>). \<open>recover\<close> is the
  replay closure of \<^verbatim>\<open>crates/wal/tests/crash_recovery.rs\<close>, for all books of a shard.
\<close>

section \<open>Books without log and metrics\<close>

type_synonym books = "symbol_id \<rightharpoonup> order_book"

definition book_step ::
  "(slab_op list \<Rightarrow> nat) \<Rightarrow> nat \<Rightarrow> sequenced \<Rightarrow> books \<times> output_event list \<Rightarrow>
   halt + (books \<times> output_event list)" where
  "book_step vk n c = (\<lambda>(books, out).
     let s = cmd_symbol (sq_cmd c) in
     (case books s of
        None \<Rightarrow> Inr (books, out)
      | Some b \<Rightarrow> rbind (apply_cmd vk n b c []) (\<lambda>(b, ev). Inr (books(s \<mapsto> b), out @ ev))))"

fun books_run ::
  "(slab_op list \<Rightarrow> nat) \<Rightarrow> nat \<Rightarrow> sequenced list \<Rightarrow> books \<times> output_event list \<Rightarrow>
   halt + (books \<times> output_event list)" where
  "books_run vk n [] st = Inr st"
| "books_run vk n (c # cs) st = rbind (book_step vk n c st) (books_run vk n cs)"

definition logged :: "(sequenced \<Rightarrow> bytes) \<Rightarrow> sequenced \<Rightarrow> wal_record" where
  "logged ser c = record_new (sq_seq c) (sq_ts c) Command_rec (ser c)"

lemma logged_fields [simp]:
  "wr_seq (logged ser c) = sq_seq c" "wr_ts (logged ser c) = sq_ts c" "wr_type (logged ser c) = Command_rec"
  "wr_payload (logged ser c) = ser c"
  by (simp_all add: logged_def record_new_def)

definition view :: "shard \<Rightarrow> books \<times> output_event list" where
  "view sh = (sh_books sh, sh_out sh)"

lemma shard_step_view:
  assumes "wal_append crc (sq_seq c) (sq_ts c) Command_rec (ser c) (sh_wal sh) = Inr wal"
  shows "book_step vk n c (view sh) = Inl h \<Longrightarrow> shard_step vk n crc ser now c sh = Inl h"
    and "book_step vk n c (view sh) = Inr v \<Longrightarrow>
      \<exists>sh'. shard_step vk n crc ser now c sh = Inr sh' \<and> view sh' = v \<and> sh_wal sh' = wal"
proof -
  let ?s = "cmd_symbol (sq_cmd c)"
  have "(book_step vk n c (view sh) = Inl h \<longrightarrow> shard_step vk n crc ser now c sh = Inl h) \<and>
    (book_step vk n c (view sh) = Inr v \<longrightarrow>
      (\<exists>sh'. shard_step vk n crc ser now c sh = Inr sh' \<and> view sh' = v \<and> sh_wal sh' = wal))"
  proof (cases "sh_books sh ?s")
    case None
    then show ?thesis using assms by (simp add: shard_step_defs book_step_def view_def Let_def)
  next
    case (Some b)
    show ?thesis
    proof (cases "apply_cmd vk n b c []")
      case (Inl h)
      then show ?thesis using assms Some by (simp add: shard_step_defs book_step_def view_def Let_def)
    next
      case (Inr r)
      obtain b1 ev where "r = (b1, ev)" by (cases r)
      then show ?thesis using Inr assms Some by (simp add: shard_step_defs book_step_def view_def Let_def)
    qed
  qed
  then show "book_step vk n c (view sh) = Inl h \<Longrightarrow> shard_step vk n crc ser now c sh = Inl h"
    "book_step vk n c (view sh) = Inr v \<Longrightarrow>
      \<exists>sh'. shard_step vk n crc ser now c sh = Inr sh' \<and> view sh' = v \<and> sh_wal sh' = wal" by blast+
qed

lemma append_ok:
  assumes "ww_fsync (fst wd) \<noteq> Every 0"
  obtains wd' where "wal_append crc s t k payload wd = Inr wd'" "ww_fsync (fst wd') = ww_fsync (fst wd)"
  using assms by (cases "ww_fsync (fst wd)") (auto simp: wal_append_steps maybe_sync_def Let_def)

text \<open>The log and the books of a shard go their own ways.\<close>

lemma shard_steps_view:
  assumes "ww_fsync (fst (sh_wal sh)) \<noteq> Every 0"
    and "wal_append_all crc (map (\<lambda>x. logged ser (snd x)) cmds) (sh_wal sh) = Inr wal"
  shows "books_run vk n (map snd cmds) (view sh) = Inr v \<longleftrightarrow>
    (\<exists>sh'. shard_steps vk n crc ser cmds sh = Inr sh' \<and> view sh' = v)"
    and "shard_steps vk n crc ser cmds sh = Inr sh' \<Longrightarrow> sh_wal sh' = wal"
proof -
  have "(books_run vk n (map snd cmds) (view sh) = Inr v \<longleftrightarrow>
      (\<exists>sh'. shard_steps vk n crc ser cmds sh = Inr sh' \<and> view sh' = v)) \<and>
    (shard_steps vk n crc ser cmds sh = Inr sh' \<longrightarrow> sh_wal sh' = wal)"
    using assms
  proof (induction cmds arbitrary: sh)
    case (Cons x cmds)
    obtain now c where x: "x = (now, c)" by (cases x)
    obtain wal1 where w: "wal_append crc (sq_seq c) (sq_ts c) Command_rec (ser c) (sh_wal sh) = Inr wal1"
      "ww_fsync (fst wal1) = ww_fsync (fst (sh_wal sh))"
      by (rule append_ok [OF Cons.prems(1)])
    have rest: "wal_append_all crc (map (\<lambda>x. logged ser (snd x)) cmds) wal1 = Inr wal"
      using Cons.prems(2) w by (simp add: x)
    note step = shard_step_view [where crc = crc and ser = ser and now = now and vk = vk and n = n, OF w(1)]
    show ?case
    proof (cases "book_step vk n c (view sh)")
      case (Inl h)
      then show ?thesis using step(1) by (simp add: x)
    next
      case (Inr v1)
      then obtain sh1 where "shard_step vk n crc ser now c sh = Inr sh1" "view sh1 = v1" "sh_wal sh1 = wal1"
        using step(2) by blast
      then show ?thesis using Cons.IH [of sh1] Cons.prems(1) w rest Inr by (simp add: x)
    qed
  qed auto
  then show "books_run vk n (map snd cmds) (view sh) = Inr v \<longleftrightarrow>
      (\<exists>sh'. shard_steps vk n crc ser cmds sh = Inr sh' \<and> view sh' = v)"
    "shard_steps vk n crc ser cmds sh = Inr sh' \<Longrightarrow> sh_wal sh' = wal" by blast+
qed

section \<open>The specification of a shard\<close>

definition cmds_of :: "symbol_id \<Rightarrow> sequenced list \<Rightarrow> sequenced list" where
  "cmds_of s = filter (\<lambda>c. cmd_symbol (sq_cmd c) = s)"

lemma cmds_of_simps [simp]:
  "cmds_of s [] = []"
  "cmds_of s (c # cs) = (if cmd_symbol (sq_cmd c) = s then c # cmds_of s cs else cmds_of s cs)"
  by (simp_all add: cmds_of_def)

fun spec_shard ::
  "symbol_id set \<Rightarrow> sequenced list \<Rightarrow> (symbol_id \<Rightarrow> spec_book) \<Rightarrow>
   ((symbol_id \<Rightarrow> spec_book) \<times> output_event list) option" where
  "spec_shard S [] F = Some (F, [])"
| "spec_shard S (c # cs) F =
     (let s = cmd_symbol (sq_cmd c) in
      if s \<notin> S then spec_shard S cs F
      else
        (case spec_apply (F s) c of
           None \<Rightarrow> None
         | Some (sp, ev) \<Rightarrow> map_option (\<lambda>(F', ev'). (F', ev @ ev')) (spec_shard S cs (F(s := sp)))))"

text \<open>Each book sees its own commands only.\<close>

lemma spec_shard_isolated:
  "spec_shard S cs F = Some (F', ev) \<Longrightarrow> s \<in> S \<Longrightarrow> \<exists>ev. spec_run (F s) (cmds_of s cs) = Some (F' s, ev)"
proof (induction cs arbitrary: F ev)
  case (Cons c cs)
  show ?case
  proof (cases "cmd_symbol (sq_cmd c) \<in> S")
    case True
    then obtain sp ev1 ev2 where 1: "spec_apply (F (cmd_symbol (sq_cmd c))) c = Some (sp, ev1)"
      "spec_shard S cs (F(cmd_symbol (sq_cmd c) := sp)) = Some (F', ev2)"
      using Cons.prems by (auto simp: Let_def split: option.splits)
    then show ?thesis using Cons.IH [OF 1(2) Cons.prems(2)] by auto
  next
    case False
    then show ?thesis using Cons by (auto simp: Let_def)
  qed
qed simp

lemma spec_shard_single:
  "spec_shard {s} cs F = map_option (\<lambda>(sp, ev). (F(s := sp), ev)) (spec_run (F s) (cmds_of s cs))"
proof (induction cs arbitrary: F)
  case (Cons c cs)
  show ?case
  proof (cases "cmd_symbol (sq_cmd c) = s \<and> spec_apply (F s) c \<noteq> None")
    case True
    then obtain sp ev where "spec_apply (F s) c = Some (sp, ev)" by auto
    then show ?thesis
      using True Cons.IH [of "F(s := sp)"] by (cases "spec_run sp (cmds_of s cs)") (auto simp: Let_def fun_upd_def)
  next
    case False
    then show ?thesis using Cons.IH by (cases "spec_apply (F s) c"; cases "cmd_symbol (sq_cmd c) = s") (auto simp: Let_def)
  qed
qed simp

definition shard_ready ::
  "(slab_op list \<Rightarrow> nat) \<Rightarrow> nat \<Rightarrow> sequenced list \<Rightarrow> books \<Rightarrow> (symbol_id \<Rightarrow> spec_book) \<Rightarrow> bool" where
  "shard_ready vk n cs bk F \<longleftrightarrow> (\<forall>s b. bk s = Some b \<longrightarrow> ready vk n (cmds_of s cs) b (F s))"

lemma book_step_ready:
  assumes "slab_allocator vk" and "shard_ready vk n (c # cs) bk F" and "cmd_symbol (sq_cmd c) \<in> dom bk"
  obtains b1 sp1 ev where "spec_apply (F (cmd_symbol (sq_cmd c))) c = Some (sp1, ev)"
    "book_step vk n c (bk, out) = Inr (bk(cmd_symbol (sq_cmd c) \<mapsto> b1), out @ ev)"
    "shard_ready vk n cs (bk(cmd_symbol (sq_cmd c) \<mapsto> b1)) (F(cmd_symbol (sq_cmd c) := sp1))"
proof -
  let ?s = "cmd_symbol (sq_cmd c)"
  obtain b where b: "bk ?s = Some b" using assms(3) by blast
  then have rd: "ready vk n (c # cmds_of ?s cs) b (F ?s)" using assms(2) by (fastforce simp: shard_ready_def)
  obtain b1 sp1 ev where 1: "spec_apply (F ?s) c = Some (sp1, ev)" "apply_cmd vk n b c [] = Inr (b1, [] @ ev)"
    "ready vk n (cmds_of ?s cs) b1 sp1"
    by (rule ready_step [OF assms(1) rd])
  have "shard_ready vk n cs (bk(?s \<mapsto> b1)) (F(?s := sp1))"
    using assms(2) 1(3) by (auto simp: shard_ready_def split: if_splits)
  with 1 b show ?thesis by (intro that) (auto simp: book_step_def Let_def)
qed

lemma books_run_refine:
  assumes "slab_allocator vk"
  shows "shard_ready vk n cs bk F \<Longrightarrow>
    \<exists>bk' F' ev. spec_shard (dom bk) cs F = Some (F', ev) \<and> books_run vk n cs (bk, out) = Inr (bk', out @ ev) \<and>
      dom bk' = dom bk \<and> (\<forall>s b. bk' s = Some b \<longrightarrow> rep vk b (F' s))"
proof (induction cs arbitrary: bk F out)
  case Nil
  then show ?case using ready_rep by (fastforce simp: shard_ready_def)
next
  case (Cons c cs)
  let ?s = "cmd_symbol (sq_cmd c)"
  show ?case
  proof (cases "?s \<in> dom bk")
    case True
    obtain b1 sp1 ev1 where 1: "spec_apply (F ?s) c = Some (sp1, ev1)"
      "book_step vk n c (bk, out) = Inr (bk(?s \<mapsto> b1), out @ ev1)"
      "shard_ready vk n cs (bk(?s \<mapsto> b1)) (F(?s := sp1))"
      by (rule book_step_ready [OF assms Cons.prems True])
    have "dom (bk(?s \<mapsto> b1)) = dom bk" using True by auto
    then obtain bk' F' ev where "spec_shard (dom bk) cs (F(?s := sp1)) = Some (F', ev)"
      "books_run vk n cs (bk(?s \<mapsto> b1), out @ ev1) = Inr (bk', (out @ ev1) @ ev)" "dom bk' = dom bk"
      "\<forall>s b. bk' s = Some b \<longrightarrow> rep vk b (F' s)"
      using Cons.IH [OF 1(3), of "out @ ev1"] by metis
    then show ?thesis using True 1(1,2) by (simp add: Let_def)
  next
    case False
    then have "cmds_of s (c # cs) = cmds_of s cs" if "bk s = Some b" for s b using that by auto
    then have "shard_ready vk n cs bk F" using Cons.prems by (simp add: shard_ready_def del: cmds_of_simps)
    then show ?thesis using Cons.IH [of bk F out] False by (auto simp: Let_def book_step_def)
  qed
qed

section \<open>Start\<close>

definition start_books :: "(symbol_id \<times> price) list \<Rightarrow> books" where
  "start_books symbols = map_of (rev (map (\<lambda>(s, tk). (s, book_new s tk)) symbols))"

lemma start_books_new:
  "dom (start_books symbols) = fst ` set symbols"
  "start_books symbols s = Some b \<Longrightarrow> \<exists>tk. b = book_new s tk"
proof -
  show "dom (start_books symbols) = fst ` set symbols"
    by (force simp: start_books_def dom_map_of_conv_image_fst)
  assume "start_books symbols s = Some b"
  then have "(s, b) \<in> set (rev (map (\<lambda>(s, tk). (s, book_new s tk)) symbols))"
    unfolding start_books_def by (rule map_of_SomeD)
  then show "\<exists>tk. b = book_new s tk" by auto
qed

lemma shard_start_fields [simp]:
  "view (shard_start fsync symbols d) = (start_books symbols, [])"
  "sh_wal (shard_start fsync symbols d) = wal_open fsync d"
  by (simp_all add: shard_start_def view_def start_books_def)

lemma start_ready:
  "\<forall>s \<in> fst ` set symbols. session_ok vk n (cmds_of s cs) \<Longrightarrow>
     shard_ready vk n cs (start_books symbols) (\<lambda>_. spec_empty)"
  unfolding shard_ready_def
proof (intro allI impI)
  fix s b
  assume ok: "\<forall>s \<in> fst ` set symbols. session_ok vk n (cmds_of s cs)" and b: "start_books symbols s = Some b"
  obtain tk where "b = book_new s tk" using start_books_new(2) [OF b] by blast
  moreover have "s \<in> fst ` set symbols" using b start_books_new(1) by blast
  ultimately show "ready vk n (cmds_of s cs) b spec_empty" using ok session_ready by blast
qed

lemma shard_steps_refine:
  assumes "slab_allocator vk" and "\<forall>s \<in> fst ` set symbols. session_ok vk n (cmds_of s (map snd cmds))"
    and "wal_append_all crc (map (\<lambda>x. logged ser (snd x)) cmds) (wal_open fsync d) = Inr wal" and "fsync \<noteq> Every 0"
  shows "\<exists>sh F. shard_steps vk n crc ser cmds (shard_start fsync symbols d) = Inr sh \<and>
    spec_shard (fst ` set symbols) (map snd cmds) (\<lambda>_. spec_empty) = Some (F, sh_out sh) \<and>
    dom (sh_books sh) = fst ` set symbols \<and> (\<forall>s b. sh_books sh s = Some b \<longrightarrow> rep vk b (F s))"
proof -
  obtain bk F ev where r: "spec_shard (fst ` set symbols) (map snd cmds) (\<lambda>_. spec_empty) = Some (F, ev)"
    "books_run vk n (map snd cmds) (start_books symbols, []) = Inr (bk, [] @ ev)"
    "dom bk = fst ` set symbols" "\<forall>s b. bk s = Some b \<longrightarrow> rep vk b (F s)"
    using books_run_refine [OF assms(1) start_ready [OF assms(2)], of "[]"] by (auto simp: start_books_new(1))
  have w: "ww_fsync (fst (sh_wal (shard_start fsync symbols d))) \<noteq> Every 0"
    "wal_append_all crc (map (\<lambda>x. logged ser (snd x)) cmds) (sh_wal (shard_start fsync symbols d)) = Inr wal"
    using assms(3,4) by (simp_all add: wal_open_def Let_def)
  obtain sh where "shard_steps vk n crc ser cmds (shard_start fsync symbols d) = Inr sh" "view sh = (bk, ev)"
    using shard_steps_view(1) [OF w, of vk n "(bk, ev)"] r(2) by auto
  then show ?thesis using r by (auto simp: view_def)
qed

lemma append_all_ok: "ww_fsync (fst wd) \<noteq> Every 0 \<Longrightarrow> \<exists>wd'. wal_append_all crc rs wd = Inr wd'"
proof (induction rs arbitrary: wd)
  case (Cons r rs)
  obtain wd1 where "wal_append crc (wr_seq r) (wr_ts r) (wr_type r) (wr_payload r) wd = Inr wd1"
    "ww_fsync (fst wd1) = ww_fsync (fst wd)"
    by (rule append_ok [OF Cons.prems])
  then show ?case using Cons by simp
qed simp

lemma run_shard_refine:
  assumes "slab_allocator vk" and "\<forall>s \<in> fst ` set symbols. session_ok vk n (cmds_of s (map snd cmds))"
    and "fsync \<noteq> Every 0"
  shows "\<exists>sh F. run_shard vk n crc ser fsync symbols d cmds = Inr sh \<and>
    spec_shard (fst ` set symbols) (map snd cmds) (\<lambda>_. spec_empty) = Some (F, sh_out sh) \<and>
    dom (sh_books sh) = fst ` set symbols \<and> (\<forall>s b. sh_books sh s = Some b \<longrightarrow> rep vk b (F s) \<and>
      (\<exists>ev. spec_run spec_empty (cmds_of s (map snd cmds)) = Some (F s, ev)))"
proof -
  have "ww_fsync (fst (wal_open fsync d)) \<noteq> Every 0" using assms(3) by (simp add: wal_open_def Let_def)
  then obtain wal where "wal_append_all crc (map (\<lambda>x. logged ser (snd x)) cmds) (wal_open fsync d) = Inr wal"
    using append_all_ok by blast
  then obtain sh F where r: "shard_steps vk n crc ser cmds (shard_start fsync symbols d) = Inr sh"
    "spec_shard (fst ` set symbols) (map snd cmds) (\<lambda>_. spec_empty) = Some (F, sh_out sh)"
    "dom (sh_books sh) = fst ` set symbols" "\<forall>s b. sh_books sh s = Some b \<longrightarrow> rep vk b (F s)"
    using shard_steps_refine [OF assms(1,2) _ assms(3)] by blast
  have "\<exists>ev. spec_run spec_empty (cmds_of s (map snd cmds)) = Some (F s, ev)" if "sh_books sh s = Some b" for s b
    using spec_shard_isolated [OF r(2), of s] that r(3) by blast
  then show ?thesis using r
    by (intro exI [of _ "sh\<lparr>sh_wal := wal_flush (sh_wal sh)\<rparr>"] exI [of _ F]) (simp add: run_shard_def)
qed

section \<open>Recovery\<close>

text \<open>The closure's state is the books with the events, or what it panicked with.\<close>

definition recover ::
  "(slab_op list \<Rightarrow> nat) \<Rightarrow> nat \<Rightarrow> (bytes \<Rightarrow> halt + sequenced) \<Rightarrow> wal_record \<Rightarrow>
   halt + (books \<times> output_event list) \<Rightarrow> (wal_error + unit) \<times> (halt + (books \<times> output_event list))" where
  "recover vk n de r st = (Inr (), rbind st (\<lambda>st. rbind (de (wr_payload r)) (\<lambda>c. book_step vk n c st)))"

lemma feed_recover:
  "list_all (\<lambda>c. 0 < sq_seq c \<and> de (ser c) = Inr c) cs \<Longrightarrow>
     snd (feed 0 (recover vk n de) (map (logged ser) cs) l st) = rbind st (books_run vk n cs)"
proof (induction cs arbitrary: l st)
  case (Cons c cs)
  have "recover vk n de (logged ser c) st = (Inr (), rbind st (book_step vk n c))"
    using Cons.prems by (simp add: recover_def)
  then have "snd (feed 0 (recover vk n de) (map (logged ser) (c # cs)) l st) =
      rbind (rbind st (book_step vk n c)) (books_run vk n cs)"
    using Cons by simp
  then show ?case by (cases st) simp_all
next
  case Nil
  show ?case by (cases st) simp_all
qed

lemma books_run_append:
  "books_run vk n (xs @ ys) = (\<lambda>st. rbind (books_run vk n xs st) (books_run vk n ys))"
proof (induction xs)
  case (Cons x xs)
  show ?case by (rule ext) (simp only: append_Cons books_run.simps Cons.IH rbind_assoc)
qed simp

text \<open>What recovery needs of the commands: the log's filter lets them through, they survive
  serialisation, and their records fit.\<close>

definition loggable :: "(sequenced \<Rightarrow> bytes) \<Rightarrow> (bytes \<Rightarrow> halt + sequenced) \<Rightarrow> sequenced list \<Rightarrow> bool" where
  "loggable ser de cs \<longleftrightarrow>
     list_all (\<lambda>c. 0 < sq_seq c \<and> de (ser c) = Inr c \<and> 17 + length (ser c) < 2 ^ 32) cs \<and> Suc (length cs) < 10 ^ 10"

lemma loggable_fits: "loggable ser de cs \<Longrightarrow> list_all fits (map (logged ser) cs)"
  by (auto simp: loggable_def list_all_iff fits_def)

lemma loggable_feed:
  "loggable ser de cs \<Longrightarrow>
     snd (feed 0 (recover vk n de) (take j (map (logged ser) cs)) l st) = rbind st (books_run vk n (take j cs))"
proof -
  assume "loggable ser de cs"
  then have "list_all (\<lambda>c. 0 < sq_seq c \<and> de (ser c) = Inr c) (take j cs)"
    by (auto simp: loggable_def list_all_iff dest: in_set_takeD)
  from feed_recover [OF this] show ?thesis by (simp add: take_map)
qed

end
