(* ===== verification/Shard_Recovery.thy ===== *)
theory Shard_Recovery
  imports Shard_Facts
begin

text \<open>
  What the log of a shard gives back, at any moment of its run: after a crash the state after
  some first commands, after a flush the state it is in. The properties of Shard_Properties
  and of the whole process rest on these lemmas.
\<close>

abbreviation empty_dir :: disk where
  "empty_dir \<equiv> \<lparr>files = [], synced = []\<rparr>"

abbreviation fresh_state :: "(symbol_id \<times> price) list \<Rightarrow> halt + (books \<times> output_event list)" where
  "fresh_state symbols \<equiv> Inr (start_books symbols, [])"

text \<open>The appends of a run, and its books.\<close>

lemma run_parts:
  assumes "shard_steps vk n crc ser cmds (shard_start fsync symbols d) = Inr sh" and "fsync \<noteq> Every 0"
  shows "wal_append_all crc (map (logged ser) (map snd cmds)) (wal_open fsync d) = Inr (sh_wal sh)"
    and "books_run vk n (map snd cmds) (start_books symbols, []) = Inr (view sh)"
proof -
  have o: "ww_fsync (fst (sh_wal (shard_start fsync symbols d))) \<noteq> Every 0"
    using assms(2) by (simp add: wal_open_def Let_def)
  obtain wal where w: "wal_append_all crc (map (\<lambda>x. logged ser (snd x)) cmds) (sh_wal (shard_start fsync symbols d)) = Inr wal"
    using append_all_ok [OF o] by blast
  show "books_run vk n (map snd cmds) (start_books symbols, []) = Inr (view sh)"
    using shard_steps_view(1) [OF o w, of vk n "view sh"] assms(1) by simp
  have "sh_wal sh = wal" by (rule shard_steps_view(2) [OF o w assms(1)])
  then show "wal_append_all crc (map (logged ser) (map snd cmds)) (wal_open fsync d) = Inr (sh_wal sh)"
    using w by (simp add: comp_def)
qed

text \<open>A run can be cut in two: its first commands are a run, and events are only added.\<close>

lemma shard_steps_append:
  "shard_steps vk n crc ser (xs @ ys) sh = rbind (shard_steps vk n crc ser xs sh) (shard_steps vk n crc ser ys)"
proof (induction xs arbitrary: sh)
  case (Cons x xs)
  obtain now c where x: "x = (now, c)" by (cases x)
  show ?case by (cases "shard_step vk n crc ser now c sh") (simp_all add: x Cons.IH)
qed simp

lemma shard_steps_snoc:
  "shard_steps vk n crc ser (cmds @ [(now, c)]) sh = rbind (shard_steps vk n crc ser cmds sh) (shard_step vk n crc ser now c)"
proof -
  have "shard_steps vk n crc ser [(now, c)] sh = shard_step vk n crc ser now c sh" for sh
    by (cases "shard_step vk n crc ser now c sh") simp_all
  then show ?thesis by (cases "shard_steps vk n crc ser cmds sh") (simp_all add: shard_steps_append)
qed

lemma prefix_runs:
  "shard_steps vk n crc ser (cmds @ cmds') sh = Inr sh' \<Longrightarrow> \<exists>sh1. shard_steps vk n crc ser cmds sh = Inr sh1"
  by (auto simp: shard_steps_append rbind_eq_Inr)

lemma shard_step_out: "shard_step vk n crc ser now c sh = Inr sh' \<Longrightarrow> \<exists>ev. sh_out sh' = sh_out sh @ ev"
  by (auto simp: shard_step_defs rbind_eq_Inr Let_def split: option.splits)

lemma shard_steps_out: "shard_steps vk n crc ser cmds sh = Inr sh' \<Longrightarrow> \<exists>ev. sh_out sh' = sh_out sh @ ev"
proof (induction cmds arbitrary: sh)
  case (Cons x cmds)
  obtain now c where x: "x = (now, c)" by (cases x)
  from Cons.prems obtain sh1 where "shard_step vk n crc ser now c sh = Inr sh1" "shard_steps vk n crc ser cmds sh1 = Inr sh'"
    by (auto simp: x rbind_eq_Inr)
  then show ?case using Cons.IH shard_step_out by (metis append_assoc)
qed simp

lemma prefix_state:
  assumes "shard_steps vk n crc ser cmds (shard_start fsync symbols d) = Inr sh" and "fsync \<noteq> Every 0"
  obtains sh' where "shard_steps vk n crc ser (take j cmds) (shard_start fsync symbols d) = Inr sh'"
    "books_run vk n (take j (map snd cmds)) (start_books symbols, []) = Inr (view sh')"
proof -
  obtain sh' where sh': "shard_steps vk n crc ser (take j cmds) (shard_start fsync symbols d) = Inr sh'"
    using prefix_runs [of vk n crc ser "take j cmds" "drop j cmds"] assms(1) by auto
  from run_parts(2) [OF this assms(2)] show ?thesis using sh' by (intro that) (simp_all add: take_map)
qed

text \<open>A crash keeps a prefix of the commands.\<close>

lemma crash_recovers:
  assumes "shard_steps vk n crc ser cmds (shard_start fsync symbols empty_dir) = Inr sh"
    and "fsync \<noteq> Every 0" and "loggable ser de (map snd cmds)"
  shows "\<exists>j sh'. shard_steps vk n crc ser (take j cmds) (shard_start fsync symbols empty_dir) = Inr sh' \<and>
      snd (replay crc 0 (recover vk n de) (cut_last m (files (snd (sh_wal sh)))) (fresh_state symbols)) = Inr (sh_books sh', sh_out sh')"
    and "fsync = PerRecord \<Longrightarrow>
      snd (replay crc 0 (recover vk n de) (files (snd (sh_wal sh))) (fresh_state symbols)) = Inr (sh_books sh, sh_out sh)"
    and "fsync = PerRecord \<Longrightarrow> fs_read (synced (snd (sh_wal sh))) = fs_read (files (snd (sh_wal sh)))"
proof -
  let ?rs = "map (logged ser) (map snd cmds)"
  have len: "Suc (length ?rs) < 10 ^ 10" using assms(3) by (simp add: loggable_def)
  note run = run_parts [OF assms(1,2)] and fed = loggable_feed [OF assms(3), of vk n]
  obtain wd where wd: "wal_append_all crc ?rs (wal_open fsync empty_dir) = Inr wd"
    "\<forall>m. \<exists>j. \<forall>after f (st :: halt + (books \<times> output_event list)).
       replay crc after f (cut_last m (files (snd wd))) st = feed after f (take j ?rs) after st"
    "\<exists>j. (\<forall>after f (st :: halt + (books \<times> output_event list)).
       replay crc after f (files (snd wd)) st = feed after f (take j ?rs) after st) \<and> 
      (fsync = PerRecord \<longrightarrow> take j ?rs = ?rs \<and> fs_read (synced (snd wd)) = fs_read (files (snd wd)))"
    using crash_replays [OF loggable_fits [OF assms(3)] assms(2) len, of crc] by blast
  have wal: "wd = sh_wal sh" using run(1) wd(1) by simp
  note w = wd(2,3) [unfolded wal]
  from w(1) obtain j where j: "replay crc 0 (recover vk n de) (cut_last m (files (snd (sh_wal sh)))) (fresh_state symbols) =
      feed 0 (recover vk n de) (take j ?rs) 0 (fresh_state symbols)" by blast
  obtain sh' where "shard_steps vk n crc ser (take j cmds) (shard_start fsync symbols empty_dir) = Inr sh'"
    "books_run vk n (take j (map snd cmds)) (start_books symbols, []) = Inr (view sh')"
    by (rule prefix_state [OF assms(1,2)])
  then show "\<exists>j sh'. shard_steps vk n crc ser (take j cmds) (shard_start fsync symbols empty_dir) = Inr sh' \<and>
      snd (replay crc 0 (recover vk n de) (cut_last m (files (snd (sh_wal sh)))) (fresh_state symbols)) = Inr (sh_books sh', sh_out sh')"
    using fed [of j] j by (intro exI [of _ j] exI [of _ sh']) (simp add: view_def)
  show "snd (replay crc 0 (recover vk n de) (files (snd (sh_wal sh))) (fresh_state symbols)) = Inr (sh_books sh, sh_out sh)"
    if "fsync = PerRecord"
    using w(2) that fed [of "length cmds"] run(2) by (auto simp: view_def)
  show "fs_read (synced (snd (sh_wal sh))) = fs_read (files (snd (sh_wal sh)))" if "fsync = PerRecord"
    using w(2) that by blast
qed

text \<open>A flush keeps them all.\<close>

lemma flush_recovers:
  assumes "shard_steps vk n crc ser cmds (shard_start fsync symbols empty_dir) = Inr sh"
    and "fsync \<noteq> Every 0" and "loggable ser de (map snd cmds)"
  shows "snd (replay crc 0 (recover vk n de) (files (snd (wal_flush (sh_wal sh)))) (fresh_state symbols)) = Inr (sh_books sh, sh_out sh)"
proof -
  let ?rs = "map (logged ser) (map snd cmds)"
  note run = run_parts [OF assms(1,2)]
  obtain wal where "wal_append_all crc ?rs (wal_open fsync empty_dir) = Inr wal"
    "replay crc 0 (recover vk n de) (files (snd (wal_flush wal))) (fresh_state symbols) = feed 0 (recover vk n de) ?rs 0 (fresh_state symbols)"
    using log_replays [OF _ loggable_fits [OF assms(3)] assms(2), of crc empty_dir "[]" 0 "recover vk n de" "fresh_state symbols"] assms(3)
    by (auto simp: dir_holds_empty loggable_def)
  then show ?thesis using run loggable_feed [OF assms(3), of vk n "length cmds"] by (simp add: view_def)
qed

end
