(* ===== verification/Shard_Properties.thy ===== *)
theory Shard_Properties
  imports Shard_Recovery
begin

text \<open>
  What a shard promises: its books follow the specification, symbol by symbol, and its log
  brings them back.
\<close>

section \<open>Matching\<close>

text \<open>
  C4: A shard implements one two-queue book per symbol. From a start on any log directory
  it never panics, it publishes exactly the events of the specification in the order of the
  commands, and each of its books ends as the specification of its own commands alone;
  commands for a symbol it does not own have no effect on books and events.
\<close>

theorem shard_implements:
  assumes "slab_allocator vk" and "\<forall>s \<in> fst ` set symbols. session_ok vk n (cmds_of s (map snd cmds))"
    and "fsync \<noteq> Every 0"
  shows "\<exists>sh F. run_shard vk n crc ser fsync symbols d cmds = Inr sh \<and>
    spec_shard (fst ` set symbols) (map snd cmds) (\<lambda>_. spec_empty) = Some (F, sh_out sh) \<and>
    dom (sh_books sh) = fst ` set symbols \<and> (\<forall>s b. sh_books sh s = Some b \<longrightarrow> rep vk b (F s) \<and>
      (\<exists>ev. spec_run spec_empty (cmds_of s (map snd cmds)) = Some (F s, ev)))"
  using run_shard_refine [OF assms] .

text \<open>The sample session for symbol 1, with a command for a symbol nobody owns in front.\<close>

definition stray :: sequenced where "stray = cmd_at 9 (Cancel 1 7)"

definition shard_sample :: "(u64 \<times> sequenced) list" where
  "shard_sample = map (\<lambda>c. (5000, c)) (stray # sample_session)"

definition sample_ser :: "sequenced \<Rightarrow> bytes" where
  "sample_ser c = [ucast (sq_seq c)]"

definition sample_de :: "bytes \<Rightarrow> halt + sequenced" where
  "sample_de bs =
     (case filter (\<lambda>c. sample_ser c = bs) (stray # sample_session) of
        [] \<Rightarrow> Inl Index_out_of_bounds | c # _ \<Rightarrow> Inr c)"

lemma shard_sample_cmds: "map snd shard_sample = stray # sample_session" "length shard_sample = 5"
  by (simp_all add: shard_sample_def comp_def) (simp add: sample_session_def)

lemma sample_symbol: "cmds_of 1 (stray # sample_session) = sample_session"
  by (simp add: stray_def cmd_symbol_def sample_session_def mk_order_def)

lemma sample_sessions: "\<forall>s \<in> fst ` set [(1, 1)]. session_ok stack_key 30 (cmds_of s (map snd shard_sample))"
  using sample_session_ok by (simp add: shard_sample_cmds sample_symbol del: cmds_of_simps)

lemma shard_implements_witness:
  "\<exists>sh. run_shard stack_key 30 (\<lambda>_. 0) sample_ser Off [(1, 1)] \<lparr>files = [], synced = []\<rparr> shard_sample = Inr sh \<and>
     sh_out sh = [Accepted 1 1, Accepted 2 2, Accepted 3 3, Accepted 4 4] \<and>
     (\<exists>b. sh_books sh 1 = Some b \<and> rep stack_key b sample_book)"
proof -
  let ?d = "\<lparr>files = [], synced = []\<rparr> :: disk"
  obtain sh F where r: "run_shard stack_key 30 (\<lambda>_. 0) sample_ser Off [(1, 1)] ?d shard_sample = Inr sh"
    "spec_shard {1} (stray # sample_session) (\<lambda>_. spec_empty) = Some (F, sh_out sh)"
    "dom (sh_books sh) = {1}"
    "\<forall>s b. sh_books sh s = Some b \<longrightarrow> rep stack_key b (F s) \<and>
      (\<exists>ev. spec_run spec_empty (cmds_of s (stray # sample_session)) = Some (F s, ev))"
    using shard_implements [OF stack.slab_allocator_axioms sample_sessions, of Off "\<lambda>_. 0" sample_ser ?d]
    by (auto simp: shard_sample_cmds simp del: cmds_of_simps spec_shard.simps)
  obtain b where b: "sh_books sh 1 = Some b" using r(3) by blast
  have "F 1 = sample_book \<and> sh_out sh = [Accepted 1 1, Accepted 2 2, Accepted 3 3, Accepted 4 4]"
    using r(2) sample_run by (auto simp: spec_shard_single sample_symbol simp del: cmds_of_simps spec_shard.simps)
  then show ?thesis using r b by metis
qed

section \<open>Recovery\<close>

text \<open>
  The log of a shard brings it back. After a run that ended (the senders gone, the log
  flushed), replaying its directory into new books, as the recovery test does, gives
  exactly the books and the events of the run. It asks that the commands survive
  serialisation, that their numbers are positive and that their records fit.
\<close>

lemma recovery_exact:
  assumes "run_shard vk n crc ser fsync symbols \<lparr>files = [], synced = []\<rparr> cmds = Inr sh"
    and "fsync \<noteq> Every 0" and "loggable ser de (map snd cmds)"
  shows "snd (replay crc 0 (recover vk n de) (files (snd (sh_wal sh))) (Inr (start_books symbols, []))) =
    Inr (sh_books sh, sh_out sh)"
proof -
  obtain sh1 where "shard_steps vk n crc ser cmds (shard_start fsync symbols \<lparr>files = [], synced = []\<rparr>) = Inr sh1"
    "sh = sh1\<lparr>sh_wal := wal_flush (sh_wal sh1)\<rparr>"
    using assms(1) by (auto simp: run_shard_def rbind_eq_Inr)
  then show ?thesis using flush_recovers [OF _ assms(2,3)] by simp
qed

lemma shard_sample_logs: "loggable sample_ser sample_de (map snd shard_sample)"
  by (simp add: loggable_def shard_sample_cmds sample_ser_def sample_de_def stray_def sample_session_def)

lemma recovery_exact_witness:
  "\<exists>sh. run_shard stack_key 30 (\<lambda>_. 0) sample_ser Off [(1, 1)] \<lparr>files = [], synced = []\<rparr> shard_sample = Inr sh \<and>
     snd (replay (\<lambda>_. 0) 0 (recover stack_key 30 sample_de) (files (snd (sh_wal sh))) (Inr (start_books [(1, 1)], []))) =
       Inr (sh_books sh, [Accepted 1 1, Accepted 2 2, Accepted 3 3, Accepted 4 4])"
proof -
  obtain sh F where r: "run_shard stack_key 30 (\<lambda>_. 0) sample_ser Off [(1, 1)] \<lparr>files = [], synced = []\<rparr> shard_sample = Inr sh"
    "spec_shard {1} (stray # sample_session) (\<lambda>_. spec_empty) = Some (F, sh_out sh)"
    using run_shard_refine [OF stack.slab_allocator_axioms sample_sessions, of Off "\<lambda>_. 0" sample_ser "\<lparr>files = [], synced = []\<rparr>"]
    by (auto simp: shard_sample_cmds simp del: cmds_of_simps spec_shard.simps)
  then have "sh_out sh = [Accepted 1 1, Accepted 2 2, Accepted 3 3, Accepted 4 4]"
    using sample_run by (auto simp: spec_shard_single sample_symbol simp del: cmds_of_simps spec_shard.simps)
  then show ?thesis using recovery_exact [OF r(1) _ shard_sample_logs] r(1) by auto
qed

text \<open>
  A shard that dies between two commands, losing what was buffered and any number of
  bytes at the end of its newest segment, loses at most the last commands: what replaying
  the files gives is the state of the run after some first \<open>j\<close> of them. With \<open>PerRecord\<close> and
  no bytes cut off it is the state at the crash.
\<close>

lemma crash_recovers_prefix:
  assumes "shard_steps vk n crc ser cmds (shard_start fsync symbols \<lparr>files = [], synced = []\<rparr>) = Inr sh"
    and "fsync \<noteq> Every 0" and "loggable ser de (map snd cmds)"
  shows "(\<forall>m. \<exists>j sh'. shard_steps vk n crc ser (take j cmds) (shard_start fsync symbols \<lparr>files = [], synced = []\<rparr>) = Inr sh' \<and>
      snd (replay crc 0 (recover vk n de) (cut_last m (files (snd (sh_wal sh)))) (Inr (start_books symbols, []))) =
        Inr (sh_books sh', sh_out sh')) \<and>
    (fsync = PerRecord \<longrightarrow>
      snd (replay crc 0 (recover vk n de) (files (snd (sh_wal sh))) (Inr (start_books symbols, []))) = Inr (sh_books sh, sh_out sh))"
  using crash_recovers(1,2) [OF assms] by blast

lemma crash_recovers_prefix_witness:
  "\<exists>sh. shard_steps stack_key 30 (\<lambda>_. 0) sample_ser shard_sample
       (shard_start PerRecord [(1, 1)] \<lparr>files = [], synced = []\<rparr>) = Inr sh \<and>
     snd (replay (\<lambda>_. 0) 0 (recover stack_key 30 sample_de) (files (snd (sh_wal sh))) (Inr (start_books [(1, 1)], []))) =
       Inr (sh_books sh, sh_out sh)"
proof -
  have "ww_fsync (fst (wal_open PerRecord \<lparr>files = [], synced = []\<rparr>)) \<noteq> Every 0" by (simp add: wal_open_def Let_def)
  from append_all_ok [OF this] obtain wal where "wal_append_all (\<lambda>_. 0) (map (\<lambda>x. logged sample_ser (snd x)) shard_sample)
      (wal_open PerRecord \<lparr>files = [], synced = []\<rparr>) = Inr wal" by blast
  then obtain sh where r: "shard_steps stack_key 30 (\<lambda>_. 0) sample_ser shard_sample
      (shard_start PerRecord [(1, 1)] \<lparr>files = [], synced = []\<rparr>) = Inr sh"
    using shard_steps_refine [OF stack.slab_allocator_axioms sample_sessions] by blast
  show ?thesis using crash_recovers_prefix [OF r _ shard_sample_logs] r by auto
qed

end
