(* ===== verification/Gateways.thy ===== *)
theory Gateways
  imports Engine "HOL-Library.Multiset"
begin

text \<open>
  The engine under concurrent submitters: each \<^verbatim>\<open>submit\<close> first takes a number
  (\<open>stamp\<close>) and later pushes (\<open>deliver\<close>), and shards pop, in any interleaving.
\<close>

section \<open>One submit\<close>

definition engine_ok :: "'c engine \<Rightarrow> bool" where
  "engine_ok en \<longleftrightarrow> length (en_senders en) = en_num_shards en \<and> 0 < en_num_shards en"

lemma stamp_simps [simp]:
  "stamp now cmd en =
     (\<lparr>sq_seq = current (en_sequencer en), sq_ts = word_of_nat now, sq_cmd = cmd\<rparr>,
      en\<lparr>en_sequencer := \<lparr>sq_next = current (en_sequencer en) + 1\<rparr>\<rparr>)"
  by (simp add: stamp_def next_seq_def current_def)

text \<open>A channel of commands is the ring of a shard.\<close>

locale command_ring = bounded_channel queued capacity is_open send recv
  for queued :: "'c \<Rightarrow> sequenced list" and capacity :: "'c \<Rightarrow> nat" and is_open :: "'c \<Rightarrow> bool"
    and send :: "sequenced \<Rightarrow> 'c \<Rightarrow> (sequenced try_send_error + unit) \<times> 'c"
    and recv :: "'c \<Rightarrow> (unit + sequenced) \<times> 'c"
begin

lemma deliver_cases:
  assumes "k < length (en_senders en)"
  obtains (pushed) ch where "is_open (en_senders en ! k)" "length (queued (en_senders en ! k)) < capacity (en_senders en ! k)"
      "deliver send k sc en = Inr (Inr (sq_seq sc), en\<lparr>en_senders := (en_senders en)[k := ch]\<rparr>)"
      "queued ch = queued (en_senders en ! k) @ [sc]"
  | (refused) "\<not> (is_open (en_senders en ! k) \<and> length (queued (en_senders en ! k)) < capacity (en_senders en ! k))"
      "deliver send k sc en = Inr (Inl (sq_cmd sc), en)"
  using push_cases [of "en_senders en ! k" sc] assms that by (auto simp: deliver_def)

lemma submit_result:
  assumes "engine_ok en" and "k = unat (cmd_symbol cmd) mod en_num_shards en"
  shows "\<exists>res en'. submit send now cmd en = Inr (res, en') \<and> engine_ok en' \<and>
    current (en_sequencer en') = current (en_sequencer en) + 1 \<and>
    (\<forall>j. j \<noteq> k \<longrightarrow> en_senders en' ! j = en_senders en ! j) \<and>
    (if is_open (en_senders en ! k) \<and> length (queued (en_senders en ! k)) < capacity (en_senders en ! k) then
       res = Inr (current (en_sequencer en)) \<and> queued (en_senders en' ! k) = queued (en_senders en ! k) @
         [\<lparr>sq_seq = current (en_sequencer en), sq_ts = word_of_nat now, sq_cmd = cmd\<rparr>]
     else res = Inl cmd \<and> en_senders en' = en_senders en)"
proof -
  let ?en = "en\<lparr>en_sequencer := \<lparr>sq_next = current (en_sequencer en) + 1\<rparr>\<rparr>"
  have k: "k < length (en_senders ?en)" "shard_for (cmd_symbol cmd) (en_num_shards en) = Inr k"
    using assms by (simp_all add: engine_ok_def shard_for_def)
  show ?thesis
    using k(1)
  proof (cases rule: deliver_cases [where en = ?en and
      sc = "\<lparr>sq_seq = current (en_sequencer en), sq_ts = word_of_nat now, sq_cmd = cmd\<rparr>"])
    case (pushed ch)
    then show ?thesis using k assms(1) by (simp add: submit_def engine_ok_def current_def)
  next
    case refused
    then show ?thesis using k assms(1) by (auto simp: submit_def engine_ok_def current_def)
  qed
qed

end

interpretation cq: command_ring bq_items bq_capacity bq_connected bq_send bq_recv
  by unfold_locales

section \<open>Symbols and their shards\<close>

lemma assign_symbols_filter:
  "0 < n \<Longrightarrow> length sss = n \<Longrightarrow>
     assign_symbols n ss sss = Inr (map (\<lambda>k. sss ! k @ filter (\<lambda>(s, _). unat s mod n = k) ss) [0..<n])"
proof (induction ss arbitrary: sss)
  case Nil
  then show ?case by (auto intro: nth_equalityI)
next
  case (Cons x ss)
  obtain s tk where x: "x = (s, tk)" by (cases x)
  have "unat s mod n < n" using Cons.prems(1) by simp
  then show ?case
    using Cons.IH [of "sss[unat s mod n := sss ! (unat s mod n) @ [(s, tk)]]"] Cons.prems
    by (auto simp: x shard_for_def nth_list_update)
qed

lemma shard_symbols_filter:
  "0 < n \<Longrightarrow> shard_symbols n ss = Inr (map (\<lambda>k. filter (\<lambda>(s, _). unat s mod n = k) ss) [0..<n])"
  by (simp add: shard_symbols_def assign_symbols_filter)

section \<open>Interleavings\<close>

text \<open>\<open>sy_flight\<close> holds the stamped commands on their way to the ring of a shard, \<open>sy_popped\<close>
  what each shard has taken, \<open>sy_taken\<close> counts the numbers given out.\<close>

record 'c system =
  sy_engine :: "'c engine"
  sy_flight :: "(nat \<times> sequenced) list"
  sy_popped :: "sequenced list list"
  sy_taken :: nat

inductive system_step ::
  "(sequenced \<Rightarrow> 'c \<Rightarrow> (sequenced try_send_error + unit) \<times> 'c) \<Rightarrow> ('c \<Rightarrow> (unit + sequenced) \<times> 'c) \<Rightarrow>
   'c system \<Rightarrow> 'c system \<Rightarrow> bool" for send recv where
  take_number: "shard_for (cmd_symbol cmd) (en_num_shards (sy_engine y)) = Inr k \<Longrightarrow>
     stamp now cmd (sy_engine y) = (sc, en) \<Longrightarrow>
     system_step send recv y
       (y\<lparr>sy_engine := en, sy_flight := sy_flight y @ [(k, sc)], sy_taken := Suc (sy_taken y)\<rparr>)"
| push: "sy_flight y = xs @ (k, sc) # ys \<Longrightarrow> deliver send k sc (sy_engine y) = Inr (res, en) \<Longrightarrow>
     system_step send recv y (y\<lparr>sy_engine := en, sy_flight := xs @ ys\<rparr>)"
| pop: "k < length (en_senders (sy_engine y)) \<Longrightarrow> k < length (sy_popped y) \<Longrightarrow>
     ring_pop recv (en_senders (sy_engine y) ! k) = (Some sc, ch) \<Longrightarrow>
     system_step send recv y
       (y\<lparr>sy_engine := (sy_engine y)\<lparr>en_senders := (en_senders (sy_engine y))[k := ch]\<rparr>,
          sy_popped := (sy_popped y)[k := sy_popped y ! k @ [sc]]\<rparr>)"

definition system_start :: "'c engine \<Rightarrow> 'c system" where
  "system_start en =
     \<lparr>sy_engine = en, sy_flight = [], sy_popped = replicate (en_num_shards en) [], sy_taken = 0\<rparr>"

text \<open>Every number that has been given out and not been refused, wherever its command is.\<close>

definition live_seqs :: "('c \<Rightarrow> sequenced list) \<Rightarrow> 'c system \<Rightarrow> u64 multiset" where
  "live_seqs queued y = image_mset sq_seq
     (mset (map snd (sy_flight y)) + mset (concat (map queued (en_senders (sy_engine y)))) + mset (concat (sy_popped y)))"

definition numbered :: "('c \<Rightarrow> sequenced list) \<Rightarrow> 'c system \<Rightarrow> bool" where
  "numbered queued y \<longleftrightarrow> current (en_sequencer (sy_engine y)) = word_of_nat (Suc (sy_taken y)) \<and>
     (Suc (sy_taken y) < 2 ^ 64 \<longrightarrow>
        (\<forall>s \<in># live_seqs queued y. 0 < unat s \<and> unat s \<le> sy_taken y \<and> count (live_seqs queued y) s = 1))"

lemma mset_concat_update:
  "k < length xss \<Longrightarrow> mset (concat (xss[k := xs])) + mset (xss ! k) = mset (concat xss) + mset xs"
proof (induction xss arbitrary: k)
  case (Cons ys xss)
  show ?case
  proof (cases k)
    case 0
    then show ?thesis by (simp add: ac_simps)
  next
    case (Suc j)
    then show ?thesis using Cons.IH [of j] Cons.prems by (simp add: add.assoc)
  qed
qed simp

lemma numbered_shrink:
  assumes "numbered queued y" and "live_seqs queued y' \<subseteq># live_seqs queued y" and "sy_taken y' = sy_taken y"
    and "en_sequencer (sy_engine y') = en_sequencer (sy_engine y)"
  shows "numbered queued y'"
proof -
  have "count (live_seqs queued y') s = 1" if "count (live_seqs queued y) s = 1" "s \<in># live_seqs queued y'" for s
    using mset_subset_eq_count [OF assms(2), of s] that count_greater_zero_iff [of "live_seqs queued y'" s] by linarith
  then show ?thesis using assms mset_subset_eqD [OF assms(2)] by (auto simp: numbered_def)
qed

context command_ring
begin

lemma system_step_numbered:
  assumes "system_step send recv y y'" and "numbered queued y"
  shows "numbered queued y'"
  using assms
proof cases
  case (take_number cmd k now sc en)
  then have live: "live_seqs queued y' = add_mset (current (en_sequencer (sy_engine y))) (live_seqs queued y)"
    by (auto simp: live_seqs_def)
  have cur: "current (en_sequencer (sy_engine y')) = word_of_nat (Suc (Suc (sy_taken y)))"
    using take_number assms(2) by (auto simp: numbered_def current_def)
  have "\<forall>s \<in># live_seqs queued y'. 0 < unat s \<and> unat s \<le> Suc (sy_taken y) \<and> count (live_seqs queued y') s = 1"
    if small: "Suc (Suc (sy_taken y)) < 2 ^ 64"
  proof -
    let ?c = "current (en_sequencer (sy_engine y))"
    have "unat (word_of_nat (Suc (sy_taken y)) :: u64) = Suc (sy_taken y) mod 2 ^ 64"
      unfolding unat_of_nat by simp
    moreover have "?c = word_of_nat (Suc (sy_taken y))" using assms(2) by (simp only: numbered_def)
    ultimately have c: "unat ?c = Suc (sy_taken y)" using small by simp
    have old: "\<forall>s \<in># live_seqs queued y. 0 < unat s \<and> unat s \<le> sy_taken y \<and> count (live_seqs queued y) s = 1"
      using assms(2) small by (simp add: numbered_def)
    then have "?c \<notin># live_seqs queued y" using c by fastforce
    then show ?thesis using old c unfolding live by (auto simp: count_eq_zero_iff)
  qed
  then show ?thesis using cur take_number by (simp add: numbered_def)
next
  case (push xs k sc ys res en)
  have k: "k < length (en_senders (sy_engine y))" using push(3) by (auto simp: deliver_def split: if_splits)
  have "live_seqs queued y' \<subseteq># live_seqs queued y \<and> en_sequencer (sy_engine y') = en_sequencer (sy_engine y)"
    using k
  proof (cases rule: deliver_cases [of k "sy_engine y" sc])
    case (pushed ch)
    then show ?thesis using push
        mset_concat_update [of k "map queued (en_senders (sy_engine y))" "queued ch"] k
      by (auto simp: live_seqs_def map_update)
  next
    case refused
    then show ?thesis using push by (auto simp: live_seqs_def)
  qed
  then show ?thesis using numbered_shrink [OF assms(2)] push(1) by simp
next
  case (pop k sc ch)
  have "queued (en_senders (sy_engine y) ! k) = sc # queued ch" by (rule pop_only [OF pop(4)])
  then have "mset (concat (map queued (en_senders (sy_engine y)))) =
      add_mset sc (mset (concat ((map queued (en_senders (sy_engine y)))[k := queued ch])))"
    using mset_concat_update [of k "map queued (en_senders (sy_engine y))" "queued ch"] pop(2) by simp
  moreover have "mset (concat ((sy_popped y)[k := sy_popped y ! k @ [sc]])) = add_mset sc (mset (concat (sy_popped y)))"
    using mset_concat_update [of k "sy_popped y" "sy_popped y ! k @ [sc]"] pop(3) by simp
  ultimately have "live_seqs queued y' = live_seqs queued y"
    using pop(1) by (simp add: live_seqs_def map_update)
  then show ?thesis using numbered_shrink [OF assms(2)] pop(1) by simp
qed

lemma reach_numbered:
  assumes "\<forall>ch \<in> set (en_senders en). queued ch = []" and "current (en_sequencer en) = 1"
    and "(system_step send recv)\<^sup>*\<^sup>* (system_start en) y"
  shows "numbered queued y"
  using assms(3)
proof (induction rule: rtranclp_induct)
  case base
  have "concat (map queued (en_senders en)) = []" using assms(1) by auto
  then show ?case using assms(2) by (simp add: numbered_def live_seqs_def system_start_def)
next
  case (step y y')
  then show ?case using system_step_numbered by blast
qed

end

end
