(* ===== verification/Engine_Properties.thy ===== *)
theory Engine_Properties
  imports Gateways Json_Codec Shard_Facts
begin

text \<open>
  What the front of the engine promises: where a command goes, which number it gets, and
  what concurrent submitters can and cannot do to each other.
\<close>

section \<open>Submitting\<close>

text \<open>
  C24: A submit never panics on a running engine and touches one ring only, its symbol's.
  With room there, the command is queued last under the next number, which is returned;
  without (or with the shard gone) the command comes back and no ring changes. The number
  is used up in both cases.
\<close>

theorem submit_delivers:
  assumes "command_ring queued capacity is_open send recv" and "engine_ok en"
    and "k = unat (cmd_symbol cmd) mod en_num_shards en"
  shows "\<exists>res en'. submit send now cmd en = Inr (res, en') \<and> engine_ok en' \<and>
    current (en_sequencer en') = current (en_sequencer en) + 1 \<and>
    (\<forall>j. j \<noteq> k \<longrightarrow> en_senders en' ! j = en_senders en ! j) \<and>
    (if is_open (en_senders en ! k) \<and> length (queued (en_senders en ! k)) < capacity (en_senders en ! k) then
       res = Inr (current (en_sequencer en)) \<and> queued (en_senders en' ! k) = queued (en_senders en ! k) @
         [\<lparr>sq_seq = current (en_sequencer en), sq_ts = word_of_nat now, sq_cmd = cmd\<rparr>]
     else res = Inl cmd \<and> en_senders en' = en_senders en)"
  by (rule command_ring.submit_result [OF assms])

text \<open>Two shards with room for one command each.\<close>

definition tiny_engine :: "sequenced bounded_queue engine" where
  "tiny_engine = \<lparr>en_senders = replicate 2 \<lparr>bq_items = [], bq_capacity = 1, bq_connected = True\<rparr>,
     en_sequencer = sequencer_new, en_num_shards = 2\<rparr>"

lemma submit_delivers_witness:
  "\<exists>res en. submit bq_send 77 (Cancel 5 3) tiny_engine = Inr (res, en) \<and> res = Inr 1 \<and>
     bq_items (en_senders en ! 1) = [\<lparr>sq_seq = 1, sq_ts = 77, sq_cmd = Cancel 5 3\<rparr>]"
  using submit_delivers [OF cq.command_ring_axioms, of tiny_engine 1 "Cancel 5 3" 77]
  by (auto simp: engine_ok_def tiny_engine_def cmd_symbol_def sequencer_new_def current_def)

section \<open>Which shard owns a symbol\<close>

text \<open>
  The engine starts with as many rings as shards, all empty and numbered from 1, and
  gives shard \<open>k\<close> exactly the symbols, in order, whose commands \<open>submit\<close> sends there: a
  configured symbol is owned by one shard, the one its commands reach. Without shards, any
  configured symbol is a panic.
\<close>

lemma start_matches_routing:
  "(0 < n \<longrightarrow> engine_start mk cap n symbols =
      Inr (\<lparr>en_senders = replicate n (mk cap), en_sequencer = sequencer_new, en_num_shards = n\<rparr>,
        map (\<lambda>k. filter (\<lambda>(s, _). shard_for s n = Inr k) symbols) [0..<n])) \<and>
   (symbols \<noteq> [] \<longrightarrow> engine_start mk cap 0 symbols = Inl Div_by_zero)"
proof -
  have "engine_start mk cap 0 symbols = Inl Div_by_zero" if "symbols \<noteq> []"
    using that by (cases symbols) (auto simp: engine_start_def shard_symbols_def shard_for_def)
  then show ?thesis by (simp add: engine_start_def shard_symbols_filter shard_for_def cong: filter_cong)
qed

lemma start_matches_routing_witness:
  "engine_start (\<lambda>c. \<lparr>bq_items = [] :: sequenced list, bq_capacity = c, bq_connected = True\<rparr>) 1 2 [(3, 1), (4, 1)] =
     Inr (tiny_engine, [[(4, 1)], [(3, 1)]])"
  using start_matches_routing [of 2 "\<lambda>c. \<lparr>bq_items = [] :: sequenced list, bq_capacity = c, bq_connected = True\<rparr>" 1 "[(3, 1), (4, 1)]"]
  by (simp add: tiny_engine_def shard_for_def upt_rec)

text \<open>
  The gateway's configuration uses one of its two shards: all four symbols have odd
  ids.
\<close>

lemma gateway_uses_one_shard:
  "map (\<lambda>s. shard_for (symbol_to_id s) 2) symbol_names = [Inr 1, Inr 1, Inr 1, Inr 1]"
  by (simp add: symbol_names_def AAPL_def MSFT_def TSLA_def GOOG_def ascii_def symbol_to_id_def hash_byte_def
      shard_for_def)

section \<open>Concurrent submitters\<close>

text \<open>
  C23: However submitters and shards interleave, no two commands in flight, queued or taken
  by a shard have the same sequence number, and all numbers are positive and given out
  (until \<open>2 ^ 64 - 1\<close> of them have been).
\<close>

theorem sequence_numbers_unique:
  assumes "command_ring queued capacity is_open send recv"
    and "\<forall>ch \<in> set (en_senders en). queued ch = []" and "current (en_sequencer en) = 1"
    and "(system_step send recv)\<^sup>*\<^sup>* (system_start en) y" and "Suc (sy_taken y) < 2 ^ 64"
  shows "distinct (map sq_seq (map snd (sy_flight y) @ concat (map queued (en_senders (sy_engine y))) @ concat (sy_popped y))) \<and>
    (\<forall>s \<in># live_seqs queued y. 0 < unat s \<and> unat s \<le> sy_taken y)"
proof -
  have "numbered queued y" by (rule command_ring.reach_numbered [OF assms(1-4)])
  then have n: "\<forall>s \<in># live_seqs queued y. 0 < unat s \<and> unat s \<le> sy_taken y \<and> count (live_seqs queued y) s = 1"
    using assms(5) by (simp add: numbered_def)
  have "live_seqs queued y = mset (map sq_seq (map snd (sy_flight y) @
      concat (map queued (en_senders (sy_engine y))) @ concat (sy_popped y)))"
    by (simp add: live_seqs_def image_mset_union flip: mset_map)
  then show ?thesis using n by (auto simp: distinct_count_atmost_1 count_eq_zero_iff)
qed

text \<open>One shard with room for eight commands, and what two submitters can do to its ring.\<close>

definition one_shard :: "sequenced bounded_queue engine" where
  "one_shard = \<lparr>en_senders = [\<lparr>bq_items = [], bq_capacity = 8, bq_connected = True\<rparr>],
     en_sequencer = sequencer_new, en_num_shards = 1\<rparr>"

abbreviation first_cmd :: sequenced where
  "first_cmd \<equiv> \<lparr>sq_seq = 1, sq_ts = 7, sq_cmd = Cancel 5 4\<rparr>"

abbreviation second_cmd :: sequenced where
  "second_cmd \<equiv> \<lparr>sq_seq = 2, sq_ts = 9, sq_cmd = Cancel 6 4\<rparr>"

definition two_submits :: "sequenced list \<Rightarrow> u64 \<Rightarrow> (nat \<times> sequenced) list \<Rightarrow> nat \<Rightarrow> sequenced bounded_queue system" where
  "two_submits items nxt flight taken =
     \<lparr>sy_engine = \<lparr>en_senders = [\<lparr>bq_items = items, bq_capacity = 8, bq_connected = True\<rparr>],
        en_sequencer = \<lparr>sq_next = nxt\<rparr>, en_num_shards = 1\<rparr>,
      sy_flight = flight, sy_popped = [[]], sy_taken = taken\<rparr>"

lemma overtake_steps:
  "system_start one_shard = two_submits [] 1 [] 0"
  "system_step bq_send bq_recv (two_submits [] 1 [] 0) (two_submits [] 2 [(0, first_cmd)] 1)"
  "system_step bq_send bq_recv (two_submits [] 2 [(0, first_cmd)] 1)
     (two_submits [] 3 [(0, first_cmd), (0, second_cmd)] 2)"
  "system_step bq_send bq_recv (two_submits [] 3 [(0, first_cmd), (0, second_cmd)] 2)
     (two_submits [second_cmd] 3 [(0, first_cmd)] 2)"
  "system_step bq_send bq_recv (two_submits [second_cmd] 3 [(0, first_cmd)] 2)
     (two_submits [second_cmd, first_cmd] 3 [] 2)"
proof -
  show "system_start one_shard = two_submits [] 1 [] 0"
    by (simp add: system_start_def one_shard_def two_submits_def sequencer_new_def)
  show "system_step bq_send bq_recv (two_submits [] 1 [] 0) (two_submits [] 2 [(0, first_cmd)] 1)"
    using system_step.take_number [of "Cancel 5 4" "two_submits [] 1 [] 0" 0 7]
    by (simp add: two_submits_def shard_for_def current_def)
  show "system_step bq_send bq_recv (two_submits [] 2 [(0, first_cmd)] 1)
      (two_submits [] 3 [(0, first_cmd), (0, second_cmd)] 2)"
    using system_step.take_number [of "Cancel 6 4" "two_submits [] 2 [(0, first_cmd)] 1" 0 9]
    by (simp add: two_submits_def shard_for_def current_def numeral_2_eq_2)
  show "system_step bq_send bq_recv (two_submits [] 3 [(0, first_cmd), (0, second_cmd)] 2)
      (two_submits [second_cmd] 3 [(0, first_cmd)] 2)"
    using system_step.push [of "two_submits [] 3 [(0, first_cmd), (0, second_cmd)] 2" "[(0, first_cmd)]" 0 second_cmd "[]" bq_send]
    by (simp add: two_submits_def deliver_def ring_try_push_def bq_send_def)
  show "system_step bq_send bq_recv (two_submits [second_cmd] 3 [(0, first_cmd)] 2)
      (two_submits [second_cmd, first_cmd] 3 [] 2)"
    using system_step.push [of "two_submits [second_cmd] 3 [(0, first_cmd)] 2" "[]" 0 first_cmd "[]" bq_send]
    by (simp add: two_submits_def deliver_def ring_try_push_def bq_send_def)
qed

lemma overtake_reach:
  "(system_step bq_send bq_recv)\<^sup>*\<^sup>* (system_start one_shard) (two_submits [second_cmd, first_cmd] 3 [] 2)"
  unfolding overtake_steps(1)
  using overtake_steps(2-5) by (meson converse_rtranclp_into_rtranclp rtranclp.rtrancl_refl)

lemma sequence_numbers_unique_witness:
  "distinct (map sq_seq [second_cmd, first_cmd]) \<and>
     (system_step bq_send bq_recv)\<^sup>*\<^sup>* (system_start one_shard) (two_submits [second_cmd, first_cmd] 3 [] 2)"
  using sequence_numbers_unique [OF cq.command_ring_axioms _ _ overtake_reach] overtake_reach
  by (simp add: one_shard_def current_def sequencer_new_def two_submits_def)

text \<open>
  Numbers are not queue positions. Two submitters can be numbered in one order and
  pushed in the other, so that a shard takes command 2 before command 1, logs them in that
  order, and a replay of that log behind sequence number 2 hands over nothing, command 1
  included.
\<close>

lemma submitters_overtake:
  "(\<exists>y. (system_step bq_send bq_recv)\<^sup>*\<^sup>* (system_start one_shard) y \<and>
      map bq_items (en_senders (sy_engine y)) = [[second_cmd, first_cmd]] \<and> sy_flight y = []) \<and>
   (\<exists>wd. wal_append_all crc (map (logged (\<lambda>_. [])) [second_cmd, first_cmd]) (wal_open Off \<lparr>files = [], synced = []\<rparr>) = Inr wd \<and>
      replay crc 2 f (files (snd (wal_flush wd))) st = (Inr 2, st))"
proof
  show "\<exists>y. (system_step bq_send bq_recv)\<^sup>*\<^sup>* (system_start one_shard) y \<and>
      map bq_items (en_senders (sy_engine y)) = [[second_cmd, first_cmd]] \<and> sy_flight y = []"
    by (intro exI [of _ "two_submits [second_cmd, first_cmd] 3 [] 2"] conjI overtake_reach)
      (simp_all add: two_submits_def)
  have "list_all fits (map (logged (\<lambda>_. [])) [second_cmd, first_cmd])" by (simp add: fits_def)
  from log_replays [OF _ this, of crc "\<lparr>files = [], synced = []\<rparr>" "[]" Off 2 f st]
  show "\<exists>wd. wal_append_all crc (map (logged (\<lambda>_. [])) [second_cmd, first_cmd]) (wal_open Off \<lparr>files = [], synced = []\<rparr>) = Inr wd \<and>
      replay crc 2 f (files (snd (wal_flush wd))) st = (Inr 2, st)"
    by (simp add: dir_holds_empty)
qed

end
