(* ===== verification/Egress.thy ===== *)
theory Egress
  imports Types
begin

text \<open>
  \<^verbatim>\<open>crates/engine/src/egress.rs\<close>: the fan-out of output events. A subscriber is an unbounded
  \<^verbatim>\<open>crossbeam\<close> channel; \<open>send\<close> is whether \<^verbatim>\<open>tx.send\<close> is \<open>Ok\<close>, \<open>recv\<close> is \<^verbatim>\<open>try_recv\<close>. A bus is
  the list of its subscribers; the mutex around it makes every operation atomic.
\<close>

type_synonym 'c egress_bus = "'c list"

text \<open>\<open>mk\<close> is a new channel.\<close>

definition subscribe :: "'c \<Rightarrow> 'c egress_bus \<Rightarrow> 'c egress_bus" where
  "subscribe mk subs = subs @ [mk]"

definition egress_bus_new :: "'c \<Rightarrow> 'c egress_bus" where
  "egress_bus_new mk = subscribe mk []"

text \<open>\<^verbatim>\<open>retain\<close> with a closure that changes what it looks at.\<close>

fun retain_subs :: "('c \<Rightarrow> bool \<times> 'c) \<Rightarrow> 'c list \<Rightarrow> 'c list" where
  "retain_subs f [] = []"
| "retain_subs f (ch # chs) =
     (case f ch of (True, ch') \<Rightarrow> ch' # retain_subs f chs | (False, _) \<Rightarrow> retain_subs f chs)"

definition egress_send :: "('e \<Rightarrow> 'c \<Rightarrow> bool \<times> 'c) \<Rightarrow> 'e \<Rightarrow> 'c egress_bus \<Rightarrow> 'c egress_bus" where
  "egress_send send e subs = retain_subs (send e) subs"

text \<open>\<^verbatim>\<open>all\<close> stops at the first event that cannot be sent.\<close>

fun send_all :: "('e \<Rightarrow> 'c \<Rightarrow> bool \<times> 'c) \<Rightarrow> 'e list \<Rightarrow> 'c \<Rightarrow> bool \<times> 'c" where
  "send_all send [] ch = (True, ch)"
| "send_all send (e # es) ch =
     (case send e ch of (True, ch') \<Rightarrow> send_all send es ch' | (False, ch') \<Rightarrow> (False, ch'))"

definition egress_send_batch ::
  "('e \<Rightarrow> 'c \<Rightarrow> bool \<times> 'c) \<Rightarrow> 'e list \<Rightarrow> 'c egress_bus \<Rightarrow> 'c egress_bus" where
  "egress_send_batch send es subs = (if es = [] then subs else retain_subs (send_all send es) subs)"

text \<open>The loop of \<^verbatim>\<open>drain\<close> ends when \<^verbatim>\<open>try_recv\<close> finds nothing.\<close>

partial_function (option) drain ::
  "('c \<Rightarrow> ('e \<times> 'c) option) \<Rightarrow> 'c \<Rightarrow> 'e list \<Rightarrow> ('e list \<times> 'c) option" where
  "drain recv ch out =
     (case recv ch of None \<Rightarrow> Some (out, ch) | Some (e, ch') \<Rightarrow> drain recv ch' (out @ [e]))"

section \<open>Unbounded channels\<close>

locale unbounded_channel =
  fixes queued :: "'c \<Rightarrow> 'e list" and alive :: "'c \<Rightarrow> bool"
    and send :: "'e \<Rightarrow> 'c \<Rightarrow> bool \<times> 'c" and recv :: "'c \<Rightarrow> ('e \<times> 'c) option"
  assumes send_alive: "alive ch \<Longrightarrow> \<exists>ch'. send x ch = (True, ch') \<and> queued ch' = queued ch @ [x] \<and> alive ch'"
    and send_dead: "\<not> alive ch \<Longrightarrow> send x ch = (False, ch)"
    and recv_first: "queued ch = x # xs \<Longrightarrow> \<exists>ch'. recv ch = Some (x, ch') \<and> queued ch' = xs"
    and recv_none: "queued ch = [] \<Longrightarrow> recv ch = None"
begin

lemma send_all_cases:
  "(alive ch \<longrightarrow> (\<exists>ch'. send_all send es ch = (True, ch') \<and> queued ch' = queued ch @ es \<and> alive ch')) \<and>
   (\<not> alive ch \<longrightarrow> es \<noteq> [] \<longrightarrow> send_all send es ch = (False, ch))"
proof (induction es arbitrary: ch)
  case (Cons e es)
  show ?case
  proof (cases "alive ch")
    case True
    then obtain ch1 where "send e ch = (True, ch1)" "queued ch1 = queued ch @ [e]" "alive ch1"
      using send_alive by blast
    then show ?thesis using Cons.IH [of ch1] True by auto
  next
    case False
    then show ?thesis by (simp add: send_dead)
  qed
qed simp

lemma batch_delivers:
  assumes "es \<noteq> []"
  shows "list_all2 (\<lambda>ch ch'. alive ch' \<and> queued ch' = queued ch @ es) (filter alive subs) (egress_send_batch send es subs)"
  using assms
proof (induction subs)
  case (Cons ch subs)
  show ?case
  proof (cases "alive ch")
    case True
    then obtain ch1 where "send_all send es ch = (True, ch1)" "queued ch1 = queued ch @ es" "alive ch1"
      using send_all_cases by blast
    then show ?thesis using Cons True by (simp add: egress_send_batch_def)
  next
    case False
    then have "send_all send es ch = (False, ch)" using send_all_cases Cons.prems by blast
    then show ?thesis using Cons False by (simp add: egress_send_batch_def)
  qed
qed (simp add: egress_send_batch_def)

lemma batch_alive: "list_all alive subs \<Longrightarrow> list_all2 (\<lambda>ch ch'. alive ch' \<and> queued ch' = queued ch @ es) subs (egress_send_batch send es subs)"
proof (cases "es = []")
  case True
  moreover assume "list_all alive subs"
  ultimately show ?thesis by (auto simp: egress_send_batch_def list.rel_refl_strong list_all_iff intro!: list.rel_refl_strong)
next
  case False
  moreover assume "list_all alive subs"
  then have "filter alive subs = subs" by (simp add: list_all_iff filter_id_conv)
  ultimately show ?thesis using batch_delivers [OF False, of subs] by simp
qed

lemma batches_deliver:
  "list_all alive subs \<Longrightarrow>
     list_all2 (\<lambda>ch ch'. alive ch' \<and> queued ch' = queued ch @ concat bss) subs (fold (egress_send_batch send) bss subs)"
proof (induction bss arbitrary: subs)
  case Nil
  then show ?case by (auto simp: list_all_iff intro!: list.rel_refl_strong)
next
  case (Cons es bss)
  have 1: "list_all2 (\<lambda>ch ch'. alive ch' \<and> queued ch' = queued ch @ es) subs (egress_send_batch send es subs)"
    by (rule batch_alive [OF Cons.prems])
  then have "list_all alive (egress_send_batch send es subs)"
    by (auto simp: list_all2_conv_all_nth list_all_length)
  from list_all2_trans [OF _ 1 Cons.IH [OF this]] show ?case by simp
qed

lemma drain_all: "\<exists>ch'. drain recv ch out = Some (out @ queued ch, ch') \<and> queued ch' = []"
proof (induction "queued ch" arbitrary: ch out)
  case Nil
  then show ?case by (subst drain.simps) (simp add: recv_none)
next
  case (Cons x xs)
  then obtain ch1 where "recv ch = Some (x, ch1)" "queued ch1 = xs" by (metis recv_first)
  moreover obtain ch2 where "drain recv ch1 (out @ [x]) = Some ((out @ [x]) @ xs, ch2)" "queued ch2 = []"
    using Cons.hyps(1) [of ch1 "out @ [x]"] calculation(2) by auto
  ultimately show ?case using Cons.hyps(2) [symmetric] by (subst drain.simps) simp
qed

end

text \<open>A list with a flag is such a channel.\<close>

type_synonym 'e list_channel = "bool \<times> 'e list"

definition lc_send :: "'e \<Rightarrow> 'e list_channel \<Rightarrow> bool \<times> 'e list_channel" where
  "lc_send x ch = (if fst ch then (True, (True, snd ch @ [x])) else (False, ch))"

definition lc_recv :: "'e list_channel \<Rightarrow> ('e \<times> 'e list_channel) option" where
  "lc_recv ch = (case snd ch of [] \<Rightarrow> None | x # xs \<Rightarrow> Some (x, (fst ch, xs)))"

interpretation lc: unbounded_channel snd fst lc_send lc_recv
  by unfold_locales (auto simp: lc_send_def lc_recv_def)

section \<open>Delivery\<close>

text \<open>
  C31: Every live subscriber gets every event of every batch from its subscription on, in
  order and without gaps, and \<open>drain\<close> returns all of it and ends. A dead subscriber is
  dropped at the next batch and disturbs nobody.
\<close>

theorem egress_delivers:
  assumes "unbounded_channel queued alive send recv" and "es \<noteq> []"
  shows "list_all2 (\<lambda>ch ch'. alive ch' \<and> queued ch' = queued ch @ es @ concat bss \<and>
      (\<exists>ch''. drain recv ch' [] = Some (queued ch @ es @ concat bss, ch'')))
    (filter alive subs) (fold (egress_send_batch send) bss (egress_send_batch send es subs))"
proof -
  note b = unbounded_channel.batch_delivers [OF assms, of subs]
  then have "list_all alive (egress_send_batch send es subs)"
    by (auto simp: list_all2_conv_all_nth list_all_length)
  from unbounded_channel.batches_deliver [OF assms(1) this, of bss]
  have "list_all2 (\<lambda>ch ch'. alive ch' \<and> queued ch' = queued ch @ es @ concat bss)
      (filter alive subs) (fold (egress_send_batch send) bss (egress_send_batch send es subs))"
    by (rule list_all2_trans [rotated, OF b]) auto
  then show ?thesis
    by (rule list_all2_mono) (metis unbounded_channel.drain_all [OF assms(1)] append_Nil)
qed

lemma egress_delivers_witness:
  "\<exists>a b. fold (egress_send_batch lc_send) [[], [Filled 2 8]]
       (egress_send_batch lc_send [Accepted 1 7] [(True, []), (False, []), (True, [Filled 1 6])]) = [a, b] \<and>
     snd a = [Accepted 1 7, Filled 2 8] \<and> snd b = [Filled 1 6, Accepted 1 7, Filled 2 8]"
  using egress_delivers [OF lc.unbounded_channel_axioms, of "[Accepted 1 7]" "[[], [Filled 2 8]]"
      "[(True, []), (False, []), (True, [Filled 1 6])]"]
  by (auto simp: list_all2_Cons1)

end
