(* ===== verification/Market_Data.thy ===== *)
theory Market_Data
  imports Dollars Book
begin

text \<open>
  \<^verbatim>\<open>crates/marketdata/src/snapshot_builder.rs\<close>, the events of \<^verbatim>\<open>bus.rs\<close>, and the egress
  consumer of \<^verbatim>\<open>crates/gateway/src/main.rs\<close> that drives the builders. The broadcast channel
  is \<^verbatim>\<open>tokio\<close>'s and publishing ignores its outcome, so a bus is the list of what was
  published.
\<close>

section \<open>Events and builders\<close>

datatype market_event =
  MTrade string f64 u64 string u64 u64
| MSnapshot string u64 "(f64 \<times> f64) list" "(f64 \<times> f64) list"
| MDelta string u64 "(f64 \<times> f64) list" "(f64 \<times> f64) list"

definition publish :: "market_event \<Rightarrow> market_event list \<Rightarrow> market_event list" where
  "publish ev bus = bus @ [ev]"

record snapshot_builder =
  sb_symbol :: symbol_id
  sb_sym_str :: string
  sb_bids :: "(price reverse, qty) btree"
  sb_asks :: "(price, qty) btree"
  sb_depth :: nat

definition builder_new :: "symbol_id \<Rightarrow> string \<Rightarrow> nat \<Rightarrow> snapshot_builder" where
  "builder_new s name n = \<lparr>sb_symbol = s, sb_sym_str = name, sb_bids = bt_empty, sb_asks = bt_empty, sb_depth = n\<rparr>"

definition u64_to_f64 :: "u64 \<Rightarrow> f64" where
  "u64_to_f64 q = f64_of_int (uint q)"

definition publish_snapshot :: "snapshot_builder \<Rightarrow> u64 \<Rightarrow> market_event list \<Rightarrow> market_event list" where
  "publish_snapshot b s bus =
     publish (MSnapshot (sb_sym_str b) s
       (map (\<lambda>(k, q). (ticks_to_dollars (unReverse k), u64_to_f64 q)) (take (sb_depth b) (sb_bids b)))
       (map (\<lambda>(p, q). (ticks_to_dollars p, u64_to_f64 q)) (take (sb_depth b) (sb_asks b)))) bus"

definition update_level :: "side \<Rightarrow> price \<Rightarrow> qty \<Rightarrow> snapshot_builder \<Rightarrow> snapshot_builder" where
  "update_level sd p q b =
     (case sd of
        Buy \<Rightarrow>
          if q = 0 then b\<lparr>sb_bids := bt_remove (Reverse p) (sb_bids b)\<rparr>
          else b\<lparr>sb_bids := bt_insert (Reverse p) q (sb_bids b)\<rparr>
      | Sell \<Rightarrow>
          if q = 0 then b\<lparr>sb_asks := bt_remove p (sb_asks b)\<rparr>
          else b\<lparr>sb_asks := bt_insert p q (sb_asks b)\<rparr>)"

fun side_str :: "side \<Rightarrow> string" where
  "side_str Buy = ''buy''" | "side_str Sell = ''sell''"

definition process ::
  "output_event \<Rightarrow> u64 \<Rightarrow> snapshot_builder \<Rightarrow> market_event list \<Rightarrow> snapshot_builder \<times> market_event list" where
  "process ev s b bus =
     (case ev of
        Trade _ _ _ p q sd t \<Rightarrow>
          (b, publish (MTrade (sb_sym_str b) (ticks_to_dollars p) q (side_str sd) s t) bus)
      | Accepted _ _ \<Rightarrow> (b, bus)
      | Filled _ _ \<Rightarrow> (b, publish_snapshot b s bus)
      | PartiallyFilled _ _ _ _ \<Rightarrow> (b, publish_snapshot b s bus)
      | Cancelled _ _ \<Rightarrow> (b, publish_snapshot b s bus)
      | _ \<Rightarrow> (b, bus))"

section \<open>The egress consumer\<close>

text \<open>The builders in the order the hash map visits them; both branches of the code's
  \<^verbatim>\<open>if let\<close> are the same loop.\<close>

fun process_all ::
  "output_event \<Rightarrow> u64 \<Rightarrow> snapshot_builder list \<Rightarrow> market_event list \<Rightarrow> snapshot_builder list \<times> market_event list" where
  "process_all ev s [] bus = ([], bus)"
| "process_all ev s (b # bs) bus =
     (let (b, bus) = process ev s b bus; (bs, bus) = process_all ev s bs bus in (b # bs, bus))"

fun consume ::
  "output_event list \<Rightarrow> u64 \<Rightarrow> snapshot_builder list \<Rightarrow> market_event list \<Rightarrow> snapshot_builder list \<times> market_event list" where
  "consume [] s bs bus = (bs, bus)"
| "consume (ev # evs) s bs bus =
     (let (bs, bus) = process_all ev (s + 1) bs bus in consume evs (s + 1) bs bus)"

definition run_consumer :: "(symbol_id \<times> string) list \<Rightarrow> output_event list \<Rightarrow> market_event list" where
  "run_consumer names evs = snd (consume evs 0 (map (\<lambda>(i, name). builder_new i name 20) names) [])"

section \<open>What reaches the feed\<close>

text \<open>The messages of an event for one symbol.\<close>

definition messages :: "string \<Rightarrow> u64 \<Rightarrow> output_event \<Rightarrow> market_event list" where
  "messages name s ev =
     (case ev of
        Trade _ _ _ p q sd t \<Rightarrow> [MTrade name (ticks_to_dollars p) q (side_str sd) s t]
      | Filled _ _ \<Rightarrow> [MSnapshot name s [] []]
      | PartiallyFilled _ _ _ _ \<Rightarrow> [MSnapshot name s [] []]
      | Cancelled _ _ \<Rightarrow> [MSnapshot name s [] []]
      | _ \<Rightarrow> [])"

lemma process_empty:
  "sb_bids b = [] \<Longrightarrow> sb_asks b = [] \<Longrightarrow> process ev s b bus = (b, bus @ messages (sb_sym_str b) s ev)"
  by (cases ev) (simp_all add: process_def messages_def publish_def publish_snapshot_def)

lemma process_all_empty:
  "\<forall>b \<in> set bs. sb_bids b = [] \<and> sb_asks b = [] \<Longrightarrow>
     process_all ev s bs bus = (bs, bus @ concat (map (\<lambda>b. messages (sb_sym_str b) s ev) bs))"
  by (induction bs arbitrary: bus) (simp_all add: process_empty)

lemma consume_empty:
  "\<forall>b \<in> set bs. sb_bids b = [] \<and> sb_asks b = [] \<Longrightarrow>
     consume evs (word_of_nat k) bs bus =
       (bs, bus @ concat (map (\<lambda>(i, ev). concat (map (\<lambda>b. messages (sb_sym_str b) (word_of_nat i) ev) bs))
         (enumerate (Suc k) evs)))"
proof (induction evs arbitrary: k bus)
  case (Cons ev evs)
  have "word_of_nat k + 1 = (word_of_nat (Suc k) :: u64)" by simp
  then show ?case using Cons.IH [of "Suc k"] Cons.prems by (simp only: consume.simps process_all_empty Let_def split) simp
qed simp

section \<open>Levels\<close>

lemma btree_ext:
  assumes "bt_wf m" and "bt_wf m'" and "bt_get m = bt_get m'"
  shows "m = m'"
proof -
  have "set m = set m'"
    using map_of_inject_set [OF bt_wf_distinct [OF assms(1)] bt_wf_distinct [OF assms(2)]] assms(3)
    by (simp add: bt_get_def fun_eq_iff)
  moreover have "sorted (map fst m)" "sorted (map fst m')" using assms(1,2) by (simp_all add: bt_wf_def strict_sorted_iff)
  ultimately show ?thesis
    using bt_wf_distinct [OF assms(1)] bt_wf_distinct [OF assms(2)] map_sorted_distinct_set_unique [of fst m m']
    by (auto simp: distinct_map inj_on_Un)
qed

definition level_of :: "snapshot_builder \<Rightarrow> side \<Rightarrow> price \<Rightarrow> qty" where
  "level_of b sd p =
     (case sd of Buy \<Rightarrow> bt_entry (Reverse p) 0 (sb_bids b) | Sell \<Rightarrow> bt_entry p 0 (sb_asks b))"

text \<open>Sorted, and without empty levels.\<close>

definition builder_ok :: "snapshot_builder \<Rightarrow> bool" where
  "builder_ok b \<longleftrightarrow> bt_wf (sb_bids b) \<and> bt_wf (sb_asks b) \<and>
     (\<forall>k. bt_get (sb_bids b) k \<noteq> Some 0) \<and> (\<forall>k. bt_get (sb_asks b) k \<noteq> Some 0)"

lemma update_level_ok:
  assumes "builder_ok b"
  shows "builder_ok (update_level sd p q b)"
    and "level_of (update_level sd p q b) = (level_of b)(sd := (level_of b sd)(p := q))"
proof -
  show "builder_ok (update_level sd p q b)"
    using assms by (cases sd) (auto simp: builder_ok_def update_level_def btree_simps)
  show "level_of (update_level sd p q b) = (level_of b)(sd := (level_of b sd)(p := q))"
    by (intro ext; case_tac x; cases sd) (auto simp: level_of_def update_level_def bt_entry_def btree_simps)
qed

lemma update_level_frame [simp]:
  "sb_sym_str (update_level sd p q b) = sb_sym_str b" "sb_depth (update_level sd p q b) = sb_depth b"
  by (cases sd; simp add: update_level_def)+

definition update_levels :: "(side \<times> price \<times> qty) list \<Rightarrow> snapshot_builder \<Rightarrow> snapshot_builder" where
  "update_levels = fold (\<lambda>(sd, p, q). update_level sd p q)"

text \<open>The quantity the last update of a level gave.\<close>

definition latest :: "(side \<times> price \<times> qty) list \<Rightarrow> (side \<Rightarrow> price \<Rightarrow> qty) \<Rightarrow> side \<Rightarrow> price \<Rightarrow> qty" where
  "latest = fold (\<lambda>(sd, p, q) f. f(sd := (f sd)(p := q)))"

lemma update_levels_ok:
  "builder_ok b \<Longrightarrow> builder_ok (update_levels us b) \<and> level_of (update_levels us b) = latest us (level_of b) \<and>
     sb_sym_str (update_levels us b) = sb_sym_str b \<and> sb_depth (update_levels us b) = sb_depth b"
  by (induction us arbitrary: b) (auto simp: update_levels_def latest_def update_level_ok)

lemma builder_new_ok: "builder_ok (builder_new s name n)" "level_of (builder_new s name n) = (\<lambda>_ _. 0)"
  by (auto simp: builder_ok_def builder_new_def bt_empty_def bt_get_def level_of_def bt_entry_def fun_eq_iff split: side.split)

definition book_level :: "order_book \<Rightarrow> side \<Rightarrow> price \<Rightarrow> qty" where
  "book_level bk sd p = (case get_level bk sd p of None \<Rightarrow> 0 | Some l \<Rightarrow> total_qty l)"

lemma levels_same:
  assumes "bt_wf m" and "\<forall>k. bt_get m k \<noteq> Some 0" and "bt_wf ls" and "\<forall>l \<in> snd ` set ls. total_qty l \<noteq> 0"
    and "\<And>k. bt_entry k 0 m = (case bt_get ls k of None \<Rightarrow> 0 | Some l \<Rightarrow> total_qty l)"
  shows "m = map (\<lambda>(k, l). (k, total_qty l)) ls"
proof (rule btree_ext [OF assms(1)])
  show "bt_wf (map (\<lambda>(k, l). (k, total_qty l)) ls)" using assms(3) by (simp add: bt_wf_def comp_def split_def)
  have "bt_get m k = map_option total_qty (bt_get ls k)" for k
  proof -
    have "total_qty l \<noteq> 0" if "bt_get ls k = Some l" for l
      using that assms(4) by (force simp: bt_get_def dest: map_of_SomeD)
    then show ?thesis using spec [OF assms(2), of k] assms(5) [of k]
      by (cases "bt_get m k"; cases "bt_get ls k") (fastforce simp: bt_entry_def)+
  qed
  then show "bt_get m = bt_get (map (\<lambda>(k, l). (k, total_qty l)) ls)"
    by (simp add: fun_eq_iff bt_get_def map_of_map)
qed

section \<open>Properties\<close>

text \<open>
  C36: The level interface is right: a builder that was told every change of a book's levels
  (in any order, each level's last quantity being the book's) publishes exactly the book's
  depth in dollars, best prices first.
\<close>

theorem snapshot_mirrors_book:
  assumes "bt_wf (bids bk)" and "bt_wf (asks bk)"
    and "\<forall>l \<in> snd ` set (bids bk) \<union> snd ` set (asks bk). total_qty l \<noteq> 0"
    and "latest us (\<lambda>_ _. 0) = book_level bk"
  shows "publish_snapshot (update_levels us (builder_new i name n)) s bus = bus @ [MSnapshot name s
    (map (\<lambda>(p, q). (ticks_to_dollars p, u64_to_f64 q)) (bs_bids (depth bk n)))
    (map (\<lambda>(p, q). (ticks_to_dollars p, u64_to_f64 q)) (bs_asks (depth bk n)))]"
proof -
  let ?b = "update_levels us (builder_new i name n)"
  have ok: "builder_ok ?b" "level_of ?b = book_level bk" "sb_sym_str ?b = name" "sb_depth ?b = n"
    using update_levels_ok [OF builder_new_ok(1), of us i name n] assms(4) builder_new_ok(2)
    by (simp_all add: builder_new_def)
  have lv: "level_of ?b sd p = book_level bk sd p" for sd p using ok(2) by simp
  have "sb_bids ?b = map (\<lambda>(k, l). (k, total_qty l)) (bids bk)"
  proof (rule levels_same)
    show "bt_entry k 0 (sb_bids ?b) = (case bt_get (bids bk) k of None \<Rightarrow> 0 | Some l \<Rightarrow> total_qty l)" for k
      using lv [of Buy "unReverse k"] by (simp add: level_of_def book_level_def get_level_def)
  qed (use ok(1) assms(1,3) in \<open>auto simp: builder_ok_def\<close>)
  moreover have "sb_asks ?b = map (\<lambda>(k, l). (k, total_qty l)) (asks bk)"
  proof (rule levels_same)
    show "bt_entry k 0 (sb_asks ?b) = (case bt_get (asks bk) k of None \<Rightarrow> 0 | Some l \<Rightarrow> total_qty l)" for k
      using lv [of Sell k] by (simp add: level_of_def book_level_def get_level_def)
  qed (use ok(1) assms(2,3) in \<open>auto simp: builder_ok_def\<close>)
  ultimately show ?thesis
    using ok(3,4) by (simp add: publish_snapshot_def publish_def depth_def take_map split_def comp_def)
qed

text \<open>A bid of 5 at 99.00, updated twice.\<close>

definition one_bid :: order_book where
  "one_bid = (book_new 1 1)\<lparr>bids := [(Reverse 990000, level_new\<lparr>total_qty := 5\<rparr>)]\<rparr>"

lemma snapshot_mirrors_book_witness:
  "publish_snapshot (update_levels [(Buy, 990000, 8), (Sell, 7, 0), (Buy, 990000, 5)] (builder_new 1 ''AAPL'' 20)) 4 [] =
     [MSnapshot ''AAPL'' 4 [(99, 5)] []]"
proof -
  have "latest [(Buy, 990000, 8), (Sell, 7, 0), (Buy, 990000, 5)] (\<lambda>_ _. 0) = book_level one_bid"
    by (intro ext; case_tac x)
      (auto simp: latest_def book_level_def get_level_def one_bid_def book_new_def bt_empty_def bt_get_def)
  moreover have "ticks_to_dollars 990000 = 99" "u64_to_f64 5 = 5" by code_simp+
  ultimately show ?thesis
    using snapshot_mirrors_book [of one_bid "[(Buy, 990000, 8), (Sell, 7, 0), (Buy, 990000, 5)]" 1 "''AAPL''" 20 4 "[]"]
    by (simp add: one_bid_def book_new_def bt_empty_def level_new_def depth_def bt_wf_def)
qed

text \<open>
  The feed never shows a book. Nothing tells the consumer's builders about levels, so
  every snapshot it ever publishes is empty, and every trade is published once for each
  configured symbol, whatever symbol it was in; orders that rest, are rejected or replaced
  publish nothing.
\<close>

lemma feed_has_no_levels:
  "run_consumer names evs =
     concat (map (\<lambda>(i, ev). concat (map (\<lambda>(_, name). messages name (word_of_nat i) ev) names)) (enumerate 1 evs))"
proof -
  let ?bs = "map (\<lambda>(i, name). builder_new i name 20) names"
  have "\<forall>b \<in> set ?bs. sb_bids b = [] \<and> sb_asks b = []" by (auto simp: builder_new_def bt_empty_def)
  from consume_empty [OF this, of evs 0 "[]"] show ?thesis
    by (simp add: run_consumer_def comp_def split_def builder_new_def)
qed

end
