(* ===== verification/Gateway_Session.thy ===== *)
theory Gateway_Session
  imports Gateways Json_Codec Binary Decimal
begin

text \<open>
  The clients' side of the gateway: \<^verbatim>\<open>crates/gateway/src/session.rs\<close> (one task per client)
  and the accept loop of \<^verbatim>\<open>tcp.rs\<close>. A line is what \<^verbatim>\<open>next_line\<close> gives: a list of Unicode
  scalar values without its line end. The text side of \<^verbatim>\<open>serde_json\<close> is two parameters,
  \<open>from_str\<close> (\<^verbatim>\<open>from_str::<JsonInbound>\<close>, with the message of its error) and \<open>ack\<close> (the
  printed \<^verbatim>\<open>json!\<close> of a submitted command).
\<close>

section \<open>Lines\<close>

type_synonym line = "nat list"

text \<open>\<^verbatim>\<open>char::is_whitespace\<close>.\<close>

definition white_space :: "nat \<Rightarrow> bool" where
  "white_space c \<longleftrightarrow> 9 \<le> c \<and> c \<le> 13 \<or> 8192 \<le> c \<and> c \<le> 8202 \<or>
     c \<in> {32, 133, 160, 5760, 8232, 8233, 8239, 8287, 12288}"

definition trim :: "line \<Rightarrow> line" where
  "trim s = rev (dropWhile white_space (rev (dropWhile white_space s)))"

definition parse_inbound :: "(line \<Rightarrow> string + json_inbound) \<Rightarrow> line \<Rightarrow> proto_error + json_inbound" where
  "parse_inbound from_str s = (case from_str s of Inl e \<Rightarrow> Inl (Json e) | Inr m \<Rightarrow> Inr m)"

text \<open>Printing may fail too; \<open>to_string\<close> is \<^verbatim>\<open>serde_json::to_string\<close>.\<close>

definition serialize_outbound :: "(json_outbound \<Rightarrow> string + string) \<Rightarrow> json_outbound \<Rightarrow> proto_error + string" where
  "serialize_outbound to_string msg = (case to_string msg of Inl e \<Rightarrow> Inl (Json e) | Inr s \<Rightarrow> Inr s)"

section \<open>Replies\<close>

definition hex_digit :: "nat \<Rightarrow> char" where
  "hex_digit n = char_of (if n < 10 then 48 + n else 87 + n)"

fun hex_str :: "nat \<Rightarrow> string" where
  "hex_str n = (if n < 16 then [hex_digit n] else hex_str (n div 16) @ [hex_digit (n mod 16)])"

declare hex_str.simps [simp del]

text \<open>The messages of \<^verbatim>\<open>error.rs\<close>.\<close>

fun proto_error_str :: "proto_error \<Rightarrow> string" where
  "proto_error_str Truncated = ''truncated message''"
| "proto_error_str (UnknownTag t) = ''unknown message tag: 0x'' @ hex_str (unat t)"
| "proto_error_str (BadField f) = ''invalid field: '' @ f"
| "proto_error_str (Json e) = ''json error: '' @ e"

definition newline :: char where "newline = CHR 0x0A"

definition error_reply :: "proto_error \<Rightarrow> string" where
  "error_reply e = ''{\"t\":\"error\",\"msg\":\"'' @ proto_error_str e @ ''\"}'' @ [newline]"

definition ring_full_reply :: string where
  "ring_full_reply = ''{\"t\":\"error\",\"msg\":\"ring_full\"}'' @ [newline]"

definition submitted_reply :: "(u64 \<Rightarrow> string) \<Rightarrow> u64 \<Rightarrow> string" where
  "submitted_reply ack s = ack s @ [newline]"

section \<open>One session\<close>

text \<open>What a line asks for: nothing, an error reply, or a command.\<close>

datatype request = Ignore | Refuse string | Ask command

definition line_request :: "(line \<Rightarrow> string + json_inbound) \<Rightarrow> line \<Rightarrow> request" where
  "line_request from_str line =
     (let line = trim line in
      if line = [] then Ignore
      else
        (case parse_inbound from_str line of
           Inl e \<Rightarrow> Refuse (error_reply e)
         | Inr msg \<Rightarrow> (case json_to_command msg of None \<Rightarrow> Ignore | Some c \<Rightarrow> Ask c)))"

text \<open>A failed write delivers nothing.\<close>

definition write_all :: "bool \<Rightarrow> string \<Rightarrow> string list \<Rightarrow> string list" where
  "write_all ok resp out = (if ok then out @ [resp] else out)"

text \<open>
  The loop, for a client nobody interferes with. Each line comes with the clock at its
  submit and whether the write of its reply succeeds. Only a failed write of an
  acknowledgement ends the session.
\<close>

fun handle_json_session ::
  "(line \<Rightarrow> string + json_inbound) \<Rightarrow> (u64 \<Rightarrow> string) \<Rightarrow>
   (sequenced \<Rightarrow> 'c \<Rightarrow> (sequenced try_send_error + unit) \<times> 'c) \<Rightarrow> (line \<times> nat \<times> bool) list \<Rightarrow>
   'c engine \<Rightarrow> string list \<Rightarrow> halt + ('c engine \<times> string list)" where
  "handle_json_session from_str ack send [] en out = Inr (en, out)"
| "handle_json_session from_str ack send ((line, now, ok) # ls) en out =
     (case line_request from_str line of
        Ignore \<Rightarrow> handle_json_session from_str ack send ls en out
      | Refuse resp \<Rightarrow> handle_json_session from_str ack send ls en (write_all ok resp out)
      | Ask cmd \<Rightarrow>
          rbind (submit send now cmd en) (\<lambda>(res, en).
          (case res of
             Inr s \<Rightarrow>
               if ok then handle_json_session from_str ack send ls en (out @ [submitted_reply ack s])
               else Inr (en, out)
           | Inl _ \<Rightarrow> handle_json_session from_str ack send ls en (write_all ok ring_full_reply out))))"

section \<open>All sessions and the shards\<close>

text \<open>
  A session between two steps: the lines still to come, the command it has numbered but not
  pushed yet, its replies, and (for the proofs only) the commands it got into a ring.
\<close>

record session =
  se_lines :: "line list"
  se_flight :: "(nat \<times> sequenced) option"
  se_out :: "string list"
  se_sent :: "(nat \<times> sequenced) list"

definition session_start :: "line list \<Rightarrow> session" where
  "session_start ls = \<lparr>se_lines = ls, se_flight = None, se_out = [], se_sent = []\<rparr>"

text \<open>\<open>gw_waiting\<close> are the connections not yet accepted, \<open>gw_popped\<close> what each shard took.\<close>

record 'c gateway =
  gw_engine :: "'c engine"
  gw_waiting :: "line list list"
  gw_sessions :: "session list"
  gw_popped :: "sequenced list list"

definition gateway_start :: "'c engine \<Rightarrow> line list list \<Rightarrow> 'c gateway" where
  "gateway_start en clients =
     \<lparr>gw_engine = en, gw_waiting = clients, gw_sessions = [], gw_popped = replicate (en_num_shards en) []\<rparr>"

abbreviation put_session :: "nat \<Rightarrow> session \<Rightarrow> 'c gateway \<Rightarrow> 'c gateway" where
  "put_session i s g \<equiv> g\<lparr>gw_sessions := (gw_sessions g)[i := s]\<rparr>"

text \<open>
  A step of any session, of the accept loop or of a shard. A session's \<^verbatim>\<open>submit\<close> is its two
  atomic steps, between which others may run.
\<close>

inductive gateway_step ::
  "(line \<Rightarrow> string + json_inbound) \<Rightarrow> (u64 \<Rightarrow> string) \<Rightarrow>
   (sequenced \<Rightarrow> 'c \<Rightarrow> (sequenced try_send_error + unit) \<times> 'c) \<Rightarrow> ('c \<Rightarrow> (unit + sequenced) \<times> 'c) \<Rightarrow>
   'c gateway \<Rightarrow> 'c gateway \<Rightarrow> bool" for from_str ack send recv where
  accept: "gw_waiting g = ls # w \<Longrightarrow>
     gateway_step from_str ack send recv g
       (g\<lparr>gw_waiting := w, gw_sessions := gw_sessions g @ [session_start ls]\<rparr>)"
| ignore: "i < length (gw_sessions g) \<Longrightarrow> gw_sessions g ! i = s \<Longrightarrow> se_flight s = None \<Longrightarrow> se_lines s = l # ls \<Longrightarrow>
     line_request from_str l = Ignore \<Longrightarrow>
     gateway_step from_str ack send recv g (put_session i (s\<lparr>se_lines := ls\<rparr>) g)"
| refuse: "i < length (gw_sessions g) \<Longrightarrow> gw_sessions g ! i = s \<Longrightarrow> se_flight s = None \<Longrightarrow> se_lines s = l # ls \<Longrightarrow>
     line_request from_str l = Refuse resp \<Longrightarrow>
     gateway_step from_str ack send recv g
       (put_session i (s\<lparr>se_lines := ls, se_out := write_all ok resp (se_out s)\<rparr>) g)"
| number: "i < length (gw_sessions g) \<Longrightarrow> gw_sessions g ! i = s \<Longrightarrow> se_flight s = None \<Longrightarrow> se_lines s = l # ls \<Longrightarrow>
     line_request from_str l = Ask cmd \<Longrightarrow> shard_for (cmd_symbol cmd) (en_num_shards (gw_engine g)) = Inr k \<Longrightarrow>
     stamp now cmd (gw_engine g) = (sc, en) \<Longrightarrow>
     gateway_step from_str ack send recv g
       (put_session i (s\<lparr>se_lines := ls, se_flight := Some (k, sc)\<rparr>) (g\<lparr>gw_engine := en\<rparr>))"
| push_ok: "i < length (gw_sessions g) \<Longrightarrow> gw_sessions g ! i = s \<Longrightarrow> se_flight s = Some (k, sc) \<Longrightarrow>
     deliver send k sc (gw_engine g) = Inr (Inr q, en) \<Longrightarrow>
     gateway_step from_str ack send recv g
       (put_session i (s\<lparr>se_flight := None, se_lines := (if ok then se_lines s else []),
          se_out := write_all ok (submitted_reply ack q) (se_out s), se_sent := se_sent s @ [(k, sc)]\<rparr>)
        (g\<lparr>gw_engine := en\<rparr>))"
| push_full: "i < length (gw_sessions g) \<Longrightarrow> gw_sessions g ! i = s \<Longrightarrow> se_flight s = Some (k, sc) \<Longrightarrow>
     deliver send k sc (gw_engine g) = Inr (Inl c, en) \<Longrightarrow>
     gateway_step from_str ack send recv g
       (put_session i (s\<lparr>se_flight := None, se_out := write_all ok ring_full_reply (se_out s)\<rparr>)
        (g\<lparr>gw_engine := en\<rparr>))"
| shard_pop: "k < length (en_senders (gw_engine g)) \<Longrightarrow> k < length (gw_popped g) \<Longrightarrow>
     ring_pop recv (en_senders (gw_engine g) ! k) = (Some sc, ch) \<Longrightarrow>
     gateway_step from_str ack send recv g
       (g\<lparr>gw_engine := (gw_engine g)\<lparr>en_senders := (en_senders (gw_engine g))[k := ch]\<rparr>,
          gw_popped := (gw_popped g)[k := gw_popped g ! k @ [sc]]\<rparr>)"

inductive_cases gateway_stepE: "gateway_step from_str ack send recv g g'"

end
