(* ===== verification/Gateway_Facts.thy ===== *)
theory Gateway_Facts
  imports Gateway_Session Shard_Facts "HOL-Library.Sublist"
begin

text \<open>
  Invariants of the gateway under every interleaving of sessions, accepts and shards: where
  the commands are (\<open>gateway_cmds\<close>), the order of each session's own commands, the bounds of
  the rings, and the measure that every step lowers.
\<close>

section \<open>The loop is made of the steps\<close>

lemma put_twice [simp]: "put_session i s (put_session i s' g) = put_session i s g"
  by simp

lemma submit_unfold:
  "submit send now cmd en = Inr (res, en') \<longleftrightarrow>
     (\<exists>k sc en1. shard_for (cmd_symbol cmd) (en_num_shards en) = Inr k \<and> stamp now cmd en = (sc, en1) \<and>
        deliver send k sc en1 = Inr (res, en'))"
  by (auto simp: submit_def rbind_eq_Inr split_def)

abbreviation session_at ::
  "'c gateway \<Rightarrow> nat \<Rightarrow> line list \<Rightarrow> (nat \<times> sequenced) option \<Rightarrow> string list \<Rightarrow> (nat \<times> sequenced) list \<Rightarrow> 'c engine \<Rightarrow> 'c gateway" where
  "session_at g i ls inflight out sent en \<equiv>
     put_session i \<lparr>se_lines = ls, se_flight = inflight, se_out = out, se_sent = sent\<rparr> (g\<lparr>gw_engine := en\<rparr>)"

lemma at_ignore:
  "i < length (gw_sessions g) \<Longrightarrow> line_request from_str l = Ignore \<Longrightarrow>
     gateway_step from_str ack send recv (session_at g i (l # ls) None out sent en) (session_at g i ls None out sent en)"
  using gateway_step.ignore [OF _ refl, where i = i and g = "session_at g i (l # ls) None out sent en"] by simp

lemma at_refuse:
  "i < length (gw_sessions g) \<Longrightarrow> line_request from_str l = Refuse resp \<Longrightarrow>
     gateway_step from_str ack send recv (session_at g i (l # ls) None out sent en)
       (session_at g i ls None (write_all ok resp out) sent en)"
  using gateway_step.refuse [OF _ refl, where i = i and g = "session_at g i (l # ls) None out sent en" and ok = ok] by simp

lemma at_number:
  "i < length (gw_sessions g) \<Longrightarrow> line_request from_str l = Ask cmd \<Longrightarrow> shard_for (cmd_symbol cmd) (en_num_shards en) = Inr k \<Longrightarrow>
     stamp now cmd en = (sc, en1) \<Longrightarrow>
     gateway_step from_str ack send recv (session_at g i (l # ls) None out sent en) (session_at g i ls (Some (k, sc)) out sent en1)"
  using gateway_step.number [OF _ refl, where i = i and g = "session_at g i (l # ls) None out sent en"] by (simp del: stamp_simps)

lemma at_full:
  "i < length (gw_sessions g) \<Longrightarrow> deliver send k sc en = Inr (Inl c, en1) \<Longrightarrow>
     gateway_step from_str ack send recv (session_at g i ls (Some (k, sc)) out sent en)
       (session_at g i ls None (write_all ok ring_full_reply out) sent en1)"
  using gateway_step.push_full [OF _ refl, where i = i and g = "session_at g i ls (Some (k, sc)) out sent en" and ok = ok] by simp

lemma at_pushed:
  "i < length (gw_sessions g) \<Longrightarrow> deliver send k sc en = Inr (Inr q, en1) \<Longrightarrow>
     gateway_step from_str ack send recv (session_at g i ls (Some (k, sc)) out sent en)
       (session_at g i (if ok then ls else []) None (write_all ok (submitted_reply ack q) out) (sent @ [(k, sc)]) en1)"
  using gateway_step.push_ok [OF _ refl, where i = i and g = "session_at g i ls (Some (k, sc)) out sent en" and ok = ok]
  by (cases ok) simp_all

lemma two_steps: "r x y \<Longrightarrow> r y z \<Longrightarrow> r\<^sup>*\<^sup>* x z"
  by (meson converse_rtranclp_into_rtranclp r_into_rtranclp)

lemma session_steps:
  assumes i: "i < length (gw_sessions g)"
  shows "handle_json_session from_str ack send ls en out = Inr (en', out') \<Longrightarrow>
    \<exists>sent'. (gateway_step from_str ack send recv)\<^sup>*\<^sup>*
      (put_session i \<lparr>se_lines = map fst ls, se_flight = None, se_out = out, se_sent = sent\<rparr> (g\<lparr>gw_engine := en\<rparr>))
      (put_session i \<lparr>se_lines = [], se_flight = None, se_out = out', se_sent = sent'\<rparr> (g\<lparr>gw_engine := en'\<rparr>))"
proof (induction ls arbitrary: en out sent)
  case Nil
  then show ?case by auto
next
  case (Cons x ls)
  obtain line now ok where x: "x = (line, now, ok)" by (cases x)
  let ?steps = "(gateway_step from_str ack send recv)\<^sup>*\<^sup>*"
  have from_there: "\<exists>sent'. ?steps (session_at g i (map fst (x # ls)) None out sent en) (session_at g i [] None out' sent' en')"
    if st: "?steps (session_at g i (line # map fst ls) None out sent en) (session_at g i (map fst ls) None out2 sent2 en2)"
      and rest: "handle_json_session from_str ack send ls en2 out2 = Inr (en', out')" for out2 sent2 en2
    using Cons.IH [OF rest, of sent2] st unfolding x by (auto intro: rtranclp_trans)
  show ?case
  proof (cases "line_request from_str line")
    case Ignore
    show ?thesis
      by (rule from_there, rule r_into_rtranclp, rule at_ignore [OF i Ignore]) (use Cons.prems Ignore in \<open>simp add: x\<close>)
  next
    case (Refuse resp)
    show ?thesis
      by (rule from_there, rule r_into_rtranclp, rule at_refuse [OF i Refuse, where ok = ok]) (use Cons.prems Refuse in \<open>simp add: x\<close>)
  next
    case (Ask cmd)
    then obtain res en2 where sub: "submit send now cmd en = Inr (res, en2)"
      and rest: "(case res of Inr s \<Rightarrow> if ok then handle_json_session from_str ack send ls en2 (out @ [submitted_reply ack s])
          else Inr (en2, out)
        | Inl _ \<Rightarrow> handle_json_session from_str ack send ls en2 (write_all ok ring_full_reply out)) = Inr (en', out')"
      using Cons.prems by (auto simp: x rbind_eq_Inr)
    obtain k sc en1 where s: "shard_for (cmd_symbol cmd) (en_num_shards en) = Inr k" "stamp now cmd en = (sc, en1)"
      "deliver send k sc en1 = Inr (res, en2)" using sub unfolding submit_unfold by blast
    note num = at_number [OF i Ask s(1,2), where ack = ack and send = send and recv = recv and ls = "map fst ls" and out = out and sent = sent]
    show ?thesis
    proof (cases res)
      case (Inl c)
      show ?thesis
        by (rule from_there, rule two_steps [where r = "gateway_step from_str ack send recv", OF num],
            rule at_full [OF i s(3) [unfolded Inl], where ok = ok]) (use rest Inl in simp)
    next
      case (Inr q)
      note st = two_steps [where r = "gateway_step from_str ack send recv", OF num at_pushed [OF i s(3) [unfolded Inr], where ok = ok]]
      show ?thesis
      proof (cases ok)
        case True
        show ?thesis by (rule from_there) (use st True rest Inr in \<open>simp_all add: write_all_def\<close>)
      next
        case False
        then have "en2 = en'" "out = out'" using rest Inr by simp_all
        then show ?thesis using st False by (auto simp: x write_all_def)
      qed
    qed
  qed
qed

section \<open>What is where\<close>

definition flights :: "session \<Rightarrow> (nat \<times> sequenced) list" where
  "flights s = (case se_flight s of None \<Rightarrow> [] | Some x \<Rightarrow> [x])"

lemma flights_simps [simp]:
  "se_flight s = None \<Longrightarrow> flights s = []" "se_flight s = Some x \<Longrightarrow> flights s = [x]"
  "flights (s\<lparr>se_lines := ls\<rparr>) = flights s" "flights (s\<lparr>se_out := rs\<rparr>) = flights s"
  "flights (s\<lparr>se_sent := xs\<rparr>) = flights s" "flights (s\<lparr>se_flight := Some x\<rparr>) = [x]"
  "flights (s\<lparr>se_flight := None\<rparr>) = []" "flights (session_start ls) = []"
  by (simp_all add: flights_def session_start_def)

lemma session_start_simps [simp]:
  "se_lines (session_start ls) = ls" "se_flight (session_start ls) = None" "se_out (session_start ls) = []"
  "se_sent (session_start ls) = []"
  by (simp_all add: session_start_def)

text \<open>The commands a list of lines asks for.\<close>

definition asked :: "(line \<Rightarrow> string + json_inbound) \<Rightarrow> line list \<Rightarrow> command list" where
  "asked from_str ls = concat (map (\<lambda>l. case line_request from_str l of Ask c \<Rightarrow> [c] | _ \<Rightarrow> []) ls)"

lemma asked_simps [simp]:
  "asked from_str [] = []"
  "asked from_str (l # ls) = (case line_request from_str l of Ask c \<Rightarrow> [c] | _ \<Rightarrow> []) @ asked from_str ls"
  by (simp_all add: asked_def)

definition session_cmds :: "(line \<Rightarrow> string + json_inbound) \<Rightarrow> session \<Rightarrow> command list" where
  "session_cmds from_str s = asked from_str (se_lines s) @ map (sq_cmd \<circ> snd) (flights s)"

definition gateway_cmds ::
  "(line \<Rightarrow> string + json_inbound) \<Rightarrow> ('c \<Rightarrow> sequenced list) \<Rightarrow> 'c gateway \<Rightarrow> command multiset" where
  "gateway_cmds from_str queued g =
     mset (concat (map (asked from_str) (gw_waiting g))) +
     mset (concat (map (session_cmds from_str) (gw_sessions g))) +
     image_mset sq_cmd (mset (concat (map queued (en_senders (gw_engine g)))) + mset (concat (gw_popped g)))"

text \<open>What stands in the ring of a shard or has been taken from it, oldest first.\<close>

definition lane :: "('c \<Rightarrow> sequenced list) \<Rightarrow> 'c gateway \<Rightarrow> nat \<Rightarrow> sequenced list" where
  "lane queued g k = gw_popped g ! k @ queued (en_senders (gw_engine g) ! k)"

definition route :: "'c gateway \<Rightarrow> command \<Rightarrow> nat" where
  "route g c = unat (cmd_symbol c) mod en_num_shards (gw_engine g)"

definition gateway_ok :: "('c \<Rightarrow> sequenced list) \<Rightarrow> 'c gateway \<Rightarrow> bool" where
  "gateway_ok queued g \<longleftrightarrow> engine_ok (gw_engine g) \<and> length (gw_popped g) = en_num_shards (gw_engine g) \<and>
     (\<forall>s \<in> set (gw_sessions g). \<forall>(k, sc) \<in> set (flights s). k = route g (sq_cmd sc)) \<and>
     (\<forall>k < en_num_shards (gw_engine g). \<forall>sc \<in> set (lane queued g k). route g (sq_cmd sc) = k)"

lemma mset_concat_put:
  assumes "i < length xs"
  shows "mset (concat (map f (xs[i := x]))) + mset (f (xs ! i)) = mset (concat (map f xs)) + mset (f x)"
  using mset_concat_update [of i "map f xs" "f x"] assms by (simp add: map_update)

lemma in_list_update: "x \<in> set (xs[i := y]) \<Longrightarrow> x = y \<or> x \<in> set xs"
  using set_update_subset_insert by fastforce

section \<open>One step\<close>

text \<open>What the engine and the lanes do in a step: nothing, give out a number, take a command
  into a lane, or move one within its lane.\<close>

context command_ring
begin

lemma push_lane:
  assumes "deliver send k sc en = Inr (Inr q, en')" and "k < length (en_senders en)"
  obtains ch where "en' = en\<lparr>en_senders := (en_senders en)[k := ch]\<rparr>" "queued ch = queued (en_senders en ! k) @ [sc]"
    "length (queued ch) \<le> capacity (en_senders en ! k)" "capacity ch = capacity (en_senders en ! k)" "q = sq_seq sc"
  using push_cases [of "en_senders en ! k" sc] assms that by (auto simp: deliver_def)

lemma full_lane:
  assumes "deliver send k sc en = Inr (Inl c, en')" and "k < length (en_senders en)"
  shows "en' = en"
  using push_cases [of "en_senders en ! k" sc] assms by (auto simp: deliver_def)

lemma deliver_ok: "k < length (en_senders en) \<Longrightarrow> \<exists>res en'. deliver send k sc en = Inr (res, en')"
  by (auto simp: deliver_def split: sum.splits prod.splits)

lemma pop_lane:
  assumes "ring_pop recv ch = (Some sc, ch')"
  shows "queued ch = sc # queued ch'" "capacity ch' = capacity ch"
proof -
  show "queued ch = sc # queued ch'" by (rule pop_only [OF assms])
  then show "capacity ch' = capacity ch" using recv_first [of ch] assms by (fastforce simp: ring_pop_def)
qed

text \<open>The engine's shape, and the effect of a push or a pop on the lanes.\<close>

lemma shape:
  assumes "gateway_ok queued g"
  shows "length (en_senders (gw_engine g)) = en_num_shards (gw_engine g)" "0 < en_num_shards (gw_engine g)"
    "length (gw_popped g) = en_num_shards (gw_engine g)"
  using assms by (auto simp: gateway_ok_def engine_ok_def)

lemma flight_route:
  assumes "gateway_ok queued g" and "i < length (gw_sessions g)" and "se_flight (gw_sessions g ! i) = Some (k, sc)"
  shows "k < length (en_senders (gw_engine g))" "k < length (gw_popped g)" "route g (sq_cmd sc) = k"
proof -
  show "route g (sq_cmd sc) = k" using assms by (fastforce simp: gateway_ok_def dest: nth_mem)
  then have "k < en_num_shards (gw_engine g)" using shape(2) [OF assms(1)] by (auto simp: route_def)
  then show "k < length (en_senders (gw_engine g))" "k < length (gw_popped g)" using shape [OF assms(1)] by simp_all
qed

lemma lane_engine: "lane queued (g\<lparr>gw_waiting := w\<rparr>) = lane queued g" "lane queued (g\<lparr>gw_sessions := ss\<rparr>) = lane queued g"
  by (simp_all add: lane_def fun_eq_iff)

lemma lane_push:
  assumes "k < length (en_senders (gw_engine g))" and "queued ch = queued (en_senders (gw_engine g) ! k) @ [sc]"
  shows "lane queued (g\<lparr>gw_engine := (gw_engine g)\<lparr>en_senders := (en_senders (gw_engine g))[k := ch]\<rparr>\<rparr>) j =
    (if j = k then lane queued g k @ [sc] else lane queued g j)"
  using assms by (simp add: lane_def)

lemma lane_pop:
  assumes "k < length (en_senders (gw_engine g))" and "k < length (gw_popped g)"
    and "queued (en_senders (gw_engine g) ! k) = sc # queued ch"
  shows "lane queued (g\<lparr>gw_engine := (gw_engine g)\<lparr>en_senders := (en_senders (gw_engine g))[k := ch]\<rparr>,
      gw_popped := (gw_popped g)[k := gw_popped g ! k @ [sc]]\<rparr>) j = lane queued g j"
  by (cases "j = k") (use assms in \<open>simp_all add: lane_def\<close>)

lemma route_simps [simp]:
  "route (g\<lparr>gw_waiting := w\<rparr>) = route g" "route (g\<lparr>gw_sessions := ss\<rparr>) = route g"
  "route (g\<lparr>gw_popped := p\<rparr>) = route g"
  "route (g\<lparr>gw_engine := (gw_engine g)\<lparr>en_senders := es\<rparr>\<rparr>) = route g"
  "route (g\<lparr>gw_engine := (gw_engine g)\<lparr>en_sequencer := q\<rparr>\<rparr>) = route g"
  by (simp_all add: route_def fun_eq_iff)

lemma gateway_ok_sessions:
  assumes "gateway_ok queued g" and "\<And>s k sc. s \<in> set ss \<Longrightarrow> (k, sc) \<in> set (flights s) \<Longrightarrow> k = route g (sq_cmd sc)"
  shows "gateway_ok queued (g\<lparr>gw_sessions := ss\<rparr>)"
  using assms by (auto simp: gateway_ok_def lane_engine)

lemma gateway_ok_put:
  assumes "gateway_ok queued g" and "\<And>k sc. (k, sc) \<in> set (flights s) \<Longrightarrow> k = route g (sq_cmd sc)"
  shows "gateway_ok queued (put_session i s g)"
  using assms by (intro gateway_ok_sessions) (auto simp: gateway_ok_def dest!: in_list_update)

text \<open>The steps with their effects worked out.\<close>

lemma gateway_cases:
  assumes "gateway_step from_str ack send recv g g'" and "gateway_ok queued g"
  obtains (accept) ls w where "gw_waiting g = ls # w"
      "g' = g\<lparr>gw_waiting := w, gw_sessions := gw_sessions g @ [session_start ls]\<rparr>"
  | (silent) i l s' where "i < length (gw_sessions g)" "se_flight (gw_sessions g ! i) = None" "se_flight s' = None"
      "se_lines (gw_sessions g ! i) = l # se_lines s'" "\<And>c. line_request from_str l \<noteq> Ask c"
      "se_sent s' = se_sent (gw_sessions g ! i)" "g' = put_session i s' g"
  | (number) i l ls c k now sc where "i < length (gw_sessions g)" "se_flight (gw_sessions g ! i) = None"
      "se_lines (gw_sessions g ! i) = l # ls" "line_request from_str l = Ask c" "k = route g c"
      "sc = \<lparr>sq_seq = current (en_sequencer (gw_engine g)), sq_ts = word_of_nat now, sq_cmd = c\<rparr>"
      "g' = put_session i ((gw_sessions g ! i)\<lparr>se_lines := ls, se_flight := Some (k, sc)\<rparr>) (g\<lparr>gw_engine :=
         (gw_engine g)\<lparr>en_sequencer := \<lparr>sq_next = current (en_sequencer (gw_engine g)) + 1\<rparr>\<rparr>\<rparr>)"
  | (push) i k sc s' ch where "i < length (gw_sessions g)" "se_flight (gw_sessions g ! i) = Some (k, sc)"
      "se_flight s' = None" "se_lines s' = se_lines (gw_sessions g ! i) \<or> se_lines s' = []"
      "se_sent s' = se_sent (gw_sessions g ! i) @ [(k, sc)]"
      "k < length (en_senders (gw_engine g))" "route g (sq_cmd sc) = k"
      "queued ch = queued (en_senders (gw_engine g) ! k) @ [sc]" "capacity ch = capacity (en_senders (gw_engine g) ! k)"
      "length (queued ch) \<le> capacity ch"
      "g' = put_session i s' (g\<lparr>gw_engine := (gw_engine g)\<lparr>en_senders := (en_senders (gw_engine g))[k := ch]\<rparr>\<rparr>)"
  | (full) i k sc s' where "i < length (gw_sessions g)" "se_flight (gw_sessions g ! i) = Some (k, sc)"
      "se_flight s' = None" "se_lines s' = se_lines (gw_sessions g ! i)" "se_sent s' = se_sent (gw_sessions g ! i)"
      "g' = put_session i s' g"
  | (pop) k sc ch where "k < length (en_senders (gw_engine g))" "k < length (gw_popped g)"
      "queued (en_senders (gw_engine g) ! k) = sc # queued ch" "capacity ch = capacity (en_senders (gw_engine g) ! k)"
      "g' = g\<lparr>gw_engine := (gw_engine g)\<lparr>en_senders := (en_senders (gw_engine g))[k := ch]\<rparr>,
          gw_popped := (gw_popped g)[k := gw_popped g ! k @ [sc]]\<rparr>"
  using assms(1)
proof cases
  case (accept ls w)
  then show thesis using that(1) by blast
next
  case (ignore i s l ls)
  then show thesis by (intro that(2) [of i "s\<lparr>se_lines := ls\<rparr>" l]) simp_all
next
  case (refuse i s l ls resp ok)
  then show thesis by (intro that(2) [of i "s\<lparr>se_lines := ls, se_out := write_all ok resp (se_out s)\<rparr>" l]) simp_all
next
  case (number i s l ls cmd k now sc en)
  have "k = route g cmd" using number(7) by (auto simp: route_def shard_for_def split: if_splits)
  with number show thesis by (intro that(3) [of i l ls cmd k sc now]) auto
next
  case (push_ok i s k sc q en ok)
  have k: "k < length (en_senders (gw_engine g))" "route g (sq_cmd sc) = k"
    using flight_route [OF assms(2) push_ok(2)] push_ok(3,4) by simp_all
  obtain ch where "en = (gw_engine g)\<lparr>en_senders := (en_senders (gw_engine g))[k := ch]\<rparr>"
    "queued ch = queued (en_senders (gw_engine g) ! k) @ [sc]"
    "length (queued ch) \<le> capacity (en_senders (gw_engine g) ! k)"
    "capacity ch = capacity (en_senders (gw_engine g) ! k)" by (rule push_lane [OF push_ok(5) k(1)])
  with push_ok k show thesis
    by (intro that(4) [of i k sc "s\<lparr>se_flight := None, se_lines := (if ok then se_lines s else []),
      se_out := write_all ok (submitted_reply ack q) (se_out s), se_sent := se_sent s @ [(k, sc)]\<rparr>" ch]) simp_all
next
  case (push_full i s k sc c en ok)
  have "en = gw_engine g"
    by (rule full_lane [OF push_full(5)]) (use flight_route [OF assms(2) push_full(2)] push_full(3,4) in simp)
  with push_full show thesis
    by (intro that(5) [of i k sc "s\<lparr>se_flight := None, se_out := write_all ok ring_full_reply (se_out s)\<rparr>"]) simp_all
next
  case (shard_pop k sc ch)
  then show thesis using pop_lane [OF shard_pop(4)] by (intro that(6) [of k sc ch]) simp_all
qed

lemma gateway_ok_step:
  assumes "gateway_step from_str ack send recv g g'" and "gateway_ok queued g"
  shows "gateway_ok queued g'"
  using assms
proof (cases rule: gateway_cases)
  case (accept ls w)
  have "gateway_ok queued (g\<lparr>gw_waiting := w\<rparr>)" using assms(2) by (simp add: gateway_ok_def lane_engine)
  then show ?thesis
    unfolding accept(2) using assms(2)
    by (intro gateway_ok_sessions [of "g\<lparr>gw_waiting := w\<rparr>" "gw_sessions g @ [session_start ls]", simplified])
      (auto simp: gateway_ok_def)
next
  case (number i l ls c k now sc)
  let ?en = "(gw_engine g)\<lparr>en_sequencer := \<lparr>sq_next = current (en_sequencer (gw_engine g)) + 1\<rparr>\<rparr>"
  have "gateway_ok queued (g\<lparr>gw_engine := ?en\<rparr>)" using assms(2) by (simp add: gateway_ok_def engine_ok_def lane_def)
  then show ?thesis unfolding number(7) using number(5,6) by (intro gateway_ok_put) auto
next
  case (push i k sc s' ch)
  have "gateway_ok queued (g\<lparr>gw_engine := (gw_engine g)\<lparr>en_senders := (en_senders (gw_engine g))[k := ch]\<rparr>\<rparr>)"
    using assms(2) push(7) lane_push [OF push(6,8)] by (auto simp: gateway_ok_def engine_ok_def)
  then show ?thesis unfolding push(11) using push(3) by (intro gateway_ok_put) simp_all
next
  case (pop k sc ch)
  then show ?thesis using assms(2) lane_pop [OF pop(1-3)] by (auto simp: gateway_ok_def engine_ok_def)
qed (use assms(2) in \<open>auto intro!: gateway_ok_put\<close>)

end

section \<open>Error replies\<close>

text \<open>
  The message goes into the reply as it is. A quotation mark in it, which \<^verbatim>\<open>serde_json\<close> uses
  around offending values, stays one: the reply has an odd number of quotation marks for an
  odd number in the message, and is not a JSON text when there is any.
\<close>

lemma error_reply_unescaped:
  "count_list (error_reply e) (CHR 0x22) = 8 + count_list (proto_error_str e) (CHR 0x22)"
  by (simp add: error_reply_def newline_def)

end
