(* ===== verification/Gateway_Runs.thy ===== *)
theory Gateway_Runs
  imports Gateway_Facts
begin

text \<open>
  What holds in every state the gateway reaches (\<open>gateway_inv\<close>), and why it comes to rest.
\<close>

section \<open>The order of a session's own commands\<close>

definition numbers :: "(nat \<times> sequenced) list \<Rightarrow> nat list" where
  "numbers xs = map (\<lambda>x. unat (sq_seq (snd x))) xs"

lemma numbers_simps [simp]: "numbers [] = []" "numbers (xs @ ys) = numbers xs @ numbers ys"
  "numbers [(k, sc)] = [unat (sq_seq sc)]"
  by (simp_all add: numbers_def)

definition lines_left :: "'c gateway \<Rightarrow> nat" where
  "lines_left g = (\<Sum>ls\<leftarrow>gw_waiting g. length ls) + (\<Sum>s\<leftarrow>gw_sessions g. length (se_lines s))"

text \<open>The commands a session got into the ring of shard \<open>k\<close>.\<close>

definition sent_to :: "nat \<Rightarrow> session \<Rightarrow> sequenced list" where
  "sent_to k s = map snd (filter (\<lambda>x. fst x = k) (se_sent s))"

definition next_number :: "'c gateway \<Rightarrow> nat" where
  "next_number g = unat (current (en_sequencer (gw_engine g)))"

definition in_order :: "nat \<Rightarrow> 'c gateway \<Rightarrow> bool" where
  "in_order m g \<longleftrightarrow> next_number g + lines_left g \<le> m \<and>
     (\<forall>s \<in> set (gw_sessions g). sorted_wrt (<) (numbers (se_sent s @ flights s)) \<and>
        (\<forall>q \<in> set (numbers (se_sent s @ flights s)). q < next_number g))"

definition own_lanes :: "('c \<Rightarrow> sequenced list) \<Rightarrow> 'c gateway \<Rightarrow> bool" where
  "own_lanes queued g \<longleftrightarrow> (\<forall>s \<in> set (gw_sessions g). \<forall>k < en_num_shards (gw_engine g). subseq (sent_to k s) (lane queued g k))"

lemma sum_list_put:
  assumes "i < length xs"
  shows "(\<Sum>x\<leftarrow>xs[i := y]. f x) + f (xs ! i) = (\<Sum>x\<leftarrow>xs. f x) + (f y :: nat)"
proof -
  have "f (xs ! i) \<le> (\<Sum>x\<leftarrow>xs. f x)" using assms elem_le_sum_list [of i "map f xs"] by simp
  then show ?thesis using assms by (simp add: map_update sum_list_update)
qed

lemma lines_left_put:
  "i < length (gw_sessions g) \<Longrightarrow>
     lines_left (put_session i s g) + length (se_lines (gw_sessions g ! i)) = lines_left g + length (se_lines s)"
  using sum_list_put [of i "gw_sessions g" "\<lambda>s. length (se_lines s)" s] by (simp add: lines_left_def)

lemma in_order_put:
  assumes "in_order m g" and "i < length (gw_sessions g)" and "se_lines s = ls" "length ls \<le> length (se_lines (gw_sessions g ! i))"
    and "se_sent s @ flights s = se_sent (gw_sessions g ! i) @ xs" and "set xs \<subseteq> set (flights (gw_sessions g ! i))"
    and "length xs \<le> 1"
  shows "in_order m (put_session i s g)"
proof -
  have old: "sorted_wrt (<) (numbers (se_sent (gw_sessions g ! i) @ flights (gw_sessions g ! i)))"
    "\<forall>q \<in> set (numbers (se_sent (gw_sessions g ! i) @ flights (gw_sessions g ! i))). q < next_number g"
    using assms(1,2) by (auto simp: in_order_def)
  have "sorted_wrt (<) (numbers xs)"
    using assms(7) by (cases xs) (auto simp: numbers_def)
  then have "sorted_wrt (<) (numbers (se_sent s @ flights s))"
    "\<forall>q \<in> set (numbers (se_sent s @ flights s)). q < next_number g"
    using old assms(6) unfolding assms(5) by (auto simp: sorted_wrt_append numbers_def)
  moreover have "lines_left (put_session i s g) \<le> lines_left g"
    using lines_left_put [OF assms(2), of s] assms(3,4) by simp
  ultimately show ?thesis
    using assms(1) by (auto simp: in_order_def next_number_def dest!: in_list_update)
qed

context command_ring
begin

lemma in_order_step:
  assumes "gateway_step from_str ack send recv g g'" and "gateway_ok queued g" and "in_order m g" and "m < 2 ^ 64"
  shows "in_order m g'"
  using assms(1,2)
proof (cases rule: gateway_cases)
  case (accept ls w)
  then show ?thesis using assms(3) by (auto simp: in_order_def lines_left_def next_number_def)
next
  case (silent i l s')
  then show ?thesis using in_order_put [OF assms(3) silent(1), of s' "se_lines s'" "[]"] by simp
next
  case (number i l ls c k now sc)
  let ?s = "gw_sessions g ! i"
  let ?s' = "?s\<lparr>se_lines := ls, se_flight := Some (k, sc)\<rparr>"
  let ?g1 = "g\<lparr>gw_engine := (gw_engine g)\<lparr>en_sequencer := \<lparr>sq_next = current (en_sequencer (gw_engine g)) + 1\<rparr>\<rparr>\<rparr>"
  have "next_number g + lines_left g \<le> m" using assms(3) by (simp add: in_order_def)
  moreover have left: "Suc (lines_left (put_session i ?s' ?g1)) = lines_left g"
    using lines_left_put [of i ?g1 ?s'] number(1,3) by (simp add: lines_left_def)
  ultimately have small: "Suc (next_number g) < 2 ^ 64" using assms(4) by linarith
  then have nn: "next_number (put_session i ?s' ?g1) = Suc (next_number g)"
    by (simp add: next_number_def current_def unat_word_ariths)
  have "sorted_wrt (<) (numbers (se_sent ?s))" "\<forall>q \<in> set (numbers (se_sent ?s)). q < next_number g"
    using assms(3) number(1,2) by (auto simp: in_order_def sorted_wrt_append)
  moreover have "unat (sq_seq sc) = next_number g" using number(6) by (simp add: next_number_def)
  ultimately have "sorted_wrt (<) (numbers (se_sent ?s' @ flights ?s'))"
    "\<forall>q \<in> set (numbers (se_sent ?s' @ flights ?s')). q < Suc (next_number g)"
    by (auto simp: sorted_wrt_append less_SucI)
  moreover have "sorted_wrt (<) (numbers (se_sent s @ flights s))" "\<forall>q \<in> set (numbers (se_sent s @ flights s)). q < Suc (next_number g)"
    if "s \<in> set (gw_sessions g)" for s
    using assms(3) that by (auto simp: in_order_def less_SucI)
  ultimately show ?thesis
    unfolding number(7) in_order_def nn using left \<open>next_number g + lines_left g \<le> m\<close>
    by (auto dest!: in_list_update)
next
  case (push i k sc s' ch)
  let ?en = "(gw_engine g)\<lparr>en_senders := (en_senders (gw_engine g))[k := ch]\<rparr>"
  have "in_order m (g\<lparr>gw_engine := ?en\<rparr>)"
    using assms(3) by (simp add: in_order_def next_number_def lines_left_def)
  then show ?thesis
    unfolding push(11) using push(1-5) by (elim in_order_put [where xs = "[(k, sc)]"]) auto
next
  case (full i k sc s')
  then show ?thesis using in_order_put [OF assms(3) full(1), of s' "se_lines s'" "[]"] by simp
next
  case (pop k sc ch)
  then show ?thesis using assms(3) by (simp add: in_order_def next_number_def lines_left_def)
qed

lemma own_put:
  assumes "own_lanes queued g" and "i < length (gw_sessions g)" and "se_sent s = se_sent (gw_sessions g ! i)"
  shows "own_lanes queued (put_session i s g)"
  using assms by (auto simp: own_lanes_def lane_engine sent_to_def dest!: in_list_update)

lemma own_lanes_step:
  assumes "gateway_step from_str ack send recv g g'" and "gateway_ok queued g" and "own_lanes queued g"
  shows "own_lanes queued g'"
  using assms(1,2)
proof (cases rule: gateway_cases)
  case (accept ls w)
  have "lane queued g' = lane queued g" by (simp add: accept(2) lane_def fun_eq_iff)
  then show ?thesis using assms(3) by (auto simp: own_lanes_def accept(2) sent_to_def)
next
  case (number i l ls c k now sc)
  let ?g1 = "g\<lparr>gw_engine := (gw_engine g)\<lparr>en_sequencer := \<lparr>sq_next = current (en_sequencer (gw_engine g)) + 1\<rparr>\<rparr>\<rparr>"
  have "own_lanes queued ?g1" using assms(3) by (simp add: own_lanes_def lane_def)
  then show ?thesis unfolding number(7) using number(1) by (intro own_put) simp_all
next
  case (push i k sc s' ch)
  let ?g1 = "g\<lparr>gw_engine := (gw_engine g)\<lparr>en_senders := (en_senders (gw_engine g))[k := ch]\<rparr>\<rparr>"
  note lane = lane_push [OF push(6,8)]
  have "subseq (sent_to j s) (lane queued ?g1 j)"
    if "s \<in> set (gw_sessions g') " "j < en_num_shards (gw_engine g)" for s j
  proof (cases "s = s'")
    case True
    have old: "subseq (sent_to j (gw_sessions g ! i)) (lane queued g j)"
      using assms(3) push(1) that(2) by (simp add: own_lanes_def)
    have "sent_to j s' = sent_to j (gw_sessions g ! i) @ (if j = k then [sc] else [])"
      using push(5) by (simp add: sent_to_def)
    then show ?thesis using old unfolding True lane by (auto intro: list_emb_append_mono)
  next
    case False
    then have "s \<in> set (gw_sessions g)" using that(1) by (auto simp: push(11) dest!: in_list_update)
    then have "subseq (sent_to j s) (lane queued g j)" using assms(3) that(2) by (simp add: own_lanes_def)
    then show ?thesis unfolding lane by (auto intro: subseq_order.order_trans list_emb_prefix)
  qed
  then show ?thesis unfolding own_lanes_def by (simp add: push(11) lane_engine)
next
  case (pop k sc ch)
  then show ?thesis using assms(3) lane_pop [OF pop(1-3)] by (simp add: own_lanes_def)
qed (use assms(3) own_put in auto)

end

section \<open>Nothing is lost and nothing is made up\<close>

definition all_lanes :: "('c \<Rightarrow> sequenced list) \<Rightarrow> 'c gateway \<Rightarrow> sequenced multiset" where
  "all_lanes queued g = mset (concat (map queued (en_senders (gw_engine g)))) + mset (concat (gw_popped g))"

definition all_sent :: "'c gateway \<Rightarrow> sequenced multiset" where
  "all_sent g = mset (concat (map (\<lambda>s. map snd (se_sent s)) (gw_sessions g)))"

lemma gateway_cmds_lanes:
  "gateway_cmds from_str queued g = mset (concat (map (asked from_str) (gw_waiting g))) +
     mset (concat (map (session_cmds from_str) (gw_sessions g))) + image_mset sq_cmd (all_lanes queued g)"
  by (simp add: gateway_cmds_def all_lanes_def)

lemma all_lanes_simps [simp]:
  "all_lanes queued (g\<lparr>gw_waiting := w\<rparr>) = all_lanes queued g"
  "all_lanes queued (g\<lparr>gw_sessions := ss\<rparr>) = all_lanes queued g"
  "all_lanes queued (g\<lparr>gw_engine := (gw_engine g)\<lparr>en_sequencer := q\<rparr>\<rparr>) = all_lanes queued g"
  by (simp_all add: all_lanes_def)

lemma all_lanes_push:
  assumes "k < length (en_senders (gw_engine g))" and "queued ch = queued (en_senders (gw_engine g) ! k) @ [sc]"
  shows "all_lanes queued (g\<lparr>gw_engine := (gw_engine g)\<lparr>en_senders := (en_senders (gw_engine g))[k := ch]\<rparr>\<rparr>) =
    add_mset sc (all_lanes queued g)"
proof -
  let ?es = "en_senders (gw_engine g)"
  have "mset (concat (map queued (?es[k := ch]))) + mset (queued (?es ! k)) =
      add_mset sc (mset (concat (map queued ?es))) + mset (queued (?es ! k))"
    using mset_concat_put [OF assms(1), of queued ch] assms(2) by simp
  then have "mset (concat (map queued (?es[k := ch]))) = add_mset sc (mset (concat (map queued ?es)))"
    by (simp only: add_right_cancel)
  then show ?thesis by (simp add: all_lanes_def)
qed

lemma all_lanes_pop:
  assumes "k < length (en_senders (gw_engine g))" and "k < length (gw_popped g)"
    and "queued (en_senders (gw_engine g) ! k) = sc # queued ch"
  shows "all_lanes queued (g\<lparr>gw_engine := (gw_engine g)\<lparr>en_senders := (en_senders (gw_engine g))[k := ch]\<rparr>,
      gw_popped := (gw_popped g)[k := gw_popped g ! k @ [sc]]\<rparr>) = all_lanes queued g"
proof -
  let ?es = "en_senders (gw_engine g)"
  have "add_mset sc (mset (concat (map queued (?es[k := ch])))) + mset (queued ch) =
      mset (concat (map queued ?es)) + mset (queued ch)"
    using mset_concat_put [OF assms(1), of queued ch] assms(3) by simp
  then have "mset (concat (map queued ?es)) = add_mset sc (mset (concat (map queued (?es[k := ch]))))"
    by (simp only: add_right_cancel)
  moreover have "mset (concat ((gw_popped g)[k := gw_popped g ! k @ [sc]])) = add_mset sc (mset (concat (gw_popped g)))"
    using mset_concat_update [OF assms(2), of "gw_popped g ! k @ [sc]"] by simp
  ultimately show ?thesis by (simp add: all_lanes_def)
qed

lemma cmds_put:
  assumes "i < length (gw_sessions g)"
    and "mset (session_cmds from_str s) + add \<subseteq># mset (session_cmds from_str (gw_sessions g ! i))"
  shows "mset (concat (map (session_cmds from_str) ((gw_sessions g)[i := s]))) + add \<subseteq>#
    mset (concat (map (session_cmds from_str) (gw_sessions g)))"
proof -
  have "mset (concat (map (session_cmds from_str) ((gw_sessions g)[i := s]))) + add + mset (session_cmds from_str (gw_sessions g ! i)) =
      mset (concat (map (session_cmds from_str) (gw_sessions g))) + (mset (session_cmds from_str s) + add)"
    using mset_concat_put [OF assms(1), of "session_cmds from_str" s] by (simp add: ac_simps)
  also have "\<dots> \<subseteq># mset (concat (map (session_cmds from_str) (gw_sessions g))) + mset (session_cmds from_str (gw_sessions g ! i))"
    using assms(2) by simp
  finally show ?thesis by simp
qed

context command_ring
begin

lemma gateway_cmds_step:
  assumes "gateway_step from_str ack send recv g g'" and "gateway_ok queued g"
  shows "gateway_cmds from_str queued g' \<subseteq># gateway_cmds from_str queued g"
  using assms
proof (cases rule: gateway_cases)
  case (accept ls w)
  then show ?thesis by (simp add: gateway_cmds_lanes session_cmds_def ac_simps)
next
  case (silent i l s')
  then have "session_cmds from_str s' = session_cmds from_str (gw_sessions g ! i)"
    by (simp add: session_cmds_def split: request.splits)
  then show ?thesis using cmds_put [OF silent(1), of from_str s' "{#}"] by (simp add: silent(7) gateway_cmds_lanes)
next
  case (number i l ls c k now sc)
  then have "mset (session_cmds from_str ((gw_sessions g ! i)\<lparr>se_lines := ls, se_flight := Some (k, sc)\<rparr>)) =
      mset (session_cmds from_str (gw_sessions g ! i))"
    by (simp add: session_cmds_def)
  then show ?thesis using cmds_put [OF number(1), of from_str _ "{#}"] by (simp add: number(7) gateway_cmds_lanes)
next
  case (push i k sc s' ch)
  have "mset (session_cmds from_str s') + {#sq_cmd sc#} \<subseteq># mset (session_cmds from_str (gw_sessions g ! i))"
    using push(2-4) by (auto simp: session_cmds_def)
  from cmds_put [OF push(1) this] show ?thesis
    using all_lanes_push [OF push(6,8)] by (simp add: push(11) gateway_cmds_lanes)
next
  case (full i k sc s')
  then have "mset (session_cmds from_str s') + {#} \<subseteq># mset (session_cmds from_str (gw_sessions g ! i))"
    by (simp add: session_cmds_def)
  from cmds_put [OF full(1) this] show ?thesis by (simp add: full(6) gateway_cmds_lanes)
next
  case (pop k sc ch)
  then show ?thesis using all_lanes_pop [OF pop(1-3)] by (simp add: gateway_cmds_lanes)
qed

lemma sent_put:
  "i < length (gw_sessions g) \<Longrightarrow> se_sent s = se_sent (gw_sessions g ! i) @ xs \<Longrightarrow>
     all_sent (put_session i s g) = all_sent g + mset (map snd xs)"
  using mset_concat_put [of i "gw_sessions g" "\<lambda>s. map snd (se_sent s)" s]
  by (simp add: all_sent_def)

lemma all_sent_step:
  assumes "gateway_step from_str ack send recv g g'" and "gateway_ok queued g" and "all_sent g = all_lanes queued g"
  shows "all_sent g' = all_lanes queued g'"
  using assms(1,2)
proof (cases rule: gateway_cases)
  case (accept ls w)
  then show ?thesis using assms(3) by (simp add: all_sent_def all_lanes_def)
next
  case (number i l ls c k now sc)
  let ?g1 = "g\<lparr>gw_engine := (gw_engine g)\<lparr>en_sequencer := \<lparr>sq_next = current (en_sequencer (gw_engine g)) + 1\<rparr>\<rparr>\<rparr>"
  have "all_sent (put_session i ((gw_sessions g ! i)\<lparr>se_lines := ls, se_flight := Some (k, sc)\<rparr>) ?g1) = all_sent ?g1"
    using number(1) by (subst sent_put [where xs = "[]"]) simp_all
  then show ?thesis using assms(3) by (simp add: number(7) all_sent_def)
next
  case (push i k sc s' ch)
  let ?g1 = "g\<lparr>gw_engine := (gw_engine g)\<lparr>en_senders := (en_senders (gw_engine g))[k := ch]\<rparr>\<rparr>"
  have "all_sent (put_session i s' ?g1) = add_mset sc (all_sent ?g1)"
    using push(1,5) by (subst sent_put [where xs = "[(k, sc)]"]) simp_all
  then show ?thesis using assms(3) all_lanes_push [OF push(6,8)] by (simp add: push(11) all_sent_def)
next
  case (pop k sc ch)
  then show ?thesis using assms(3) all_lanes_pop [OF pop(1-3)] by (simp add: all_sent_def)
next
  case (silent i l s')
  then show ?thesis using assms(3) sent_put [OF silent(1), of s' "[]"] by simp
next
  case (full i k sc s')
  then show ?thesis using assms(3) sent_put [OF full(1), of s' "[]"] by simp
qed

end

section \<open>Bounds and rest\<close>

definition bounded :: "('c \<Rightarrow> sequenced list) \<Rightarrow> ('c \<Rightarrow> nat) \<Rightarrow> nat list \<Rightarrow> 'c gateway \<Rightarrow> bool" where
  "bounded queued capacity caps g \<longleftrightarrow> map capacity (en_senders (gw_engine g)) = caps \<and>
     (\<forall>ch \<in> set (en_senders (gw_engine g)). length (queued ch) \<le> capacity ch)"

lemma bounded_update:
  assumes "bounded queued capacity caps g" and "k < length (en_senders (gw_engine g))"
    and "capacity ch = capacity (en_senders (gw_engine g) ! k)" and "length (queued ch) \<le> capacity ch"
  shows "bounded queued capacity caps (g\<lparr>gw_engine := (gw_engine g)\<lparr>en_senders := (en_senders (gw_engine g))[k := ch]\<rparr>\<rparr>)"
proof -
  have "map capacity ((en_senders (gw_engine g))[k := ch]) = map capacity (en_senders (gw_engine g))"
    using assms(3) by (metis list_update_id map_update)
  then show ?thesis using assms by (auto simp: bounded_def dest!: in_list_update)
qed

text \<open>Each line is worth three steps, each numbered command two, each queued one its pop.\<close>

definition session_work :: "session \<Rightarrow> nat" where
  "session_work s = 3 * length (se_lines s) + 2 * length (flights s)"

definition work :: "('c \<Rightarrow> sequenced list) \<Rightarrow> 'c gateway \<Rightarrow> nat" where
  "work queued g = (\<Sum>ls\<leftarrow>gw_waiting g. 3 * length ls + 1) + (\<Sum>s\<leftarrow>gw_sessions g. session_work s) +
     (\<Sum>ch\<leftarrow>en_senders (gw_engine g). length (queued ch))"

definition at_rest :: "('c \<Rightarrow> sequenced list) \<Rightarrow> 'c gateway \<Rightarrow> bool" where
  "at_rest queued g \<longleftrightarrow> gw_waiting g = [] \<and> (\<forall>s \<in> set (gw_sessions g). se_lines s = [] \<and> se_flight s = None) \<and>
     (\<forall>ch \<in> set (en_senders (gw_engine g)). queued ch = [])"

context command_ring
begin

lemma bounded_step:
  assumes "gateway_step from_str ack send recv g g'" and "gateway_ok queued g" and "bounded queued capacity caps g"
  shows "bounded queued capacity caps g'"
  using assms(1,2)
proof (cases rule: gateway_cases)
  case (push i k sc s' ch)
  show ?thesis using bounded_update [OF assms(3) push(6,9,10)] by (simp add: push(11) bounded_def)
next
  case (pop k sc ch)
  have "length (queued (en_senders (gw_engine g) ! k)) \<le> capacity (en_senders (gw_engine g) ! k)"
    using assms(3) pop(1) by (simp add: bounded_def)
  then have "length (queued ch) \<le> capacity ch" using pop(3,4) by simp
  then show ?thesis using bounded_update [OF assms(3) pop(1,4)] by (simp add: pop(5) bounded_def)
qed (use assms(3) in \<open>simp_all add: bounded_def\<close>)

lemma work_put:
  "i < length (gw_sessions g) \<Longrightarrow> session_work s + m \<le> session_work (gw_sessions g ! i) \<Longrightarrow>
     work queued (put_session i s g) + m \<le> work queued g"
  using sum_list_put [of i "gw_sessions g" session_work s] by (simp add: work_def)

lemma work_ring:
  "k < length (en_senders (gw_engine g)) \<Longrightarrow>
     work queued (g\<lparr>gw_engine := (gw_engine g)\<lparr>en_senders := (en_senders (gw_engine g))[k := ch]\<rparr>\<rparr>) +
       length (queued (en_senders (gw_engine g) ! k)) = work queued g + length (queued ch)"
  using sum_list_put [of k "en_senders (gw_engine g)" "\<lambda>ch. length (queued ch)" ch] by (simp add: work_def)

lemma work_step:
  assumes "gateway_step from_str ack send recv g g'" and "gateway_ok queued g"
  shows "work queued g' < work queued g"
  using assms
proof (cases rule: gateway_cases)
  case (accept ls w)
  then show ?thesis by (simp add: work_def session_work_def)
next
  case (silent i l s')
  then show ?thesis using work_put [OF silent(1), of s' 3] by (simp add: session_work_def)
next
  case (number i l ls c k now sc)
  let ?g1 = "g\<lparr>gw_engine := (gw_engine g)\<lparr>en_sequencer := \<lparr>sq_next = current (en_sequencer (gw_engine g)) + 1\<rparr>\<rparr>\<rparr>"
  have "work queued (put_session i ((gw_sessions g ! i)\<lparr>se_lines := ls, se_flight := Some (k, sc)\<rparr>) ?g1) + 1 \<le> work queued ?g1"
    using number(1-3) by (intro work_put) (simp_all add: session_work_def)
  then show ?thesis by (simp add: number(7) work_def)
next
  case (push i k sc s' ch)
  let ?g1 = "g\<lparr>gw_engine := (gw_engine g)\<lparr>en_senders := (en_senders (gw_engine g))[k := ch]\<rparr>\<rparr>"
  have "work queued (put_session i s' ?g1) + 2 \<le> work queued ?g1"
    using push(1-4) by (intro work_put) (auto simp: session_work_def)
  moreover have "work queued ?g1 = Suc (work queued g)" using work_ring [OF push(6), of ch] push(8) by simp
  ultimately show ?thesis by (simp add: push(11))
next
  case (full i k sc s')
  then show ?thesis using work_put [OF full(1), of s' 2] by (simp add: session_work_def)
next
  case (pop k sc ch)
  then show ?thesis using work_ring [OF pop(1), of ch] by (simp add: work_def)
qed

text \<open>A gateway that is not at rest can move.\<close>

lemma progress:
  assumes "gateway_ok queued g" and "\<not> at_rest queued g"
  shows "\<exists>g'. gateway_step from_str ack send recv g g'"
proof (rule ccontr)
  assume stuck: "\<nexists>g'. gateway_step from_str ack send recv g g'"
  have "gw_waiting g = []" using stuck by (cases "gw_waiting g") (auto dest: gateway_step.accept)
  moreover have "se_lines s = [] \<and> se_flight s = None" if member: "s \<in> set (gw_sessions g)" for s
  proof (rule ccontr)
    assume busy: "\<not> (se_lines s = [] \<and> se_flight s = None)"
    obtain i where i: "i < length (gw_sessions g)" "gw_sessions g ! i = s" using member by (auto simp: in_set_conv_nth)
    show False
    proof (cases "se_flight s")
      case (Some x)
      then obtain k sc where x: "se_flight s = Some (k, sc)" by (cases x) simp
      then have "k < length (en_senders (gw_engine g))" using flight_route [OF assms(1) i(1)] i(2) by simp
      then obtain res en where "deliver send k sc (gw_engine g) = Inr (res, en)" using deliver_ok by blast
      then show False
        using stuck gateway_step.push_ok [OF i x] gateway_step.push_full [OF i x] by (cases res) blast+
    next
      case None
      then obtain l ls where l: "se_lines s = l # ls" using busy by (cases "se_lines s") simp_all
      have "shard_for (cmd_symbol c) (en_num_shards (gw_engine g)) = Inr (route g c)" for c
        using shape(2) [OF assms(1)] by (simp add: shard_for_def route_def)
      then show False
        using stuck gateway_step.ignore [OF i None l] gateway_step.refuse [OF i None l] gateway_step.number [OF i None l]
        by (cases "line_request from_str l") (blast, blast, metis surj_pair)
    qed
  qed
  moreover have "queued ch = []" if "ch \<in> set (en_senders (gw_engine g))" for ch
  proof (rule ccontr)
    assume "queued ch \<noteq> []"
    obtain k where k: "k < length (en_senders (gw_engine g))" "en_senders (gw_engine g) ! k = ch"
      using \<open>ch \<in> _\<close> by (auto simp: in_set_conv_nth)
    then obtain sc ch' where "ring_pop recv (en_senders (gw_engine g) ! k) = (Some sc, ch')"
      using pop_first [of ch] \<open>queued ch \<noteq> []\<close> by (cases "queued ch") auto
    then show False using stuck gateway_step.shard_pop k(1) shape [OF assms(1)] by metis
  qed
  ultimately show False using assms(2) by (simp add: at_rest_def)
qed

lemma comes_to_rest:
  "gateway_ok queued g \<Longrightarrow> \<exists>g'. (gateway_step from_str ack send recv)\<^sup>*\<^sup>* g g' \<and> at_rest queued g'"
proof (induction "work queued g" arbitrary: g rule: less_induct)
  case less
  show ?case
  proof (cases "at_rest queued g")
    case False
    then obtain g1 where g1: "gateway_step from_str ack send recv g g1" using progress [OF less.prems] by blast
    then obtain g' where "(gateway_step from_str ack send recv)\<^sup>*\<^sup>* g1 g'" "at_rest queued g'"
      using less.hyps [OF work_step [OF g1 less.prems] gateway_ok_step [OF g1 less.prems]] by blast
    then show ?thesis using g1 by (meson converse_rtranclp_into_rtranclp)
  qed auto
qed

end

end
