(* ===== verification/Gateway_Properties.thy ===== *)
theory Gateway_Properties
  imports Gateway_Runs Engine_Properties
begin

text \<open>
  What the gateway promises its clients, whatever the others do, and the whole path of an
  order: from the lines of the clients through sessions, rings and shards to the books.
\<close>

section \<open>The invariant of every run\<close>

context command_ring
begin

lemma gateway_start_ok: "engine_ok en \<Longrightarrow> \<forall>ch \<in> set (en_senders en). queued ch = [] \<Longrightarrow> gateway_ok queued (gateway_start en clients)"
  by (auto simp: gateway_ok_def gateway_start_def engine_ok_def lane_def)

lemma reach_ok:
  assumes "(gateway_step from_str ack send recv)\<^sup>*\<^sup>* g g'" and "gateway_ok queued g"
  shows "gateway_ok queued g'"
  using assms by (induction rule: rtranclp_induct) (auto intro: gateway_ok_step)

text \<open>An invariant of well-shaped gateways holds in every state that is reached.\<close>

lemma reach_invariant:
  assumes "(gateway_step from_str ack send recv)\<^sup>*\<^sup>* g g'" and "gateway_ok queued g" and "P g"
    and "\<And>g g'. gateway_step from_str ack send recv g g' \<Longrightarrow> gateway_ok queued g \<Longrightarrow> P g \<Longrightarrow> P g'"
  shows "P g'"
  using assms(1)
proof (induction rule: rtranclp_induct)
  case (step g1 g2)
  then show ?case using assms(2,4) reach_ok by blast
qed (rule assms(3))

lemma reach_cmds:
  assumes "(gateway_step from_str ack send recv)\<^sup>*\<^sup>* g g'" and "gateway_ok queued g"
  shows "gateway_cmds from_str queued g' \<subseteq># gateway_cmds from_str queued g"
  by (rule reach_invariant [OF assms]) (auto intro: subset_mset.order_trans gateway_cmds_step)

lemma run_length:
  assumes "(gateway_step from_str ack send recv ^^ j) g g'" and "gateway_ok queued g"
  shows "j + work queued g' \<le> work queued g \<and> gateway_ok queued g'"
  using assms
proof (induction j arbitrary: g')
  case (Suc j)
  then obtain g1 where "(gateway_step from_str ack send recv ^^ j) g g1" "gateway_step from_str ack send recv g1 g'" by auto
  then show ?case using Suc work_step [of from_str ack g1 g'] gateway_ok_step [of from_str ack g1 g'] by fastforce
qed simp

lemma start_work:
  "\<forall>ch \<in> set (en_senders en). queued ch = [] \<Longrightarrow>
     work queued (gateway_start en clients) = (\<Sum>ls\<leftarrow>clients. 3 * length ls + 1)"
  by (simp add: work_def gateway_start_def sum_list_eq_0_iff)

lemma start_lanes:
  assumes "\<forall>ch \<in> set (en_senders en). queued ch = []"
  shows "all_lanes queued (gateway_start en clients) = {#}"
proof -
  have "concat (map queued (en_senders en)) = []" using assms by auto
  then show ?thesis by (simp add: all_lanes_def gateway_start_def)
qed

lemma start_cmds:
  assumes "\<forall>ch \<in> set (en_senders en). queued ch = []"
  shows "gateway_cmds from_str queued (gateway_start en clients) = mset (asked from_str (concat clients))"
proof -
  have "asked from_str (concat clients) = concat (map (asked from_str) clients)"
    by (induction clients) (simp_all add: asked_def)
  then show ?thesis by (simp add: gateway_cmds_lanes start_lanes [OF assms]) (simp add: gateway_start_def)
qed

lemma sent_is_queued:
  assumes "\<forall>ch \<in> set (en_senders en). queued ch = []" and "engine_ok en"
    and "(gateway_step from_str ack send recv)\<^sup>*\<^sup>* (gateway_start en clients) g"
  shows "all_sent g = all_lanes queued g"
  by (rule reach_invariant [OF assms(3) gateway_start_ok [OF assms(2,1)]])
    (use start_lanes [OF assms(1)] all_sent_step in \<open>auto simp: all_sent_def gateway_start_def\<close>)

lemma session_order_ring:
  assumes "engine_ok en" and "\<forall>ch \<in> set (en_senders en). queued ch = []" and "current (en_sequencer en) = 1"
    and "length (concat clients) + 1 < 2 ^ 64"
    and "(gateway_step from_str ack send recv)\<^sup>*\<^sup>* (gateway_start en clients) g" and "s \<in> set (gw_sessions g)"
  shows "sorted_wrt (<) (map (\<lambda>x. unat (sq_seq (snd x))) (se_sent s)) \<and>
    (\<forall>k < en_num_shards (gw_engine g).
       subseq (sent_to k s) (gw_popped g ! k @ queued (en_senders (gw_engine g) ! k)))"
proof -
  let ?m = "length (concat clients) + 1"
  have "in_order ?m g"
    by (rule reach_invariant [OF assms(5) gateway_start_ok [OF assms(1,2)]])
      (use assms(3,4) in_order_step in \<open>auto simp: in_order_def next_number_def lines_left_def gateway_start_def length_concat\<close>)
  moreover have "own_lanes queued g"
    by (rule reach_invariant [OF assms(5) gateway_start_ok [OF assms(1,2)]])
      (use own_lanes_step in \<open>auto simp: own_lanes_def gateway_start_def\<close>)
  ultimately show ?thesis
    using assms(6) by (auto simp: in_order_def own_lanes_def lane_def sorted_wrt_append) (auto simp: numbers_def)
qed

lemma rings_bounded_ring:
  assumes "engine_start mk cap n symbols = Inr (en, sss)" and "0 < n" and "queued (mk cap) = []"
    and "(gateway_step from_str ack send recv)\<^sup>*\<^sup>* (gateway_start en clients) g" and "ch \<in> set (en_senders (gw_engine g))"
  shows "length (queued ch) \<le> capacity (mk cap) \<and> capacity ch = capacity (mk cap)"
proof -
  have en: "en = \<lparr>en_senders = replicate n (mk cap), en_sequencer = sequencer_new, en_num_shards = n\<rparr>"
    using assms(1,2) by (simp add: engine_start_def shard_symbols_filter)
  have "gateway_ok queued (gateway_start en clients)" using assms(2,3) by (intro gateway_start_ok) (auto simp: en engine_ok_def)
  then have b: "bounded queued capacity (replicate n (capacity (mk cap))) g"
    by (rule reach_invariant [OF assms(4)]) (use assms(3) bounded_step in \<open>auto simp: bounded_def gateway_start_def en\<close>)
  then have "capacity ch \<in> set (replicate n (capacity (mk cap)))"
    using assms(5) by (metis bounded_def image_eqI list.set_map)
  then show ?thesis using b assms(5) by (auto simp: bounded_def split: if_splits)
qed

lemma runs_end_ring:
  assumes "engine_ok en" and "\<forall>ch \<in> set (en_senders en). queued ch = []"
  shows "(\<forall>j g. (gateway_step from_str ack send recv ^^ j) (gateway_start en clients) g \<longrightarrow>
      j \<le> (\<Sum>ls\<leftarrow>clients. 3 * length ls + 1)) \<and>
    (\<forall>g. (gateway_step from_str ack send recv)\<^sup>*\<^sup>* (gateway_start en clients) g \<longrightarrow>
      (at_rest queued g \<or> (\<exists>g'. gateway_step from_str ack send recv g g')) \<and>
      (\<exists>g'. (gateway_step from_str ack send recv)\<^sup>*\<^sup>* g g' \<and> at_rest queued g' \<and>
         mset (concat (map (\<lambda>s. map snd (se_sent s)) (gw_sessions g'))) = mset (concat (gw_popped g'))))"
proof (intro conjI allI impI)
  fix j g
  assume "(gateway_step from_str ack send recv ^^ j) (gateway_start en clients) g"
  from run_length [OF this gateway_start_ok [OF assms]] show "j \<le> (\<Sum>ls\<leftarrow>clients. 3 * length ls + 1)"
    using start_work [OF assms(2), of clients] by linarith
next
  fix g
  assume r: "(gateway_step from_str ack send recv)\<^sup>*\<^sup>* (gateway_start en clients) g"
  have ok: "gateway_ok queued g" by (rule reach_ok [OF r gateway_start_ok [OF assms]])
  then show "at_rest queued g \<or> (\<exists>g'. gateway_step from_str ack send recv g g')" using progress by blast
  obtain g' where g': "(gateway_step from_str ack send recv)\<^sup>*\<^sup>* g g'" "at_rest queued g'" using comes_to_rest [OF ok] by blast
  have "all_sent g' = all_lanes queued g'"
    by (rule sent_is_queued [OF assms(2,1) rtranclp_trans [OF r g'(1)]])
  moreover have "concat (map queued (en_senders (gw_engine g'))) = []" using g'(2) by (simp add: at_rest_def)
  ultimately have "mset (concat (map (\<lambda>s. map snd (se_sent s)) (gw_sessions g'))) = mset (concat (gw_popped g'))"
    by (simp add: all_sent_def all_lanes_def)
  with g' show "\<exists>g'. (gateway_step from_str ack send recv)\<^sup>*\<^sup>* g g' \<and> at_rest queued g' \<and>
      mset (concat (map (\<lambda>s. map snd (se_sent s)) (gw_sessions g'))) = mset (concat (gw_popped g'))" by blast
qed

text \<open>What any shard has taken is some of what the clients asked for.\<close>

lemma popped_cmds:
  assumes "engine_ok en" and "\<forall>ch \<in> set (en_senders en). queued ch = []"
    and "(gateway_step from_str ack send recv)\<^sup>*\<^sup>* (gateway_start en clients) g" and "k < en_num_shards en"
  shows "image_mset sq_cmd (mset (cmds_of s (gw_popped g ! k))) \<subseteq># mset (asked from_str (concat clients))"
proof -
  have "gateway_cmds from_str queued g \<subseteq># mset (asked from_str (concat clients))"
    using reach_cmds [OF assms(3) gateway_start_ok [OF assms(1,2)]] start_cmds [OF assms(2)] by simp
  moreover have "length (gw_popped g) = en_num_shards en"
    by (rule reach_invariant [OF assms(3) gateway_start_ok [OF assms(1,2)]])
      (auto simp: gateway_start_def elim!: gateway_stepE)
  then have "gw_popped g ! k \<in> set (gw_popped g)" using assms(4) by simp
  then have "mset (gw_popped g ! k) \<subseteq># mset (concat (gw_popped g))"
    by (metis concat.simps(2) concat_append in_set_conv_decomp mset_append mset_subset_eq_add_left mset_subset_eq_add_right subset_mset.order_trans)
  then have "mset (cmds_of s (gw_popped g ! k)) \<subseteq># mset (concat (gw_popped g))"
    by (auto simp: cmds_of_def mset_filter intro: subset_mset.order_trans multiset_filter_subset)
  then have "image_mset sq_cmd (mset (cmds_of s (gw_popped g ! k))) \<subseteq># gateway_cmds from_str queued g"
    unfolding gateway_cmds_lanes all_lanes_def image_mset_union
    by (meson image_mset_subseteq_mono mset_subset_eq_add_right subset_mset.order_trans)
  ultimately show ?thesis by (metis subset_mset.order_trans)
qed

end

section \<open>A client\<close>

text \<open>Three lines: an order (with a blank in front), something that is not JSON, and a cancel.\<close>

definition sample_parse :: "line \<Rightarrow> string + json_inbound" where
  "sample_parse l =
     (if l = [110] then
        Inr (JNew \<lparr>jn_id = 1, jn_symbol = AAPL, jn_side = JBuy, jn_kind = JLimit, jn_tif = JGtc,
               jn_price = 100, jn_stop_price = 0, jn_qty = 5\<rparr>)
      else if l = [99] then Inr (JCancel \<lparr>jc_id = 1, jc_symbol = AAPL\<rparr>)
      else Inl ''expected value'')"

definition sample_lines :: "(line \<times> nat \<times> bool) list" where
  "sample_lines = [([32, 110], 7, True), ([120], 8, True), ([99, 9], 9, True)]"

abbreviation sample_ack :: "u64 \<Rightarrow> string" where
  "sample_ack s \<equiv> nat_str (unat s)"

definition one_client :: "sequenced bounded_queue gateway" where
  "one_client = \<lparr>gw_engine = one_shard, gw_waiting = [], gw_sessions = [session_start (map fst sample_lines)],
     gw_popped = [[]]\<rparr>"

abbreviation sample_step :: "sequenced bounded_queue gateway \<Rightarrow> sequenced bounded_queue gateway \<Rightarrow> bool" where
  "sample_step \<equiv> gateway_step sample_parse sample_ack bq_send bq_recv"

lemma one_shard_empty: "engine_ok one_shard" "\<forall>ch \<in> set (en_senders one_shard). bq_items ch = []"
  "current (en_sequencer one_shard) = 1"
  by (simp_all add: one_shard_def engine_ok_def current_def sequencer_new_def)

lemma one_client_reached: "sample_step\<^sup>*\<^sup>* (gateway_start one_shard [map fst sample_lines]) one_client"
  using gateway_step.accept [of "gateway_start one_shard [map fst sample_lines]"]
  by (intro r_into_rtranclp) (simp add: gateway_start_def one_client_def one_shard_def)

lemma sample_session_replies:
  "\<exists>en. handle_json_session sample_parse sample_ack bq_send sample_lines one_shard [] =
     Inr (en, [submitted_reply sample_ack 1, error_reply (Json ''expected value''), submitted_reply sample_ack 2])"
  by (simp add: sample_lines_def line_request_def trim_def white_space_def sample_parse_def parse_inbound_def Let_def
      submit_def shard_for_def deliver_def ring_try_push_def bq_send_def one_shard_def write_all_def current_def sequencer_new_def)

section \<open>One session\<close>

text \<open>What the lines ask for, with the clock at each submit; blank lines, lines that are no JSON of
  ours and symbols that are none ask for nothing.\<close>

definition wanted :: "(line \<Rightarrow> string + json_inbound) \<Rightarrow> (line \<times> nat \<times> bool) list \<Rightarrow> (nat \<times> command) list" where
  "wanted from_str ls = concat (map (\<lambda>(l, now, _).
     if trim l = [] then [] else
     case from_str (trim l) of Inl _ \<Rightarrow> [] | Inr m \<Rightarrow> (case json_to_command m of None \<Rightarrow> [] | Some c \<Rightarrow> [(now, c)])) ls)"

text \<open>The commands numbered from \<open>q\<close> on.\<close>

definition numbering :: "u64 \<Rightarrow> (nat \<times> command) list \<Rightarrow> sequenced list" where
  "numbering q cs = map (\<lambda>(i, now, c). \<lparr>sq_seq = q + word_of_nat i, sq_ts = word_of_nat now, sq_cmd = c\<rparr>) (enumerate 0 cs)"

text \<open>
  The reply to a line before which the session has asked for \<open>earlier\<close>: the command has the
  number behind theirs, and finds its ring full when those for the same shard (\<open>home\<close>) have
  used up its room.
\<close>

definition reply_to ::
  "(line \<Rightarrow> string + json_inbound) \<Rightarrow> (u64 \<Rightarrow> string) \<Rightarrow> u64 \<Rightarrow> (command \<Rightarrow> nat) \<Rightarrow> (nat \<Rightarrow> nat) \<Rightarrow> command list \<Rightarrow> line \<Rightarrow> string list" where
  "reply_to from_str ack q home vacant earlier l =
     (if trim l = [] then []
      else case from_str (trim l) of
        Inl e \<Rightarrow> [''{\"t\":\"error\",\"msg\":\"json error: '' @ e @ ''\"}'' @ [newline]]
      | Inr m \<Rightarrow>
          (case json_to_command m of
             None \<Rightarrow> []
           | Some c \<Rightarrow>
               [if length (filter (\<lambda>c'. home c' = home c) earlier) < vacant (home c)
                then ack (q + word_of_nat (length earlier)) @ [newline]
                else ''{\"t\":\"error\",\"msg\":\"ring_full\"}'' @ [newline]]))"

lemma wanted_snoc:
  "wanted from_str (ls @ [(l, now, ok)]) = wanted from_str ls @
     (case line_request from_str l of Ask c \<Rightarrow> [(now, c)] | _ \<Rightarrow> [])"
  by (auto simp: wanted_def line_request_def parse_inbound_def Let_def split: sum.split option.split)

lemma reply_to_request:
  "reply_to from_str ack q home vacant earlier l =
     (case line_request from_str l of
        Ignore \<Rightarrow> [] | Refuse resp \<Rightarrow> [resp]
      | Ask c \<Rightarrow> [if length (filter (\<lambda>c'. home c' = home c) earlier) < vacant (home c)
                  then submitted_reply ack (q + word_of_nat (length earlier)) else ring_full_reply])"
  by (simp add: reply_to_def line_request_def parse_inbound_def Let_def error_reply_def ring_full_reply_def submitted_reply_def
      split: sum.split option.split)

lemma numbering_snoc:
  "numbering q (cs @ [(now, c)]) = numbering q cs @ [\<lparr>sq_seq = q + word_of_nat (length cs), sq_ts = word_of_nat now, sq_cmd = c\<rparr>]"
  by (simp add: numbering_def enumerate_append_eq)

lemma numbering_cmds: "map sq_cmd (numbering q cs) = map snd cs"
  by (induction cs rule: rev_induct) (auto simp: numbering_snoc, simp add: numbering_def)

lemma session_append:
  "\<forall>(_, _, ok) \<in> set ls. ok \<Longrightarrow> handle_json_session from_str ack send (ls @ ls') en out =
     rbind (handle_json_session from_str ack send ls en out) (\<lambda>(en, out). handle_json_session from_str ack send ls' en out)"
proof (induction ls arbitrary: en out)
  case (Cons x ls)
  obtain l now where x: "x = (l, now, True)" using Cons.prems by (cases x) auto
  have IH: "handle_json_session from_str ack send (ls @ ls') en out =
     rbind (handle_json_session from_str ack send ls en out) (\<lambda>(en, out). handle_json_session from_str ack send ls' en out)" for en out
    using Cons by auto
  show ?case
  proof (cases "line_request from_str l")
    case (Ask c)
    then show ?thesis by (cases "submit send now c en") (auto simp: x IH split: sum.split)
  qed (simp_all add: x IH)
qed simp

context command_ring
begin

text \<open>A submit, with what stays of the ring it goes to.\<close>

lemma submit_step:
  assumes "engine_ok en" and "k = unat (cmd_symbol c) mod en_num_shards en" and "ch = en_senders en ! k"
    and "sc = \<lparr>sq_seq = current (en_sequencer en), sq_ts = word_of_nat now, sq_cmd = c\<rparr>"
  obtains ch' where "submit send now c en =
      Inr (if is_open ch \<and> length (queued ch) < capacity ch then Inr (sq_seq sc) else Inl c,
        en\<lparr>en_sequencer := \<lparr>sq_next = current (en_sequencer en) + 1\<rparr>, en_senders := (en_senders en)[k := ch']\<rparr>)"
    "queued ch' = queued ch @ (if is_open ch \<and> length (queued ch) < capacity ch then [sc] else [])"
    "capacity ch' = capacity ch" "is_open ch' = is_open ch"
proof -
  let ?en = "en\<lparr>en_sequencer := \<lparr>sq_next = current (en_sequencer en) + 1\<rparr>\<rparr>"
  have k: "k < length (en_senders en)" "shard_for (cmd_symbol c) (en_num_shards en) = Inr k"
    using assms(1,2) by (simp_all add: engine_ok_def shard_for_def)
  have sub: "submit send now c en = deliver send k sc ?en" using k(2) by (simp add: submit_def assms(4) current_def)
  from push_cases [of ch sc] show thesis
  proof (elim disjE conjE exE)
    fix ch'
    assume "is_open ch" "length (queued ch) < capacity ch" "ring_try_push send sc ch = (Inr (), ch')"
      "queued ch' = queued ch @ [sc]" "capacity ch' = capacity ch" "is_open ch'"
    then show thesis using sub k(1) by (intro that [of ch']) (simp_all add: deliver_def assms(3))
  next
    assume "\<not> (is_open ch \<and> length (queued ch) < capacity ch)" "ring_try_push send sc ch = (Inl sc, ch)"
    then show thesis using sub k(1) by (intro that [of ch]) (auto simp: deliver_def assms(3,4))
  qed
qed

lemma session_exact:
  assumes "engine_ok en" and "home = (\<lambda>c. unat (cmd_symbol c) mod en_num_shards en)" and "q = current (en_sequencer en)"
    and "vacant = (\<lambda>k. if is_open (en_senders en ! k) then capacity (en_senders en ! k) - length (queued (en_senders en ! k)) else 0)"
  shows "\<forall>(_, _, ok) \<in> set ls. ok \<Longrightarrow> \<exists>en'. handle_json_session from_str ack send ls en out = Inr (en', out @
      concat (map (\<lambda>j. reply_to from_str ack q home vacant (map snd (wanted from_str (take j ls))) (fst (ls ! j))) [0..<length ls])) \<and>
    engine_ok en' \<and> en_num_shards en' = en_num_shards en \<and> current (en_sequencer en') = q + word_of_nat (length (wanted from_str ls)) \<and>
    (\<forall>k < en_num_shards en. capacity (en_senders en' ! k) = capacity (en_senders en ! k) \<and> is_open (en_senders en' ! k) = is_open (en_senders en ! k) \<and>
      queued (en_senders en' ! k) = queued (en_senders en ! k) @
        take (vacant k) (filter (\<lambda>sc. home (sq_cmd sc) = k) (numbering q (wanted from_str ls))))"
proof (induction ls rule: rev_induct)
  case Nil
  then show ?case using assms by (intro exI [of _ en]) (simp add: wanted_def numbering_def)
next
  case (snoc x ls)
  obtain l now where x: "x = (l, now, True)" using snoc.prems by (cases x) auto
  let ?w = "wanted from_str ls" and ?rs = "concat (map (\<lambda>j. reply_to from_str ack q home vacant (map snd (wanted from_str (take j ls))) (fst (ls ! j))) [0..<length ls])"
  obtain en1 where en1: "handle_json_session from_str ack send ls en out = Inr (en1, out @ ?rs)" "engine_ok en1"
    "en_num_shards en1 = en_num_shards en" "current (en_sequencer en1) = q + word_of_nat (length ?w)"
    "\<forall>k < en_num_shards en. capacity (en_senders en1 ! k) = capacity (en_senders en ! k) \<and> is_open (en_senders en1 ! k) = is_open (en_senders en ! k) \<and>
      queued (en_senders en1 ! k) = queued (en_senders en ! k) @ take (vacant k) (filter (\<lambda>sc. home (sq_cmd sc) = k) (numbering q ?w))"
    using snoc by auto
  have replies: "concat (map (\<lambda>j. reply_to from_str ack q home vacant (map snd (wanted from_str (take j (ls @ [x])))) (fst ((ls @ [x]) ! j))) [0..<length (ls @ [x])]) =
      ?rs @ reply_to from_str ack q home vacant (map snd ?w) l"
  proof -
    have "map (\<lambda>j. reply_to from_str ack q home vacant (map snd (wanted from_str (take j (ls @ [x])))) (fst ((ls @ [x]) ! j))) [0..<length ls] =
        map (\<lambda>j. reply_to from_str ack q home vacant (map snd (wanted from_str (take j ls))) (fst (ls ! j))) [0..<length ls]"
      by (rule map_cong) (auto simp: nth_append)
    moreover have "take (length ls) (ls @ [x]) = ls" "fst ((ls @ [x]) ! length ls) = l" by (simp_all add: x)
    ultimately show ?thesis by (simp del: map_eq_conv take_append)
  qed
  have run: "handle_json_session from_str ack send (ls @ [x]) en out = handle_json_session from_str ack send [x] en1 (out @ ?rs)"
    using session_append [of ls from_str ack send "[x]" en out] snoc.prems en1(1) by auto
  note w = wanted_snoc [of from_str ls l now True, folded x]
  show ?case
  proof (cases "line_request from_str l")
    case (Ask c)
    define k where "k = home c"
    define sc where "sc = \<lparr>sq_seq = q + word_of_nat (length ?w), sq_ts = word_of_nat now, sq_cmd = c\<rparr>"
    have k: "k < en_num_shards en" "k = unat (cmd_symbol c) mod en_num_shards en1"
      using assms(1,2) en1(3) by (simp_all add: k_def engine_ok_def)
    have len: "length (en_senders en1) = en_num_shards en" using en1(2,3) by (simp add: engine_ok_def)
    let ?mine = "filter (\<lambda>sc. home (sq_cmd sc) = k) (numbering q ?w)"
    have count: "length ?mine = length (filter (\<lambda>c'. home c' = k) (map snd ?w))"
    proof -
      have "length ?mine = length (filter (\<lambda>c'. home c' = k) (map sq_cmd (numbering q ?w)))" by (simp add: filter_map comp_def)
      then show ?thesis by (simp only: numbering_cmds)
    qed
    let ?ch = "en_senders en1 ! k"
    have free: "is_open ?ch \<and> length (queued ?ch) < capacity ?ch \<longleftrightarrow> length ?mine < vacant k"
      using en1(5) k(1) assms(4) by auto
    obtain ch' where ch': "submit send now c en1 =
        Inr (if length ?mine < vacant k then Inr (sq_seq sc) else Inl c,
          en1\<lparr>en_sequencer := \<lparr>sq_next = current (en_sequencer en1) + 1\<rparr>, en_senders := (en_senders en1)[k := ch']\<rparr>)"
      "queued ch' = queued ?ch @ (if length ?mine < vacant k then [sc] else [])" "capacity ch' = capacity ?ch" "is_open ch' = is_open ?ch"
      using submit_step [OF en1(2) k(2) refl, where now = now and sc = sc] en1(4) unfolding free by (auto simp: sc_def)
    let ?en2 = "en1\<lparr>en_sequencer := \<lparr>sq_next = current (en_sequencer en1) + 1\<rparr>, en_senders := (en_senders en1)[k := ch']\<rparr>"
    have "handle_json_session from_str ack send [x] en1 (out @ ?rs) = Inr (?en2, (out @ ?rs) @ reply_to from_str ack q home vacant (map snd ?w) l)"
      using Ask ch'(1) count by (simp add: x reply_to_request k_def [symmetric] write_all_def sc_def)
    moreover have "engine_ok ?en2" "en_num_shards ?en2 = en_num_shards en" using en1(2,3) by (simp_all add: engine_ok_def)
    moreover have "current (en_sequencer ?en2) = q + word_of_nat (length (wanted from_str (ls @ [x])))"
      using en1(4) Ask by (simp add: w current_def)
    moreover have "capacity (en_senders ?en2 ! j) = capacity (en_senders en ! j) \<and> is_open (en_senders ?en2 ! j) = is_open (en_senders en ! j) \<and>
      queued (en_senders ?en2 ! j) = queued (en_senders en ! j) @
        take (vacant j) (filter (\<lambda>sc. home (sq_cmd sc) = j) (numbering q (wanted from_str (ls @ [x]))))" if "j < en_num_shards en" for j
    proof (cases "j = k")
      case True
      have "numbering q (wanted from_str (ls @ [x])) = numbering q ?w @ [sc]" using Ask by (simp add: w numbering_snoc sc_def)
      then have "filter (\<lambda>sc. home (sq_cmd sc) = k) (numbering q (wanted from_str (ls @ [x]))) = ?mine @ [sc]" by (simp add: sc_def k_def)
      moreover have "take (vacant k) (?mine @ [sc]) = take (vacant k) ?mine @ (if length ?mine < vacant k then [sc] else [])" by simp
      ultimately show ?thesis using en1(5) k(1) ch'(2-4) len True by simp
    next
      case False
      then have "filter (\<lambda>sc. home (sq_cmd sc) = j) (numbering q (wanted from_str (ls @ [x]))) = filter (\<lambda>sc. home (sq_cmd sc) = j) (numbering q ?w)"
        using Ask by (simp add: w numbering_snoc k_def)
      then show ?thesis using en1(5) that False by simp
    qed
    ultimately show ?thesis unfolding run replies by (intro exI [of _ ?en2]) simp
  next
    case Ignore
    then have "handle_json_session from_str ack send [x] en1 (out @ ?rs) = Inr (en1, (out @ ?rs) @ reply_to from_str ack q home vacant (map snd ?w) l)"
      "wanted from_str (ls @ [x]) = ?w" by (simp_all add: w reply_to_request) (simp add: x)
    then show ?thesis unfolding run replies using en1(2-5) by (intro exI [of _ en1]) simp
  next
    case (Refuse resp)
    then have "handle_json_session from_str ack send [x] en1 (out @ ?rs) = Inr (en1, (out @ ?rs) @ reply_to from_str ack q home vacant (map snd ?w) l)"
      "wanted from_str (ls @ [x]) = ?w" by (simp_all add: w reply_to_request) (simp add: x write_all_def)
    then show ?thesis unfolding run replies using en1(2-5) by (intro exI [of _ en1]) simp
  qed
qed

end

text \<open>
  C26: What a session does for a client that nobody interferes with, whose replies can all be
  written. The replies, line by line: nothing for a blank line or a message that is no
  command, the error for a line that does not parse, and for the command after \<open>i\<close> others
  the acknowledgement with number \<open>q + i\<close>, as long as fewer of those others were for its shard
  than its ring had room for, otherwise \<open>ring_full\<close>. Numbers are used up by refused commands
  too. Behind what each ring held it holds the first commands for its shard, as many as it
  had room for, in the order of their lines and with their numbers and times.
\<close>

theorem session_replies_exact:
  assumes "command_ring queued capacity is_open send recv" and "engine_ok en" and "\<forall>(_, _, ok) \<in> set ls. ok"
    and "home = (\<lambda>c. unat (cmd_symbol c) mod en_num_shards en)" and "q = current (en_sequencer en)"
    and "vacant = (\<lambda>k. if is_open (en_senders en ! k) then capacity (en_senders en ! k) - length (queued (en_senders en ! k)) else 0)"
  shows "\<exists>en'. handle_json_session from_str ack send ls en [] = Inr (en',
      concat (map (\<lambda>j. reply_to from_str ack q home vacant (map snd (wanted from_str (take j ls))) (fst (ls ! j))) [0..<length ls])) \<and>
    current (en_sequencer en') = q + word_of_nat (length (wanted from_str ls)) \<and>
    (\<forall>k < en_num_shards en. queued (en_senders en' ! k) = queued (en_senders en ! k) @
        take (vacant k) (filter (\<lambda>sc. home (sq_cmd sc) = k) (numbering q (wanted from_str ls))))"
  using command_ring.session_exact [OF assms(1,2,4-6), of ls from_str ack "[]"] assms(3) by auto

text \<open>A ring with room for one command: the cancel behind the order finds it full.\<close>

definition narrow_engine :: "sequenced bounded_queue engine" where
  "narrow_engine = one_shard\<lparr>en_senders := [\<lparr>bq_items = [], bq_capacity = 1, bq_connected = True\<rparr>]\<rparr>"

lemma session_replies_exact_witness:
  "\<exists>en. handle_json_session sample_parse sample_ack bq_send sample_lines narrow_engine [] =
     Inr (en, [submitted_reply sample_ack 1, error_reply (Json ''expected value''), ring_full_reply]) \<and> current (en_sequencer en) = 3"
proof -
  have en: "engine_ok narrow_engine" "en_num_shards narrow_engine = 1" "current (en_sequencer narrow_engine) = 1"
    "en_senders narrow_engine = [\<lparr>bq_items = [], bq_capacity = 1, bq_connected = True\<rparr>]"
    by (simp_all add: narrow_engine_def one_shard_def engine_ok_def current_def sequencer_new_def)
  have ok: "\<forall>(_, _, ok) \<in> set sample_lines. ok" by (simp add: sample_lines_def)
  have lines: "trim [32, 110] = [110]" "trim [120] = [120]" "trim [99, 9] = [99]" "length sample_lines = 3"
    by (simp_all add: trim_def white_space_def sample_lines_def)
  have asked: "wanted sample_parse [] = []" "length (wanted sample_parse sample_lines) = 2"
    "length (wanted sample_parse (take 1 sample_lines)) = 1" "length (wanted sample_parse (take 2 sample_lines)) = 1"
    by (simp_all add: wanted_def sample_lines_def lines sample_parse_def numeral_2_eq_2)
  have three: "[0..<length sample_lines] = [0, 1, 2]" by (simp add: lines upt_rec)
  define replies where "replies = concat (map (\<lambda>j. reply_to sample_parse sample_ack 1 (\<lambda>c. unat (cmd_symbol c) mod 1)
      (\<lambda>k. if bq_connected (en_senders narrow_engine ! k) then bq_capacity (en_senders narrow_engine ! k) - length (bq_items (en_senders narrow_engine ! k)) else 0)
      (map snd (wanted sample_parse (take j sample_lines))) (fst (sample_lines ! j))) [0..<length sample_lines])"
  obtain en' where "handle_json_session sample_parse sample_ack bq_send sample_lines narrow_engine [] = Inr (en', replies)"
    "current (en_sequencer en') = 1 + word_of_nat (length (wanted sample_parse sample_lines))"
    using session_replies_exact [OF cq.command_ring_axioms en(1) ok refl refl refl, of sample_parse sample_ack]
    unfolding en(2,3) replies_def by blast
  moreover have "replies = [submitted_reply sample_ack 1, error_reply (Json ''expected value''), ring_full_reply]"
    unfolding replies_def three
    by (simp add: asked en(4) reply_to_request line_request_def parse_inbound_def Let_def)
       (simp add: sample_lines_def lines sample_parse_def asked(1))
  ultimately show ?thesis by (simp add: asked)
qed

text \<open>The same run from the start of the gateway.\<close>

lemma sample_reached:
  obtains g where "sample_step\<^sup>*\<^sup>* (gateway_start one_shard [map fst sample_lines]) g"
    "map se_out (gw_sessions g) =
       [[submitted_reply sample_ack 1, error_reply (Json ''expected value''), submitted_reply sample_ack 2]]"
proof -
  obtain en where en: "handle_json_session sample_parse sample_ack bq_send sample_lines one_shard [] =
     Inr (en, [submitted_reply sample_ack 1, error_reply (Json ''expected value''), submitted_reply sample_ack 2])"
    using sample_session_replies by auto
  obtain sent' where "sample_step\<^sup>*\<^sup>* one_client (put_session 0 \<lparr>se_lines = [], se_flight = None,
      se_out = [submitted_reply sample_ack 1, error_reply (Json ''expected value''), submitted_reply sample_ack 2],
      se_sent = sent'\<rparr> (one_client\<lparr>gw_engine := en\<rparr>))"
    using session_steps [OF _ en, of 0 one_client bq_recv "[]"] by (auto simp: one_client_def session_start_def)
  then have "sample_step\<^sup>*\<^sup>* (gateway_start one_shard [map fst sample_lines]) (put_session 0 \<lparr>se_lines = [], se_flight = None,
      se_out = [submitted_reply sample_ack 1, error_reply (Json ''expected value''), submitted_reply sample_ack 2],
      se_sent = sent'\<rparr> (one_client\<lparr>gw_engine := en\<rparr>))"
    using one_client_reached by simp
  from that [OF this] show thesis by (simp add: one_client_def)
qed

section \<open>Every session\<close>

text \<open>
  C25: A client's own commands stay in order. In every reachable state the sequence numbers
  of the commands a session got into the rings are strictly increasing in the order of its
  lines, and of those for one shard the shard takes them in that order, whatever the other
  sessions do (fewer than \<open>2 ^ 64 - 1\<close> lines in all).
\<close>

theorem session_order:
  assumes "command_ring queued capacity is_open send recv" and "engine_ok en"
    and "\<forall>ch \<in> set (en_senders en). queued ch = []" and "current (en_sequencer en) = 1"
    and "length (concat clients) + 1 < 2 ^ 64"
    and "(gateway_step from_str ack send recv)\<^sup>*\<^sup>* (gateway_start en clients) g" and "s \<in> set (gw_sessions g)"
  shows "sorted_wrt (<) (map (\<lambda>x. unat (sq_seq (snd x))) (se_sent s)) \<and>
    (\<forall>k < en_num_shards (gw_engine g).
       subseq (sent_to k s) (gw_popped g ! k @ queued (en_senders (gw_engine g) ! k)))"
  by (rule command_ring.session_order_ring [OF assms])

lemma session_order_witness:
  "\<exists>g s. sample_step\<^sup>*\<^sup>* (gateway_start one_shard [map fst sample_lines]) g \<and> s \<in> set (gw_sessions g) \<and>
     length (se_out s) = 3 \<and> sorted_wrt (<) (map (\<lambda>x. unat (sq_seq (snd x))) (se_sent s))"
proof -
  obtain g where g: "sample_step\<^sup>*\<^sup>* (gateway_start one_shard [map fst sample_lines]) g"
    "map se_out (gw_sessions g) =
       [[submitted_reply sample_ack 1, error_reply (Json ''expected value''), submitted_reply sample_ack 2]]"
    by (rule sample_reached)
  then obtain s where s: "gw_sessions g = [s]" "length (se_out s) = 3" by auto
  have "s \<in> set (gw_sessions g)" "length (concat [map fst sample_lines]) + 1 < 2 ^ 64"
    by (simp_all add: s sample_lines_def)
  then show ?thesis
    using session_order [OF cq.command_ring_axioms one_shard_empty _ g(1)] g(1) s(2) by blast
qed

section \<open>The rings\<close>

text \<open>
  No ring ever holds more than the configured capacity, in any interleaving of any
  number of clients, and the capacities stay as configured.
\<close>

lemma rings_bounded:
  assumes "command_ring queued capacity is_open send recv" and "engine_start mk cap n symbols = Inr (en, sss)"
    and "0 < n" and "queued (mk cap) = []"
    and "(gateway_step from_str ack send recv)\<^sup>*\<^sup>* (gateway_start en clients) g" and "ch \<in> set (en_senders (gw_engine g))"
  shows "length (queued ch) \<le> capacity (mk cap) \<and> capacity ch = capacity (mk cap)"
  by (rule command_ring.rings_bounded_ring [OF assms])

abbreviation sample_ring :: "nat \<Rightarrow> sequenced bounded_queue" where
  "sample_ring c \<equiv> \<lparr>bq_items = [], bq_capacity = c, bq_connected = True\<rparr>"

lemma sample_started: "engine_start sample_ring 8 1 [(symbol_to_id AAPL, 1)] = Inr (one_shard, [[(symbol_to_id AAPL, 1)]])"
  by (simp add: engine_start_def shard_symbols_filter one_shard_def)

lemma rings_bounded_witness:
  "\<exists>g. sample_step\<^sup>*\<^sup>* (gateway_start one_shard [map fst sample_lines]) g \<and>
     (\<forall>ch \<in> set (en_senders (gw_engine g)). length (bq_items ch) \<le> 8)"
proof -
  obtain g where g: "sample_step\<^sup>*\<^sup>* (gateway_start one_shard [map fst sample_lines]) g" by (rule sample_reached)
  show ?thesis
    using rings_bounded [OF cq.command_ring_axioms sample_started _ _ g] g by (intro exI [of _ g]) simp
qed

section \<open>Progress\<close>

text \<open>
  The gateway always gets its work done. A run for finitely many lines has at most three
  steps per line and one per client; a reachable state that is not at rest has a next step;
  and from every reachable state a state is reached where all connections are accepted, all
  lines are read, all rings are empty and every command that was acknowledged or queued has
  been taken by a shard, once.
\<close>

lemma gateway_comes_to_rest:
  assumes "command_ring queued capacity is_open send recv" and "engine_ok en"
    and "\<forall>ch \<in> set (en_senders en). queued ch = []"
  shows "(\<forall>j g. (gateway_step from_str ack send recv ^^ j) (gateway_start en clients) g \<longrightarrow>
      j \<le> (\<Sum>ls\<leftarrow>clients. 3 * length ls + 1)) \<and>
    (\<forall>g. (gateway_step from_str ack send recv)\<^sup>*\<^sup>* (gateway_start en clients) g \<longrightarrow>
      (at_rest queued g \<or> (\<exists>g'. gateway_step from_str ack send recv g g')) \<and>
      (\<exists>g'. (gateway_step from_str ack send recv)\<^sup>*\<^sup>* g g' \<and> at_rest queued g' \<and>
         mset (concat (map (\<lambda>s. map snd (se_sent s)) (gw_sessions g'))) = mset (concat (gw_popped g'))))"
  by (rule command_ring.runs_end_ring [OF assms])

lemma gateway_comes_to_rest_witness:
  "\<exists>g. sample_step\<^sup>*\<^sup>* (gateway_start one_shard [map fst sample_lines]) g \<and> at_rest bq_items g"
  using gateway_comes_to_rest [OF cq.command_ring_axioms one_shard_empty(1,2), of sample_parse sample_ack "[map fst sample_lines]"]
  by blast

section \<open>From the line to the book\<close>

text \<open>
  The whole path. Any number of clients send any lines; the commands in them are no
  stops, and no more limit quantity than 64 bits hold. However the sessions and the shards
  interleave, running a shard on the commands it has taken does not panic, publishes exactly
  the events of the specification of its symbols, and leaves every book uncrossed and in
  the state of its specification.
\<close>

lemma gateway_end_to_end:
  assumes "command_ring queued capacity is_open send recv" and "slab_allocator vk" and "fsync \<noteq> Every 0"
    and "engine_start mk cap n symbols = Inr (en, sss)" and "0 < n" and "queued (mk cap) = []"
    and "(gateway_step from_str ack send recv)\<^sup>*\<^sup>* (gateway_start en clients) g"
    and "\<forall>c \<in> set (asked from_str (concat clients)). stop_free c"
    and "(\<Sum>c\<leftarrow>asked from_str (concat clients). cmd_limit_qty c) < 2 ^ 64"
    and "2 * length (asked from_str (concat clients)) + 2 \<le> depth_bound"
    and "k < n" and "map snd cmds = gw_popped g ! k"
  shows "\<exists>sh F. run_shard vk depth_bound crc ser fsync (sss ! k) d cmds = Inr sh \<and>
    spec_shard (fst ` set (sss ! k)) (gw_popped g ! k) (\<lambda>_. spec_empty) = Some (F, sh_out sh) \<and>
    (\<forall>s b. sh_books sh s = Some b \<longrightarrow> rep vk b (F s) \<and> check_no_cross b)"
proof -
  have en: "engine_ok en" "\<forall>ch \<in> set (en_senders en). queued ch = []" "k < en_num_shards en"
    using assms(4-6,11) by (auto simp: engine_start_def shard_symbols_filter engine_ok_def)
  have "session_ok vk depth_bound (cmds_of s (map snd cmds))" for s
    using stop_free_session [OF assms(2) command_ring.popped_cmds [OF assms(1) en(1,2) assms(7) en(3)] assms(8-10)] assms(12) by simp
  then obtain sh F where r: "run_shard vk depth_bound crc ser fsync (sss ! k) d cmds = Inr sh"
    "spec_shard (fst ` set (sss ! k)) (map snd cmds) (\<lambda>_. spec_empty) = Some (F, sh_out sh)"
    "\<forall>s b. sh_books sh s = Some b \<longrightarrow> rep vk b (F s) \<and> (\<exists>ev. spec_run spec_empty (cmds_of s (map snd cmds)) = Some (F s, ev))"
    using run_shard_refine [OF assms(2) _ assms(3)] by meson
  moreover have "check_no_cross b" if "sh_books sh s = Some b" for s b
    using r(3) that no_cross_refine orderly_run [OF _ orderly_empty] unfolding orderly_def by blast
  ultimately show ?thesis using assms(12) by metis
qed

lemma sample_asked:
  "asked sample_parse (concat [map fst sample_lines]) =
     [New \<lparr>no_id = 1, no_symbol = symbol_to_id AAPL, no_side = Buy, no_kind = Limit, no_tif = Gtc,
        no_price = dollars_to_ticks 100, no_stop_price = dollars_to_ticks 0, no_qty = 5\<rparr>,
      Cancel 1 (symbol_to_id AAPL)]"
  by (simp add: sample_lines_def line_request_def trim_def white_space_def sample_parse_def parse_inbound_def Let_def
      new_order_of_json_def)

lemma gateway_end_to_end_witness:
  "\<exists>g sh. sample_step\<^sup>*\<^sup>* (gateway_start one_shard [map fst sample_lines]) g \<and> at_rest bq_items g \<and>
     run_shard stack_key 10 (\<lambda>_. 0) (\<lambda>_. []) Off [(symbol_to_id AAPL, 1)] \<lparr>files = [], synced = []\<rparr>
       (map (Pair 0) (gw_popped g ! 0)) = Inr sh \<and> (\<forall>s b. sh_books sh s = Some b \<longrightarrow> check_no_cross b)"
proof -
  obtain g where g: "sample_step\<^sup>*\<^sup>* (gateway_start one_shard [map fst sample_lines]) g" "at_rest bq_items g"
    using cq.runs_end_ring [OF one_shard_empty(1,2), of sample_parse sample_ack "[map fst sample_lines]"] by blast
  have "map snd (map (Pair (0 :: u64)) (gw_popped g ! 0)) = gw_popped g ! 0" by (simp add: comp_def)
  from gateway_end_to_end [OF cq.command_ring_axioms stack.slab_allocator_axioms _ sample_started _ _ g(1) _ _ _ _ this,
      of Off 10 "\<lambda>_. 0" "\<lambda>_. []" "\<lparr>files = [], synced = []\<rparr>"] g
  show ?thesis unfolding sample_asked by (simp add: stop_free_def cmd_limit_qty_def limit_qty_def) blast
qed

end
