(* ===== verification/Publisher.thy ===== *)
theory Publisher
  imports Market_Data "HOL-Library.Sublist"
begin

text \<open>
  The receiving half of \<^verbatim>\<open>crates/marketdata/src/bus.rs\<close> and the client loop of
  \<^verbatim>\<open>publisher.rs\<close>. The broadcast channel is \<^verbatim>\<open>tokio\<close>'s: \<open>broadcast_run\<close> states what its
  documentation says a receiver gets of the events published since it subscribed.
  \<open>to_str\<close> is \<^verbatim>\<open>serde_json::to_string\<close>.
\<close>

section \<open>Receiving\<close>

datatype recv_outcome = Got market_event | Lagged nat | Closed

text \<open>\<^verbatim>\<open>MarketReceiver::recv\<close> over the outcomes of the channel: it skips lags; None when the
  channel is closed, or nothing more has come.\<close>

fun bus_recv :: "recv_outcome list \<Rightarrow> (market_event \<times> recv_outcome list) option" where
  "bus_recv [] = None"
| "bus_recv (Got ev # os) = Some (ev, os)"
| "bus_recv (Lagged n # os) = bus_recv os"
| "bus_recv (Closed # os) = None"

lemma bus_recv_length: "bus_recv os = Some (ev, os') \<Longrightarrow> length os' < length os"
  by (induction os rule: bus_recv.induct) auto

section \<open>A WebSocket client\<close>

text \<open>The texts the client is sent; \<open>sends\<close> tells how each send ends, as far as they ended.\<close>

function ws_client :: "(market_event \<Rightarrow> string option) \<Rightarrow> bool list \<Rightarrow> recv_outcome list \<Rightarrow> string list" where
  "ws_client to_str sends os =
     (case bus_recv os of
        None \<Rightarrow> []
      | Some (ev, os') \<Rightarrow>
          (case to_str ev of
             None \<Rightarrow> ws_client to_str sends os'
           | Some json \<Rightarrow>
               (case sends of
                  [] \<Rightarrow> []
                | ok # sends' \<Rightarrow> if ok then json # ws_client to_str sends' os' else [])))"
  by pat_completeness auto
termination by (relation "measure (\<lambda>(_, _, os). length os)") (auto dest: bus_recv_length)

declare ws_client.simps [simp del]

section \<open>The channel\<close>

text \<open>A receiver gets the published events in order; one that falls behind is told how many of
  the oldest it has lost; a closed channel hands over what is left first.\<close>

fun broadcast_run :: "market_event list \<Rightarrow> recv_outcome list \<Rightarrow> bool" where
  "broadcast_run es [] = True"
| "broadcast_run es (Got ev # os) = (case es of [] \<Rightarrow> False | e # es \<Rightarrow> e = ev \<and> broadcast_run es os)"
| "broadcast_run es (Lagged n # os) = (n \<le> length es \<and> broadcast_run (drop n es) os)"
| "broadcast_run es (Closed # os) = (es = [] \<and> os = [])"

text \<open>One receive takes the events up to the one it returns.\<close>

lemma bus_recv_run:
  "bus_recv os = Some (ev, os') \<Longrightarrow> broadcast_run es os \<Longrightarrow>
     \<exists>lost es'. es = lost @ ev # es' \<and> broadcast_run es' os' \<and> (lost \<noteq> [] \<longrightarrow> (\<exists>n. Lagged n \<in> set os))"
proof (induction os arbitrary: es rule: bus_recv.induct)
  case (2 e os)
  then show ?case by (cases es) auto
next
  case (3 n os)
  then have "bus_recv os = Some (ev, os')" "broadcast_run (drop n es) os" by simp_all
  then obtain lost es' where e: "drop n es = lost @ ev # es'" "broadcast_run es' os'" using "3.IH" by blast
  have "es = (take n es @ lost) @ ev # es'" using append_take_drop_id [of n es] e(1) by simp
  then show ?case using e(2) by (intro exI [of _ "take n es @ lost"] exI [of _ es']) auto
qed auto

lemma bus_recv_suffix: "bus_recv os = Some (ev, os') \<Longrightarrow> set os' \<subseteq> set os"
  by (induction os rule: bus_recv.induct) auto

lemma bus_recv_last: "bus_recv os = Some (ev, os') \<Longrightarrow> os \<noteq> [] \<Longrightarrow> last os = Closed \<Longrightarrow> os' \<noteq> [] \<and> last os' = Closed"
proof (induction os rule: bus_recv.induct)
  case (3 n os)
  then show ?case by (cases os) auto
qed (auto split: if_splits)

lemma bus_recv_none:
  "bus_recv os = None \<Longrightarrow> broadcast_run es os \<Longrightarrow> \<forall>n. Lagged n \<notin> set os \<Longrightarrow> os \<noteq> [] \<Longrightarrow> es = []"
  by (induction os arbitrary: es rule: bus_recv.induct) auto

text \<open>What one turn of the client loop does.\<close>

lemma ws_client_none: "bus_recv os = None \<Longrightarrow> ws_client to_str sends os = []"
  by (simp add: ws_client.simps [of to_str sends os])

lemma ws_client_some:
  "bus_recv os = Some (ev, os') \<Longrightarrow> ws_client to_str sends os =
     (case to_str ev of None \<Rightarrow> ws_client to_str sends os'
      | Some json \<Rightarrow> (case sends of [] \<Rightarrow> [] | ok # sends' \<Rightarrow> if ok then json # ws_client to_str sends' os' else []))"
  by (simp add: ws_client.simps [of to_str sends os])

text \<open>A client is sent some of the published events, in their order.\<close>

lemma ws_client_subseq: "broadcast_run es os \<Longrightarrow> subseq (ws_client to_str sends os) (List.map_filter to_str es)"
proof (induction "length os" arbitrary: os es sends rule: less_induct)
  case less
  show ?case
  proof (cases "bus_recv os")
    case (Some x)
    then obtain ev os' where x: "bus_recv os = Some (ev, os')" by (cases x) auto
    obtain lost es' where es: "es = lost @ ev # es'" "broadcast_run es' os'"
      using bus_recv_run [OF x less.prems] by blast
    note IH = less.hyps [OF bus_recv_length [OF x] es(2)]
    have "subseq (ws_client to_str sends os) (List.map_filter to_str (ev # es'))"
      using IH by (auto simp: ws_client_some [OF x] List.map_filter_def split: option.split list.split)
    then show ?thesis unfolding es(1) List.map_filter_def by (simp add: list_emb_append2)
  qed (simp add: ws_client_none)
qed

text \<open>One that does not lag is sent all of them, as far as it has got.\<close>

lemma ws_client_complete:
  "\<forall>n. Lagged n \<notin> set os \<Longrightarrow> broadcast_run es os \<Longrightarrow> os \<noteq> [] \<Longrightarrow> last os = Closed \<Longrightarrow> None \<notin> to_str ` set es \<Longrightarrow>
     ws_client to_str (replicate (length es) True) os = map (the \<circ> to_str) es"
proof (induction "length os" arbitrary: os es rule: less_induct)
  case less
  show ?case
  proof (cases "bus_recv os")
    case None
    then show ?thesis using bus_recv_none [OF None] less.prems by (simp add: ws_client_none)
  next
    case (Some x)
    then obtain ev os' where x: "bus_recv os = Some (ev, os')" by (cases x) auto
    obtain es' where es: "es = ev # es'" "broadcast_run es' os'"
      using bus_recv_run [OF x less.prems(2)] less.prems(1) by fastforce
    have "ws_client to_str (replicate (length es') True) os' = map (the \<circ> to_str) es'"
      by (rule less.hyps [OF bus_recv_length [OF x]])
        (use less.prems bus_recv_suffix [OF x] bus_recv_last [OF x] es in auto)
    then show ?thesis using less.prems(5) es(1) by (auto simp: ws_client_some [OF x] image_iff split: option.split)
  qed
qed

lemma ws_client_gets_feed:
  assumes "broadcast_run es os"
  shows "subseq (ws_client to_str sends os) (List.map_filter to_str es) \<and>
    ((\<forall>n. Lagged n \<notin> set os) \<and> os \<noteq> [] \<and> last os = Closed \<and> sends = replicate (length es) True \<and> None \<notin> to_str ` set es \<longrightarrow>
       ws_client to_str sends os = map (the \<circ> to_str) es)"
  using ws_client_subseq [OF assms] ws_client_complete [OF _ assms] by blast

lemma ws_client_live:
  "None \<notin> to_str ` set es \<Longrightarrow> ws_client to_str (replicate (length es) True) (map Got es) = map (the \<circ> to_str) es"
proof (induction es)
  case (Cons e es)
  then obtain json where "to_str e = Some json" by (cases "to_str e") auto
  then show ?case using Cons by (simp add: ws_client.simps [of to_str _ "Got e # _"])
qed (simp add: ws_client_none)

end
