(* ===== verification/Metrics.thy ===== *)
theory Metrics
  imports Shard_Properties Market_Data
begin

text \<open>
  \<^verbatim>\<open>crates/metrics\<close>: what the calls of \<^verbatim>\<open>registry.rs\<close> do to the recorder of the \<^verbatim>\<open>metrics\<close>
  crate, and the latency recorder of \<^verbatim>\<open>histogram.rs\<close> over a histogram of the \<^verbatim>\<open>hdrhistogram\<close>
  crate, a parameter whose documented behaviour is the locale \<open>hdr_histogram\<close>. Installing
  the Prometheus exporter is left out.
\<close>

section \<open>registry.rs\<close>

type_synonym labels = "(string \<times> string) list"

datatype recording =
  Increment string labels nat
| Set_gauge string labels f64

definition inc_orders :: "string \<Rightarrow> string \<Rightarrow> recording" where
  "inc_orders symbol order_type =
     Increment ''exchange_orders_total'' [(''symbol'', symbol), (''type'', order_type)] 1"

definition inc_trades :: "string \<Rightarrow> recording" where
  "inc_trades symbol = Increment ''exchange_trades_total'' [(''symbol'', symbol)] 1"

definition inc_rejects :: "string \<Rightarrow> recording" where
  "inc_rejects reason = Increment ''exchange_rejects_total'' [(''reason'', reason)] 1"

definition set_book_depth :: "string \<Rightarrow> string \<Rightarrow> f64 \<Rightarrow> recording" where
  "set_book_depth symbol sd d = Set_gauge ''exchange_book_depth'' [(''symbol'', symbol), (''side'', sd)] d"

definition set_spread :: "string \<Rightarrow> f64 \<Rightarrow> recording" where
  "set_spread symbol ticks = Set_gauge ''exchange_spread_ticks'' [(''symbol'', symbol)] ticks"

definition set_ring_occupancy :: "u32 \<Rightarrow> f64 \<Rightarrow> recording" where
  "set_ring_occupancy shard pct = Set_gauge ''exchange_ring_occupancy'' [(''shard'', nat_str (unat shard))] pct"

text \<open>The calls of a shard.\<close>

fun recorded :: "metric \<Rightarrow> recording" where
  "recorded (Orders s t) = inc_orders s t"
| "recorded (Trades s) = inc_trades s"
| "recorded (Rejects why) = inc_rejects why"
| "recorded (Book_depth s sd q) = set_book_depth s sd (u64_to_f64 q)"
| "recorded (Spread s ticks) = set_spread s (f64_of_int ticks)"

text \<open>A counter is the sum of its increments, a gauge what it was last set to.\<close>

definition counter :: "string \<Rightarrow> labels \<Rightarrow> recording list \<Rightarrow> nat" where
  "counter name ls rs =
     (\<Sum>r\<leftarrow>rs. case r of Increment name' ls' n \<Rightarrow> if name' = name \<and> ls' = ls then n else 0 | _ \<Rightarrow> 0)"

definition gauge :: "string \<Rightarrow> labels \<Rightarrow> recording list \<Rightarrow> f64 option" where
  "gauge name ls rs =
     foldl (\<lambda>v r. case r of Set_gauge name' ls' x \<Rightarrow> if name' = name \<and> ls' = ls then Some x else v | _ \<Rightarrow> v) None rs"

section \<open>histogram.rs\<close>

datatype stage = IngressToMatch | MatchToAck | EndToEnd

fun stage_name :: "stage \<Rightarrow> string" where
  "stage_name IngressToMatch = ''ingress_to_match''"
| "stage_name MatchToAck = ''match_to_ack''"
| "stage_name EndToEnd = ''end_to_end''"

text \<open>\<open>lr_poisoned\<close>: a thread has panicked while it held the mutex.\<close>

record 'h latency_recorder =
  lr_hist :: 'h
  lr_stage :: stage
  lr_poisoned :: bool

text \<open>\<open>mk low high sigfig\<close> is \<^verbatim>\<open>new_with_bounds\<close>.\<close>

definition recorder_new :: "(u64 \<Rightarrow> u64 \<Rightarrow> nat \<Rightarrow> 'h) \<Rightarrow> stage \<Rightarrow> 'h latency_recorder" where
  "recorder_new mk st = \<lparr>lr_hist = mk 1 60000000000 3, lr_stage = st, lr_poisoned = False\<rparr>"

text \<open>Neither a poisoned mutex nor a value out of bounds is reported.\<close>

definition record_ns :: "(u64 \<Rightarrow> 'h \<Rightarrow> 'h option) \<Rightarrow> u64 \<Rightarrow> 'h latency_recorder \<Rightarrow> 'h latency_recorder" where
  "record_ns rec ns r =
     (if lr_poisoned r then r
      else (case rec ns (lr_hist r) of None \<Rightarrow> r | Some h \<Rightarrow> r\<lparr>lr_hist := h\<rparr>))"

text \<open>\<^verbatim>\<open>unwrap\<close> of a poisoned mutex panics: None.\<close>

definition percentiles :: "(rat \<Rightarrow> 'h \<Rightarrow> u64) \<Rightarrow> ('h \<Rightarrow> u64) \<Rightarrow> 'h latency_recorder \<Rightarrow> (u64 \<times> u64 \<times> u64 \<times> u64) option" where
  "percentiles value_at maxv r =
     (if lr_poisoned r then None
      else Some (value_at 50 (lr_hist r), value_at 99 (lr_hist r), value_at (999 / 10) (lr_hist r), maxv (lr_hist r)))"

definition recorder_reset :: "('h \<Rightarrow> 'h) \<Rightarrow> 'h latency_recorder \<Rightarrow> 'h latency_recorder" where
  "recorder_reset rs r = (if lr_poisoned r then r else r\<lparr>lr_hist := rs (lr_hist r)\<rparr>)"

text \<open>Nanoseconds as microseconds with one decimal; the micro sign is two UTF-8 bytes.\<close>

definition micros_str :: "u64 \<Rightarrow> string" where
  "micros_str ns =
     (let d = nat (round_even (10 * f64_div (u64_to_f64 ns) (f64_of_int 1000)))
      in nat_str (d div 10) @ ''.'' @ nat_str (d mod 10) @ [CHR 0xC2, CHR 0xB5] @ ''s'')"

definition report_line ::
  "(rat \<Rightarrow> 'h \<Rightarrow> u64) \<Rightarrow> ('h \<Rightarrow> u64) \<Rightarrow> 'h latency_recorder \<Rightarrow> string option" where
  "report_line value_at maxv r =
     map_option (\<lambda>(p50, p99, p999, mx).
       ''[latency:'' @ stage_name (lr_stage r) @ ''] p50='' @ micros_str p50 @ ''  p99='' @ micros_str p99 @
       ''  p999='' @ micros_str p999 @ ''  max='' @ micros_str mx @ [CHR 0x0A])
     (percentiles value_at maxv r)"

text \<open>What is documented of a histogram and used here.\<close>

locale hdr_histogram =
  fixes mk :: "u64 \<Rightarrow> u64 \<Rightarrow> nat \<Rightarrow> 'h" and rec :: "u64 \<Rightarrow> 'h \<Rightarrow> 'h option" and value_at :: "rat \<Rightarrow> 'h \<Rightarrow> u64"
    and maxv :: "'h \<Rightarrow> u64" and rs :: "'h \<Rightarrow> 'h" and recorded_values :: "'h \<Rightarrow> u64 list" and high :: "'h \<Rightarrow> u64"
  assumes mk_empty: "recorded_values (mk l u d) = [] \<and> high (mk l u d) = u"
    and rec_in_range: "ns \<le> high h \<Longrightarrow> \<exists>h'. rec ns h = Some h' \<and> recorded_values h' = ns # recorded_values h \<and> high h' = high h"
    and rec_too_large: "high h < ns \<Longrightarrow> rec ns h = None"
    and rs_empty: "recorded_values (rs h) = [] \<and> high (rs h) = high h"
    and value_at_mono: "p \<le> q \<Longrightarrow> value_at p h \<le> value_at q h"
    and value_at_max: "value_at p h \<le> maxv h"
    and value_at_least: "recorded_values h \<noteq> [] \<Longrightarrow> 0 < p \<Longrightarrow> \<exists>v \<in> set (recorded_values h). v \<le> value_at p h"
begin

lemma record_values:
  assumes "\<not> lr_poisoned r"
  shows "recorded_values (lr_hist (record_ns rec ns r)) =
      (if ns \<le> high (lr_hist r) then ns # recorded_values (lr_hist r) else recorded_values (lr_hist r))"
    and "high (lr_hist (record_ns rec ns r)) = high (lr_hist r)" and "lr_poisoned (record_ns rec ns r) = lr_poisoned r"
proof -
  have "recorded_values (lr_hist (record_ns rec ns r)) =
      (if ns \<le> high (lr_hist r) then ns # recorded_values (lr_hist r) else recorded_values (lr_hist r)) \<and>
    high (lr_hist (record_ns rec ns r)) = high (lr_hist r) \<and> lr_poisoned (record_ns rec ns r) = lr_poisoned r"
  proof (cases "ns \<le> high (lr_hist r)")
    case True
    then show ?thesis using rec_in_range [OF True] assms by (auto simp: record_ns_def)
  next
    case False
    then show ?thesis using rec_too_large [of "lr_hist r" ns] by (simp add: record_ns_def)
  qed
  then show "recorded_values (lr_hist (record_ns rec ns r)) =
      (if ns \<le> high (lr_hist r) then ns # recorded_values (lr_hist r) else recorded_values (lr_hist r))"
    "high (lr_hist (record_ns rec ns r)) = high (lr_hist r)" "lr_poisoned (record_ns rec ns r) = lr_poisoned r" by blast+
qed

lemma record_all:
  "\<not> lr_poisoned r \<Longrightarrow>
     recorded_values (lr_hist (fold (record_ns rec) nss r)) = rev (filter (\<lambda>ns. ns \<le> high (lr_hist r)) nss) @ recorded_values (lr_hist r) \<and>
     high (lr_hist (fold (record_ns rec) nss r)) = high (lr_hist r) \<and> \<not> lr_poisoned (fold (record_ns rec) nss r)"
proof (induction nss arbitrary: r)
  case (Cons ns nss)
  then show ?case using Cons.IH [of "record_ns rec ns r"] record_values [OF Cons.prems, of ns] by simp
qed simp

lemma report_ordered:
  "\<not> lr_poisoned r \<Longrightarrow> \<exists>p50 p99 p999 mx. percentiles value_at maxv r = Some (p50, p99, p999, mx) \<and>
     p50 \<le> p99 \<and> p99 \<le> p999 \<and> p999 \<le> mx"
  by (simp add: percentiles_def value_at_mono value_at_max)

lemma report_positive:
  assumes "\<not> lr_poisoned r" and "recorded_values (lr_hist r) \<noteq> []" and "\<forall>v \<in> set (recorded_values (lr_hist r)). 0 < v"
  shows "\<exists>p50 p99 p999 mx. percentiles value_at maxv r = Some (p50, p99, p999, mx) \<and>
    0 < p50 \<and> p50 \<le> p99 \<and> p99 \<le> p999 \<and> p999 \<le> mx"
proof -
  obtain v where "v \<in> set (recorded_values (lr_hist r))" "v \<le> value_at 50 (lr_hist r)"
    using value_at_least [OF assms(2), of 50] by auto
  then have "0 < value_at 50 (lr_hist r)" using assms(3) by (meson order_less_le_trans)
  then show ?thesis using report_ordered [OF assms(1)] assms(1) by (auto simp: percentiles_def)
qed

lemma new_recorder:
  "\<not> lr_poisoned (recorder_new mk st)" "recorded_values (lr_hist (recorder_new mk st)) = []"
  "high (lr_hist (recorder_new mk st)) = 60000000000"
  using mk_empty by (simp_all add: recorder_new_def)

text \<open>The samples of up to a minute are recorded, the others silently dropped.\<close>

lemma recorder_report:
  assumes "\<exists>ns \<in> set nss. ns \<le> 60000000000" and "0 \<notin> set nss"
  shows "\<exists>p50 p99 p999 mx. percentiles value_at maxv (fold (record_ns rec) nss (recorder_new mk st)) = Some (p50, p99, p999, mx) \<and>
    0 < p50 \<and> p50 \<le> p99 \<and> p99 \<le> p999 \<and> p999 \<le> mx"
proof -
  note all = record_all [OF new_recorder(1), of nss st]
  have "recorded_values (lr_hist (fold (record_ns rec) nss (recorder_new mk st))) =
      rev (filter (\<lambda>ns. ns \<le> 60000000000) nss)"
    using all by (simp add: new_recorder)
  moreover have "filter (\<lambda>ns. ns \<le> 60000000000) nss \<noteq> []" using assms(1) by (auto simp: filter_empty_conv)
  ultimately show ?thesis using all assms(2) by (intro report_positive) (auto simp: word_gt_0)
qed

end

text \<open>A histogram that keeps every value exactly is one.\<close>

record exact_histogram =
  eh_values :: "u64 list"
  eh_high :: u64

definition eh_new :: "u64 \<Rightarrow> u64 \<Rightarrow> nat \<Rightarrow> exact_histogram" where
  "eh_new l u d = \<lparr>eh_values = [], eh_high = u\<rparr>"

definition eh_record :: "u64 \<Rightarrow> exact_histogram \<Rightarrow> exact_histogram option" where
  "eh_record ns h = (if ns \<le> eh_high h then Some (h\<lparr>eh_values := ns # eh_values h\<rparr>) else None)"

definition eh_rank :: "rat \<Rightarrow> exact_histogram \<Rightarrow> nat" where
  "eh_rank p h = min (length (eh_values h) - 1) (nat \<lceil>p * of_nat (length (eh_values h)) / 100\<rceil> - 1)"

definition eh_value_at :: "rat \<Rightarrow> exact_histogram \<Rightarrow> u64" where
  "eh_value_at p h = (if eh_values h = [] then 0 else sort (eh_values h) ! eh_rank p h)"

definition eh_max :: "exact_histogram \<Rightarrow> u64" where
  "eh_max h = (if eh_values h = [] then 0 else sort (eh_values h) ! (length (eh_values h) - 1))"

definition eh_reset :: "exact_histogram \<Rightarrow> exact_histogram" where
  "eh_reset h = h\<lparr>eh_values := []\<rparr>"

lemma eh_rank_bound: "eh_values h \<noteq> [] \<Longrightarrow> eh_rank p h < length (eh_values h)"
  by (simp add: eh_rank_def min_less_iff_disj)

lemma eh_rank_mono: "p \<le> q \<Longrightarrow> eh_rank p h \<le> eh_rank q h"
proof -
  assume "p \<le> q"
  then have "p * of_nat (length (eh_values h)) / 100 \<le> q * of_nat (length (eh_values h)) / 100"
    by (intro divide_right_mono mult_right_mono) simp_all
  then have "nat \<lceil>p * of_nat (length (eh_values h)) / 100\<rceil> \<le> nat \<lceil>q * of_nat (length (eh_values h)) / 100\<rceil>"
    by (intro nat_mono ceiling_mono)
  then show ?thesis unfolding eh_rank_def by (intro min.mono diff_le_mono) simp_all
qed

interpretation eh: hdr_histogram eh_new eh_record eh_value_at eh_max eh_reset eh_values eh_high
proof unfold_locales
  show "p \<le> q \<Longrightarrow> eh_value_at p h \<le> eh_value_at q h" for p q h
    using eh_rank_mono [of p q h] eh_rank_bound [of h q] by (auto simp: eh_value_at_def intro!: sorted_nth_mono)
  show "eh_value_at p h \<le> eh_max h" for p h
    using eh_rank_bound [of h p] by (auto simp: eh_value_at_def eh_max_def intro!: sorted_nth_mono)
  show "eh_values h \<noteq> [] \<Longrightarrow> 0 < p \<Longrightarrow> \<exists>v \<in> set (eh_values h). v \<le> eh_value_at p h" for h p
    using eh_rank_bound [of h p] nth_mem [of "eh_rank p h" "sort (eh_values h)"]
    by (intro bexI [of _ "eh_value_at p h"]) (simp_all add: eh_value_at_def)
qed (auto simp: eh_new_def eh_record_def eh_reset_def)

section \<open>The counters of a shard\<close>

lemma counter_simps [simp]:
  "counter name ls [] = 0"
  "counter name ls (Increment n l k # rs) = (if n = name \<and> l = ls then k else 0) + counter name ls rs"
  "counter name ls (Set_gauge n l x # rs) = counter name ls rs"
  "counter name ls (rs @ rs') = counter name ls rs + counter name ls rs'"
  by (simp_all add: counter_def)

definition orders_count :: "symbol_id \<Rightarrow> string \<Rightarrow> shard \<Rightarrow> nat" where
  "orders_count s t sh =
     counter ''exchange_orders_total'' [(''symbol'', sym_label s), (''type'', t)] (map recorded (sh_metrics sh))"

definition trades_count :: "symbol_id \<Rightarrow> shard \<Rightarrow> nat" where
  "trades_count s sh = counter ''exchange_trades_total'' [(''symbol'', sym_label s)] (map recorded (sh_metrics sh))"

definition rejects_count :: "reject_reason \<Rightarrow> shard \<Rightarrow> nat" where
  "rejects_count why sh = counter ''exchange_rejects_total'' [(''reason'', reason_label why)] (map recorded (sh_metrics sh))"

definition rejected_for :: "reject_reason \<Rightarrow> output_event \<Rightarrow> bool" where
  "rejected_for why e = (case e of Rejected _ w _ \<Rightarrow> w = why | _ \<Rightarrow> False)"

lemma sym_label_inj: "sym_label s = sym_label s' \<longleftrightarrow> s = s'"
  unfolding sym_label_def by (metis nat_str_facts word_unat_eq_iff)

lemma reason_label_inj: "reason_label w = reason_label w' \<longleftrightarrow> w = w'"
  by (cases w; cases w') simp_all

lemmas recording_defs = inc_orders_def inc_trades_def inc_rejects_def set_book_depth_def set_spread_def

lemma book_metrics_gauges [simp]: "counter name ls (map recorded (book_metrics s b)) = 0"
  by (auto simp: book_metrics_def Let_def recording_defs split: list.splits)

lemma event_metrics_counts:
  "counter ''exchange_orders_total'' ls (map recorded (concat (map (event_metrics s) ev))) = 0"
  "counter ''exchange_trades_total'' [(''symbol'', sym_label s')] (map recorded (concat (map (event_metrics s) ev))) =
     (if s = s' then length (filter is_trade ev) else 0)"
  "counter ''exchange_rejects_total'' [(''reason'', reason_label why)] (map recorded (concat (map (event_metrics s) ev))) =
     length (filter (rejected_for why) ev)"
proof (induction ev)
  case (Cons e ev)
  case 1
  then show ?case using Cons by (cases e) (simp_all add: event_metrics_def recording_defs)
next
  case (Cons e ev)
  case 2
  then show ?case using Cons by (cases e) (simp_all add: event_metrics_def recording_defs sym_label_inj)
next
  case (Cons e ev)
  case 3
  then show ?case using Cons by (cases e) (simp_all add: event_metrics_def recording_defs reason_label_inj rejected_for_def)
qed simp_all

lemma shard_step_effect:
  assumes "shard_step vk n crc ser now c sh = Inr sh'"
  shows "sh_books sh (cmd_symbol (sq_cmd c)) = None \<and> sh_books sh' = sh_books sh \<and> sh_out sh' = sh_out sh \<and> sh_metrics sh' = sh_metrics sh \<or>
    (\<exists>b ev. cmd_symbol (sq_cmd c) \<in> dom (sh_books sh) \<and> dom (sh_books sh') = dom (sh_books sh) \<and> sh_out sh' = sh_out sh @ ev \<and>
      sh_metrics sh' = sh_metrics sh @ [Orders (sym_label (cmd_symbol (sq_cmd c))) (type_label (sq_cmd c))] @
        concat (map (event_metrics (cmd_symbol (sq_cmd c))) ev) @ book_metrics (cmd_symbol (sq_cmd c)) b)"
proof (cases "sh_books sh (cmd_symbol (sq_cmd c))")
  case None
  then show ?thesis using assms by (auto simp: shard_step_defs rbind_eq_Inr Let_def)
next
  case (Some b)
  then obtain wal b' ev where "sh' = sh\<lparr>sh_wal := wal, sh_books := (sh_books sh)(cmd_symbol (sq_cmd c) \<mapsto> b'),
      sh_out := sh_out sh @ ev, sh_metrics := sh_metrics sh @ [Orders (sym_label (cmd_symbol (sq_cmd c))) (type_label (sq_cmd c))] @
        concat (map (event_metrics (cmd_symbol (sq_cmd c))) ev) @ book_metrics (cmd_symbol (sq_cmd c)) b',
      sh_latency := sh_latency sh @ [sat_sub now (sq_ts c)]\<rparr>"
    using assms by (auto simp: shard_step_defs rbind_eq_Inr Let_def)
  with Some show ?thesis by (intro disjI2 exI [of _ b'] exI [of _ ev]) auto
qed

definition counted :: "(u64 \<times> sequenced) list \<Rightarrow> shard \<Rightarrow> bool" where
  "counted cmds sh \<longleftrightarrow>
     (\<forall>s t. orders_count s t sh =
        (if s \<in> dom (sh_books sh) then length (filter (\<lambda>(_, c). cmd_symbol (sq_cmd c) = s \<and> type_label (sq_cmd c) = t) cmds) else 0)) \<and>
     (\<forall>why. rejects_count why sh = length (filter (rejected_for why) (sh_out sh))) \<and>
     (\<Sum>s \<in> dom (sh_books sh). trades_count s sh) = length (filter is_trade (sh_out sh))"

lemma counted_step:
  assumes "shard_step vk n crc ser now c sh = Inr sh'" and "counted cmds sh" and "finite (dom (sh_books sh))"
  shows "counted (cmds @ [(now, c)]) sh' \<and> finite (dom (sh_books sh'))"
  using shard_step_effect [OF assms(1)]
proof (elim disjE exE conjE)
  assume "sh_books sh (cmd_symbol (sq_cmd c)) = None" "sh_books sh' = sh_books sh" "sh_out sh' = sh_out sh" "sh_metrics sh' = sh_metrics sh"
  then show ?thesis
    using assms(2,3) by (auto simp: counted_def orders_count_def rejects_count_def trades_count_def)
next
  let ?s = "cmd_symbol (sq_cmd c)"
  fix b ev
  assume e: "?s \<in> dom (sh_books sh)" "dom (sh_books sh') = dom (sh_books sh)" "sh_out sh' = sh_out sh @ ev"
    "sh_metrics sh' = sh_metrics sh @ [Orders (sym_label ?s) (type_label (sq_cmd c))] @
      concat (map (event_metrics ?s) ev) @ book_metrics ?s b"
  have "orders_count s t sh' = orders_count s t sh + (if s = ?s \<and> t = type_label (sq_cmd c) then 1 else 0)" for s t
    by (auto simp: orders_count_def e(4) event_metrics_counts recording_defs sym_label_inj)
  moreover have "rejects_count why sh' = rejects_count why sh + length (filter (rejected_for why) ev)" for why
    by (simp add: rejects_count_def e(4) event_metrics_counts recording_defs)
  moreover have "trades_count s sh' = trades_count s sh + (if ?s = s then length (filter is_trade ev) else 0)" for s
    by (simp add: trades_count_def e(4) event_metrics_counts recording_defs)
  ultimately show ?thesis
    using assms(2,3) e(1-3) by (auto simp: counted_def sum.distrib)
qed

lemma counted_steps:
  "shard_steps vk n crc ser cmds' sh = Inr sh' \<Longrightarrow> counted cmds sh \<Longrightarrow> finite (dom (sh_books sh)) \<Longrightarrow> counted (cmds @ cmds') sh'"
proof (induction cmds' arbitrary: sh cmds)
  case (Cons x cmds')
  obtain now c where x: "x = (now, c)" by (cases x)
  then obtain sh1 where "shard_step vk n crc ser now c sh = Inr sh1" "shard_steps vk n crc ser cmds' sh1 = Inr sh'"
    using Cons.prems(1) by (auto simp: rbind_eq_Inr)
  then show ?case using Cons.IH [of sh1 "cmds @ [x]"] counted_step Cons.prems(2,3) x by auto
qed simp

lemma shard_steps_dom: "shard_steps vk n crc ser cmds sh = Inr sh' \<Longrightarrow> dom (sh_books sh') = dom (sh_books sh)"
proof (induction cmds arbitrary: sh)
  case (Cons x cmds)
  obtain now c where x: "x = (now, c)" by (cases x)
  then obtain sh1 where "shard_step vk n crc ser now c sh = Inr sh1" "shard_steps vk n crc ser cmds sh1 = Inr sh'"
    using Cons.prems by (auto simp: rbind_eq_Inr)
  then show ?case using Cons.IH [of sh1] shard_step_effect [of vk n crc ser now c sh sh1] by auto
qed simp

text \<open>
  C32: The counters of a shard are exact: per owned symbol and order type the commands it
  took, per reason the rejections it published, and over all its symbols the trades it
  published. Commands for other symbols count nowhere.
\<close>

theorem metrics_exact:
  assumes "run_shard vk n crc ser fsync symbols d cmds = Inr sh"
  shows "(\<forall>s t. orders_count s t sh =
        (if s \<in> fst ` set symbols
         then length (filter (\<lambda>(_, c). cmd_symbol (sq_cmd c) = s \<and> type_label (sq_cmd c) = t) cmds) else 0)) \<and>
    (\<forall>why. rejects_count why sh = length (filter (rejected_for why) (sh_out sh))) \<and>
    (\<Sum>s \<in> fst ` set symbols. trades_count s sh) = length (filter is_trade (sh_out sh))"
proof -
  obtain sh1 where sh1: "shard_steps vk n crc ser cmds (shard_start fsync symbols d) = Inr sh1"
    "sh = sh1\<lparr>sh_wal := wal_flush (sh_wal sh1)\<rparr>"
    using assms by (auto simp: run_shard_def rbind_eq_Inr)
  have books: "sh_books (shard_start fsync symbols d) = start_books symbols" by (simp add: shard_start_def start_books_def)
  have "counted [] (shard_start fsync symbols d)"
    by (simp add: counted_def orders_count_def rejects_count_def trades_count_def shard_start_def)
  then have "counted cmds sh1" using counted_steps [OF sh1(1), of "[]"] by (simp add: books start_books_new(1))
  moreover have "dom (sh_books sh1) = fst ` set symbols"
    using shard_steps_dom [OF sh1(1)] by (simp add: books start_books_new(1))
  ultimately show ?thesis by (simp add: sh1(2) counted_def orders_count_def rejects_count_def trades_count_def)
qed

lemma metrics_exact_witness:
  "\<exists>sh. run_shard stack_key 30 (\<lambda>_. 0) sample_ser Off [(1, 1)] \<lparr>files = [], synced = []\<rparr> shard_sample = Inr sh \<and>
     orders_count 1 ''limit'' sh = 4 \<and> rejects_count UnknownId sh = 0"
proof -
  obtain sh F where r: "run_shard stack_key 30 (\<lambda>_. 0) sample_ser Off [(1, 1)] \<lparr>files = [], synced = []\<rparr> shard_sample = Inr sh"
    "spec_shard {1} (stray # sample_session) (\<lambda>_. spec_empty) = Some (F, sh_out sh)"
    using run_shard_refine [OF stack.slab_allocator_axioms sample_sessions, of Off "\<lambda>_. 0" sample_ser "\<lparr>files = [], synced = []\<rparr>"]
    by (auto simp: shard_sample_cmds simp del: cmds_of_simps spec_shard.simps)
  then have "sh_out sh = [Accepted 1 1, Accepted 2 2, Accepted 3 3, Accepted 4 4]"
    using sample_run by (auto simp: spec_shard_single sample_symbol simp del: cmds_of_simps spec_shard.simps)
  then show ?thesis
    using metrics_exact [OF r(1)] r(1)
    by (intro exI [of _ sh]) (simp add: rejected_for_def shard_sample_def stray_def sample_session_def cmd_symbol_def)
qed

section \<open>Latency reports\<close>

text \<open>The unit test of the recorder, for every histogram that keeps its documented behaviour.\<close>

definition records_and_reports ::
  "(u64 \<Rightarrow> u64 \<Rightarrow> nat \<Rightarrow> 'h) \<Rightarrow> (u64 \<Rightarrow> 'h \<Rightarrow> 'h option) \<Rightarrow> (rat \<Rightarrow> 'h \<Rightarrow> u64) \<Rightarrow> ('h \<Rightarrow> u64) \<Rightarrow> bool" where
  "records_and_reports mk rec value_at maxv =
     (case percentiles value_at maxv
         (fold (record_ns rec) (map word_of_nat [1000..<10001]) (recorder_new mk EndToEnd)) of
        None \<Rightarrow> False
      | Some (p50, p99, _, mx) \<Rightarrow> p50 > 0 \<and> p99 \<ge> p50 \<and> mx \<ge> p99)"

lemma word_upt:
  assumes "0 < a" and "a < b" and "b \<le> 2 ^ 64"
  shows "(word_of_nat a :: u64) \<in> set (map word_of_nat [a..<b])" "(0 :: u64) \<notin> set (map word_of_nat [a..<b])"
proof -
  show "(word_of_nat a :: u64) \<in> set (map word_of_nat [a..<b])" using assms(2) by auto
  have "i = 0" if "(word_of_nat i :: u64) = 0" "i < b" for i
    using that(2) assms(3) word_of_nat_inj64 [of i 0] that(1) by simp
  then show "(0 :: u64) \<notin> set (map word_of_nat [a..<b])" using assms(1) by fastforce
qed

context hdr_histogram
begin

lemma test_passes: "records_and_reports mk rec value_at maxv"
proof -
  define nss :: "u64 list" where "nss = map word_of_nat [1000..<10001]"
  have mem: "word_of_nat 1000 \<in> set nss" "0 \<notin> set nss" unfolding nss_def by (rule word_upt; simp)+
  have "\<exists>ns \<in> set nss. ns \<le> 60000000000" by (rule bexI [OF _ mem(1)]) simp
  from recorder_report [OF this mem(2), of EndToEnd] show ?thesis
    unfolding records_and_reports_def nss_def [symmetric] by (elim exE conjE) simp
qed

end

text \<open>Gauges are only set while both sides have orders: when a side empties they keep its last
  depth and the last spread.\<close>

lemma gauges_go_stale: "best_bid b = None \<or> best_ask b = None \<Longrightarrow> book_metrics s b = []"
  by (cases "bids b"; cases "asks b")
    (auto simp: book_metrics_def depth_def best_bid_def best_ask_def bt_first_def Let_def)

end
