(* ===== verification/Loadgen.thy ===== *)
theory Loadgen
  imports Dollars Decimal Gateways "HOL-Library.Sublist"
begin

text \<open>
  The load generator, \<^verbatim>\<open>crates/loadgen/src/main.rs\<close>: sender tasks that draw random limit
  orders and share an id counter and a counter of what was sent. The random draws, the
  outcome of connecting and of each write are left open (a step relation); the clock and
  the pacing only delay steps.
\<close>

section \<open>Arguments\<close>

record loadgen_args =
  la_symbol :: string
  la_rate :: u64
  la_count :: u64
  la_tasks :: u64

text \<open>A release build's wrapping arithmetic; without tasks the division panics.\<close>

definition per_task :: "loadgen_args \<Rightarrow> halt + u64" where
  "per_task a =
     (if la_count a = 0 then Inr (- 1)
      else if la_tasks a = 0 then Inl Div_by_zero
      else Inr ((la_count a + la_tasks a - 1) div la_tasks a))"

text \<open>The pause between two orders in nanoseconds.\<close>

definition interval :: "loadgen_args \<Rightarrow> nat option" where
  "interval a = (if 0 < la_rate a then Some (1000000000 div unat (la_rate a)) else None)"

section \<open>Messages\<close>

record load_order =
  lo_id :: u64
  lo_buy :: bool
  lo_price :: f64
  lo_qty :: u64

text \<open>\<^verbatim>\<open>{:.2}\<close> of a price, which is positive: two decimals, ties to an even last digit.\<close>

definition cents :: "f64 \<Rightarrow> nat" where
  "cents x = nat (round_even (100 * x))"

definition price_str :: "f64 \<Rightarrow> string" where
  "price_str x = nat_str (cents x div 100) @ ''.'' @ pad_str 2 (cents x mod 100)"

definition order_line :: "string \<Rightarrow> load_order \<Rightarrow> string" where
  "order_line symbol r =
     ''{\"t\":\"new\",\"id\":'' @ nat_str (unat (lo_id r)) @ '',\"symbol\":\"'' @ symbol @ ''\",\"side\":\"'' @
     (if lo_buy r then ''buy'' else ''sell'') @ ''\",\"type\":\"limit\",\"price\":'' @ price_str (lo_price r) @
     '',\"qty\":'' @ nat_str (unat (lo_qty r)) @ ''}'' @ [CHR 0x0A]"

text \<open>The draws: \<open>x\<close> is \<^verbatim>\<open>gen_range(-2.0..2.0)\<close>, \<open>q\<close> is \<^verbatim>\<open>gen_range(1..=100)\<close>.\<close>

definition draw :: "u64 \<Rightarrow> bool \<Rightarrow> f64 \<Rightarrow> u64 \<Rightarrow> load_order" where
  "draw i buy x q = \<lparr>lo_id = i, lo_buy = buy, lo_price = fl (100 + x), lo_qty = q\<rparr>"

section \<open>Tasks\<close>

text \<open>A task: connecting or sending, how often its loop still runs, the order it has drawn
  and not written yet, and what it wrote.\<close>

record load_task =
  lt_connected :: bool
  lt_left :: nat
  lt_drawn :: "load_order option"
  lt_written :: "load_order list"

record loadgen =
  lg_id_ctr :: u64
  lg_sent_ctr :: u64
  lg_tasks :: "load_task list"

definition loadgen_start :: "loadgen_args \<Rightarrow> halt + loadgen" where
  "loadgen_start a =
     rbind (per_task a) (\<lambda>m.
     Inr \<lparr>lg_id_ctr = 1, lg_sent_ctr = 0, lg_tasks = replicate (unat (la_tasks a))
       \<lparr>lt_connected = False, lt_left = unat m, lt_drawn = None, lt_written = []\<rparr>\<rparr>)"

abbreviation put_task :: "nat \<Rightarrow> load_task \<Rightarrow> loadgen \<Rightarrow> loadgen" where
  "put_task i t g \<equiv> g\<lparr>lg_tasks := (lg_tasks g)[i := t]\<rparr>"

text \<open>\<open>faults\<close>: whether connecting and writing may fail.\<close>

inductive load_step :: "bool \<Rightarrow> loadgen \<Rightarrow> loadgen \<Rightarrow> bool" for faults where
  connect: "i < length (lg_tasks g) \<Longrightarrow> t = lg_tasks g ! i \<Longrightarrow> \<not> lt_connected t \<Longrightarrow>
     load_step faults g (put_task i (t\<lparr>lt_connected := True\<rparr>) g)"
| no_connection: "faults \<Longrightarrow> i < length (lg_tasks g) \<Longrightarrow> t = lg_tasks g ! i \<Longrightarrow> \<not> lt_connected t \<Longrightarrow>
     load_step faults g (put_task i (t\<lparr>lt_connected := True, lt_left := 0\<rparr>) g)"
| make_order: "i < length (lg_tasks g) \<Longrightarrow> t = lg_tasks g ! i \<Longrightarrow> lt_connected t \<Longrightarrow> lt_drawn t = None \<Longrightarrow>
     lt_left t = Suc m \<Longrightarrow> - 2 \<le> x \<Longrightarrow> x < 2 \<Longrightarrow> 1 \<le> q \<Longrightarrow> q \<le> 100 \<Longrightarrow>
     load_step faults g (put_task i (t\<lparr>lt_left := m, lt_drawn := Some (draw (lg_id_ctr g) buy x q)\<rparr>)
       (g\<lparr>lg_id_ctr := lg_id_ctr g + 1\<rparr>))"
| write_order: "i < length (lg_tasks g) \<Longrightarrow> t = lg_tasks g ! i \<Longrightarrow> lt_drawn t = Some r \<Longrightarrow>
     load_step faults g (put_task i (t\<lparr>lt_drawn := None, lt_written := lt_written t @ [r]\<rparr>)
       (g\<lparr>lg_sent_ctr := lg_sent_ctr g + 1\<rparr>))"
| write_fails: "faults \<Longrightarrow> i < length (lg_tasks g) \<Longrightarrow> t = lg_tasks g ! i \<Longrightarrow> lt_drawn t = Some r \<Longrightarrow>
     load_step faults g (put_task i (t\<lparr>lt_drawn := None, lt_left := 0\<rparr>) g)"

text \<open>The progress printer stops when the target is reached; with no target it never does.\<close>

definition target_reached :: "loadgen_args \<Rightarrow> loadgen \<Rightarrow> bool" where
  "target_reached a g \<longleftrightarrow> la_count a > 0 \<and> lg_sent_ctr g \<ge> la_count a"

section \<open>Counting\<close>

definition task_orders :: "load_task \<Rightarrow> load_order list" where
  "task_orders t = lt_written t @ (case lt_drawn t of None \<Rightarrow> [] | Some r \<Rightarrow> [r])"

definition all_orders :: "loadgen \<Rightarrow> load_order list" where
  "all_orders g = concat (map task_orders (lg_tasks g))"

lemma load_put:
  assumes "i < length ts"
  shows "mset (concat (map task_orders (ts[i := t]))) + mset (task_orders (ts ! i)) =
      mset (concat (map task_orders ts)) + mset (task_orders t)"
    and "(\<Sum>t\<leftarrow>ts[i := t]. f t) + f (ts ! i) = (\<Sum>t\<leftarrow>ts. f t) + (f t :: nat)"
proof -
  show "mset (concat (map task_orders (ts[i := t]))) + mset (task_orders (ts ! i)) =
      mset (concat (map task_orders ts)) + mset (task_orders t)"
    using mset_concat_update [of i "map task_orders ts" "task_orders t"] assms by (simp add: map_update)
  have "f (ts ! i) \<le> (\<Sum>t\<leftarrow>ts. f t)" using assms elem_le_sum_list [of i "map f ts"] by simp
  then show "(\<Sum>t\<leftarrow>ts[i := t]. f t) + f (ts ! i) = (\<Sum>t\<leftarrow>ts. f t) + (f t :: nat)"
    using assms by (simp add: map_update sum_list_update)
qed

text \<open>A price the generator can draw, as text and as read back.\<close>

definition drawable :: "load_order \<Rightarrow> bool" where
  "drawable r \<longleftrightarrow> 1 \<le> lo_qty r \<and> lo_qty r \<le> 100 \<and> (\<exists>x. - 2 \<le> x \<and> x < 2 \<and> lo_price r = fl (100 + x))"

lemma drawable_price:
  assumes "drawable r"
  shows "9800 \<le> cents (lo_price r) \<and> cents (lo_price r) \<le> 10200 \<and>
    dollars_to_ticks (fl (of_int (int (cents (lo_price r))) / 100)) = 100 * int (cents (lo_price r))"
proof -
  obtain x where x: "- 2 \<le> x" "x < 2" "lo_price r = fl (100 + x)" using assms by (auto simp: drawable_def)
  have "\<bar>fl (100 + x) - (100 + x)\<bar> \<le> 1 / 1000" using fl_error [of "100 + x"] x(1,2) by simp
  moreover have "\<bar>of_int (round_even (100 * fl (100 + x))) - 100 * fl (100 + x)\<bar> \<le> 1 / 2" by (rule round_even_error)
  ultimately have "9799 < (of_int (round_even (100 * fl (100 + x))) :: rat)" "(of_int (round_even (100 * fl (100 + x))) :: rat) < 10201"
    using x(1,2) by linarith+
  then have c: "9800 \<le> round_even (100 * fl (100 + x))" "round_even (100 * fl (100 + x)) \<le> 10200"
    by linarith+
  have "dollars_to_ticks (fl (of_int (100 * round_even (100 * fl (100 + x))) / 10000)) = 100 * round_even (100 * fl (100 + x))"
    using c by (intro decimal_ticks) simp
  then show ?thesis using c x(3) by (simp add: cents_def) (simp add: nat_le_iff le_nat_iff)
qed

text \<open>
  In every state: each task has written, drawn and left no more than its share (exactly its
  share without faults), the id counter has a free number for every order to come, the ids
  given out are distinct and below it, and the sent counter counts what was written.
\<close>

definition load_inv :: "bool \<Rightarrow> nat \<Rightarrow> loadgen \<Rightarrow> bool" where
  "load_inv faults m g \<longleftrightarrow>
     (\<forall>t \<in> set (lg_tasks g). length (task_orders t) + lt_left t \<le> m \<and>
        (\<not> faults \<longrightarrow> length (task_orders t) + lt_left t = m)) \<and>
     unat (lg_id_ctr g) + (\<Sum>t\<leftarrow>lg_tasks g. lt_left t) \<le> Suc (length (lg_tasks g) * m) \<and>
     (\<forall>i. count (image_mset lo_id (mset (all_orders g))) i \<le> (if 0 < unat i \<and> unat i < unat (lg_id_ctr g) then 1 else 0)) \<and>
     unat (lg_sent_ctr g) = (\<Sum>t\<leftarrow>lg_tasks g. length (lt_written t)) \<and>
     (\<forall>r \<in> set (all_orders g). drawable r) \<and> 0 < unat (lg_id_ctr g)"

lemma load_inv_put:
  assumes "load_inv faults m g" and "i < length (lg_tasks g)"
    and "length (task_orders t) + lt_left t \<le> m" and "\<not> faults \<longrightarrow> length (task_orders t) + lt_left t = m"
    and "lt_left t \<le> lt_left (lg_tasks g ! i)" and "mset (task_orders t) \<subseteq># mset (task_orders (lg_tasks g ! i))"
    and "unat s + length (lt_written (lg_tasks g ! i)) = unat (lg_sent_ctr g) + length (lt_written t)"
  shows "load_inv faults m (put_task i t (g\<lparr>lg_sent_ctr := s\<rparr>))"
proof -
  let ?g = "put_task i t (g\<lparr>lg_sent_ctr := s\<rparr>)"
  have "mset (all_orders ?g) + mset (task_orders (lg_tasks g ! i)) = mset (all_orders g) + mset (task_orders t)"
    using load_put(1) [OF assms(2), of t] by (simp add: all_orders_def)
  then have sub: "mset (all_orders ?g) \<subseteq># mset (all_orders g)"
    using assms(6) by (metis mset_subset_eq_mono_add_left_cancel add.commute subset_mset.add_left_mono)
  then have "count (image_mset lo_id (mset (all_orders ?g))) j \<le> count (image_mset lo_id (mset (all_orders g))) j" for j
    by (intro mset_subset_eq_count image_mset_subseteq_mono)
  then have "\<forall>j. count (image_mset lo_id (mset (all_orders ?g))) j \<le> (if 0 < unat j \<and> unat j < unat (lg_id_ctr g) then 1 else 0)"
    using assms(1) unfolding load_inv_def by (meson order_trans)
  moreover have "set (all_orders ?g) \<subseteq> set (all_orders g)" using set_mset_mono [OF sub] by simp
  moreover have "(\<Sum>t\<leftarrow>lg_tasks ?g. lt_left t) \<le> (\<Sum>t\<leftarrow>lg_tasks g. lt_left t)"
    using load_put(2) [OF assms(2), of lt_left t] assms(5) by simp
  moreover have "unat s = (\<Sum>t\<leftarrow>lg_tasks ?g. length (lt_written t))"
    using load_put(2) [OF assms(2), of "\<lambda>t. length (lt_written t)" t] assms(1,7) by (simp add: load_inv_def)
  moreover have "\<forall>t' \<in> set (lg_tasks ?g). length (task_orders t') + lt_left t' \<le> m \<and>
      (\<not> faults \<longrightarrow> length (task_orders t') + lt_left t' = m)"
    using assms(1,3,4) set_update_subset_insert [of "lg_tasks g" i t] unfolding load_inv_def by auto
  ultimately show ?thesis using assms(1) unfolding load_inv_def by auto
qed

lemma load_inv_task:
  assumes "load_inv faults m g" and "i < length (lg_tasks g)"
  shows "length (task_orders (lg_tasks g ! i)) + lt_left (lg_tasks g ! i) \<le> m"
    "\<not> faults \<Longrightarrow> length (task_orders (lg_tasks g ! i)) + lt_left (lg_tasks g ! i) = m"
  using assms nth_mem [OF assms(2)] unfolding load_inv_def by blast+

lemma sum_list_bound: "\<forall>t \<in> set ts. f t \<le> m \<Longrightarrow> (\<Sum>t\<leftarrow>ts. f t) \<le> length ts * (m :: nat)"
  by (induction ts) auto

lemma load_inv_write:
  assumes "load_inv faults m g" and "i < length (lg_tasks g)" and "lt_drawn (lg_tasks g ! i) = Some r"
    and "length (lg_tasks g) * m < 2 ^ 64 - 1"
  shows "load_inv faults m (put_task i ((lg_tasks g ! i)\<lparr>lt_drawn := None, lt_written := lt_written (lg_tasks g ! i) @ [r]\<rparr>)
    (g\<lparr>lg_sent_ctr := lg_sent_ctr g + 1\<rparr>))"
proof (rule load_inv_put [OF assms(1,2)])
  let ?t = "(lg_tasks g ! i)\<lparr>lt_drawn := None, lt_written := lt_written (lg_tasks g ! i) @ [r]\<rparr>"
  have same: "task_orders ?t = task_orders (lg_tasks g ! i)" using assms(3) by (simp add: task_orders_def)
  then show "length (task_orders ?t) + lt_left ?t \<le> m" "\<not> faults \<longrightarrow> length (task_orders ?t) + lt_left ?t = m"
    "lt_left ?t \<le> lt_left (lg_tasks g ! i)" "mset (task_orders ?t) \<subseteq># mset (task_orders (lg_tasks g ! i))"
    using load_inv_task [OF assms(1,2)] by simp_all
  have "\<forall>t \<in> set (lg_tasks g). length (lt_written t) \<le> m"
    using assms(1) by (fastforce simp: load_inv_def task_orders_def)
  then have "unat (lg_sent_ctr g) \<le> length (lg_tasks g) * m"
    using sum_list_bound [of "lg_tasks g" "\<lambda>t. length (lt_written t)" m] assms(1) by (simp add: load_inv_def)
  then have "unat (lg_sent_ctr g + 1) = Suc (unat (lg_sent_ctr g))"
    using assms(4) by (simp add: unat_word_ariths)
  then show "unat (lg_sent_ctr g + 1) + length (lt_written (lg_tasks g ! i)) = unat (lg_sent_ctr g) + length (lt_written ?t)"
    by simp
qed

lemma load_inv_draw:
  assumes "load_inv faults m g" and "i < length (lg_tasks g)" and "lt_drawn (lg_tasks g ! i) = None"
    and "lt_left (lg_tasks g ! i) = Suc l" and "drawable r" and "lo_id r = lg_id_ctr g"
    and "length (lg_tasks g) * m < 2 ^ 64 - 1"
  shows "load_inv faults m (put_task i ((lg_tasks g ! i)\<lparr>lt_left := l, lt_drawn := Some r\<rparr>)
    (g\<lparr>lg_id_ctr := lg_id_ctr g + 1\<rparr>))"
proof -
  let ?t = "(lg_tasks g ! i)\<lparr>lt_left := l, lt_drawn := Some r\<rparr>"
  let ?g = "put_task i ?t (g\<lparr>lg_id_ctr := lg_id_ctr g + 1\<rparr>)"
  have orders: "task_orders ?t = task_orders (lg_tasks g ! i) @ [r]" using assms(3) by (simp add: task_orders_def)
  have "mset (all_orders ?g) + mset (task_orders (lg_tasks g ! i)) = add_mset r (mset (all_orders g)) + mset (task_orders (lg_tasks g ! i))"
    using load_put(1) [OF assms(2), of ?t] orders by (simp add: all_orders_def)
  then have all: "mset (all_orders ?g) = add_mset r (mset (all_orders g))" by (simp only: add_right_cancel)
  have left: "Suc (\<Sum>t\<leftarrow>lg_tasks ?g. lt_left t) = (\<Sum>t\<leftarrow>lg_tasks g. lt_left t)"
    using load_put(2) [OF assms(2), of lt_left ?t] assms(4) by simp
  then have "unat (lg_id_ctr g) < 2 ^ 64 - 1" using assms(1,7) unfolding load_inv_def by linarith
  then have ctr: "unat (lg_id_ctr g + 1) = Suc (unat (lg_id_ctr g))" by (simp add: unat_word_ariths)
  have "count (image_mset lo_id (mset (all_orders ?g))) j \<le> (if 0 < unat j \<and> unat j < unat (lg_id_ctr ?g) then 1 else 0)" for j
  proof -
    have old: "count (image_mset lo_id (mset (all_orders g))) j \<le> (if 0 < unat j \<and> unat j < unat (lg_id_ctr g) then 1 else 0)"
      "0 < unat (lg_id_ctr g)" using assms(1) by (auto simp: load_inv_def)
    show ?thesis
    proof (cases "j = lg_id_ctr g")
      case True
      then have "count (image_mset lo_id (mset (all_orders g))) j = 0" using old(1) by simp
      then show ?thesis unfolding all using True old(2) ctr assms(6) by simp
    next
      case False
      then show ?thesis unfolding all using old(1) ctr assms(6) by (auto split: if_splits)
    qed
  qed
  moreover have "set (all_orders ?g) = insert r (set (all_orders g))"
    using arg_cong [OF all, of set_mset] by simp
  moreover have "(\<Sum>t\<leftarrow>lg_tasks ?g. length (lt_written t)) = (\<Sum>t\<leftarrow>lg_tasks g. length (lt_written t))"
    using load_put(2) [OF assms(2), of "\<lambda>t. length (lt_written t)" ?t] by simp
  moreover have "\<forall>t' \<in> set (lg_tasks ?g). length (task_orders t') + lt_left t' \<le> m \<and>
      (\<not> faults \<longrightarrow> length (task_orders t') + lt_left t' = m)"
    using assms(1,4) load_inv_task [OF assms(1,2)] orders set_update_subset_insert [of "lg_tasks g" i ?t]
    unfolding load_inv_def by auto
  ultimately show ?thesis using assms(1,5) left ctr unfolding load_inv_def by auto
qed

lemma load_inv_step:
  assumes "load_step faults g g'" and "load_inv faults m g" and "length (lg_tasks g) * m < 2 ^ 64 - 1"
  shows "load_inv faults m g' \<and> length (lg_tasks g') = length (lg_tasks g)"
  using assms(1)
proof cases
  case (connect i t)
  have "load_inv faults m (put_task i (t\<lparr>lt_connected := True\<rparr>) (g\<lparr>lg_sent_ctr := lg_sent_ctr g\<rparr>))"
    using load_inv_task [OF assms(2) connect(2)] connect assms(2) by (intro load_inv_put) (simp_all add: task_orders_def)
  then show ?thesis by (simp add: connect(1))
next
  case (no_connection i t)
  have "load_inv faults m (put_task i (t\<lparr>lt_connected := True, lt_left := 0\<rparr>) (g\<lparr>lg_sent_ctr := lg_sent_ctr g\<rparr>))"
    using load_inv_task [OF assms(2) no_connection(3)] no_connection assms(2)
    by (intro load_inv_put) (simp_all add: task_orders_def)
  then show ?thesis by (simp add: no_connection(1))
next
  case (write_fails i t r)
  have "load_inv faults m (put_task i (t\<lparr>lt_drawn := None, lt_left := 0\<rparr>) (g\<lparr>lg_sent_ctr := lg_sent_ctr g\<rparr>))"
    using load_inv_task [OF assms(2) write_fails(3)] write_fails assms(2)
    by (intro load_inv_put) (simp_all add: task_orders_def)
  then show ?thesis by (simp add: write_fails(1))
next
  case (write_order i t r)
  then show ?thesis using load_inv_write [OF assms(2), of i r] assms(3) by simp
next
  case (make_order i t l x q buy)
  have "drawable (draw (lg_id_ctr g) buy x q)" using make_order by (auto simp: drawable_def draw_def)
  then show ?thesis
    using load_inv_draw [OF assms(2) make_order(2), of l] make_order(1,3,5,6) assms(3) by (simp add: draw_def)
qed

section \<open>What is sent\<close>

lemma per_task_bounds:
  assumes "per_task a = Inr m" and "0 < la_count a" and "unat (la_count a) + unat (la_tasks a) < 2 ^ 64"
  shows "unat (la_count a) \<le> unat (la_tasks a) * unat m" "unat (la_tasks a) * unat m < unat (la_count a) + unat (la_tasks a)"
proof -
  let ?c = "unat (la_count a)" and ?t = "unat (la_tasks a)"
  have nz: "la_count a \<noteq> 0" "la_tasks a \<noteq> 0" using assms(1,2) by (auto simp: per_task_def split: if_splits)
  then have pos: "0 < ?c" "0 < ?t" by (simp_all add: unat_gt_0)
  have "unat (la_count a + la_tasks a) = ?c + ?t" using assms(3) by (simp add: unat_word_ariths)
  moreover have "1 \<le> la_count a + la_tasks a"
    using pos calculation by (simp add: word_le_nat_alt)
  ultimately have "unat (la_count a + la_tasks a - 1) = ?c + ?t - 1" by (simp add: unat_sub)
  then have m: "unat m = (?c + ?t - 1) div ?t"
    using assms(1) nz by (simp add: per_task_def unat_div) (metis unat_div)
  have "?t * ((?c + ?t - 1) div ?t) + (?c + ?t - 1) mod ?t = ?c + ?t - 1" by simp
  moreover have "(?c + ?t - 1) mod ?t < ?t" using pos(2) by simp
  ultimately show "?c \<le> ?t * unat m" "?t * unat m < ?c + ?t" unfolding m using pos by linarith+
qed

lemma distinct_by_count: "(\<And>i. count (mset xs) i \<le> 1) \<Longrightarrow> distinct xs"
proof (induction xs)
  case (Cons x xs)
  have "count (mset xs) i \<le> 1" for i by (rule order_trans [OF _ Cons.prems [of i]]) simp
  moreover have "count (mset xs) x = 0" using Cons.prems [of x] by simp
  ultimately show ?case using Cons.IH by (simp add: count_eq_zero_iff)
qed simp

lemma load_done:
  assumes "\<nexists>g'. load_step faults g g'" and "t \<in> set (lg_tasks g)"
  shows "lt_left t = 0 \<and> lt_drawn t = None"
proof -
  obtain i where i: "i < length (lg_tasks g)" "t = lg_tasks g ! i" using assms(2) by (auto simp: in_set_conv_nth)
  have "lt_drawn t = None" using assms(1) load_step.write_order [OF i] by (cases "lt_drawn t") blast+
  moreover have "lt_connected t" using assms(1) load_step.connect [OF i] by blast
  ultimately show ?thesis using assms(1) load_step.make_order [OF i, of _ 0 1] by (cases "lt_left t") fastforce+
qed

lemma loadgen_reach:
  assumes "loadgen_start a = Inr g0" and "per_task a = Inr m" and "unat (la_tasks a) * unat m < 2 ^ 64 - 1"
    and "(load_step faults)\<^sup>*\<^sup>* g0 g"
  shows "load_inv faults (unat m) g \<and> length (lg_tasks g) = unat (la_tasks a)"
  using assms(4)
proof (induction rule: rtranclp_induct)
  case base
  then show ?case
    using assms(1,2)
    by (auto simp: loadgen_start_def load_inv_def task_orders_def all_orders_def sum_list_replicate concat_eq_Nil_conv)
next
  case (step g1 g2)
  then show ?case using load_inv_step [OF step(2)] assms(3) by auto
qed

text \<open>
  C34: However the sender tasks interleave, connect and fail, the ids of all orders are
  distinct, every order is one the matching engine accepts (quantity 1 to 100, price 98.00
  to 102.00 dollars, read back from its text as exactly that many ticks), the counter counts
  what was written, and fewer than \<open>count + tasks\<close> orders are sent. Without faults a run that
  has come to its end has sent the same number from each task, at least \<open>count\<close> in all, so
  that the progress printer stops.
\<close>

theorem loadgen_sends:
  assumes "loadgen_start a = Inr g0" and "0 < la_count a" and "unat (la_count a) + unat (la_tasks a) < 2 ^ 64"
    and "(load_step faults)\<^sup>*\<^sup>* g0 g"
  shows "distinct (map lo_id (all_orders g)) \<and>
    (\<forall>r \<in> set (all_orders g). 1 \<le> lo_qty r \<and> lo_qty r \<le> 100 \<and> 9800 \<le> cents (lo_price r) \<and> cents (lo_price r) \<le> 10200 \<and>
       dollars_to_ticks (fl (of_int (int (cents (lo_price r))) / 100)) = 100 * int (cents (lo_price r))) \<and>
    unat (lg_sent_ctr g) = (\<Sum>t\<leftarrow>lg_tasks g. length (lt_written t)) \<and>
    unat (lg_sent_ctr g) < unat (la_count a) + unat (la_tasks a) \<and>
    (\<not> faults \<and> (\<nexists>g'. load_step faults g g') \<longrightarrow> target_reached a g)"
proof -
  obtain m where m: "per_task a = Inr m" using assms(1) by (auto simp: loadgen_start_def rbind_eq_Inr)
  note b = per_task_bounds [OF m assms(2,3)]
  have inv: "load_inv faults (unat m) g" "length (lg_tasks g) = unat (la_tasks a)"
    using loadgen_reach [OF assms(1) m _ assms(4)] b(2) assms(3) by auto
  have le1: "count (mset (map lo_id (all_orders g))) i \<le> 1" for i
  proof -
    have "count (image_mset lo_id (mset (all_orders g))) i \<le> (if 0 < unat i \<and> unat i < unat (lg_id_ctr g) then 1 else 0)"
      using inv(1) unfolding load_inv_def by blast
    also have "\<dots> \<le> 1" by simp
    finally show ?thesis by simp
  qed
  then have "distinct (map lo_id (all_orders g))" by (rule distinct_by_count)
  moreover have sent: "unat (lg_sent_ctr g) = (\<Sum>t\<leftarrow>lg_tasks g. length (lt_written t))"
    using inv(1) by (simp add: load_inv_def)
  moreover have "\<forall>t \<in> set (lg_tasks g). length (lt_written t) \<le> unat m"
    using inv(1) by (fastforce simp: load_inv_def task_orders_def)
  then have "unat (lg_sent_ctr g) \<le> unat (la_tasks a) * unat m"
    using sum_list_bound [of "lg_tasks g" "\<lambda>t. length (lt_written t)" "unat m"] inv(2) sent by simp
  then have "unat (lg_sent_ctr g) < unat (la_count a) + unat (la_tasks a)" using b(2) by linarith
  moreover have "target_reached a g" if "\<not> faults" "\<nexists>g'. load_step faults g g'"
  proof -
    have "length (lt_written t) = unat m" if "t \<in> set (lg_tasks g)" for t
      using load_done [OF \<open>\<nexists>g'. load_step faults g g'\<close> that] inv(1) \<open>\<not> faults\<close> that
      by (fastforce simp: load_inv_def task_orders_def)
    then have "map (\<lambda>t. length (lt_written t)) (lg_tasks g) = replicate (unat (la_tasks a)) (unat m)"
      using inv(2) by (intro replicate_eqI) auto
    then have "unat (lg_sent_ctr g) = unat (la_tasks a) * unat m" using sent by (simp add: sum_list_replicate)
    then show ?thesis using b(1) assms(2) by (simp add: target_reached_def word_le_nat_alt)
  qed
  ultimately show ?thesis using inv(1) drawable_price unfolding load_inv_def drawable_def by blast
qed

section \<open>Examples\<close>

definition sample_args :: "u64 \<Rightarrow> u64 \<Rightarrow> loadgen_args" where
  "sample_args c w = \<lparr>la_symbol = ''AAPL'', la_rate = 10000, la_count = c, la_tasks = w\<rparr>"

text \<open>Rounding up per task sends more than \<open>count\<close>; without tasks the generator panics.\<close>

lemma per_task_examples:
  "per_task (sample_args 10 4) = Inr 3" "per_task (sample_args 10 0) = Inl Div_by_zero"
  "per_task (sample_args 0 0) = Inr (- 1)" "interval (sample_args 10 4) = Some 100000"
  by (simp_all add: per_task_def sample_args_def interval_def)

lemma cents_example: "cents (fl (100 + - 1 / 8)) = 9988"
  by code_simp

lemma order_line_example:
  "order_line ''AAPL'' (draw 7 True (- 1 / 8) 5) =
     ''{\"t\":\"new\",\"id\":7,\"symbol\":\"AAPL\",\"side\":\"buy\",\"type\":\"limit\",\"price\":99.88,\"qty\":5}'' @ [CHR 0x0A]"
proof -
  have "price_str (fl (100 + - 1 / 8)) = ''99.88''"
    by (simp only: price_str_def cents_example) (simp add: pad_str_def nat_str.simps digit_def char_of_def bit_Suc bit_0)
  then show ?thesis by (simp add: order_line_def draw_def nat_str.simps digit_def char_of_def bit_Suc bit_0)
qed

definition sample_tasks :: "u64 \<Rightarrow> u64 \<Rightarrow> load_task \<Rightarrow> loadgen" where
  "sample_tasks i s t = \<lparr>lg_id_ctr = i, lg_sent_ctr = s, lg_tasks = [t,
     \<lparr>lt_connected = False, lt_left = 2, lt_drawn = None, lt_written = []\<rparr>]\<rparr>"

lemma loadgen_sends_witness:
  "\<exists>g0 g. loadgen_start (sample_args 3 2) = Inr g0 \<and> (load_step True)\<^sup>*\<^sup>* g0 g \<and>
     map lo_id (all_orders g) = [1] \<and> unat (lg_sent_ctr g) = 1 \<and> unat (lg_sent_ctr g) < 5"
proof -
  let ?t0 = "\<lparr>lt_connected = False, lt_left = 2, lt_drawn = None, lt_written = []\<rparr>"
  let ?g0 = "sample_tasks 1 0 ?t0"
  let ?g1 = "sample_tasks 1 0 (?t0\<lparr>lt_connected := True\<rparr>)"
  let ?r = "draw 1 True 0 5"
  let ?g2 = "sample_tasks 2 0 \<lparr>lt_connected = True, lt_left = 1, lt_drawn = Some ?r, lt_written = []\<rparr>"
  let ?g3 = "sample_tasks 2 1 \<lparr>lt_connected = True, lt_left = 1, lt_drawn = None, lt_written = [?r]\<rparr>"
  have g0: "loadgen_start (sample_args 3 2) = Inr ?g0"
  proof -
    have "per_task (sample_args 3 2) = Inr 2" by (simp add: per_task_def sample_args_def)
    moreover have "replicate (unat (la_tasks (sample_args 3 2))) x = [x, x]" for x :: load_task
      by (simp add: sample_args_def) (simp add: numeral_2_eq_2)
    ultimately show ?thesis by (simp add: loadgen_start_def sample_tasks_def)
  qed
  have "load_step True ?g0 ?g1"
    using load_step.connect [OF _ refl, where i = 0 and g = ?g0] by (simp add: sample_tasks_def)
  moreover have "load_step True ?g1 ?g2"
    using load_step.make_order [OF _ refl, where i = 0 and g = ?g1 and x = 0 and q = 5 and m = 1 and buy = True]
    by (simp add: sample_tasks_def)
  moreover have "load_step True ?g2 ?g3"
    using load_step.write_order [OF _ refl, where i = 0 and g = ?g2] by (simp add: sample_tasks_def)
  ultimately have r: "(load_step True)\<^sup>*\<^sup>* ?g0 ?g3" by (meson converse_rtranclp_into_rtranclp rtranclp.rtrancl_refl)
  show ?thesis
    using loadgen_sends [OF g0 _ _ r] g0 r
    by (intro exI [of _ ?g0] exI [of _ ?g3]) (simp add: sample_args_def all_orders_def task_orders_def sample_tasks_def draw_def)
qed

end
