(* ===== verification/Core_Tests.thy ===== *)
theory Core_Tests
  imports Stop_Hazards Sessions
begin

text \<open>
  The test modules of \<^verbatim>\<open>crates/core/src/matcher.rs\<close>. The unit tests are evaluated on the
  model, with the slab's own choice of keys; of the property tests the stream interpreter
  \<open>apply_ops\<close> is modelled, and what they sample is proved for every stream.
\<close>

section \<open>Unit tests\<close>

definition test_limit :: "order_id \<Rightarrow> side \<Rightarrow> price \<Rightarrow> qty \<Rightarrow> command" where
  "test_limit i sd p q = New (mk_order i sd Limit p 0 q)"

definition test_market :: "order_id \<Rightarrow> side \<Rightarrow> qty \<Rightarrow> command" where
  "test_market i sd q = New (mk_order i sd Market 0 0 q)"

definition test_fok :: "order_id \<Rightarrow> side \<Rightarrow> price \<Rightarrow> qty \<Rightarrow> command" where
  "test_fok i sd p q = New (mk_order i sd Fok p 0 q)"

text \<open>The assertions on a book and the events; a panic fails the test.\<close>

definition passes ::
  "(order_book \<Rightarrow> output_event list \<Rightarrow> bool) \<Rightarrow> halt + (order_book \<times> output_event list) \<Rightarrow> bool" where
  "passes P r = (case r of Inl _ \<Rightarrow> False | Inr (b, out) \<Rightarrow> P b out)"

definition no_cross_no_trade :: bool where
  "no_cross_no_trade =
     passes (\<lambda>b out. \<not> list_ex is_trade out \<and> best_bid b = Some (100, 10) \<and> best_ask b = Some (101, 10))
       (run_book 30 [cmd_at 1 (test_limit 1 Buy 100 10), cmd_at 2 (test_limit 2 Sell 101 10)])"

definition simple_full_cross :: bool where
  "simple_full_cross =
     passes (\<lambda>b out. (case filter is_trade out of [e] \<Rightarrow> trade_price e = 100 \<and> trade_qty e = 10 | _ \<Rightarrow> False) \<and>
         best_bid b = None \<and> best_ask b = None \<and> check_no_cross b)
       (run_book 30 [cmd_at 1 (test_limit 1 Sell 100 10), cmd_at 2 (test_limit 2 Buy 100 10)])"

definition partial_fill :: bool where
  "partial_fill =
     passes (\<lambda>b out. length (filter is_trade out) = 1 \<and> best_bid b = Some (100, 5) \<and> best_ask b = None)
       (run_book 30 [cmd_at 1 (test_limit 1 Sell 100 5), cmd_at 2 (test_limit 2 Buy 100 10)])"

definition price_time_priority :: bool where
  "price_time_priority =
     passes (\<lambda>b out. case List.find is_trade out of None \<Rightarrow> False | Some e \<Rightarrow> trade_maker e = 1)
       (run_book 30 [cmd_at 1 (test_limit 1 Sell 100 5), cmd_at 2 (test_limit 2 Sell 100 5),
          cmd_at 3 (test_limit 3 Buy 100 5)])"

definition cancel_removes_order :: bool where
  "cancel_removes_order =
     passes (\<lambda>b out. best_bid b = None \<and> check_qty_conservation [] b = Inr True)
       (run_book 30 [cmd_at 1 (test_limit 1 Buy 100 10), cmd_at 2 (Cancel 1 1)])"

definition cancel_unknown_is_reject :: bool where
  "cancel_unknown_is_reject =
     passes (\<lambda>b out. list_ex (\<lambda>e. case e of Rejected _ UnknownId _ \<Rightarrow> True | _ \<Rightarrow> False) out)
       (run_book 30 [cmd_at 1 (Cancel 999 1)])"

definition fok_full_fill :: bool where
  "fok_full_fill =
     passes (\<lambda>b out. list_ex (\<lambda>e. case e of Filled i _ \<Rightarrow> i = 2 | _ \<Rightarrow> False) out)
       (run_book 30 [cmd_at 1 (test_limit 1 Sell 100 10), cmd_at 2 (test_fok 2 Buy 100 10)])"

definition fok_unfillable_zero_trades :: bool where
  "fok_unfillable_zero_trades =
     passes (\<lambda>b out. \<not> list_ex is_trade out \<and>
         list_ex (\<lambda>e. case e of Rejected _ FokUnfillable _ \<Rightarrow> True | _ \<Rightarrow> False) out)
       (run_book 30 [cmd_at 1 (test_limit 1 Sell 100 5), cmd_at 2 (test_fok 2 Buy 100 10)])"

text \<open>The events of the first two orders are cleared.\<close>

definition market_order_walks_book :: bool where
  "market_order_walks_book =
     passes (\<lambda>b _. passes (\<lambda>b out. length (filter is_trade out) = 2)
         (apply_cmd stack_key 30 b (cmd_at 3 (test_market 3 Buy 8)) []))
       (run_book 30 [cmd_at 1 (test_limit 1 Sell 100 5), cmd_at 2 (test_limit 2 Sell 101 5)])"

definition alternating_op :: "nat \<Rightarrow> sequenced" where
  "alternating_op i =
     (let sd = (if i mod 2 = 0 then Buy else Sell);
          p = 100 + (int i mod 5) * (if sd = Buy then - 1 else 1)
      in cmd_at (word_of_nat i) (test_limit (word_of_nat i) sd p 10))"

definition no_cross_invariant_after_random_ops :: bool where
  "no_cross_invariant_after_random_ops =
     list_all (\<lambda>m. passes (\<lambda>b _. check_no_cross b) (run_book 60 (map alternating_op [1..<Suc m]))) [1..<21]"

text \<open>The keys of the index in the order a hash map may list them.\<close>

definition qty_conservation_after_ops :: "order_id list \<Rightarrow> bool" where
  "qty_conservation_after_ops ids =
     passes (\<lambda>b _. check_qty_conservation ids b = Inr True)
       (run_book 30 [cmd_at 1 (test_limit 1 Buy 99 10), cmd_at 2 (test_limit 2 Buy 100 5),
          cmd_at 3 (test_limit 3 Sell 101 8), cmd_at 4 (test_limit 4 Sell 100 3)])"

lemma unit_tests_pass:
  "no_cross_no_trade" "simple_full_cross" "partial_fill" "price_time_priority" "cancel_removes_order"
  "cancel_unknown_is_reject" "fok_full_fill" "fok_unfillable_zero_trades" "market_order_walks_book"
  "qty_conservation_after_ops [1, 2, 3]" "qty_conservation_after_ops [3, 1, 2]"
  by code_simp+

text \<open>The stream of the last test is a session, and no prefix of a session crosses the book.\<close>

lemma session_never_crosses: "session_ok stack_key n cs \<Longrightarrow> passes (\<lambda>b _. check_no_cross b) (run_book n cs)"
  by (rule session_run [of stack_key n cs 1 1]) (simp_all add: passes_def run_book_def no_cross_refine orderly_def)

lemma random_ops_pass: "no_cross_invariant_after_random_ops"
proof -
  have "session_ok stack_key 60 (map alternating_op [1..<21])"
    by (simp add: session_ok_def stack.slab_allocator_axioms upt_rec alternating_op_def cmd_at_def test_limit_def
        mk_order_def cmd_limit_qty_def limit_qty_def)
  then have "session_ok stack_key 60 (map alternating_op [1..<Suc m])" if "m < 21" for m
    using session_ok_take [of stack_key 60 "map alternating_op [1..<21]" m] that by (simp add: take_map)
  then show ?thesis
    by (auto simp: no_cross_invariant_after_random_ops_def list_all_iff simp del: upt_Suc intro!: session_never_crosses)
qed

section \<open>Streams of operations\<close>

datatype op =
  NewLimit order_id side price qty
| NewMarket order_id side qty
| NewFok order_id side price qty
| CancelOp order_id

text \<open>A cancel names the first key of the index, \<open>pick\<close>, if there is one; the ids of the
  operations are replaced by fresh ones.\<close>

definition op_cmd :: "((order_id \<rightharpoonup> location) \<Rightarrow> order_id option) \<Rightarrow> order_book \<Rightarrow> order_id \<Rightarrow> op \<Rightarrow> command" where
  "op_cmd pick b i p =
     (case p of
        NewLimit _ sd pr q \<Rightarrow> test_limit i sd pr q
      | NewMarket _ sd q \<Rightarrow> test_market i sd q
      | NewFok _ sd pr q \<Rightarrow> test_fok i sd pr q
      | CancelOp c \<Rightarrow> Cancel (case pick (id_index b) of None \<Rightarrow> c | Some real_id \<Rightarrow> real_id) 1)"

fun apply_ops ::
  "(slab_op list \<Rightarrow> nat) \<Rightarrow> nat \<Rightarrow> ((order_id \<rightharpoonup> location) \<Rightarrow> order_id option) \<Rightarrow> op list \<Rightarrow> seq_no \<Rightarrow> order_id \<Rightarrow>
   order_book \<Rightarrow> output_event list \<Rightarrow> halt + (order_book \<times> output_event list)" where
  "apply_ops vk n pick [] s i b all_events = Inr (b, all_events)"
| "apply_ops vk n pick (p # ps) s i b all_events =
     rbind (apply_cmd vk n b \<lparr>sq_seq = s, sq_ts = s * 100, sq_cmd = op_cmd pick b i p\<rparr> []) (\<lambda>(b, out).
     apply_ops vk n pick ps (s + 1) (i + 1) b (all_events @ out))"

text \<open>Commands a stream may turn into: as many, no stops, no more quantity.\<close>

definition op_qty :: "op \<Rightarrow> nat" where
  "op_qty p = (case p of NewLimit _ _ _ q \<Rightarrow> unat q | _ \<Rightarrow> 0)"

definition plays :: "op list \<Rightarrow> sequenced list \<Rightarrow> bool" where
  "plays ps cs \<longleftrightarrow> list_all2 (\<lambda>p c. stop_free (sq_cmd c) \<and> cmd_limit_qty (sq_cmd c) \<le> op_qty p) ps cs"

lemma op_cmd_plays: "stop_free (op_cmd pick b i p) \<and> cmd_limit_qty (op_cmd pick b i p) \<le> op_qty p"
  by (cases p) (simp_all add: op_cmd_def stop_free_def test_limit_def test_market_def test_fok_def
      cmd_limit_qty_def limit_qty_def op_qty_def)

lemma plays_clean: "plays ps cs \<Longrightarrow> clean_session {} (map sq_cmd cs)"
  by (rule stop_free_clean) (auto simp: plays_def list_all2_conv_all_nth in_set_conv_nth)

lemma plays_qty: "plays ps cs \<Longrightarrow> (\<Sum>c\<leftarrow>cs. cmd_limit_qty (sq_cmd c)) \<le> (\<Sum>p\<leftarrow>ps. op_qty p)"
  unfolding plays_def by (induction rule: list_all2_induct) auto

text \<open>Before a stream: whatever commands it turns into, the refinement covers them.\<close>

definition ops_ready :: "(slab_op list \<Rightarrow> nat) \<Rightarrow> nat \<Rightarrow> op list \<Rightarrow> order_book \<Rightarrow> spec_book \<Rightarrow> bool" where
  "ops_ready vk n ps b sp \<longleftrightarrow> stop_ids sp = {} \<and> (\<forall>cs. plays ps cs \<longrightarrow> ready vk n cs b sp)"

lemma stop_free_stays:
  assumes "rep vk b sp" and "spec_apply sp c = Some (sp', ev)" and "stop_free (sq_cmd c)" and "stop_ids sp = {}"
  shows "stop_ids sp' = {}"
proof -
  have lim: "\<forall>sd. \<forall>x \<in> set (queue sp sd). o_kind x = Limit"
    using queue_order_fields(1) assms(1) unfolding rep_def by blast
  have kd: "case sq_cmd c of New no \<Rightarrow> no_kind no \<noteq> StopLimit | _ \<Rightarrow> True"
    using assms(3) by (auto simp: stop_free_def split: command.splits)
  show ?thesis
    using spec_apply_bounds(2) [OF rep_market_stops [OF assms(1)] assms(2) kd lim] assms(3,4)
    by (auto simp: stop_free_def split: command.splits)
qed

lemma plays_ex: "\<exists>cs. plays ps cs"
  unfolding plays_def
  by (rule exI [of _ "map (\<lambda>_. cmd_at 0 (Cancel 0 0)) ps"])
    (simp add: list_all2_map2 stop_free_def cmd_limit_qty_def list_all2_same)

lemma ops_ready_step:
  assumes al: "slab_allocator vk" and rd: "ops_ready vk n (p # ps) b sp" and c: "plays [p] [c]"
  obtains b1 sp1 ev where "spec_apply sp c = Some (sp1, ev)" "apply_cmd vk n b c [] = Inr (b1, ev)"
    "ops_ready vk n ps b1 sp1"
proof -
  have plays: "plays (p # ps) (c # cs)" if "plays ps cs" for cs using c that by (simp add: plays_def)
  have step: "\<exists>b1 sp1 ev. spec_apply sp c = Some (sp1, ev) \<and> apply_cmd vk n b c [] = Inr (b1, ev) \<and> ready vk n cs b1 sp1"
    if "plays ps cs" for cs
  proof -
    have "ready vk n (c # cs) b sp" using rd plays [OF that] by (simp add: ops_ready_def)
    from ready_step [OF al this, of "[]"] show ?thesis by (metis append_Nil)
  qed
  obtain cs0 where "plays ps cs0" using plays_ex by blast
  then obtain b1 sp1 ev where 1: "spec_apply sp c = Some (sp1, ev)" "apply_cmd vk n b c [] = Inr (b1, ev)"
    using step by blast
  have rp: "rep vk b sp" using ready_rep rd plays [OF \<open>plays ps cs0\<close>] unfolding ops_ready_def by blast
  have "stop_ids sp1 = {}"
    using stop_free_stays [OF rp 1(1)] rd c by (simp add: ops_ready_def plays_def)
  moreover have "ready vk n cs b1 sp1" if "plays ps cs" for cs using step [OF that] 1 by auto
  ultimately show ?thesis using 1 by (intro that) (auto simp: ops_ready_def)
qed

lemma apply_ops_refine:
  assumes "slab_allocator vk"
  shows "ops_ready vk n ps b sp \<Longrightarrow>
    \<exists>cs b' sp' ev. plays ps cs \<and> spec_run sp cs = Some (sp', ev) \<and>
      apply_ops vk n pick ps s i b evs = Inr (b', evs @ ev) \<and> rep vk b' sp' \<and> stop_ids sp' = {}"
proof (induction ps arbitrary: b sp s i evs)
  case Nil
  then have "rep vk b sp" using ready_rep by (auto simp: ops_ready_def plays_def)
  then show ?case using Nil by (auto simp: ops_ready_def plays_def)
next
  case (Cons p ps)
  let ?c = "\<lparr>sq_seq = s, sq_ts = s * 100, sq_cmd = op_cmd pick b i p\<rparr>"
  have "plays [p] [?c]" using op_cmd_plays by (simp add: plays_def)
  then obtain b1 sp1 ev1 where 1: "spec_apply sp ?c = Some (sp1, ev1)" "apply_cmd vk n b ?c [] = Inr (b1, ev1)"
    "ops_ready vk n ps b1 sp1"
    by (rule ops_ready_step [OF assms Cons.prems]) (rule that; assumption)
  obtain cs b' sp' ev2 where "plays ps cs" "spec_run sp1 cs = Some (sp', ev2)"
    "apply_ops vk n pick ps (s + 1) (i + 1) b1 (evs @ ev1) = Inr (b', (evs @ ev1) @ ev2)" "rep vk b' sp'" "stop_ids sp' = {}"
    using Cons.IH [OF 1(3)] by blast
  then show ?case
    using 1 op_cmd_plays [of pick b i p] by (intro exI [of _ "?c # cs"]) (auto simp: plays_def)
qed

lemma ops_ready_new:
  assumes "(\<Sum>p\<leftarrow>ps. op_qty p) < 2 ^ 64" and "2 * length ps + 2 \<le> n"
  shows "ops_ready vk n ps (book_new s tk) spec_empty"
proof -
  have "ready vk n cs (book_new s tk) spec_empty" if "plays ps cs" for cs
    unfolding ready_def
    using plays_clean [OF that] plays_qty [OF that] assms that
    by (intro conjI exI [of _ 0] exI [of _ "{}"])
      (auto simp: rep_new no_stale_new lens_def plays_def dest!: list_all2_lengthD)
  then show ?thesis by (simp add: ops_ready_def)
qed

section \<open>Every trade is for something\<close>

definition positive :: "spec_book \<Rightarrow> bool" where
  "positive sp \<longleftrightarrow> (\<forall>sd. \<forall>x \<in> set (queue sp sd). o_remaining x \<noteq> 0)"

definition real_trades :: "output_event list \<Rightarrow> bool" where
  "real_trades ev \<longleftrightarrow> (\<forall>e \<in> set ev. is_trade e \<longrightarrow> trade_qty e \<noteq> 0)"

lemma real_trades_simps [simp]:
  "real_trades []" "real_trades (ev @ ev') \<longleftrightarrow> real_trades ev \<and> real_trades ev'"
  "real_trades (e # ev) \<longleftrightarrow> (is_trade e \<longrightarrow> trade_qty e \<noteq> 0) \<and> real_trades ev"
  by (auto simp: real_trades_def)

lemma fills_positive:
  "fills ok r q = (fs, r', q') \<Longrightarrow> \<forall>x \<in> set q. o_remaining x \<noteq> 0 \<Longrightarrow>
     (\<forall>(m, x) \<in> set fs. x \<noteq> 0) \<and> (\<forall>x \<in> set q'. o_remaining x \<noteq> 0)"
proof (induction ok r q arbitrary: fs r' q' rule: fills.induct)
  case (2 ok r m q)
  then show ?case by (fastforce split: if_splits prod.splits)
qed simp

lemma spec_match_positive:
  assumes "spec_match sp no s t = (sp1, ev1)" and "positive sp"
  shows "positive sp1 \<and> real_trades ev1"
proof -
  let ?o = "opposite (no_side no)"
  obtain fs r q where fl: "fills (crosses (no_side no) (no_kind no) (no_price no)) (no_qty no) (queue sp ?o) = (fs, r, q)"
    by (metis prod_cases3)
  note fp = fills_positive [OF fl]
  have f: "\<forall>(m, x) \<in> set fs. x \<noteq> 0" "\<forall>x \<in> set q. o_remaining x \<noteq> 0"
    using fp assms(2) by (auto simp: positive_def)
  have "real_trades (concat (map (fill_events s t (no_id no) (no_side no)) fs))"
    using f(1) by (auto simp: real_trades_def fill_events_def)
  then show ?thesis
    using assms f(2) fl
    by (auto simp: spec_match_def spec_settle_def Let_def positive_def set_enqueue split: if_splits)
qed

definition keeps_positive :: "seq_no \<Rightarrow> ts \<Rightarrow> spec_book \<Rightarrow> output_event list \<Rightarrow> spec_book \<Rightarrow> bool" where
  "keeps_positive s t sp ev sp' \<longleftrightarrow> (positive sp \<longrightarrow> positive sp' \<and> real_trades ev)"

interpretation positive_run: run_relation keeps_positive
  by unfold_locales
    (auto simp: keeps_positive_def stop_taken_def dest: spec_match_positive, simp_all add: positive_def)

lemma positive_new: "spec_new k sp no s t = Some (sp', ev) \<Longrightarrow> positive sp \<Longrightarrow> positive sp' \<and> real_trades ev"
  using positive_run.new by (simp add: keeps_positive_def)

lemma positive_cancel: "positive sp \<Longrightarrow> positive (spec_cancel sp i)"
  by (auto simp: positive_def spec_cancel_def)

lemma spec_apply_positive: "spec_apply sp c = Some (sp', ev) \<Longrightarrow> positive sp \<Longrightarrow> positive sp' \<and> real_trades ev"
  by (auto simp: spec_apply_def Let_def simp del: spec_new.simps split: command.splits option.splits if_splits
      dest!: positive_new intro: positive_cancel)

lemma spec_run_positive: "spec_run sp cs = Some (sp', ev) \<Longrightarrow> positive sp \<Longrightarrow> positive sp' \<and> real_trades ev"
proof (induction cs arbitrary: sp ev)
  case (Cons c cs)
  then obtain sp1 ev1 ev2 where "spec_apply sp c = Some (sp1, ev1)" "spec_run sp1 cs = Some (sp', ev2)" "ev = ev1 @ ev2"
    by (auto split: option.splits)
  then show ?case using Cons.IH spec_apply_positive Cons.prems(2) by fastforce
qed simp

section \<open>The property tests\<close>

text \<open>\<open>keys\<close> lists the keys of the index in the order of the hash map.\<close>

definition prop_no_crossed_book ::
  "(slab_op list \<Rightarrow> nat) \<Rightarrow> nat \<Rightarrow> ((order_id \<rightharpoonup> location) \<Rightarrow> order_id option) \<Rightarrow> op list \<Rightarrow> bool" where
  "prop_no_crossed_book vk n pick ops =
     passes (\<lambda>b _. check_no_cross b) (apply_ops vk n pick ops 1 1 (book_new 1 1) [])"

definition prop_qty_conservation ::
  "(slab_op list \<Rightarrow> nat) \<Rightarrow> nat \<Rightarrow> ((order_id \<rightharpoonup> location) \<Rightarrow> order_id option) \<Rightarrow> (order_book \<Rightarrow> order_id list) \<Rightarrow> op list \<Rightarrow> bool" where
  "prop_qty_conservation vk n pick keys ops =
     passes (\<lambda>b events. (\<forall>e \<in> set events. is_trade e \<longrightarrow> trade_qty e > 0) \<and> check_qty_conservation (keys b) b = Inr True)
       (apply_ops vk n pick ops 1 1 (book_new 1 1) [])"

definition prop_no_phantom_liquidity ::
  "(slab_op list \<Rightarrow> nat) \<Rightarrow> nat \<Rightarrow> ((order_id \<rightharpoonup> location) \<Rightarrow> order_id option) \<Rightarrow> (order_book \<Rightarrow> order_id list) \<Rightarrow> op list \<Rightarrow> bool" where
  "prop_no_phantom_liquidity vk n pick keys ops =
     passes (\<lambda>b _. check_qty_conservation (keys b) b = Inr True) (apply_ops vk n pick ops 1 1 (book_new 1 1) [])"

definition prop_replay_determinism ::
  "(slab_op list \<Rightarrow> nat) \<Rightarrow> nat \<Rightarrow> ((order_id \<rightharpoonup> location) \<Rightarrow> order_id option) \<Rightarrow> op list \<Rightarrow> bool" where
  "prop_replay_determinism vk n pick ops =
     passes (\<lambda>book1 events1.
       passes (\<lambda>book2 events2. best_bid book1 = best_bid book2 \<and> best_ask book1 = best_ask book2 \<and>
           map (\<lambda>e. (trade_price e, trade_qty e)) (filter is_trade events1) =
           map (\<lambda>e. (trade_price e, trade_qty e)) (filter is_trade events2))
         (apply_ops vk n pick ops 1 1 (book_new 1 1) []))
       (apply_ops vk n pick ops 1 1 (book_new 1 1) [])"

definition prop_cancel_unknown_is_reject :: "(slab_op list \<Rightarrow> nat) \<Rightarrow> nat \<Rightarrow> order_id \<Rightarrow> bool" where
  "prop_cancel_unknown_is_reject vk n bogus_id =
     passes (\<lambda>_ out. list_ex (\<lambda>e. case e of Rejected _ UnknownId _ \<Rightarrow> True | _ \<Rightarrow> False) out)
       (apply_cmd vk n (book_new 1 1) \<lparr>sq_seq = 1, sq_ts = 0, sq_cmd = Cancel bogus_id 1\<rparr> [])"

lemma ops_hold:
  assumes "slab_allocator vk" and "(\<Sum>p\<leftarrow>ps. op_qty p) < 2 ^ 64" and "2 * length ps + 2 \<le> n"
  shows "\<exists>b all_events. apply_ops vk n pick ps 1 1 (book_new 1 1) [] = Inr (b, all_events) \<and>
    check_no_cross b \<and> (\<forall>e \<in> set all_events. is_trade e \<longrightarrow> trade_qty e > 0) \<and>
    (\<forall>ids. distinct ids \<longrightarrow> set ids = dom (id_index b) \<longrightarrow> check_qty_conservation ids b = Inr True)"
proof -
  obtain cs b sp ev where r: "spec_run spec_empty cs = Some (sp, ev)"
    "apply_ops vk n pick ps 1 1 (book_new 1 1) [] = Inr (b, [] @ ev)" "rep vk b sp" "stop_ids sp = {}"
    using apply_ops_refine [OF assms(1) ops_ready_new [OF assms(2,3)]] by blast
  have "orderly sp" using orderly_run [OF r(1) orderly_empty] .
  then have "check_no_cross b" using no_cross_refine [OF r(3)] by (simp add: orderly_def)
  moreover have "real_trades ev" using spec_run_positive [OF r(1)] by (simp add: positive_def)
  moreover have "stops sp Buy @ stops sp Sell = []" using r(4) by (auto simp: stop_ids_def)
  then have "check_qty_conservation ids b = Inr True" if "distinct ids" "set ids = dom (id_index b)" for ids
    using qty_check_refine [OF r(3) that] by simp
  ultimately show ?thesis
    using r(2) by (intro exI [of _ b] exI [of _ ev]) (simp add: real_trades_def word_neq_0_conv)
qed

text \<open>
  C29: The property tests of the matcher hold, not only for the streams they sample but for
  every stream of limit, market, fill-or-kill and cancel operations of less than \<open>2 ^ 64\<close>
  limit quantity: the book does not panic and ends uncrossed, every trade has a positive
  quantity, index and levels agree in whatever order the index is summed, a second run gives
  the same book and the same trades, and a cancel of any unknown id is rejected.
\<close>

theorem property_tests_hold:
  assumes "slab_allocator vk" and "(\<Sum>p\<leftarrow>ps. op_qty p) < 2 ^ 64" and "2 * length ps + 2 \<le> n"
    and "\<And>b. distinct (keys b) \<and> set (keys b) = dom (id_index b)"
  shows "prop_no_crossed_book vk n pick ps \<and> prop_qty_conservation vk n pick keys ps \<and>
    prop_no_phantom_liquidity vk n pick keys ps \<and> prop_replay_determinism vk n pick ps \<and>
    prop_cancel_unknown_is_reject vk n bogus_id"
proof -
  have "prop_cancel_unknown_is_reject vk n bogus_id"
    by (simp add: prop_cancel_unknown_is_reject_def passes_def apply_cmd_def apply_cancel_def book_new_def)
  moreover obtain b events where "apply_ops vk n pick ps 1 1 (book_new 1 1) [] = Inr (b, events)" "check_no_cross b"
    "\<forall>e \<in> set events. is_trade e \<longrightarrow> trade_qty e > 0" "check_qty_conservation (keys b) b = Inr True"
    using ops_hold [OF assms(1-3)] assms(4) by blast
  ultimately show ?thesis
    by (simp add: prop_no_crossed_book_def prop_qty_conservation_def prop_no_phantom_liquidity_def
        prop_replay_determinism_def passes_def)
qed

lemma property_tests_hold_witness:
  "\<exists>keys. prop_qty_conservation stack_key 12 (\<lambda>_. None) keys [NewLimit 7 Sell 100 5, NewFok 7 Buy 101 3, NewMarket 9 Sell 4, CancelOp 1]"
proof -
  have "\<exists>ks. distinct ks \<and> set ks = dom (id_index b)" for b :: order_book
    using finite_distinct_list [of "dom (id_index b)"] by auto
  then obtain keys where keys: "\<And>b :: order_book. distinct (keys b) \<and> set (keys b) = dom (id_index b)" by metis
  have "prop_qty_conservation stack_key 12 (\<lambda>_. None) keys [NewLimit 7 Sell 100 5, NewFok 7 Buy 101 3, NewMarket 9 Sell 4, CancelOp 1]"
    by (rule property_tests_hold [OF stack.slab_allocator_axioms _ _ keys, THEN conjunct2, THEN conjunct1]) (simp_all add: op_qty_def)
  then show ?thesis by blast
qed

section \<open>The parametric tests\<close>

text \<open>A fill-or-kill buy against one resting sell.\<close>

definition prop_fok_atomicity :: "(slab_op list \<Rightarrow> nat) \<Rightarrow> nat \<Rightarrow> qty \<Rightarrow> qty \<Rightarrow> bool" where
  "prop_fok_atomicity vk n resting fok =
     passes (\<lambda>b _. passes (\<lambda>_ out.
         let trade_count = length (filter is_trade out);
             is_filled = list_ex (\<lambda>e. case e of Filled i _ \<Rightarrow> i = 2 | _ \<Rightarrow> False) out;
             is_rejected = list_ex (\<lambda>e. case e of Rejected _ FokUnfillable _ \<Rightarrow> True | _ \<Rightarrow> False) out
         in if fok \<le> resting then is_filled \<and> trade_count > 0 else is_rejected \<and> trade_count = 0)
       (apply_cmd vk n b \<lparr>sq_seq = 2, sq_ts = 200, sq_cmd = test_fok 2 Buy 100 fok\<rparr> []))
     (apply_cmd vk n (book_new 1 1) \<lparr>sq_seq = 1, sq_ts = 100, sq_cmd = test_limit 1 Sell 100 resting\<rparr> [])"

lemma passes_two:
  assumes "slab_allocator vk" and "ready vk n [c1, c2] (book_new 1 1) spec_empty"
    and "spec_run spec_empty [c1] = Some (sp1, ev1)" and "spec_apply sp1 c2 = Some (sp2, ev2)" and "\<And>b. P b ev2"
  shows "passes (\<lambda>b _. passes P (apply_cmd vk n b c2 [])) (apply_cmd vk n (book_new 1 1) c1 [])"
proof -
  obtain b1 sp ev where 1: "spec_apply spec_empty c1 = Some (sp, ev)"
    "apply_cmd vk n (book_new 1 1) c1 [] = Inr (b1, [] @ ev)" "ready vk n [c2] b1 sp"
    by (rule ready_step [OF assms(1,2)])
  then have "sp = sp1" using assms(3) by simp
  obtain b2 sp' ev' where "spec_apply sp c2 = Some (sp', ev')" "apply_cmd vk n b1 c2 [] = Inr (b2, [] @ ev')"
    by (rule ready_step [OF assms(1) 1(3)]) (rule that; assumption)
  then show ?thesis using 1 assms(4,5) \<open>sp = sp1\<close> by (simp add: passes_def)
qed

lemma fok_atomicity_holds:
  assumes "slab_allocator vk" and "resting \<noteq> 0" and "fok \<noteq> 0" and "6 \<le> n"
  shows "prop_fok_atomicity vk n resting fok"
proof -
  let ?c1 = "\<lparr>sq_seq = 1, sq_ts = 100, sq_cmd = test_limit 1 Sell 100 resting\<rparr>"
  let ?c2 = "\<lparr>sq_seq = 2, sq_ts = 200, sq_cmd = test_fok 2 Buy 100 fok\<rparr>"
  let ?m = "order_of_new (mk_order 1 Sell Limit 100 0 resting) 1 100"
  let ?sp = "\<lparr>queue = (\<lambda>_. [])(Sell := [?m]), stops = (\<lambda>_. []), sp_last = None\<rparr>"
  have "ready vk n [?c1, ?c2] (book_new 1 1) spec_empty"
    using assms(1,4) unat_u64_bound [of resting]
    by (intro session_ready) (simp add: session_ok_def test_limit_def test_fok_def cmd_limit_qty_def limit_qty_def)
  moreover have "spec_run spec_empty [?c1] = Some (?sp, [Accepted 1 1])"
    using assms(2) by (simp add: spec_apply_def spec_empty_def test_limit_def spec_validate_def book_orders_def
        spec_match_def spec_settle_def last_price_def order_of_new_def order_new_def Let_def fun_eq_iff)
  moreover have "\<exists>sp2. spec_apply ?sp ?c2 = Some (sp2,
      if fok < resting then [Accepted 2 2, Trade 2 2 1 100 fok Buy 200, PartiallyFilled 1 fok (resting - fok) 2, Filled 2 2]
      else if fok = resting then [Accepted 2 2, Trade 2 2 1 100 fok Buy 200, Filled 1 2, Filled 2 2]
      else [Accepted 2 2, Rejected 2 FokUnfillable 2])"
    using assms(2,3)
  proof (cases fok resting rule: linorder_cases)
    case less
    then have "fok \<noteq> resting" "\<not> resting \<le> fok" "unat fok < unat resting" by (auto simp: word_less_nat_alt word_le_nat_alt)
    then show ?thesis using less assms(2,3)
      by (simp add: spec_apply_def test_fok_def spec_validate_def book_orders_def pending_def spec_available_def
        spec_match_def spec_settle_def last_price_def fill_events_def crosses_def order_of_new_def order_new_def Let_def)
  next
    case equal
    then show ?thesis using assms(2,3)
      by (simp add: spec_apply_def test_fok_def spec_validate_def book_orders_def pending_def spec_available_def
        spec_match_def spec_settle_def last_price_def fill_events_def crosses_def order_of_new_def order_new_def Let_def)
  next
    case greater
    then have "fok \<noteq> resting" "\<not> fok \<le> resting" "unat resting < unat fok" by (auto simp: word_less_nat_alt word_le_nat_alt)
    then show ?thesis using greater assms(2,3)
      by (simp add: spec_apply_def test_fok_def spec_validate_def book_orders_def pending_def spec_available_def
        spec_match_def spec_settle_def last_price_def fill_events_def crosses_def order_of_new_def order_new_def Let_def)
  qed
  ultimately show ?thesis
    unfolding prop_fok_atomicity_def
    by (elim exE) (rule passes_two [OF assms(1)], assumption+, auto)
qed

text \<open>A buy against resting sells of quantity 10 at one price.\<close>

definition sell_at :: "nat \<Rightarrow> sequenced" where
  "sell_at i = \<lparr>sq_seq = word_of_nat i, sq_ts = word_of_nat i * 100,
     sq_cmd = test_limit (word_of_nat i) Sell 100 10\<rparr>"

definition prop_price_time_priority :: "(slab_op list \<Rightarrow> nat) \<Rightarrow> nat \<Rightarrow> nat \<Rightarrow> qty \<Rightarrow> bool" where
  "prop_price_time_priority vk n n_resting fill_qty =
     (let i = word_of_nat (Suc n_resting) in
      passes (\<lambda>b _. passes (\<lambda>_ out. \<forall>e \<in> set out. is_trade e \<longrightarrow> trade_maker e = 1)
         (apply_cmd vk n b \<lparr>sq_seq = i, sq_ts = i * 100, sq_cmd = test_limit i Buy 100 fill_qty\<rparr> []))
       (apply_all vk n (book_new 1 1) (map sell_at [1..<Suc n_resting]) []))"

definition sold :: "nat \<Rightarrow> order" where
  "sold i = order_of_new (mk_order (word_of_nat i) Sell Limit 100 0 10) (word_of_nat i) (word_of_nat i * 100)"

definition sells :: "nat \<Rightarrow> spec_book" where
  "sells m = \<lparr>queue = (\<lambda>_. [])(Sell := map sold [1..<Suc m]), stops = (\<lambda>_. []), sp_last = None\<rparr>"

lemma spec_run_snoc:
  "spec_run sp (cs @ [c]) =
     (case spec_run sp cs of None \<Rightarrow> None
      | Some (sp1, ev1) \<Rightarrow> map_option (\<lambda>(sp2, ev2). (sp2, ev1 @ ev2)) (spec_apply sp1 c))"
  by (induction cs arbitrary: sp) (auto simp: option.map_comp comp_def split_def split: option.splits)

lemma sold_simps [simp]:
  "o_id (sold i) = word_of_nat i" "o_price (sold i) = 100" "o_remaining (sold i) = 10" "o_side (sold i) = Sell"
  by (simp_all add: sold_def order_of_new_def order_new_def)

lemma sell_fresh:
  assumes "Suc m < 2 ^ 64"
  shows "word_of_nat (Suc m) \<notin> o_id ` set (book_orders (sells m))"
proof
  assume "word_of_nat (Suc m) \<in> o_id ` set (book_orders (sells m))"
  then obtain i where "i < Suc m" "(word_of_nat (Suc m) :: u64) = word_of_nat i"
    by (auto simp: book_orders_def sells_def simp del: of_nat_Suc upt_Suc)
  then show False using word_of_nat_inj64 [of "Suc m" i] assms by (simp del: of_nat_Suc)
qed

lemma sells_step:
  assumes "Suc m < 2 ^ 64"
  shows "\<exists>ev. spec_apply (sells m) (sell_at (Suc m)) = Some (sells (Suc m), ev)"
proof -
  have "\<not> better Sell (o_price (sold (Suc m))) (o_price x)" if "x \<in> set (map sold [1..<Suc m])" for x
    using that by (auto simp: better_def simp del: upt_Suc)
  then have "enqueue Sell (sold (Suc m)) (map sold [1..<Suc m]) = map sold [1..<Suc m] @ [sold (Suc m)]"
    using enqueue_split [of "map sold [1..<Suc m]" Sell "sold (Suc m)" "[]"] by (simp del: upt_Suc)
  then show ?thesis
    using sell_fresh [OF assms]
    by (simp add: spec_apply_def sell_at_def test_limit_def spec_validate_def spec_match_def spec_settle_def
        last_price_def sells_def sold_def order_of_new_def order_new_def Let_def fun_eq_iff del: of_nat_Suc)
qed

lemma sells_run: "m < 2 ^ 64 \<Longrightarrow> \<exists>ev. spec_run spec_empty (map sell_at [1..<Suc m]) = Some (sells m, ev)"
proof (induction m)
  case 0
  then show ?case by (simp add: sells_def spec_empty_def fun_eq_iff)
next
  case (Suc m)
  then obtain ev where "spec_run spec_empty (map sell_at [1..<Suc m]) = Some (sells m, ev)" by auto
  moreover obtain ev' where "spec_apply (sells m) (sell_at (Suc m)) = Some (sells (Suc m), ev')"
    using sells_step Suc.prems by blast
  ultimately show ?case by (simp add: spec_run_snoc)
qed

lemma ready_run:
  assumes "slab_allocator vk"
  shows "ready vk n (cs @ cs') b sp \<Longrightarrow>
    \<exists>b1 sp1 ev. spec_run sp cs = Some (sp1, ev) \<and> apply_all vk n b cs out = Inr (b1, out @ ev) \<and> ready vk n cs' b1 sp1"
proof (induction cs arbitrary: b sp out)
  case (Cons c cs)
  obtain b1 sp1 ev where 1: "spec_apply sp c = Some (sp1, ev)" "apply_cmd vk n b c out = Inr (b1, out @ ev)"
    "ready vk n (cs @ cs') b1 sp1"
    by (rule ready_step [OF assms, of n c "cs @ cs'" b sp out]) (use Cons.prems in simp_all)
  then show ?case using Cons.IH [OF 1(3), of "out @ ev"] by auto
qed simp

text \<open>The event of a trade names the first order, whatever the others.\<close>

lemma buy_first:
  assumes "q \<noteq> 0" and "q \<le> 10" and "i \<notin> o_id ` set (book_orders (sells m))" and "0 < m"
  shows "\<exists>sp ev. spec_apply (sells m) \<lparr>sq_seq = s, sq_ts = t, sq_cmd = test_limit i Buy 100 q\<rparr> = Some (sp, ev) \<and>
    (\<forall>e \<in> set ev. is_trade e \<longrightarrow> trade_maker e = 1)"
proof -
  have "map sold [1..<Suc m] = sold 1 # map sold [2..<Suc m]"
    using assms(4) by (simp add: upt_conv_Cons numeral_2_eq_2 del: upt_Suc)
  then have qs: "queue (sells m) Sell = sold 1 # map sold [2..<Suc m]" by (simp add: sells_def)
  obtain Q where fl: "fills (crosses Buy Limit 100) q (queue (sells m) Sell) = ([(sold 1, q)], 0, Q)"
  proof (cases "q = 10")
    case True
    then show ?thesis using that qs by (cases "map sold [2..<Suc m]") (simp_all add: crosses_def)
  next
    case False
    then have "\<not> 10 \<le> q" using assms(2) by auto
    then show ?thesis using that qs assms(1) by (simp add: crosses_def)
  qed
  obtain sp1 ev1 where sm: "spec_match (sells m) (mk_order i Buy Limit 100 0 q) s t = (sp1, ev1)"
    "stops sp1 = (\<lambda>_. [])" "\<forall>e \<in> set ev1. is_trade e \<longrightarrow> trade_maker e = 1"
    using that fl assms(1) by (simp add: spec_match_def spec_settle_def fill_events_def sells_def)
  have "spec_validate (sells m) (mk_order i Buy Limit 100 0 q) = None"
    using assms(1,3) by (simp add: spec_validate_def)
  then show ?thesis
    using sm by (auto simp: spec_apply_def test_limit_def Let_def split: option.splits)
qed

lemma time_priority_holds:
  assumes "slab_allocator vk" and "0 < m" and "m < 2 ^ 50" and "q \<noteq> 0" and "q \<le> 10" and "2 * m + 4 \<le> n"
  shows "prop_price_time_priority vk n m q"
proof -
  let ?i = "word_of_nat (Suc m) :: u64"
  let ?c = "\<lparr>sq_seq = ?i, sq_ts = ?i * 100, sq_cmd = test_limit ?i Buy 100 q\<rparr>"
  let ?cs = "map sell_at [1..<Suc m]"
  have lq: "map (\<lambda>c. cmd_limit_qty (sq_cmd c)) ?cs = replicate m 10"
    by (rule nth_equalityI) (simp_all add: sell_at_def test_limit_def cmd_limit_qty_def limit_qty_def del: upt_Suc)
  have "clean_session {} (map sq_cmd (map sell_at is @ [?c]))" for "is"
    by (induction "is") (simp_all add: sell_at_def test_limit_def)
  then have "clean_session {} (map sq_cmd (?cs @ [?c]))" .
  moreover have "unat q \<le> 10" using assms(5) by (simp add: word_le_nat_alt)
  then have "(\<Sum>c\<leftarrow>?cs @ [?c]. cmd_limit_qty (sq_cmd c)) < 2 ^ 64"
    using assms(3) lq by (simp add: test_limit_def cmd_limit_qty_def limit_qty_def sum_list_replicate del: upt_Suc)
  ultimately have "ready vk n (?cs @ [?c]) (book_new 1 1) spec_empty"
    using assms(1,6) by (intro session_ready) (simp add: session_ok_def del: upt_Suc)
  then obtain b sp ev where run: "spec_run spec_empty ?cs = Some (sp, ev)"
    "apply_all vk n (book_new 1 1) ?cs [] = Inr (b, ev)" and rd: "ready vk n [?c] b sp"
    using ready_run [OF assms(1), of n ?cs "[?c]" "book_new 1 1" spec_empty "[]"] by auto
  have "sp = sells m" using sells_run [of m] run(1) assms(3) by auto
  have less: "Suc m < 2 ^ 64" using assms(3) by simp
  obtain sp2 ev2 where "spec_apply sp ?c = Some (sp2, ev2)" "\<forall>e \<in> set ev2. is_trade e \<longrightarrow> trade_maker e = 1"
    using buy_first [OF assms(4,5) sell_fresh assms(2)] assms(3) \<open>sp = sells m\<close> less by blast
  moreover obtain b2 sp' ev' where "spec_apply sp ?c = Some (sp', ev')" "apply_cmd vk n b ?c [] = Inr (b2, [] @ ev')"
    by (rule ready_step [OF assms(1) rd]) (rule that; assumption)
  ultimately show ?thesis using run(2) by (simp add: prop_price_time_priority_def passes_def Let_def del: upt_Suc of_nat_Suc)
qed

section \<open>A benchmark\<close>

text \<open>
  The bids of \<^verbatim>\<open>bench_insert_no_cross\<close> in \<^verbatim>\<open>crates/core/benches/matcher_bench.rs\<close>: the
  \<open>i\<close>th is at \<open>100 - i\<close>, for \<open>i\<close> from 1 to 500.
\<close>

definition bench_bid :: "nat \<Rightarrow> sequenced" where
  "bench_bid i = \<lparr>sq_seq = word_of_nat i, sq_ts = word_of_nat i * 100,
     sq_cmd = New (mk_order (word_of_nat i) Buy Limit (100 - int i) 0 10)\<rparr>"

text \<open>From the hundredth on the price is not positive and the order is refused: the benchmark
  inserts 99 bids, not 500.\<close>

lemma bench_bids_refused:
  assumes "id_index b (word_of_nat i) = None" and "100 \<le> i"
  shows "apply_cmd vk (Suc n) b (bench_bid i) [] = Inr (b, [Rejected (word_of_nat i) BadPrice (word_of_nat i)])"
  using assms by (simp add: apply_cmd_def bench_bid_def validate_new_def Let_def)

end
