(* ===== verification/Codec_Tests.thy ===== *)
theory Codec_Tests
  imports Wire_Properties Wal_Properties Snapshot_Properties Core_Tests Gateway_Session
begin

text \<open>
  The unit tests of \<^verbatim>\<open>binary.rs\<close>, \<^verbatim>\<open>json_codec.rs\<close>, \<^verbatim>\<open>record.rs\<close>, \<^verbatim>\<open>reader.rs\<close> and
  \<^verbatim>\<open>snapshot.rs\<close> as predicates of the model, with the checksum and \<^verbatim>\<open>serde_json\<close> left
  open. They pass for every checksum and every pair of inverse parameters.
\<close>

section \<open>Wire formats\<close>

definition roundtrip_new_order :: bool where
  "roundtrip_new_order =
     (case decode_inbound ([TAG_NEW_ORDER] @ u64_le 42 @ u32_le 1 @ [0, 0, 0] @ i64_le 10050 @ i64_le 0 @ u64_le 100) of
        Inr (Inr (NewOrderMsg no), _) \<Rightarrow> bn_order_id no = 42 \<and> bn_price no = 10050 \<and> bn_qty no = 100
      | _ \<Rightarrow> False)"

definition unknown_tag_is_error :: bool where
  "unknown_tag_is_error = (case decode_inbound [0xFF] of Inr (Inl (UnknownTag t), _) \<Rightarrow> t = 0xFF | _ \<Rightarrow> False)"

definition tick_roundtrip :: "f64 \<Rightarrow> bool" where
  "tick_roundtrip d = (\<bar>ticks_to_dollars (dollars_to_ticks d) - d\<bar> < 1 / 10000)"

definition parse_new_limit :: "(line \<Rightarrow> string + json_inbound) \<Rightarrow> line \<Rightarrow> bool" where
  "parse_new_limit from_str s =
     (case parse_inbound from_str s of
        Inr (JNew no) \<Rightarrow> jn_id no = 1 \<and> dollars_to_ticks (jn_price no) = 1502500
      | _ \<Rightarrow> False)"

text \<open>The last one for every parser that reads the id and the price of the line, 150.25.\<close>

lemma parse_test_passes:
  assumes "from_str s = Inr (JNew no)" and "jn_id no = 1" and "jn_price no = fl (15025 / 100)"
  shows "parse_new_limit from_str s"
proof -
  have "dollars_to_ticks (fl (15025 / 100)) = 1502500" by code_simp
  then show ?thesis using assms by (simp add: parse_new_limit_def parse_inbound_def)
qed

lemma wire_tests_pass: "roundtrip_new_order" "unknown_tag_is_error" "tick_roundtrip (fl (1234567 / 10000))"
  by code_simp+

section \<open>Records\<close>

definition encode_decode_roundtrip :: "(bytes \<Rightarrow> u32) \<Rightarrow> bool" where
  "encode_decode_roundtrip crc =
     (let bs = encode crc (record_new 42 1000000 Command_rec [104, 101, 108, 108, 111])
      in (case decode crc bs of
            Inr (dec, consumed) \<Rightarrow> consumed = length bs \<and> wr_seq dec = 42 \<and> wr_ts dec = 1000000 \<and>
              wr_type dec = Command_rec \<and> wr_payload dec = [104, 101, 108, 108, 111]
          | Inl _ \<Rightarrow> False))"

definition crc_mismatch_detected :: "(bytes \<Rightarrow> u32) \<Rightarrow> bool" where
  "crc_mismatch_detected crc =
     (let bs = encode crc (record_new 1 0 Event_rec [1, 2, 3])
      in (case decode crc (bs[5 := xor (bs ! 5) 0xFF]) of Inl (Crc _ _) \<Rightarrow> True | _ \<Rightarrow> False))"

definition truncated_detected :: "(bytes \<Rightarrow> u32) \<Rightarrow> bool" where
  "truncated_detected crc =
     (case decode crc (take 10 (encode crc (record_new 1 0 Event_rec (replicate 100 0)))) of
        Inl (WTruncated _) \<Rightarrow> True | _ \<Rightarrow> False)"

lemma encode_split: "encode crc r = u32_le (word_of_nat (length (record_body r))) @ u32_le (crc (record_body r)) @ record_body r"
  by (simp add: encode_def Let_def)

lemma flipped_crc:
  assumes "fits r"
  shows "\<exists>c. decode crc ((encode crc r)[5 := xor (encode crc r ! 5) 0xFF]) = Inl (Crc c (crc (record_body r)))"
proof -
  define old where "old = u32_le (crc (record_body r))"
  define new where "new = old[1 := xor (old ! 1) 0xFF]"
  have len: "length old = 4" by (simp add: old_def)
  have "xor (old ! 1) 0xFF \<noteq> old ! 1"
  proof
    assume "xor (old ! 1) 0xFF = old ! 1"
    then have "xor (old ! 1) (xor (old ! 1) 0xFF) = 0" by (simp only: xor_self_eq)
    then show False by (simp add: xor.assoc [symmetric])
  qed
  then have "new ! 1 \<noteq> old ! 1" by (simp add: new_def len)
  then have ne: "new \<noteq> old" by metis
  have "length new = 4" by (simp add: new_def len)
  then obtain c where c: "new = u32_le c" using u32c.enc_onto by blast
  have "crc (record_body r) \<noteq> c" using ne c by (auto simp: old_def)
  moreover have "(encode crc r)[5 := xor (encode crc r ! 5) 0xFF] = u32_le (word_of_nat (length (record_body r))) @ u32_le c @ record_body r"
    unfolding encode_split old_def [symmetric] c [symmetric] by (simp add: new_def list_update_append nth_append len)
  ultimately show ?thesis using decode_corrupt [OF assms refl, of crc c "[]"] by auto
qed

lemma record_tests_pass:
  "encode_decode_roundtrip crc" "crc_mismatch_detected crc" "truncated_detected crc"
proof -
  have "decode crc (encode crc r) = Inr (r, length (encode crc r))" if "fits r" for r
    using decode_encode [OF that, of crc "[]"] by simp
  then show "encode_decode_roundtrip crc"
    by (simp add: encode_decode_roundtrip_def Let_def fits_def record_new_def)
  show "crc_mismatch_detected crc"
    using flipped_crc [of "record_new 1 0 Event_rec [1, 2, 3]" crc]
    by (auto simp: crc_mismatch_detected_def fits_def record_new_def)
  show "truncated_detected crc"
    using decode_prefix [of "record_new 1 0 Event_rec (replicate 100 0)" 10 crc]
    by (auto simp: truncated_detected_def fits_def record_new_def)
qed

section \<open>The log\<close>

text \<open>Append all, flush, and replay behind \<open>after\<close>, collecting the sequence numbers.\<close>

definition seqs_replayed :: "(bytes \<Rightarrow> u32) \<Rightarrow> u64 \<Rightarrow> wal_record list \<Rightarrow> (halt + (wal_error + u64) \<times> u64 list)" where
  "seqs_replayed crc after rs =
     rbind (wal_append_all crc rs (wal_open Off \<lparr>files = [], synced = []\<rparr>)) (\<lambda>wd.
     Inr (replay crc after (\<lambda>r st. (Inr (), st @ [wr_seq r])) (files (snd (wal_flush wd))) []))"

definition write_then_replay :: "(bytes \<Rightarrow> u32) \<Rightarrow> bool" where
  "write_then_replay crc \<longleftrightarrow>
     map_sum id snd (seqs_replayed crc 0
       (map (\<lambda>i. record_new (word_of_nat i) (word_of_nat i * 100) Command_rec
          (ascii [99, 109, 100] @ ascii (map of_char (nat_str i)))) [1..<11])) = Inr (map word_of_nat [1..<11])"

definition replay_after_seq_skips_earlier :: "(bytes \<Rightarrow> u32) \<Rightarrow> bool" where
  "replay_after_seq_skips_earlier crc \<longleftrightarrow>
     map_sum id snd (seqs_replayed crc 5
       (map (\<lambda>i. record_new (word_of_nat i) 0 Command_rec []) [1..<11])) = Inr [6, 7, 8, 9, 10]"

lemma seqs_replayed_feed:
  assumes "list_all fits rs" and "length rs < 100"
  shows "seqs_replayed crc after rs = Inr (feed after (\<lambda>r st. (Inr (), st @ [wr_seq r])) rs after [])"
  using log_replays [of crc "\<lparr>files = [], synced = []\<rparr>" "[]" rs Off after "\<lambda>r st. (Inr (), st @ [wr_seq r])" "[]"]
    assms dir_holds_empty
  by (auto simp: seqs_replayed_def)

lemma log_tests_pass: "write_then_replay crc" "replay_after_seq_skips_earlier crc"
proof -
  have up: "[1..<11] = [1, 2, 3, 4, 5, 6, 7, 8, 9, 10::nat]" by (simp add: upt_rec)
  have short: "length (nat_str i) < 11" if "i \<in> set [1, 2, 3, 4, 5, 6, 7, 8, 9, 10::nat]" for i
    using that by (auto simp: nat_str_steps)
  show "write_then_replay crc"
    unfolding write_then_replay_def up
    by (subst seqs_replayed_feed) (simp_all add: fits_def record_new_def ascii_def nat_str_steps)
  show "replay_after_seq_skips_earlier crc"
    unfolding replay_after_seq_skips_earlier_def up
    by (subst seqs_replayed_feed) (simp_all add: fits_def record_new_def)
qed

section \<open>Snapshots\<close>

definition snapshot_round_trip ::
  "(snapshot \<Rightarrow> wal_error + bytes) \<Rightarrow> (bytes \<Rightarrow> wal_error + snapshot) \<Rightarrow> order_id list \<Rightarrow> bool" where
  "snapshot_round_trip to_json of_json keys =
     (case run_book 30 [\<lparr>sq_seq = 1, sq_ts = 100, sq_cmd = test_limit 1 Buy 99 10\<rparr>,
             \<lparr>sq_seq = 2, sq_ts = 200, sq_cmd = test_limit 2 Sell 101 5\<rparr>] of
        Inr (b, _) \<Rightarrow>
          (case save_snapshot to_json keys b 2 [] of
             Inr (Inr (path, d)) \<Rightarrow>
               (case load_snapshot stack_key of_json d path of
                  Inr (Inr (b2, last_seq)) \<Rightarrow>
                    last_seq = 2 \<and> best_bid b2 = Some (99, 10) \<and> best_ask b2 = Some (101, 5)
                | _ \<Rightarrow> False)
           | _ \<Rightarrow> False)
      | _ \<Rightarrow> False)"

text \<open>For both orders in which the hash map may list its two keys.\<close>

definition tested_snapshot :: "order_id list \<Rightarrow> halt + snapshot" where
  "tested_snapshot keys =
     rbind (run_book 30 [\<lparr>sq_seq = 1, sq_ts = 100, sq_cmd = test_limit 1 Buy 99 10\<rparr>,
             \<lparr>sq_seq = 2, sq_ts = 200, sq_cmd = test_limit 2 Sell 101 5\<rparr>]) (\<lambda>(b, _). take_snapshot keys b 2)"

lemma test_restores:
  "passes (\<lambda>b _. best_bid b = Some (99, 10) \<and> best_ask b = Some (101, 5))
     (rbind (tested_snapshot [1, 2]) (\<lambda>sn. rbind (restore_book stack_key sn) (\<lambda>b. Inr (b, []))))"
  "passes (\<lambda>b _. best_bid b = Some (99, 10) \<and> best_ask b = Some (101, 5))
     (rbind (tested_snapshot [2, 1]) (\<lambda>sn. rbind (restore_book stack_key sn) (\<lambda>b. Inr (b, []))))"
  by code_simp+

lemma snapshot_test_passes:
  assumes "keys = [1, 2] \<or> keys = [2, 1]" and "\<And>sn. \<exists>js. to_json sn = Inr js \<and> of_json js = Inr sn"
  shows "snapshot_round_trip to_json of_json keys"
proof -
  have "passes (\<lambda>b _. best_bid b = Some (99, 10) \<and> best_ask b = Some (101, 5))
     (rbind (tested_snapshot keys) (\<lambda>sn. rbind (restore_book stack_key sn) (\<lambda>b. Inr (b, []))))"
    using assms(1) test_restores by auto
  then obtain b out sn b2 where r: "run_book 30 [\<lparr>sq_seq = 1, sq_ts = 100, sq_cmd = test_limit 1 Buy 99 10\<rparr>,
             \<lparr>sq_seq = 2, sq_ts = 200, sq_cmd = test_limit 2 Sell 101 5\<rparr>] = Inr (b, out)"
    "take_snapshot keys b 2 = Inr sn" "restore_book stack_key sn = Inr b2"
    "best_bid b2 = Some (99, 10) \<and> best_ask b2 = Some (101, 5)"
    by (auto simp: tested_snapshot_def passes_def rbind_def split: sum.splits)
  moreover have "sn_last_seq sn = 2"
    using r(2) by (auto simp: take_snapshot_def rbind_def split: sum.splits)
  ultimately show ?thesis
    using assms(2) [of sn]
    by (auto simp: snapshot_round_trip_def save_snapshot_def load_snapshot_def fs_read_store simp del: store_file.simps)
qed

end
