(* ===== verification/Crash_Test.thy ===== *)
theory Crash_Test
  imports Core_Tests Shard_Facts
begin

text \<open>
  The integration test \<^verbatim>\<open>crates/wal/tests/crash_recovery.rs\<close>: a session is applied and
  logged, the newest segment loses its last seven bytes, and the log is replayed into a new
  book. The test is a predicate of the checksum, of \<^verbatim>\<open>serde_json\<close>'s \<open>ser\<close> and \<open>de\<close>, of the
  slab's choice of keys and of the hash map's order (\<open>keys\<close>), and holds for all of them.
\<close>

section \<open>The test\<close>

type_synonym tape = "(u64 \<times> price \<times> qty) list"

definition trades :: "output_event list \<Rightarrow> tape" where
  "trades out = concat (map (\<lambda>e. case e of Trade s _ _ p q _ _ \<Rightarrow> [(s, p, q)] | _ \<Rightarrow> []) out)"

definition crash_cmds :: "sequenced list" where
  "crash_cmds =
     [cmd_at 1 (test_limit 1 Sell 100 20), cmd_at 2 (test_limit 2 Buy 99 5), cmd_at 3 (test_limit 3 Sell 101 10),
      cmd_at 4 (test_limit 4 Buy 100 15), cmd_at 5 (test_limit 5 Sell 100 8), cmd_at 6 (test_market 6 Buy 5),
      cmd_at 7 (Cancel 2 1), cmd_at 8 (test_limit 7 Buy 98 30), cmd_at 9 (test_limit 8 Sell 98 10),
      cmd_at 10 (test_limit 9 Buy 100 25)]"

text \<open>The live run's application of the commands, with the tape.\<close>

fun run_tape ::
  "(slab_op list \<Rightarrow> nat) \<Rightarrow> nat \<Rightarrow> sequenced list \<Rightarrow> order_book \<times> tape \<Rightarrow> halt + (order_book \<times> tape)" where
  "run_tape vk n [] st = Inr st"
| "run_tape vk n (c # cs) st =
     rbind (apply_cmd vk n (fst st) c []) (\<lambda>(b, out). run_tape vk n cs (b, snd st @ trades out))"

text \<open>The writer: append every command, then flush.\<close>

definition write_log :: "(bytes \<Rightarrow> u32) \<Rightarrow> (sequenced \<Rightarrow> bytes) \<Rightarrow> sequenced list \<Rightarrow> halt + dir" where
  "write_log crc encode_cmd cs =
     rbind (wal_append_all crc (map (logged encode_cmd) cs) (wal_open Off \<lparr>files = [], synced = []\<rparr>)) (\<lambda>wd.
     Inr (files (snd (wal_flush wd))))"

text \<open>The closure of the replay.\<close>

definition replay_cmd ::
  "(slab_op list \<Rightarrow> nat) \<Rightarrow> nat \<Rightarrow> (bytes \<Rightarrow> halt + sequenced) \<Rightarrow> wal_record \<Rightarrow>
   halt + (order_book \<times> tape) \<Rightarrow> (wal_error + unit) \<times> (halt + (order_book \<times> tape))" where
  "replay_cmd vk n decode_cmd r st =
     (Inr (), rbind st (\<lambda>st. rbind (decode_cmd (wr_payload r)) (\<lambda>c. run_tape vk n [c] st)))"

definition recovered ::
  "(slab_op list \<Rightarrow> nat) \<Rightarrow> nat \<Rightarrow> (bytes \<Rightarrow> u32) \<Rightarrow> (bytes \<Rightarrow> halt + sequenced) \<Rightarrow> dir \<Rightarrow> halt + (order_book \<times> tape)" where
  "recovered vk n crc decode_cmd d =
     (case replay crc 0 (replay_cmd vk n decode_cmd) d (Inr (book_new 1 1, [])) of
        (Inl _, _) \<Rightarrow> Inl Index_out_of_bounds
      | (Inr _, st) \<Rightarrow> st)"

text \<open>The truncation of the newest segment.\<close>

definition tear :: "dir \<Rightarrow> dir" where
  "tear d = (let orig_len = length (snd (last d)) in if orig_len > 7 then cut_last (orig_len - 7) d else d)"

definition crash_replay_produces_identical_book_and_tape ::
  "(slab_op list \<Rightarrow> nat) \<Rightarrow> nat \<Rightarrow> (bytes \<Rightarrow> u32) \<Rightarrow> (sequenced \<Rightarrow> bytes) \<Rightarrow> (bytes \<Rightarrow> halt + sequenced) \<Rightarrow>
   (order_book \<Rightarrow> order_id list) \<Rightarrow> bool" where
  "crash_replay_produces_identical_book_and_tape vk n crc encode_cmd decode_cmd keys =
     (case (run_tape vk n crash_cmds (book_new 1 1, []), write_log crc encode_cmd crash_cmds) of
        (Inr (live_book, live_tape), Inr d) \<Rightarrow>
          (case recovered vk n crc decode_cmd (tear d) of
             Inr (b, recovered_tape) \<Rightarrow>
               check_no_cross b \<and> check_qty_conservation (keys b) b = Inr True \<and>
               list_all (\<lambda>i. i < length live_tape \<and> live_tape ! i = recovered_tape ! i) [0..<length recovered_tape]
           | Inl _ \<Rightarrow> False) \<and>
          (case recovered vk n crc decode_cmd d of
             Inr (b, tape_replay) \<Rightarrow>
               best_bid b = best_bid live_book \<and> best_ask b = best_ask live_book \<and> tape_replay = live_tape
           | Inl _ \<Rightarrow> False)
      | _ \<Rightarrow> False)"

section \<open>Runs with a tape\<close>

lemma trades_append [simp]: "trades [] = []" "trades (xs @ ys) = trades xs @ trades ys"
  by (simp_all add: trades_def)

lemma run_tape_append: "run_tape vk n (xs @ ys) st = rbind (run_tape vk n xs st) (run_tape vk n ys)"
proof (induction xs arbitrary: st)
  case (Cons x xs)
  show ?case
    by (cases "apply_cmd vk n (fst st) x []") (auto simp: Cons.IH)
qed simp

lemma run_tape_ready:
  assumes "slab_allocator vk"
  shows "ready vk n cs b sp \<Longrightarrow> stop_ids sp = {} \<Longrightarrow> \<forall>c \<in> set cs. stop_free (sq_cmd c) \<Longrightarrow> orderly sp \<Longrightarrow>
    \<exists>b' sp' tp. run_tape vk n cs (b, tape) = Inr (b', tape @ tp) \<and> rep vk b' sp' \<and> stop_ids sp' = {} \<and> orderly sp'"
proof (induction cs arbitrary: b sp tape)
  case Nil
  then show ?case using ready_rep by fastforce
next
  case (Cons c cs)
  obtain b1 sp1 ev where 1: "spec_apply sp c = Some (sp1, ev)" "apply_cmd vk n b c [] = Inr (b1, [] @ ev)" "ready vk n cs b1 sp1"
    by (rule ready_step [OF assms Cons.prems(1)])
  have "stop_ids sp1 = {}" using stop_free_stays [OF ready_rep [OF Cons.prems(1), THEN conjunct1] 1(1)] Cons.prems(2,3) by simp
  moreover have "orderly sp1" by (rule orderly_apply [OF 1(1) Cons.prems(4)])
  ultimately obtain b' sp' tp where "run_tape vk n cs (b1, tape @ trades ev) = Inr (b', (tape @ trades ev) @ tp)"
    "rep vk b' sp'" "stop_ids sp' = {}" "orderly sp'"
    using Cons.IH [OF 1(3), of "tape @ trades ev"] Cons.prems(3) by auto
  then show ?case using 1(2) by auto
qed

lemma run_tape_extends: "run_tape vk n cs (b, tape) = Inr (b', tape') \<Longrightarrow> \<exists>tp. tape' = tape @ tp"
proof (induction cs arbitrary: b tape)
  case (Cons c cs)
  then obtain b1 out where "run_tape vk n cs (b1, tape @ trades out) = Inr (b', tape')"
    by (auto simp: rbind_eq_Inr)
  from Cons.IH [OF this] show ?case by auto
qed simp

lemma feed_replay_cmd:
  "list_all (\<lambda>c. 0 < sq_seq c \<and> de (ser c) = Inr c) cs \<Longrightarrow>
     \<exists>l'. feed 0 (replay_cmd vk n de) (map (logged ser) cs) l st = (Inr l', rbind st (run_tape vk n cs))"
proof (induction cs arbitrary: l st)
  case Nil
  then show ?case by (cases st) simp_all
next
  case (Cons c cs)
  have step: "replay_cmd vk n de (logged ser c) st = (Inr (), rbind st (run_tape vk n [c]))"
    using Cons.prems by (simp add: replay_cmd_def del: run_tape.simps)
  obtain l' where l': "feed 0 (replay_cmd vk n de) (map (logged ser) cs) (sq_seq c) (rbind st (run_tape vk n [c])) =
      (Inr l', rbind (rbind st (run_tape vk n [c])) (run_tape vk n cs))"
    using Cons.IH [of "sq_seq c" "rbind st (run_tape vk n [c])"] Cons.prems by auto
  have "rbind (rbind st (run_tape vk n [c])) (run_tape vk n cs) = rbind st (run_tape vk n (c # cs))"
    using run_tape_append [of vk n "[c]" cs] by (cases st) (simp_all del: run_tape.simps)
  then show ?case using l' step Cons.prems by (simp del: run_tape.simps)
qed

section \<open>The test passes\<close>

lemma crash_cmds_ok:
  "\<forall>c \<in> set crash_cmds. stop_free (sq_cmd c)" "(\<Sum>c\<leftarrow>map sq_cmd crash_cmds. cmd_limit_qty c) = 123" "length crash_cmds = 10"
  by (simp_all add: crash_cmds_def test_limit_def test_market_def stop_free_def cmd_limit_qty_def limit_qty_def)

lemma crash_session: "slab_allocator vk \<Longrightarrow> 22 \<le> n \<Longrightarrow> session_ok vk n (take j crash_cmds)"
  using stop_free_session [of vk crash_cmds "map sq_cmd crash_cmds" n] session_ok_take crash_cmds_ok by (auto simp flip: mset_map)

lemma crash_run:
  assumes "slab_allocator vk" and "22 \<le> n"
  shows "\<exists>b tp sp. run_tape vk n (take j crash_cmds) (book_new 1 1, []) = Inr (b, tp) \<and> rep vk b sp \<and> stop_ids sp = {} \<and> orderly sp"
proof -
  have "\<forall>c \<in> set (take j crash_cmds). stop_free (sq_cmd c)" using crash_cmds_ok(1) by (meson in_set_takeD)
  then show ?thesis
    using run_tape_ready [OF assms(1) session_ready [OF crash_session [OF assms, of j], of 1 1], of "[]"] orderly_empty by auto
qed

text \<open>The log of the test gives back the whole run, and torn at its end a first part of it.\<close>

lemma crash_log_recovers:
  assumes "loggable ser de crash_cmds"
  obtains wd j where "wal_append_all crc (map (logged ser) crash_cmds) (wal_open Off \<lparr>files = [], synced = []\<rparr>) = Inr wd"
    "recovered vk n crc de (files (snd (wal_flush wd))) = run_tape vk n crash_cmds (book_new 1 1, [])"
    "recovered vk n crc de (tear (files (snd (wal_flush wd)))) = run_tape vk n (take j crash_cmds) (book_new 1 1, [])"
proof -
  let ?f = "replay_cmd vk n de" and ?st = "Inr (book_new 1 1, []) :: halt + (order_book \<times> tape)"
  have len: "Suc (length (map (logged ser) crash_cmds)) < 10 ^ 10" by (simp add: crash_cmds_ok(3))
  obtain wd where wd: "wal_append_all crc (map (logged ser) crash_cmds) (wal_open Off \<lparr>files = [], synced = []\<rparr>) = Inr wd"
    "\<forall>m. \<exists>j. \<forall>after f (st :: halt + (order_book \<times> tape)). replay crc after f (cut_last m (files (snd (wal_flush wd)))) st =
       feed after f (take j (map (logged ser) crash_cmds)) after st"
    using cut_replays [OF loggable_fits [OF assms] _ len, of Off crc] by blast
  define d where "d = files (snd (wal_flush wd))"
  have "replay crc 0 ?f d ?st = feed 0 ?f (map (logged ser) crash_cmds) 0 ?st"
    using log_replays [OF _ loggable_fits [OF assms], of crc "\<lparr>files = [], synced = []\<rparr>" "[]" Off 0 ?f ?st] wd(1) dir_holds_empty len
    by (auto simp: d_def)
  moreover have ok: "list_all (\<lambda>c. 0 < sq_seq c \<and> de (ser c) = Inr c) crash_cmds"
    using assms by (auto simp: loggable_def list_all_iff)
  ultimately have full: "recovered vk n crc de d = run_tape vk n crash_cmds (book_new 1 1, [])"
    using feed_replay_cmd [OF ok, of vk n 0 ?st] by (auto simp: recovered_def)
  have "\<exists>j. recovered vk n crc de (tear d) = run_tape vk n (take j crash_cmds) (book_new 1 1, [])"
  proof (cases "7 < length (snd (last d))")
    case True
    then obtain j where j: "replay crc 0 ?f (tear d) ?st = feed 0 ?f (map (logged ser) (take j crash_cmds)) 0 ?st"
      using wd(2) by (fastforce simp: tear_def d_def Let_def take_map)
    have "list_all (\<lambda>c. 0 < sq_seq c \<and> de (ser c) = Inr c) (take j crash_cmds)"
      using ok by (auto simp: list_all_iff dest: in_set_takeD)
    from feed_replay_cmd [OF this, of vk n 0 ?st] show ?thesis using j by (auto simp: recovered_def)
  next
    case False
    then have "tear d = d" by (simp add: tear_def Let_def)
    then show ?thesis using full by (intro exI [of _ "length crash_cmds"]) simp
  qed
  then obtain j where "recovered vk n crc de (tear d) = run_tape vk n (take j crash_cmds) (book_new 1 1, [])" by blast
  then show thesis using that wd(1) full by (simp add: d_def)
qed

text \<open>
  C9: The integration test passes: for every checksum, every serialisation that reads back
  what it wrote (and fits a record), every choice of slab keys and every hash map order, the
  book recovered from the torn log is uncrossed and conserves quantity, its tape is a prefix
  of the live tape, and the full replay has the live book's best prices and its whole tape.
\<close>

theorem crash_test_passes:
  assumes "slab_allocator vk" and "22 \<le> n" and "loggable ser de crash_cmds"
    and "\<And>b. distinct (keys b) \<and> set (keys b) = dom (id_index b)"
  shows "crash_replay_produces_identical_book_and_tape vk n crc ser de keys"
proof -
  obtain wd j where wd: "wal_append_all crc (map (logged ser) crash_cmds) (wal_open Off \<lparr>files = [], synced = []\<rparr>) = Inr wd"
    and full: "recovered vk n crc de (files (snd (wal_flush wd))) = run_tape vk n crash_cmds (book_new 1 1, [])"
    and torn: "recovered vk n crc de (tear (files (snd (wal_flush wd)))) = run_tape vk n (take j crash_cmds) (book_new 1 1, [])"
    by (rule crash_log_recovers [OF assms(3)])
  define d where "d = files (snd (wal_flush wd))"
  obtain b tp sp where b: "run_tape vk n (take j crash_cmds) (book_new 1 1, []) = Inr (b, tp)" "rep vk b sp" "stop_ids sp = {}" "orderly sp"
    using crash_run [OF assms(1,2)] by blast
  obtain live lt where live: "run_tape vk n crash_cmds (book_new 1 1, []) = Inr (live, lt)"
    using crash_run [OF assms(1,2), of "length crash_cmds"] by auto
  have "run_tape vk n (drop j crash_cmds) (b, tp) = Inr (live, lt)"
    using live b(1) run_tape_append [of vk n "take j crash_cmds" "drop j crash_cmds"] by simp
  then obtain tp' where "lt = tp @ tp'" using run_tape_extends by blast
  moreover have "check_no_cross b" using no_cross_refine [OF b(2)] b(4) by (simp add: orderly_def)
  moreover have "stops sp Buy @ stops sp Sell = []" using b(3) by (auto simp: stop_ids_def)
  then have "check_qty_conservation (keys b) b = Inr True"
    using qty_check_refine [OF b(2)] assms(4) by simp
  ultimately show ?thesis
    using live full torn b(1) wd
    by (simp add: crash_replay_produces_identical_book_and_tape_def write_log_def d_def [symmetric] list_all_length nth_append)
qed

definition crash_ser :: "sequenced \<Rightarrow> bytes" where
  "crash_ser c = [ucast (sq_seq c)]"

definition crash_de :: "bytes \<Rightarrow> halt + sequenced" where
  "crash_de bs = (case filter (\<lambda>c. crash_ser c = bs) crash_cmds of [] \<Rightarrow> Inl Index_out_of_bounds | c # _ \<Rightarrow> Inr c)"

lemma crash_test_passes_witness:
  "crash_replay_produces_identical_book_and_tape stack_key 22 (\<lambda>_. 0) crash_ser crash_de
     (\<lambda>b. sorted_list_of_set (dom (id_index b)))"
proof -
  have "loggable crash_ser crash_de crash_cmds"
    by (simp add: loggable_def crash_de_def crash_ser_def crash_cmds_def)
  then show ?thesis
    using crash_test_passes [OF stack.slab_allocator_axioms, of 22 crash_ser crash_de
        "\<lambda>b. sorted_list_of_set (dom (id_index b))" "\<lambda>_. 0"] by simp
qed

end
