(* ===== verification/Exchange.thy ===== *)
theory Exchange
  imports Gateway_Properties Shard_Recovery Egress
begin

text \<open>
  The running process: the gateway with its sessions and rings, the shard threads of
  \<^verbatim>\<open>shard.rs\<close> started by \<^verbatim>\<open>Engine::start\<close>, and the egress bus they share. The steps of all of them
  interleave; a shard pops a command only when it is done with the one before, logs it, and
  in a later step applies it and sends its events as one batch under the mutex of the bus.
\<close>

section \<open>State and steps\<close>

text \<open>
  \<open>ex_handled\<close> are the commands a shard is done with, each with the clock at its pop;
  \<open>ex_logged\<close> tells whether the one it has in hand is logged already;
  \<open>ex_feed\<close> (for the proofs only) is every batch with the shard that sent it. A subscriber's
  channel is unbounded, so its reader does not matter to the senders and is left out: what is
  queued is all it will ever read.
\<close>

record ('c, 'd) exchange =
  ex_gateway :: "'c gateway"
  ex_shards :: "shard list"
  ex_handled :: "(u64 \<times> sequenced) list list"
  ex_logged :: "bool list"
  ex_subs :: "'d egress_bus"
  ex_feed :: "(nat \<times> output_event list) list"

definition exchange_start ::
  "fsync_policy \<Rightarrow> (symbol_id \<times> price) list list \<Rightarrow> (nat \<Rightarrow> disk) \<Rightarrow> 'c engine \<Rightarrow> line list list \<Rightarrow> 'd egress_bus \<Rightarrow>
   ('c, 'd) exchange" where
  "exchange_start fsync sss ds en clients subs =
     \<lparr>ex_gateway = gateway_start en clients,
      ex_shards = map (\<lambda>k. shard_start fsync (sss ! k) (ds k)) [0..<length sss],
      ex_handled = replicate (length sss) [], ex_logged = replicate (length sss) False, ex_subs = subs, ex_feed = []\<rparr>"

text \<open>Shard \<open>k\<close> holds a command it has not handled.\<close>

definition in_hand :: "nat \<Rightarrow> ('c, 'd) exchange \<Rightarrow> bool" where
  "in_hand k x \<longleftrightarrow> gw_popped (ex_gateway x) ! k \<noteq> map snd (ex_handled x ! k)"

inductive exchange_step ::
  "(line \<Rightarrow> string + json_inbound) \<Rightarrow> (u64 \<Rightarrow> string) \<Rightarrow>
   (sequenced \<Rightarrow> 'c \<Rightarrow> (sequenced try_send_error + unit) \<times> 'c) \<Rightarrow> ('c \<Rightarrow> (unit + sequenced) \<times> 'c) \<Rightarrow>
   (slab_op list \<Rightarrow> nat) \<Rightarrow> nat \<Rightarrow> (bytes \<Rightarrow> u32) \<Rightarrow> (sequenced \<Rightarrow> bytes) \<Rightarrow>
   (output_event \<Rightarrow> 'd \<Rightarrow> bool \<times> 'd) \<Rightarrow> ('c, 'd) exchange \<Rightarrow> ('c, 'd) exchange \<Rightarrow> bool"
  for from_str ack send recv vk n crc ser esend where
  front: "gateway_step from_str ack send recv (ex_gateway x) g \<Longrightarrow>
     \<forall>k < length (ex_shards x). in_hand k x \<longrightarrow> gw_popped g ! k = gw_popped (ex_gateway x) ! k \<Longrightarrow>
     exchange_step from_str ack send recv vk n crc ser esend x (x\<lparr>ex_gateway := g\<rparr>)"
| log_cmd: "k < length (ex_shards x) \<Longrightarrow> gw_popped (ex_gateway x) ! k = map snd (ex_handled x ! k) @ [cmd] \<Longrightarrow>
     \<not> ex_logged x ! k \<Longrightarrow> shard_log crc ser cmd (ex_shards x ! k) = Inr sh \<Longrightarrow>
     exchange_step from_str ack send recv vk n crc ser esend x
       (x\<lparr>ex_shards := (ex_shards x)[k := sh], ex_logged := (ex_logged x)[k := True]\<rparr>)"
| handle: "k < length (ex_shards x) \<Longrightarrow> gw_popped (ex_gateway x) ! k = map snd (ex_handled x ! k) @ [cmd] \<Longrightarrow>
     ex_logged x ! k \<Longrightarrow> shard_apply vk n now cmd (ex_shards x ! k) = Inr sh \<Longrightarrow>
     sh_out sh = sh_out (ex_shards x ! k) @ events \<Longrightarrow>
     exchange_step from_str ack send recv vk n crc ser esend x
       (x\<lparr>ex_shards := (ex_shards x)[k := sh], ex_handled := (ex_handled x)[k := ex_handled x ! k @ [(now, cmd)]],
          ex_logged := (ex_logged x)[k := False],
          ex_subs := egress_send_batch esend events (ex_subs x), ex_feed := ex_feed x @ [(k, events)]\<rparr>)"

text \<open>The part of the feed that shard \<open>k\<close> sent.\<close>

definition sent_by :: "nat \<Rightarrow> (nat \<times> output_event list) list \<Rightarrow> output_event list" where
  "sent_by k bs = concat (map snd (filter (\<lambda>(j, _). j = k) bs))"

lemma sent_by_simps [simp]:
  "sent_by k [] = []" "sent_by k (fs @ [(j, es)]) = (if j = k then sent_by k fs @ es else sent_by k fs)"
  by (simp_all add: sent_by_def)

section \<open>The invariant\<close>

text \<open>What logging a command leaves alone.\<close>

lemma shard_log_frame:
  assumes "shard_log crc ser c sh = Inr sh'"
  shows "sh_books sh' = sh_books sh" "sh_out sh' = sh_out sh" "wal_append crc (sq_seq c) (sq_ts c) Command_rec (ser c) (sh_wal sh) = Inr (sh_wal sh')"
  using assms by (auto simp: shard_log_def rbind_eq_Inr)

lemma shard_apply_out: "shard_apply vk n now c sh = Inr sh' \<Longrightarrow> \<exists>ev. sh_out sh' = sh_out sh @ ev"
  by (auto simp: shard_apply_def rbind_eq_Inr Let_def split: option.splits)

text \<open>\<open>shard_pos crc ser lg cs sh0 sh\<close>: of a shard that was in \<open>sh0\<close> after its last whole command
  and has the commands \<open>cs\<close> in hand, at most one, the state is \<open>sh\<close>.\<close>

definition shard_pos :: "(bytes \<Rightarrow> u32) \<Rightarrow> (sequenced \<Rightarrow> bytes) \<Rightarrow> bool \<Rightarrow> sequenced list \<Rightarrow> shard \<Rightarrow> shard \<Rightarrow> bool" where
  "shard_pos crc ser lg cs sh0 sh \<longleftrightarrow>
     length cs \<le> 1 \<and> (if lg then \<exists>c. cs = [c] \<and> shard_log crc ser c sh0 = Inr sh else sh = sh0)"

lemma shard_pos_frame: "shard_pos crc ser lg cs sh0 sh \<Longrightarrow> sh_books sh = sh_books sh0 \<and> sh_out sh = sh_out sh0"
  by (auto simp: shard_pos_def dest: shard_log_frame split: if_splits)

text \<open>Every shard is where its handled commands bring it, has at most one command in hand, and
  everything it published went to every subscriber.\<close>

definition shard_at ::
  "(slab_op list \<Rightarrow> nat) \<Rightarrow> nat \<Rightarrow> (bytes \<Rightarrow> u32) \<Rightarrow> (sequenced \<Rightarrow> bytes) \<Rightarrow> fsync_policy \<Rightarrow>
   (symbol_id \<times> price) list list \<Rightarrow> (nat \<Rightarrow> disk) \<Rightarrow> ('c, 'd) exchange \<Rightarrow> nat \<Rightarrow> bool" where
  "shard_at vk n crc ser fsync sss ds x k \<longleftrightarrow>
     (\<exists>sh0 cs. shard_steps vk n crc ser (ex_handled x ! k) (shard_start fsync (sss ! k) (ds k)) = Inr sh0 \<and>
        gw_popped (ex_gateway x) ! k = map snd (ex_handled x ! k) @ cs \<and>
        shard_pos crc ser (ex_logged x ! k) cs sh0 (ex_shards x ! k) \<and>
        sent_by k (ex_feed x) = sh_out sh0)"

definition exchange_ok ::
  "('c \<Rightarrow> sequenced list) \<Rightarrow> ('d \<Rightarrow> output_event list) \<Rightarrow> ('d \<Rightarrow> bool) \<Rightarrow>
   (slab_op list \<Rightarrow> nat) \<Rightarrow> nat \<Rightarrow> (bytes \<Rightarrow> u32) \<Rightarrow> (sequenced \<Rightarrow> bytes) \<Rightarrow> fsync_policy \<Rightarrow>
   (symbol_id \<times> price) list list \<Rightarrow> (nat \<Rightarrow> disk) \<Rightarrow> 'd egress_bus \<Rightarrow> ('c, 'd) exchange \<Rightarrow> bool" where
  "exchange_ok queued equeued up vk n crc ser fsync sss ds subs x \<longleftrightarrow>
     gateway_ok queued (ex_gateway x) \<and> length (gw_popped (ex_gateway x)) = length sss \<and>
     length (ex_shards x) = length sss \<and> length (ex_handled x) = length sss \<and> length (ex_logged x) = length sss \<and>
     (\<forall>k < length sss. shard_at vk n crc ser fsync sss ds x k) \<and>
     list_all2 (\<lambda>ch ch'. up ch' \<and> equeued ch' = equeued ch @ concat (map snd (ex_feed x))) subs (ex_subs x)"

lemma shard_atE:
  assumes "exchange_ok queued equeued up vk n crc ser fsync sss ds subs x" and "k < length sss"
  obtains sh0 cs where "shard_steps vk n crc ser (ex_handled x ! k) (shard_start fsync (sss ! k) (ds k)) = Inr sh0"
    "gw_popped (ex_gateway x) ! k = map snd (ex_handled x ! k) @ cs"
    "shard_pos crc ser (ex_logged x ! k) cs sh0 (ex_shards x ! k)" "sent_by k (ex_feed x) = sh_out sh0"
proof -
  have "shard_at vk n crc ser fsync sss ds x k" using assms by (simp add: exchange_ok_def)
  then show thesis unfolding shard_at_def using that by blast
qed

lemma in_hand_simps:
  "in_hand k (x\<lparr>ex_gateway := g\<rparr>) \<longleftrightarrow> gw_popped g ! k \<noteq> map snd (ex_handled x ! k)"
  by (simp add: in_hand_def)

text \<open>What a gateway step does to the commands the shards took.\<close>

lemma popped_cases:
  assumes "gateway_step from_str ack send recv g g'"
  shows "gw_popped g' = gw_popped g \<or>
    (\<exists>k sc. k < length (gw_popped g) \<and> gw_popped g' = (gw_popped g)[k := gw_popped g ! k @ [sc]])"
  using assms by cases auto

context command_ring
begin

lemma exchange_ok_start:
  assumes "gateway_ok queued (gateway_start en clients)" and "length sss = en_num_shards en" and "list_all up subs"
  shows "exchange_ok queued equeued up vk n crc ser fsync sss ds subs (exchange_start fsync sss ds en clients subs)"
proof -
  have "list_all2 (\<lambda>ch ch'. up ch' \<and> equeued ch' = equeued ch) subs subs"
    using assms(3) by (auto simp: list_all_iff intro!: list.rel_refl_strong)
  moreover have "sh_out (shard_start fsync symbols d) = []" for symbols d by (simp add: shard_start_def)
  ultimately show ?thesis
    using assms(1,2) by (auto simp: exchange_ok_def exchange_start_def shard_at_def shard_pos_def gateway_start_def)
qed

lemma exchange_ok_step:
  assumes "exchange_step from_str ack send recv vk n crc ser esend x x'"
    and ok: "exchange_ok queued equeued up vk n crc ser fsync sss ds subs x" and "unbounded_channel equeued up esend erecv"
  shows "exchange_ok queued equeued up vk n crc ser fsync sss ds subs x'"
  using assms(1)
proof cases
  case (front g)
  note pc = popped_cases [OF front(2)]
  have "shard_at vk n crc ser fsync sss ds x' k" if "k < length sss" for k
  proof -
    from ok that obtain sh0 cs where at: "shard_steps vk n crc ser (ex_handled x ! k) (shard_start fsync (sss ! k) (ds k)) = Inr sh0"
      "gw_popped (ex_gateway x) ! k = map snd (ex_handled x ! k) @ cs"
      "shard_pos crc ser (ex_logged x ! k) cs sh0 (ex_shards x ! k)" "sent_by k (ex_feed x) = sh_out sh0"
      by (rule shard_atE)
    have "\<exists>cs'. gw_popped g ! k = map snd (ex_handled x ! k) @ cs' \<and> shard_pos crc ser (ex_logged x ! k) cs' sh0 (ex_shards x ! k)"
    proof (cases "in_hand k x")
      case True
      then show ?thesis using at front(3) ok that by (auto simp: exchange_ok_def)
    next
      case False
      then have "cs = []" using at(2) by (simp add: in_hand_def)
      then show ?thesis using pc at(2,3) by (auto simp: shard_pos_def nth_list_update split: if_splits)
    qed
    then show ?thesis using at by (auto simp: front(1) shard_at_def)
  qed
  moreover have "length (gw_popped g) = length sss" using pc ok by (auto simp: exchange_ok_def)
  moreover have "gateway_ok queued g" using gateway_ok_step [OF front(2)] ok by (simp add: exchange_ok_def)
  ultimately show ?thesis using ok by (simp add: front(1) exchange_ok_def)
next
  case (log_cmd k cmd sh)
  have k: "k < length sss" using log_cmd(2) ok by (simp add: exchange_ok_def)
  have len: "length (ex_shards x) = length sss" "length (ex_logged x) = length sss" using ok by (simp_all add: exchange_ok_def)
  have "shard_at vk n crc ser fsync sss ds x' j" if "j < length sss" for j
  proof -
    have "shard_at vk n crc ser fsync sss ds x j" using ok that by (simp add: exchange_ok_def)
    then show ?thesis
      using that k len log_cmd(3-5) by (cases "j = k") (auto simp: log_cmd(1) shard_at_def shard_pos_def)
  qed
  then show ?thesis using ok by (simp add: log_cmd(1) exchange_ok_def)
next
  case (handle k cmd now sh events)
  have k: "k < length sss" using handle(2) ok by (simp add: exchange_ok_def)
  have len: "length (ex_shards x) = length sss" "length (ex_handled x) = length sss" "length (ex_logged x) = length sss"
    using ok by (simp_all add: exchange_ok_def)
  have "shard_at vk n crc ser fsync sss ds x' j" if "j < length sss" for j
  proof -
    have "shard_at vk n crc ser fsync sss ds x j" using ok that by (simp add: exchange_ok_def)
    then show ?thesis
      using that k len handle(3-6)
      by (cases "j = k") (auto simp: handle(1) shard_at_def shard_pos_def shard_steps_snoc shard_step_def, use shard_log_frame(2) in fastforce)
  qed
  moreover have "list_all2 (\<lambda>ch ch'. up ch' \<and> equeued ch' = equeued ch @ concat (map snd (ex_feed x'))) subs (ex_subs x')"
  proof -
    have sub: "list_all2 (\<lambda>ch ch'. up ch' \<and> equeued ch' = equeued ch @ concat (map snd (ex_feed x))) subs (ex_subs x)"
      using ok by (simp add: exchange_ok_def)
    then have "list_all up (ex_subs x)" by (auto simp: list_all2_conv_all_nth list_all_length)
    from list_all2_trans [OF _ sub unbounded_channel.batch_alive [OF assms(3) this, of events]]
    show ?thesis by (simp add: handle(1))
  qed
  ultimately show ?thesis using ok by (simp add: handle(1) exchange_ok_def)
qed

lemma exchange_ok_reach:
  assumes "(exchange_step from_str ack send recv vk n crc ser esend)\<^sup>*\<^sup>* x x'"
    and "exchange_ok queued equeued up vk n crc ser fsync sss ds subs x" and "unbounded_channel equeued up esend erecv"
  shows "exchange_ok queued equeued up vk n crc ser fsync sss ds subs x' \<and>
    (gateway_step from_str ack send recv)\<^sup>*\<^sup>* (ex_gateway x) (ex_gateway x')"
  using assms(1)
proof (induction rule: rtranclp_induct)
  case (step x1 x2)
  have "ex_gateway x2 = ex_gateway x1 \<or> gateway_step from_str ack send recv (ex_gateway x1) (ex_gateway x2)"
    using step(2) by cases auto
  then show ?case using step exchange_ok_step [OF step(2) _ assms(3)] by (auto intro: rtranclp.rtrancl_into_rtrancl)
qed (use assms(2) in auto)

end

section \<open>The shards follow their specification\<close>

text \<open>
  What the refinement asks of the clients' lines: no stop orders, and limit quantities that 64
  bits can hold; \<open>n\<close> bounds the depth of matching.
\<close>

definition tame_load :: "(line \<Rightarrow> string + json_inbound) \<Rightarrow> line list list \<Rightarrow> nat \<Rightarrow> bool" where
  "tame_load from_str clients n \<longleftrightarrow> (\<forall>c \<in> set (asked from_str (concat clients)). stop_free c) \<and>
     (\<Sum>c\<leftarrow>asked from_str (concat clients). cmd_limit_qty c) < 2 ^ 64 \<and>
     2 * length (asked from_str (concat clients)) + 2 \<le> n"

lemma shard_runs:
  assumes "slab_allocator vk" and "fsync \<noteq> Every 0" and "\<And>s. session_ok vk n (cmds_of s (map snd cmds))"
  shows "\<exists>sh F. shard_steps vk n crc ser cmds (shard_start fsync symbols d) = Inr sh \<and>
    spec_shard (fst ` set symbols) (map snd cmds) (\<lambda>_. spec_empty) = Some (F, sh_out sh) \<and>
    (\<forall>s b. sh_books sh s = Some b \<longrightarrow> rep vk b (F s) \<and> check_no_cross b)"
proof -
  have "ww_fsync (fst (wal_open fsync d)) \<noteq> Every 0" using assms(2) by (simp add: wal_open_def Let_def)
  then obtain wal where "wal_append_all crc (map (\<lambda>x. logged ser (snd x)) cmds) (wal_open fsync d) = Inr wal"
    using append_all_ok by blast
  then obtain sh F where r: "shard_steps vk n crc ser cmds (shard_start fsync symbols d) = Inr sh"
    "spec_shard (fst ` set symbols) (map snd cmds) (\<lambda>_. spec_empty) = Some (F, sh_out sh)"
    "dom (sh_books sh) = fst ` set symbols" "\<forall>s b. sh_books sh s = Some b \<longrightarrow> rep vk b (F s)"
    using shard_steps_refine [OF assms(1) _ _ assms(2)] assms(3) by blast
  moreover have "check_no_cross b" if "sh_books sh s = Some b" for s b
  proof -
    have "s \<in> fst ` set symbols" using that r(3) by blast
    then obtain ev where "spec_run spec_empty (cmds_of s (map snd cmds)) = Some (F s, ev)"
      using spec_shard_isolated [OF r(2)] by blast
    then have "orderly (F s)" by (rule orderly_run [OF _ orderly_empty])
    then show ?thesis using no_cross_refine r(4) that unfolding orderly_def by blast
  qed
  ultimately show ?thesis by blast
qed

lemma started:
  assumes "engine_start mk cap n symbols = Inr (en, sss)" and "0 < n" and "queued (mk cap) = []"
  shows "engine_ok en" "\<forall>ch \<in> set (en_senders en). queued ch = []" "length sss = n" "en_num_shards en = n"
  using assms by (auto simp: engine_start_def shard_symbols_filter engine_ok_def)

context command_ring
begin

lemma taken_session:
  assumes "engine_ok en" and "\<forall>ch \<in> set (en_senders en). queued ch = []"
    and "(gateway_step from_str ack send recv)\<^sup>*\<^sup>* (gateway_start en clients) g" and "k < en_num_shards en"
    and "slab_allocator vk" and "tame_load from_str clients n" and "gw_popped g ! k = cs @ rest"
  shows "session_ok vk n (cmds_of s cs)"
proof -
  have "mset (cmds_of s cs) \<subseteq># mset (cmds_of s (gw_popped g ! k))" by (simp add: assms(7) cmds_of_def)
  then have "image_mset sq_cmd (mset (cmds_of s cs)) \<subseteq># mset (asked from_str (concat clients))"
    using popped_cmds [OF assms(1-4), of s] by (meson image_mset_subseteq_mono subset_mset.order_trans)
  then show ?thesis using stop_free_session [OF assms(5)] assms(6) by (simp add: tame_load_def)
qed

lemma in_hand_split:
  assumes "exchange_ok queued equeued up vk n crc ser fsync sss ds subs x" and "k < length sss"
  shows "\<exists>cs. gw_popped (ex_gateway x) ! k = map snd (ex_handled x ! k) @ cs \<and> (cs = [] \<longleftrightarrow> \<not> in_hand k x) \<and> length cs \<le> 1"
  by (rule shard_atE [OF assms]) (auto simp: in_hand_def shard_pos_def)

lemma shards_specified:
  assumes "engine_ok en" and "\<forall>ch \<in> set (en_senders en). queued ch = []"
    and "(gateway_step from_str ack send recv)\<^sup>*\<^sup>* (gateway_start en clients) (ex_gateway x)" and "k < en_num_shards en"
    and "slab_allocator vk" and "tame_load from_str clients n" and "fsync \<noteq> Every 0" and "length sss = en_num_shards en"
    and ok: "exchange_ok queued equeued up vk n crc ser fsync sss ds subs x"
  shows "\<exists>F. spec_shard (fst ` set (sss ! k)) (map snd (ex_handled x ! k)) (\<lambda>_. spec_empty) = Some (F, sh_out (ex_shards x ! k)) \<and>
    (\<forall>s b. sh_books (ex_shards x ! k) s = Some b \<longrightarrow> rep vk b (F s) \<and> check_no_cross b)"
proof -
  have "k < length sss" using assms(4,8) by simp
  from ok this obtain sh0 cs where at: "shard_steps vk n crc ser (ex_handled x ! k) (shard_start fsync (sss ! k) (ds k)) = Inr sh0"
    "gw_popped (ex_gateway x) ! k = map snd (ex_handled x ! k) @ cs" "shard_pos crc ser (ex_logged x ! k) cs sh0 (ex_shards x ! k)"
    by (rule shard_atE)
  note s = taken_session [OF assms(1-6) at(2)]
  show ?thesis using shard_runs [OF assms(5,7) s, of crc ser "sss ! k" "ds k"] at(1) shard_pos_frame [OF at(3)] by auto
qed

end

section \<open>Progress\<close>

definition exchange_rest :: "('c \<Rightarrow> sequenced list) \<Rightarrow> ('c, 'd) exchange \<Rightarrow> bool" where
  "exchange_rest queued x \<longleftrightarrow> at_rest queued (ex_gateway x) \<and> (\<forall>k < length (ex_shards x). \<not> in_hand k x)"

text \<open>Beyond the work of the gateway, every command it has not handed to a shard yet is worth two
  steps, and a command in hand the one or two it still needs.\<close>

definition ahead :: "('c \<Rightarrow> sequenced list) \<Rightarrow> 'c gateway \<Rightarrow> nat" where
  "ahead queued g = (\<Sum>ls\<leftarrow>gw_waiting g. length ls) + (\<Sum>s\<leftarrow>gw_sessions g. length (se_lines s) + length (flights s)) +
     (\<Sum>ch\<leftarrow>en_senders (gw_engine g). length (queued ch))"

definition hand_work :: "('c, 'd) exchange \<Rightarrow> nat \<Rightarrow> nat" where
  "hand_work x k = (if in_hand k x then if ex_logged x ! k then 1 else 2 else 0)"

definition exchange_work :: "('c \<Rightarrow> sequenced list) \<Rightarrow> ('c, 'd) exchange \<Rightarrow> nat" where
  "exchange_work queued x = work queued (ex_gateway x) + 2 * ahead queued (ex_gateway x) + (\<Sum>k < length (ex_shards x). hand_work x k)"

lemma sum_change: "finite S \<Longrightarrow> k \<in> S \<Longrightarrow> \<forall>j \<in> S - {k}. f j = g j \<Longrightarrow> sum f S + g k = sum g S + (f k :: nat)"
  using sum.remove [of S k f] sum.remove [of S k g] sum.cong [of "S - {k}" "S - {k}" f g] by simp

context command_ring
begin

lemma ahead_put:
  "i < length (gw_sessions g) \<Longrightarrow> length (se_lines s) + length (flights s) \<le> length (se_lines (gw_sessions g ! i)) + length (flights (gw_sessions g ! i)) \<Longrightarrow>
     ahead queued (put_session i s g) + (length (se_lines (gw_sessions g ! i)) + length (flights (gw_sessions g ! i))) =
     ahead queued g + (length (se_lines s) + length (flights s))"
  using sum_list_put [of i "gw_sessions g" "\<lambda>s. length (se_lines s) + length (flights s)" s] by (simp add: ahead_def)

lemma ahead_ring:
  "k < length (en_senders (gw_engine g)) \<Longrightarrow>
     ahead queued (g\<lparr>gw_engine := (gw_engine g)\<lparr>en_senders := (en_senders (gw_engine g))[k := ch]\<rparr>\<rparr>) +
       length (queued (en_senders (gw_engine g) ! k)) = ahead queued g + length (queued ch)"
  using sum_list_put [of k "en_senders (gw_engine g)" "\<lambda>ch. length (queued ch)" ch] by (simp add: ahead_def)

text \<open>A step leaves the shards' commands alone, or hands one of those ahead to a shard.\<close>

lemma ahead_step:
  assumes "gateway_step from_str ack send recv g g'" and "gateway_ok queued g"
  shows "ahead queued g' \<le> ahead queued g \<and> gw_popped g' = gw_popped g \<or>
    ahead queued g' + 1 = ahead queued g \<and>
      (\<exists>k sc. k < length (gw_popped g) \<and> gw_popped g' = (gw_popped g)[k := gw_popped g ! k @ [sc]])"
  using assms
proof (cases rule: gateway_cases)
  case (accept ls w)
  then show ?thesis by (simp add: ahead_def)
next
  case (silent i l s')
  then show ?thesis using ahead_put [OF silent(1), of s'] by simp
next
  case (number i l ls c k now sc)
  let ?g1 = "g\<lparr>gw_engine := (gw_engine g)\<lparr>en_sequencer := \<lparr>sq_next = current (en_sequencer (gw_engine g)) + 1\<rparr>\<rparr>\<rparr>"
  have "ahead queued (put_session i ((gw_sessions g ! i)\<lparr>se_lines := ls, se_flight := Some (k, sc)\<rparr>) ?g1) \<le> ahead queued ?g1"
    using number(1-3) ahead_put [of i ?g1 "(gw_sessions g ! i)\<lparr>se_lines := ls, se_flight := Some (k, sc)\<rparr>"] by simp
  then show ?thesis by (simp add: number(7) ahead_def)
next
  case (push i k sc s' ch)
  let ?g1 = "g\<lparr>gw_engine := (gw_engine g)\<lparr>en_senders := (en_senders (gw_engine g))[k := ch]\<rparr>\<rparr>"
  have "ahead queued (put_session i s' ?g1) + 1 \<le> ahead queued ?g1" using push(1-4) ahead_put [of i ?g1 s'] by auto
  moreover have "ahead queued ?g1 = Suc (ahead queued g)" using ahead_ring [OF push(6), of ch] push(8) by simp
  ultimately show ?thesis by (simp add: push(11))
next
  case (full i k sc s')
  then show ?thesis using ahead_put [OF full(1), of s'] by simp
next
  case (pop k sc ch)
  then show ?thesis using ahead_ring [OF pop(1), of ch] by (auto simp: ahead_def)
qed

lemma exchange_work_step:
  assumes "exchange_step from_str ack send recv vk n crc ser esend x x'" and "gateway_ok queued (ex_gateway x)"
    and "length (ex_handled x) = length (ex_shards x)" and "length (ex_logged x) = length (ex_shards x)"
    and "\<And>k. k < length (ex_shards x) \<Longrightarrow> ex_logged x ! k \<Longrightarrow> in_hand k x"
  shows "exchange_work queued x' < exchange_work queued x"
  using assms(1)
proof cases
  case (front g)
  have less: "work queued g < work queued (ex_gateway x)" by (rule work_step [OF front(2) assms(2)])
  from ahead_step [OF front(2) assms(2)] show ?thesis
  proof (elim disjE conjE exE)
    assume a: "ahead queued g \<le> ahead queued (ex_gateway x)" "gw_popped g = gw_popped (ex_gateway x)"
    then have "hand_work x' k = hand_work x k" for k by (simp add: front(1) hand_work_def in_hand_def)
    then show ?thesis using less a(1) by (simp add: exchange_work_def front(1))
  next
    fix k sc
    assume a: "ahead queued g + 1 = ahead queued (ex_gateway x)" "k < length (gw_popped (ex_gateway x))"
      "gw_popped g = (gw_popped (ex_gateway x))[k := gw_popped (ex_gateway x) ! k @ [sc]]"
    have same: "hand_work x' j = hand_work x j" if "j \<noteq> k" for j
      using that a(3) by (simp add: front(1) hand_work_def in_hand_def)
    have "(\<Sum>k < length (ex_shards x). hand_work x' k) \<le> (\<Sum>k < length (ex_shards x). hand_work x k) + 2"
    proof (cases "k < length (ex_shards x)")
      case True
      have "(\<Sum>k < length (ex_shards x). hand_work x' k) + hand_work x k = (\<Sum>k < length (ex_shards x). hand_work x k) + hand_work x' k"
        by (rule sum_change) (use True same in auto)
      moreover have "hand_work x' k \<le> 2" by (simp add: hand_work_def)
      ultimately show ?thesis by linarith
    next
      case False
      then have "(\<Sum>k < length (ex_shards x). hand_work x' k) = (\<Sum>k < length (ex_shards x). hand_work x k)"
        by (intro sum.cong) (use same in auto)
      then show ?thesis by simp
    qed
    then show ?thesis using less a(1) by (simp add: exchange_work_def front(1))
  qed
next
  case (log_cmd k cmd sh)
  have "(\<Sum>k < length (ex_shards x). hand_work x' k) + hand_work x k = (\<Sum>k < length (ex_shards x). hand_work x k) + hand_work x' k"
    by (rule sum_change) (use log_cmd(2) in \<open>auto simp: log_cmd(1) hand_work_def in_hand_def\<close>)
  moreover have "hand_work x' k < hand_work x k"
    using log_cmd(2-4) assms(4) by (simp add: log_cmd(1) hand_work_def in_hand_def)
  ultimately show ?thesis by (simp add: exchange_work_def log_cmd(1))
next
  case (handle k cmd now sh events)
  have "(\<Sum>k < length (ex_shards x). hand_work x' k) + hand_work x k = (\<Sum>k < length (ex_shards x). hand_work x k) + hand_work x' k"
    by (rule sum_change) (use handle(2) in \<open>auto simp: handle(1) hand_work_def in_hand_def\<close>)
  moreover have "hand_work x' k < hand_work x k"
    using handle(2-4) assms(3) by (simp add: handle(1) hand_work_def in_hand_def)
  ultimately show ?thesis by (simp add: exchange_work_def handle(1))
qed

lemma exchange_work_ok:
  assumes "exchange_step from_str ack send recv vk n crc ser esend x x'"
    and ok: "exchange_ok queued equeued up vk n crc ser fsync sss ds subs x"
  shows "exchange_work queued x' < exchange_work queued x"
proof (rule exchange_work_step [OF assms(1)])
  fix k assume k: "k < length (ex_shards x)" "ex_logged x ! k"
  then have "k < length sss" using ok by (simp add: exchange_ok_def)
  from ok this show "in_hand k x" by (rule shard_atE) (use k(2) in \<open>auto simp: in_hand_def shard_pos_def\<close>)
qed (use ok in \<open>simp_all add: exchange_ok_def\<close>)

lemma exchange_progress:
  assumes "engine_ok en" and "\<forall>ch \<in> set (en_senders en). queued ch = []"
    and "(gateway_step from_str ack send recv)\<^sup>*\<^sup>* (gateway_start en clients) (ex_gateway x)"
    and "slab_allocator vk" and "tame_load from_str clients n" and "fsync \<noteq> Every 0" and "length sss = en_num_shards en"
    and ok: "exchange_ok queued equeued up vk n crc ser fsync sss ds subs x" and "\<not> exchange_rest queued x"
  shows "\<exists>x'. exchange_step from_str ack send recv vk n crc ser esend x x'"
proof (cases "\<exists>k < length sss. in_hand k x")
  case True
  then obtain k where k: "k < length sss" "in_hand k x" by blast
  from ok k(1) obtain sh0 cs where at: "shard_steps vk n crc ser (ex_handled x ! k) (shard_start fsync (sss ! k) (ds k)) = Inr sh0"
    "gw_popped (ex_gateway x) ! k = map snd (ex_handled x ! k) @ cs" "shard_pos crc ser (ex_logged x ! k) cs sh0 (ex_shards x ! k)"
    by (rule shard_atE)
  then obtain c where c: "cs = [c]" using k(2) by (cases cs) (auto simp: in_hand_def shard_pos_def)
  have "gw_popped (ex_gateway x) ! k = map snd (ex_handled x ! k @ [(0, c)]) @ []" using at(2) c by simp
  from taken_session [OF assms(1-3) _ assms(4,5) this] k(1) assms(7)
  obtain sh where "shard_steps vk n crc ser (ex_handled x ! k @ [(0, c)]) (shard_start fsync (sss ! k) (ds k)) = Inr sh"
    using shard_runs [OF assms(4,6)] by metis
  then obtain sh1 where st: "shard_log crc ser c sh0 = Inr sh1" "shard_apply vk n 0 c sh1 = Inr sh"
    by (auto simp: shard_steps_snoc at(1) shard_step_def rbind_eq_Inr)
  obtain ev where ev: "sh_out sh = sh_out sh1 @ ev" using shard_apply_out [OF st(2)] by blast
  have len: "k < length (ex_shards x)" using k(1) ok by (simp add: exchange_ok_def)
  have hand: "gw_popped (ex_gateway x) ! k = map snd (ex_handled x ! k) @ [c]" using at(2) c by simp
  show ?thesis
  proof (cases "ex_logged x ! k")
    case True
    then have "ex_shards x ! k = sh1" using at(3) c st(1) by (simp add: shard_pos_def)
    then show ?thesis using exchange_step.handle [OF len hand True, of vk n 0 sh ev] st(2) ev by blast
  next
    case False
    then have "ex_shards x ! k = sh0" using at(3) by (simp add: shard_pos_def)
    then show ?thesis using exchange_step.log_cmd [OF len hand False, of crc ser sh1] st(1) by blast
  qed
next
  case False
  then have "\<not> at_rest queued (ex_gateway x)" using assms(9) ok by (auto simp: exchange_rest_def exchange_ok_def)
  moreover have "gateway_ok queued (ex_gateway x)" using ok by (simp add: exchange_ok_def)
  ultimately obtain g where "gateway_step from_str ack send recv (ex_gateway x) g" using progress by blast
  then have "exchange_step from_str ack send recv vk n crc ser esend x (x\<lparr>ex_gateway := g\<rparr>)"
    by (rule exchange_step.front) (use False ok in \<open>simp add: exchange_ok_def\<close>)
  then show ?thesis by blast
qed

text \<open>Everything at once, from the start.\<close>

lemma exchange_reached:
  assumes "unbounded_channel equeued up esend erecv" and "engine_start mk cap m symbols = Inr (en, sss)" and "0 < m"
    and "queued (mk cap) = []" and "list_all up subs"
    and "(exchange_step from_str ack send recv vk n crc ser esend)\<^sup>*\<^sup>* (exchange_start fsync sss ds en clients subs) x"
  shows "exchange_ok queued equeued up vk n crc ser fsync sss ds subs x"
    "(gateway_step from_str ack send recv)\<^sup>*\<^sup>* (gateway_start en clients) (ex_gateway x)"
proof -
  note st = started [where queued = queued and mk = mk and cap = cap, OF assms(2-4)]
  have "exchange_ok queued equeued up vk n crc ser fsync sss ds subs (exchange_start fsync sss ds en clients subs)"
    by (rule exchange_ok_start [OF gateway_start_ok [OF st(1,2)] _ assms(5)]) (simp add: st)
  from exchange_ok_reach [OF assms(6) this assms(1)]
  show "exchange_ok queued equeued up vk n crc ser fsync sss ds subs x"
    "(gateway_step from_str ack send recv)\<^sup>*\<^sup>* (gateway_start en clients) (ex_gateway x)"
    by (simp_all add: exchange_start_def)
qed

lemma exchange_implements:
  assumes "unbounded_channel equeued up esend erecv" and "engine_start mk cap m symbols = Inr (en, sss)" and "0 < m"
    and "queued (mk cap) = []" and "list_all up subs"
    and "(exchange_step from_str ack send recv vk n crc ser esend)\<^sup>*\<^sup>* (exchange_start fsync sss ds en clients subs) x"
    and "slab_allocator vk" and "fsync \<noteq> Every 0" and "tame_load from_str clients n"
  shows "(\<forall>k < m. \<exists>F. spec_shard (fst ` set (sss ! k)) (map snd (ex_handled x ! k)) (\<lambda>_. spec_empty) = Some (F, sent_by k (ex_feed x)) \<and>
      (\<forall>s b. sh_books (ex_shards x ! k) s = Some b \<longrightarrow> rep vk b (F s) \<and> check_no_cross b)) \<and>
    list_all2 (\<lambda>ch ch'. equeued ch' = equeued ch @ concat (map snd (ex_feed x))) subs (ex_subs x)"
proof (intro conjI allI impI)
  note st = started [where queued = queued and mk = mk and cap = cap, OF assms(2-4)]
  note r = exchange_reached [OF assms(1-6)]
  show "list_all2 (\<lambda>ch ch'. equeued ch' = equeued ch @ concat (map snd (ex_feed x))) subs (ex_subs x)"
    using r(1) by (auto simp: exchange_ok_def elim: list_all2_mono)
  fix k
  assume "k < m"
  then have "k < length sss" using st(3) by simp
  from r(1) this have "sent_by k (ex_feed x) = sh_out (ex_shards x ! k)" by (rule shard_atE) (auto dest: shard_pos_frame)
  moreover have "k < en_num_shards en" "length sss = en_num_shards en" using \<open>k < m\<close> st by simp_all
  ultimately show "\<exists>F. spec_shard (fst ` set (sss ! k)) (map snd (ex_handled x ! k)) (\<lambda>_. spec_empty) = Some (F, sent_by k (ex_feed x)) \<and>
      (\<forall>s b. sh_books (ex_shards x ! k) s = Some b \<longrightarrow> rep vk b (F s) \<and> check_no_cross b)"
    using shards_specified [OF st(1,2) r(2) _ assms(7,9,8) _ r(1)] by simp
qed

lemma exchange_run_length:
  assumes "(exchange_step from_str ack send recv vk n crc ser esend ^^ j) x x'"
    and "exchange_ok queued equeued up vk n crc ser fsync sss ds subs x" and "unbounded_channel equeued up esend erecv"
  shows "j + exchange_work queued x' \<le> exchange_work queued x \<and> exchange_ok queued equeued up vk n crc ser fsync sss ds subs x'"
  using assms(1)
proof (induction j arbitrary: x')
  case 0
  then show ?case using assms(2) by simp
next
  case (Suc j)
  then obtain x1 where x1: "(exchange_step from_str ack send recv vk n crc ser esend ^^ j) x x1"
    "exchange_step from_str ack send recv vk n crc ser esend x1 x'" by auto
  note IH = Suc.IH [OF x1(1)]
  then have "exchange_work queued x' < exchange_work queued x1"
    using exchange_work_ok [OF x1(2)] by blast
  then show ?case using IH exchange_ok_step [OF x1(2) _ assms(3)] by simp
qed

lemma exchange_settles:
  assumes "unbounded_channel equeued up esend erecv" and "engine_start mk cap m symbols = Inr (en, sss)" and "0 < m"
    and "queued (mk cap) = []" and "list_all up subs"
    and "slab_allocator vk" and "fsync \<noteq> Every 0" and "tame_load from_str clients n"
  shows "(exchange_step from_str ack send recv vk n crc ser esend)\<^sup>*\<^sup>* (exchange_start fsync sss ds en clients subs) x \<Longrightarrow>
    \<exists>x'. (exchange_step from_str ack send recv vk n crc ser esend)\<^sup>*\<^sup>* x x' \<and> exchange_rest queued x'"
proof (induction "exchange_work queued x" arbitrary: x rule: less_induct)
  case less
  note st = started [where queued = queued and mk = mk and cap = cap, OF assms(2-4)]
  note r = exchange_reached [OF assms(1-5) less.prems]
  show ?case
  proof (cases "exchange_rest queued x")
    case False
    have "length sss = en_num_shards en" using st by simp
    from exchange_progress [OF st(1,2) r(2) assms(6,8,7) this r(1) False]
    obtain x1 where x1: "exchange_step from_str ack send recv vk n crc ser esend x x1" by blast
    have "exchange_work queued x1 < exchange_work queued x" by (rule exchange_work_ok [OF x1 r(1)])
    moreover have "(exchange_step from_str ack send recv vk n crc ser esend)\<^sup>*\<^sup>* (exchange_start fsync sss ds en clients subs) x1"
      using less.prems x1 by (rule rtranclp.rtrancl_into_rtrancl)
    ultimately obtain x' where "(exchange_step from_str ack send recv vk n crc ser esend)\<^sup>*\<^sup>* x1 x'" "exchange_rest queued x'"
      using less.hyps by blast
    then show ?thesis using x1 by (meson converse_rtranclp_into_rtranclp)
  qed auto
qed

lemma rest_all_handled:
  assumes "unbounded_channel equeued up esend erecv" and "engine_start mk cap m symbols = Inr (en, sss)" and "0 < m"
    and "queued (mk cap) = []" and "list_all up subs"
    and "(exchange_step from_str ack send recv vk n crc ser esend)\<^sup>*\<^sup>* (exchange_start fsync sss ds en clients subs) x"
    and "exchange_rest queued x"
  shows "mset (concat (map (\<lambda>s. map snd (se_sent s)) (gw_sessions (ex_gateway x)))) = mset (concat (map (map snd) (ex_handled x)))"
proof -
  note st = started [where queued = queued and mk = mk and cap = cap, OF assms(2-4)]
  note r = exchange_reached [OF assms(1-6)]
  have "gw_popped (ex_gateway x) = map (map snd) (ex_handled x)"
    using assms(7) r(1) by (intro nth_equalityI) (auto simp: exchange_rest_def exchange_ok_def in_hand_def)
  moreover have "all_sent (ex_gateway x) = all_lanes queued (ex_gateway x)" by (rule sent_is_queued [OF st(2,1) r(2)])
  moreover have "concat (map queued (en_senders (gw_engine (ex_gateway x)))) = []"
    using assms(7) by (simp add: exchange_rest_def at_rest_def)
  ultimately show ?thesis by (simp add: all_sent_def all_lanes_def)
qed

end

section \<open>The properties\<close>

text \<open>
  C2: The whole process, from the lines of the clients to what the subscribers read. Any
  number of clients send any lines (no stops in them, and no more limit quantity than 64
  bits hold); accepts, sessions and shards take their steps in any order. In every state
  that is reached no shard has panicked: each has published exactly the events that the
  specification of its symbols gives for the commands it handled, its books are in the
  specification's state and uncrossed, and every subscriber of the egress bus has been given
  one and the same interleaving of what the shards published, nothing lost or repeated.
\<close>

theorem exchange_end_to_end:
  assumes "command_ring queued capacity is_open send recv" and "unbounded_channel equeued up esend erecv"
    and "slab_allocator vk" and "fsync \<noteq> Every 0"
    and "engine_start mk cap m symbols = Inr (en, sss)" and "0 < m" and "queued (mk cap) = []" and "list_all up subs"
    and "tame_load from_str clients n"
    and "(exchange_step from_str ack send recv vk n crc ser esend)\<^sup>*\<^sup>* (exchange_start fsync sss ds en clients subs) x"
  shows "(\<forall>k < m. \<exists>F. spec_shard (fst ` set (sss ! k)) (map snd (ex_handled x ! k)) (\<lambda>_. spec_empty) = Some (F, sent_by k (ex_feed x)) \<and>
      (\<forall>s b. sh_books (ex_shards x ! k) s = Some b \<longrightarrow> rep vk b (F s) \<and> check_no_cross b)) \<and>
    list_all2 (\<lambda>ch ch'. equeued ch' = equeued ch @ concat (map snd (ex_feed x))) subs (ex_subs x)"
  by (rule command_ring.exchange_implements [OF assms(1,2,5-8,10,3,4,9)])

text \<open>
  C27: The process always gets its work done. A run for finitely many lines has at most five
  steps per line and one per client; a reachable state in which anything is left to do has a
  next step; and from every reachable state one is reached in which all connections are
  accepted, all lines read, all rings empty, and the shards have handled exactly the commands
  that were acknowledged or queued, each once.
\<close>

theorem exchange_comes_to_rest:
  assumes "command_ring queued capacity is_open send recv" and "unbounded_channel equeued up esend erecv"
    and "slab_allocator vk" and "fsync \<noteq> Every 0"
    and "engine_start mk cap m symbols = Inr (en, sss)" and "0 < m" and "queued (mk cap) = []" and "list_all up subs"
    and "tame_load from_str clients n"
  shows "(\<forall>j x. (exchange_step from_str ack send recv vk n crc ser esend ^^ j) (exchange_start fsync sss ds en clients subs) x \<longrightarrow> j \<le> (\<Sum>ls\<leftarrow>clients. 5 * length ls + 1)) \<and>
    (\<forall>x. (exchange_step from_str ack send recv vk n crc ser esend)\<^sup>*\<^sup>* (exchange_start fsync sss ds en clients subs) x \<longrightarrow>
      (exchange_rest queued x \<or> (\<exists>x'. exchange_step from_str ack send recv vk n crc ser esend x x')) \<and>
      (\<exists>x'. (exchange_step from_str ack send recv vk n crc ser esend)\<^sup>*\<^sup>* x x' \<and> exchange_rest queued x' \<and>
         mset (concat (map (\<lambda>s. map snd (se_sent s)) (gw_sessions (ex_gateway x')))) = mset (concat (map (map snd) (ex_handled x')))))"
proof (intro conjI allI impI)
  let ?step = "exchange_step from_str ack send recv vk n crc ser esend" and ?x0 = "exchange_start fsync sss ds en clients subs"
  note st = started [where queued = queued and mk = mk and cap = cap, OF assms(5-7)]
  fix j x
  assume run: "(?step ^^ j) ?x0 x"
  have "exchange_ok queued equeued up vk n crc ser fsync sss ds subs ?x0"
    using command_ring.exchange_reached(1) [OF assms(1,2,5-8) rtranclp.rtrancl_refl] .
  from command_ring.exchange_run_length [OF assms(1) run this assms(2)]
  have "j \<le> exchange_work queued ?x0" by simp
  also have "\<dots> = work queued (gateway_start en clients) + 2 * ahead queued (gateway_start en clients)"
    using st(3,4) by (simp add: exchange_work_def exchange_start_def hand_work_def in_hand_def gateway_start_def)
  also have "ahead queued (gateway_start en clients) = (\<Sum>ls\<leftarrow>clients. length ls)"
    using st(2) by (simp add: ahead_def gateway_start_def sum_list_eq_0_iff)
  also have "work queued (gateway_start en clients) + 2 * (\<Sum>ls\<leftarrow>clients. length ls) = (\<Sum>ls\<leftarrow>clients. 5 * length ls + 1)"
    unfolding command_ring.start_work [OF assms(1) st(2), of clients] by (induction clients) simp_all
  finally show "j \<le> (\<Sum>ls\<leftarrow>clients. 5 * length ls + 1)" .
next
  let ?step = "exchange_step from_str ack send recv vk n crc ser esend" and ?x0 = "exchange_start fsync sss ds en clients subs"
  note st = started [where queued = queued and mk = mk and cap = cap, OF assms(5-7)]
  fix x
  assume reach: "?step\<^sup>*\<^sup>* ?x0 x"
  note r = command_ring.exchange_reached [OF assms(1,2,5-8) reach]
  show "exchange_rest queued x \<or> (\<exists>x'. ?step x x')"
    using command_ring.exchange_progress [OF assms(1) st(1,2) r(2) assms(3,9,4) _ r(1)] st(3,4) by auto
  obtain x' where x': "?step\<^sup>*\<^sup>* x x'" "exchange_rest queued x'"
    using command_ring.exchange_settles [OF assms(1,2,5-8,3,4,9) reach] by blast
  have "?step\<^sup>*\<^sup>* ?x0 x'" using reach x'(1) by (rule rtranclp_trans)
  from command_ring.rest_all_handled [OF assms(1,2,5-8) this x'(2)] x'
  show "\<exists>x'. ?step\<^sup>*\<^sup>* x x' \<and> exchange_rest queued x' \<and>
      mset (concat (map (\<lambda>s. map snd (se_sent s)) (gw_sessions (ex_gateway x')))) = mset (concat (map (map snd) (ex_handled x')))"
    by blast
qed

section \<open>The configured process\<close>

text \<open>
  \<^verbatim>\<open>main\<close> of the gateway: two shards, rings of 65536, the four symbols with tick 1, and the
  consumer of the market data as second subscriber of the egress bus.
\<close>

definition main_engine :: "(nat \<Rightarrow> 'c) \<Rightarrow> halt + ('c engine \<times> (symbol_id \<times> price) list list)" where
  "main_engine mk = engine_start mk 65536 2 (map (\<lambda>s. (symbol_to_id s, 1)) symbol_names)"

definition main_bus :: "'d \<Rightarrow> 'd egress_bus" where
  "main_bus mk = subscribe mk (egress_bus_new mk)"

lemma main_starts:
  "main_engine mk = Inr (\<lparr>en_senders = [mk 65536, mk 65536], en_sequencer = sequencer_new, en_num_shards = 2\<rparr>,
     [[], map (\<lambda>s. (symbol_to_id s, 1)) symbol_names])"
proof -
  have "unat (symbol_to_id s) mod 2 = 1" if "s \<in> set symbol_names" for s
    using gateway_uses_one_shard that by (auto simp: shard_for_def symbol_names_def)
  then have "filter (\<lambda>(i, _). unat i mod 2 = k) (map (\<lambda>s. (symbol_to_id s, 1 :: price)) symbol_names) =
      (if k = 1 then map (\<lambda>s. (symbol_to_id s, 1)) symbol_names else [])" for k
    by (auto simp: filter_map comp_def filter_id_conv filter_empty_conv)
  moreover have "replicate 2 (mk 65536) = [mk 65536, mk 65536]" by (simp add: numeral_2_eq_2)
  ultimately show ?thesis by (simp add: main_engine_def engine_start_def shard_symbols_filter upt_rec)
qed

section \<open>A run\<close>

text \<open>One shard, one client with three lines, and a subscriber that has read nothing yet.\<close>

abbreviation sample_exchange :: "(sequenced bounded_queue, output_event list_channel) exchange" where
  "sample_exchange \<equiv> exchange_start Off [[(symbol_to_id AAPL, 1)]] (\<lambda>_. \<lparr>files = [], synced = []\<rparr>) one_shard
     [map fst sample_lines] [(True, [])]"

abbreviation sample_exchange_step ::
  "(sequenced bounded_queue, output_event list_channel) exchange \<Rightarrow> (sequenced bounded_queue, output_event list_channel) exchange \<Rightarrow> bool" where
  "sample_exchange_step \<equiv> exchange_step sample_parse sample_ack bq_send bq_recv stack_key 10 (\<lambda>_. 0) (\<lambda>_. []) lc_send"

lemma sample_load: "tame_load sample_parse [map fst sample_lines] 10"
  unfolding tame_load_def sample_asked by (simp add: stop_free_def cmd_limit_qty_def limit_qty_def)

lemma exchange_end_to_end_witness:
  "\<exists>x F out. sample_exchange_step\<^sup>*\<^sup>* sample_exchange x \<and> exchange_rest bq_items x \<and>
     spec_shard {symbol_to_id AAPL} (map snd (ex_handled x ! 0)) (\<lambda>_. spec_empty) = Some (F, sent_by 0 (ex_feed x)) \<and>
     map snd (ex_subs x) = [concat (map snd (ex_feed x))]"
proof -
  obtain x where x: "sample_exchange_step\<^sup>*\<^sup>* sample_exchange x" "exchange_rest bq_items x"
    using cq.exchange_settles [where subs = "[(True, [])]" and fsync = Off and ack = sample_ack and crc = "\<lambda>_. 0" and
        ser = "\<lambda>_. []" and ds = "\<lambda>_. \<lparr>files = [], synced = []\<rparr>", OF lc.unbounded_channel_axioms sample_started _ _ _ stack.slab_allocator_axioms _ sample_load
        rtranclp.rtrancl_refl] by auto
  have "\<exists>F. spec_shard {symbol_to_id AAPL} (map snd (ex_handled x ! 0)) (\<lambda>_. spec_empty) = Some (F, sent_by 0 (ex_feed x))"
    "list_all2 (\<lambda>ch ch'. snd ch' = snd ch @ concat (map snd (ex_feed x))) [(True, [])] (ex_subs x)"
    using exchange_end_to_end [OF cq.command_ring_axioms lc.unbounded_channel_axioms stack.slab_allocator_axioms _ sample_started _ _ _
        sample_load x(1)] by auto
  then show ?thesis using x by (auto simp: list_all2_Cons1)
qed

lemma exchange_comes_to_rest_witness:
  "\<exists>x. sample_exchange_step\<^sup>*\<^sup>* sample_exchange x \<and> exchange_rest bq_items x \<and>
     mset (concat (map (\<lambda>s. map snd (se_sent s)) (gw_sessions (ex_gateway x)))) = mset (concat (map (map snd) (ex_handled x)))"
  using exchange_comes_to_rest [OF cq.command_ring_axioms lc.unbounded_channel_axioms stack.slab_allocator_axioms _ sample_started _ _ _
      sample_load, of Off "[(True, [])]" sample_ack "\<lambda>_. 0" "\<lambda>_. []" "\<lambda>_. \<lparr>files = [], synced = []\<rparr>"]
  by auto

end
