(* ===== verification/Wal_Faults.thy ===== *)
theory Wal_Faults
  imports Wal_Properties "HOL-Library.Sublist"
begin

text \<open>
  The error paths of \<^verbatim>\<open>writer.rs\<close>: every system call of an append may fail, and a write may
  fail after part of it reached the file. \<open>Wal_Log\<close> is the case without failures
  (\<open>io_append_sound\<close>). \<^verbatim>\<open>BufWriter\<close> drops from its buffer what a failed flush did write.
\<close>

section \<open>Failures\<close>

text \<open>
  What goes wrong during one append: after how many bytes the write of the spill, of a record
  too long for the buffer, and of the flushes before a sync and a roll fails (None: it does
  not), and whether \<^verbatim>\<open>sync_data\<close> and opening the next segment fail.
\<close>

record io_faults =
  on_spill :: "nat option"
  on_write :: "nat option"
  on_sync_flush :: "nat option"
  on_sync :: bool
  on_roll_flush :: "nat option"
  on_open :: bool
  io_message :: string

definition no_faults :: io_faults where
  "no_faults = \<lparr>on_spill = None, on_write = None, on_sync_flush = None, on_sync = False, on_roll_flush = None,
     on_open = False, io_message = []\<rparr>"

text \<open>After a roll that could not open its segment the writer keeps the file it has, so the
  open file is a field of its own.\<close>

record io_writer = wal_writer +
  ww_open :: string

type_synonym io_state = "io_writer \<times> disk"

definition io_writer_of :: "wal_writer \<Rightarrow> io_writer" where
  "io_writer_of w = wal_writer.extend w (io_writer.fields (ww_path w))"

fun io_of :: "wal_writer \<times> disk \<Rightarrow> io_state" where
  "io_of (w, d) = (io_writer_of w, d)"

section \<open>Operations\<close>

text \<open>What of \<open>bs\<close> is left unwritten; the write has failed when that is anything.\<close>

definition io_put :: "nat option \<Rightarrow> bytes \<Rightarrow> string \<Rightarrow> disk \<Rightarrow> bytes \<times> disk" where
  "io_put fault bs p d =
     (let n = (case fault of None \<Rightarrow> length bs | Some n \<Rightarrow> min n (length bs))
      in (drop n bs, d\<lparr>files := append_file p (take n bs) (files d)\<rparr>))"

definition io_flush :: "nat option \<Rightarrow> io_state \<Rightarrow> bool \<times> io_state" where
  "io_flush fault = (\<lambda>(w, d).
     let (rest, d) = io_put fault (ww_buf w) (ww_open w) d in (rest = [], w\<lparr>ww_buf := rest\<rparr>, d))"

definition io_buf_write :: "io_faults \<Rightarrow> bytes \<Rightarrow> io_state \<Rightarrow> bool \<times> io_state" where
  "io_buf_write fl bs = (\<lambda>(w, d).
     if length bs < BUF_CAPACITY - length (ww_buf w) then (True, w\<lparr>ww_buf := ww_buf w @ bs\<rparr>, d)
     else
       let (ok, w, d) = (if length bs > BUF_CAPACITY - length (ww_buf w) then io_flush (on_spill fl) (w, d) else (True, w, d))
       in if \<not> ok then (False, w, d)
          else if length bs \<ge> BUF_CAPACITY then
            let (rest, d) = io_put (on_write fl) bs (ww_open w) d in (rest = [], w, d)
          else (True, w\<lparr>ww_buf := ww_buf w @ bs\<rparr>, d))"

definition io_fsync :: "io_faults \<Rightarrow> io_state \<Rightarrow> bool \<times> io_state" where
  "io_fsync fl st =
     (let (ok, w, d) = io_flush (on_sync_flush fl) st
      in if \<not> ok \<or> on_sync fl then (False, w, d)
         else (True, w, d\<lparr>synced := store_file (ww_open w) (fs_read (files d) (ww_open w)) (synced d)\<rparr>))"

definition io_roll :: "io_faults \<Rightarrow> io_state \<Rightarrow> bool \<times> io_state" where
  "io_roll fl st =
     (let (ok, w, d) = io_flush (on_roll_flush fl) st
      in if \<not> ok then (False, w, d)
         else
           let w = w\<lparr>ww_seg_idx := ww_seg_idx w + 1, ww_seg_bytes := 0\<rparr>
           in if on_open fl then (False, w, d)
              else (True, w\<lparr>ww_open := segment_path (ww_seg_idx w)\<rparr>, open_segment (ww_seg_idx w) d))"

definition io_maybe_sync :: "io_faults \<Rightarrow> io_state \<Rightarrow> halt + (bool \<times> io_state)" where
  "io_maybe_sync fl st =
     (case ww_fsync (fst st) of
        PerRecord \<Rightarrow> Inr (io_fsync fl st)
      | Every n \<Rightarrow>
          if n = 0 then Inl Div_by_zero
          else Inr (if ww_write_count (fst st) mod n = 0 then io_fsync fl st else (True, st))
      | Off \<Rightarrow> Inr (True, st))"

definition io_append ::
  "(bytes \<Rightarrow> u32) \<Rightarrow> io_faults \<Rightarrow> u64 \<Rightarrow> u64 \<Rightarrow> record_type \<Rightarrow> bytes \<Rightarrow> io_state \<Rightarrow>
   halt + ((wal_error + unit) \<times> io_state)" where
  "io_append crc fl s t k payload st =
     (let bs = encode crc (record_new s t k payload);
          err = Inl (Io (io_message fl));
          (ok, w, d) = io_buf_write fl bs st
      in if \<not> ok then Inr (err, w, d)
         else
           let w = w\<lparr>ww_seg_bytes := ww_seg_bytes w + word_of_nat (length bs), ww_write_count := ww_write_count w + 1\<rparr>
           in rbind (io_maybe_sync fl (w, d)) (\<lambda>(ok, w, d).
              if \<not> ok then Inr (err, w, d)
              else if unat (ww_seg_bytes w) \<ge> SEGMENT_SIZE then
                let (ok, st) = io_roll fl (w, d) in Inr (if ok then Inr () else err, st)
              else Inr (Inr (), w, d)))"

text \<open>A run of appends, each with its faults; the caller goes on after an error, as a shard does.\<close>

fun io_append_all ::
  "(bytes \<Rightarrow> u32) \<Rightarrow> (wal_record \<times> io_faults) list \<Rightarrow> io_state \<Rightarrow> halt + ((wal_error + unit) list \<times> io_state)" where
  "io_append_all crc [] st = Inr ([], st)"
| "io_append_all crc ((r, fl) # xs) st =
     rbind (io_append crc fl (wr_seq r) (wr_ts r) (wr_type r) (wr_payload r) st) (\<lambda>(res, st).
     rbind (io_append_all crc xs st) (\<lambda>(ress, st). Inr (res # ress, st)))"

section \<open>Without failures\<close>

lemma io_writer_fields [simp]:
  "ww_buf (io_writer_of w) = ww_buf w" "ww_fsync (io_writer_of w) = ww_fsync w"
  "ww_seg_bytes (io_writer_of w) = ww_seg_bytes w" "ww_write_count (io_writer_of w) = ww_write_count w"
  "ww_seg_idx (io_writer_of w) = ww_seg_idx w" "ww_open (io_writer_of w) = ww_path w"
  by (simp_all add: io_writer_of_def wal_writer.defs io_writer.defs)

lemma io_writer_updates [simp]:
  "(io_writer_of w)\<lparr>ww_buf := bs\<rparr> = io_writer_of (w\<lparr>ww_buf := bs\<rparr>)"
  "(io_writer_of w)\<lparr>ww_seg_bytes := x, ww_write_count := y\<rparr> = io_writer_of (w\<lparr>ww_seg_bytes := x, ww_write_count := y\<rparr>)"
  "(io_writer_of w)\<lparr>ww_seg_idx := i, ww_seg_bytes := x, ww_open := segment_path i\<rparr> = io_writer_of (w\<lparr>ww_seg_idx := i, ww_seg_bytes := x\<rparr>)"
  by (simp_all add: io_writer_of_def wal_writer.defs io_writer.defs ww_path_def)

lemma io_flush_sound: "io_flush None (io_of wd) = (True, io_of (buf_flush wd))"
  by (cases wd) (simp add: io_flush_def io_put_def buf_flush_def)

lemma io_buf_write_sound: "io_buf_write no_faults bs (io_of wd) = (True, io_of (buf_write bs wd))"
proof -
  obtain w d where wd: "wd = (w, d)" by (cases wd)
  obtain w1 d1 where w1: "buf_flush (w, d) = (w1, d1)" by (cases "buf_flush (w, d)")
  have "io_flush None (io_writer_of w, d) = (True, io_writer_of w1, d1)" using io_flush_sound [of "(w, d)"] by (simp add: w1)
  then show ?thesis by (simp add: wd io_buf_write_def buf_write_def no_faults_def Let_def w1 io_put_def)
qed

lemma io_fsync_sound: "io_fsync no_faults (io_of wd) = (True, io_of (do_fsync wd))"
proof -
  obtain w1 d1 where "buf_flush wd = (w1, d1)" by (cases "buf_flush wd")
  then show ?thesis using io_flush_sound [of wd] by (simp add: io_fsync_def do_fsync_def no_faults_def)
qed

lemma io_roll_sound: "io_roll no_faults (io_of wd) = (True, io_of (roll_segment wd))"
proof -
  obtain w1 d1 where "buf_flush wd = (w1, d1)" by (cases "buf_flush wd")
  then show ?thesis using io_flush_sound [of wd] by (simp add: io_roll_def roll_segment_def no_faults_def)
qed

text \<open>Without failures an append is the one of \<open>Wal_Log\<close>, and its result is \<open>Ok\<close>.\<close>

lemma io_append_sound:
  "io_append crc no_faults s t k payload (io_of wd) =
     rbind (wal_append crc s t k payload wd) (\<lambda>wd. Inr (Inr (), io_of wd))"
proof -
  let ?bs = "encode crc (record_new s t k payload)"
  obtain w d where w: "buf_write ?bs wd = (w, d)" by (cases "buf_write ?bs wd")
  define w1 where "w1 = w\<lparr>ww_seg_bytes := ww_seg_bytes w + word_of_nat (length ?bs), ww_write_count := ww_write_count w + 1\<rparr>"
  have sync: "io_maybe_sync no_faults (io_writer_of w1, d) = rbind (maybe_sync (w1, d)) (\<lambda>wd. Inr (True, io_of wd))"
    using io_fsync_sound [of "(w1, d)"] by (cases "ww_fsync w1") (simp_all add: io_maybe_sync_def maybe_sync_def)
  show ?thesis
  proof (cases "maybe_sync (w1, d)")
    case (Inl h)
    then show ?thesis
      using io_buf_write_sound [of ?bs wd] sync by (simp add: io_append_def wal_append_def w Let_def w1_def)
  next
    case (Inr wd2)
    obtain w2 d2 where wd2: "wd2 = (w2, d2)" by (cases wd2)
    show ?thesis
      using io_buf_write_sound [of ?bs wd] sync Inr io_roll_sound [of wd2]
      by (simp add: io_append_def wal_append_def w Let_def w1_def wd2)
  qed
qed

section \<open>Directories with gaps\<close>

text \<open>A roll that fails leaves out a segment number.\<close>

definition dir_reads :: "(bytes \<Rightarrow> u32) \<Rightarrow> nat list \<Rightarrow> dir \<Rightarrow> wal_record list list \<Rightarrow> bool" where
  "dir_reads crc ks d recss \<longleftrightarrow> map fst d = map seg_name ks \<and> sorted_wrt (<) ks \<and> (\<forall>k \<in> set ks. k < 10 ^ 10) \<and>
     list_all2 (seg_holds crc) (map snd d) recss"

lemma replay_reads:
  assumes "dir_reads crc ks d recss"
  shows "replay crc after f d st = feed after f (concat recss) after st"
proof -
  have nm: "map fst d = map seg_name ks" and ks: "sorted_wrt (<) ks" "\<forall>k \<in> set ks. k < 10 ^ 10"
    and h: "list_all2 (seg_holds crc) (map snd d) recss"
    using assms by (simp_all add: dir_reads_def)
  have less: "sorted_wrt (<) (map seg_name ks)"
    unfolding sorted_wrt_map by (rule sorted_wrt_mono_rel [OF _ ks(1)]) (use ks(2) in \<open>auto simp: seg_name_less\<close>)
  then have "sorted (map seg_name ks)" "distinct (map seg_name ks)" by (simp_all add: strict_sorted_iff)
  moreover have "filter (\<lambda>p. snd (file_split p) = Some ''wal'') (map seg_name ks) = map seg_name ks"
    by (auto simp: filter_id_conv seg_name_def seg_name_split)
  ultimately have ls: "list_segments d = map fst d" by (simp only: list_segments_def nm sorted_sort_id)
  have "fs_read d (fst x) = snd x" if "x \<in> set d" for x
  proof -
    have "map_of d (fst x) = Some (snd x)"
      by (rule map_of_is_SomeI) (use that \<open>distinct (map seg_name ks)\<close> in \<open>simp_all add: nm\<close>)
    then show ?thesis by (simp add: fs_read_def)
  qed
  then have "list_all2 (\<lambda>p rs. seg_holds crc (fs_read d p) rs) (map fst d) recss"
    using h by (simp add: list.rel_map list_all2_conv_all_nth)
  then show ?thesis unfolding replay_def ls by (rule replay_segments_holds)
qed

section \<open>The invariant\<close>

text \<open>
  The closed files hold \<open>recss\<close>; the open one, the newest, with the buffer behind it is the
  encoding of \<open>rs\<close>; \<open>i\<close> is the index, which may be ahead of the open file.
\<close>

definition io_inv :: "(bytes \<Rightarrow> u32) \<Rightarrow> nat \<Rightarrow> wal_record list list \<Rightarrow> wal_record list \<Rightarrow> io_state \<Rightarrow> bool" where
  "io_inv crc i recss rs st \<longleftrightarrow>
     (\<exists>ks k d bs. files (snd st) = d @ [(seg_name k, bs)] \<and> dir_reads crc ks d recss \<and> (\<forall>k' \<in> set ks. k' < k) \<and>
        k \<le> i \<and> i < 10 ^ 10 \<and> ww_seg_idx (fst st) = word_of_nat i \<and> ww_open (fst st) = seg_name k \<and>
        list_all fits rs \<and> bs @ ww_buf (fst st) = encodes crc rs)"

lemma io_inv_frame:
  "io_inv crc i recss rs (w\<lparr>ww_seg_bytes := x\<rparr>, d) \<longleftrightarrow> io_inv crc i recss rs (w, d)"
  "io_inv crc i recss rs (w\<lparr>ww_write_count := y\<rparr>, d) \<longleftrightarrow> io_inv crc i recss rs (w, d)"
  "io_inv crc i recss rs (w, d\<lparr>synced := z\<rparr>) \<longleftrightarrow> io_inv crc i recss rs (w, d)"
  by (simp_all add: io_inv_def)

lemma seg_name_fresh:
  assumes "dir_reads crc ks d recss" and "\<forall>k' \<in> set ks. k' < k" and "k < 10 ^ 10"
  shows "seg_name k \<notin> fst ` set d"
proof
  assume "seg_name k \<in> fst ` set d"
  then have "seg_name k \<in> set (map seg_name ks)" using assms(1) by (metis dir_reads_def list.set_map)
  then obtain k' where "k' \<in> set ks" "seg_name k = seg_name k'" by auto
  then show False using assms seg_name_eq [of k k'] by (auto simp: dir_reads_def)
qed

text \<open>A flush, whole or in part, moves bytes from the buffer to the file.\<close>

lemma io_inv_flush:
  assumes "io_inv crc i recss rs st" and "io_flush fault st = (ok, st')"
  shows "io_inv crc i recss rs st'" "ok \<longleftrightarrow> ww_buf (fst st') = []" "ww_fsync (fst st') = ww_fsync (fst st)"
    and "suffix (ww_buf (fst st')) (ww_buf (fst st))"
proof -
  obtain ks k d bs where inv: "files (snd st) = d @ [(seg_name k, bs)]" "dir_reads crc ks d recss" "\<forall>k' \<in> set ks. k' < k"
    "k \<le> i" "i < 10 ^ 10" "ww_seg_idx (fst st) = word_of_nat i" "ww_open (fst st) = seg_name k" "list_all fits rs"
    "bs @ ww_buf (fst st) = encodes crc rs"
    using assms(1) unfolding io_inv_def by blast
  define n where "n = (case fault of None \<Rightarrow> length (ww_buf (fst st)) | Some n \<Rightarrow> min n (length (ww_buf (fst st))))"
  have st': "st' = ((fst st)\<lparr>ww_buf := drop n (ww_buf (fst st))\<rparr>,
      (snd st)\<lparr>files := append_file (seg_name k) (take n (ww_buf (fst st))) (files (snd st))\<rparr>)"
    and ok: "ok \<longleftrightarrow> drop n (ww_buf (fst st)) = []"
    using assms(2) inv(7) by (auto simp: io_flush_def io_put_def n_def Let_def split_beta)
  have "seg_name k \<notin> fst ` set d" using seg_name_fresh [OF inv(2,3)] inv(4,5) by simp
  then have "files (snd st') = d @ [(seg_name k, bs @ take n (ww_buf (fst st)))]"
    by (simp add: st' inv(1) append_file_last)
  moreover have "(bs @ take n (ww_buf (fst st))) @ ww_buf (fst st') = encodes crc rs" using inv(9) by (simp add: st')
  ultimately show "io_inv crc i recss rs st'"
    unfolding io_inv_def using inv(2-8) by (intro exI [of _ ks] exI [of _ k] exI [of _ d]
        exI [of _ "bs @ take n (ww_buf (fst st))"]) (simp add: st')
  show "ok \<longleftrightarrow> ww_buf (fst st') = []" "ww_fsync (fst st') = ww_fsync (fst st)" "suffix (ww_buf (fst st')) (ww_buf (fst st))"
    using ok by (simp_all add: st' suffix_drop)
qed

lemma io_inv_buffer:
  assumes "io_inv crc i recss rs (w, d)" and "fits r"
  shows "io_inv crc i recss (rs @ [r]) (w\<lparr>ww_buf := ww_buf w @ encode crc r\<rparr>, d)"
  using assms by (fastforce simp: io_inv_def)

text \<open>A record as long as the buffer goes to the file directly, behind an empty buffer; what a failed
  write leaves out of it is nowhere any more.\<close>

lemma io_inv_put:
  assumes "io_inv crc i recss rs (w, d)" and "ww_buf w = []" and "fits r" and "io_put fault (encode crc r) (ww_open w) d = (rest, d')"
  shows "io_inv crc i recss (rs @ [r]) (w\<lparr>ww_buf := rest\<rparr>, d')"
proof -
  have "io_inv crc i recss (rs @ [r]) (w\<lparr>ww_buf := encode crc r\<rparr>, d)"
    using io_inv_buffer [OF assms(1,3)] assms(2) by simp
  moreover have "io_flush fault (w\<lparr>ww_buf := encode crc r\<rparr>, d) = (rest = [], w\<lparr>ww_buf := rest\<rparr>, d')"
    using assms(4) by (simp add: io_flush_def)
  ultimately show ?thesis by (rule io_inv_flush(1))
qed

text \<open>Handing a record to the writer: the bytes in the file, followed by some \<open>buf\<close>, are the records
  so far and perhaps this one. Unless a direct write was cut short, \<open>buf\<close> is the writer's buffer.\<close>

lemma io_inv_buf_write:
  assumes "io_inv crc i recss rs st" and "fits r" and "io_buf_write fl (encode crc r) st = (ok, w, d)"
  obtains kept buf where "io_inv crc i recss (rs @ kept) (w\<lparr>ww_buf := buf\<rparr>, d)" "kept = [] \<and> \<not> ok \<or> kept = [r]"
    "ok \<or> length (encode crc r) < BUF_CAPACITY \<or> on_write fl = None \<Longrightarrow> buf = ww_buf w" "ww_fsync w = ww_fsync (fst st)"
    "ww_buf (fst st) = [] \<Longrightarrow> kept = [r] \<and> suffix buf (encode crc r)"
proof -
  let ?b = "encode crc r"
  obtain w0 d0 where st: "st = (w0, d0)" by (cases st)
  have same: "v\<lparr>ww_buf := ww_buf v\<rparr> = v" for v :: io_writer by simp
  show thesis
  proof (cases "length ?b < BUF_CAPACITY - length (ww_buf w0)")
    case True
    then have "ok" "w = w0\<lparr>ww_buf := ww_buf w0 @ ?b\<rparr>" "d = d0"
      using assms(3) by (simp_all add: st io_buf_write_def del: length_encode)
    then show ?thesis using io_inv_buffer [OF assms(1) [unfolded st] assms(2)] by (intro that [of "[r]" "ww_buf w"]) (simp_all add: st)
  next
    case False
    obtain ok1 w1 d1 where 1: "(if length ?b > BUF_CAPACITY - length (ww_buf w0) then io_flush (on_spill fl) (w0, d0) else (True, w0, d0)) = (ok1, w1, d1)"
      by (metis prod_cases3)
    have inv1: "io_inv crc i recss rs (w1, d1)" "ww_fsync w1 = ww_fsync w0"
      using assms(1) 1 io_inv_flush [of crc i recss rs "(w0, d0)" "on_spill fl" ok1 "(w1, d1)"] st by (auto split: if_splits)
    have sfx: "suffix (ww_buf w1) (ww_buf w0)"
      using assms(1) 1 io_inv_flush(4) [of crc i recss rs "(w0, d0)" "on_spill fl" ok1 "(w1, d1)"] st by (auto split: if_splits)
    have okE: "ok1" if "ww_buf w0 = []"
      using that sfx assms(1) 1 io_inv_flush(2) [of crc i recss rs "(w0, d0)" "on_spill fl" ok1 "(w1, d1)"] st by (auto split: if_splits)
    have empty: "ww_buf w1 = []" if "ok1" "BUF_CAPACITY \<le> length ?b"
    proof (cases "length ?b > BUF_CAPACITY - length (ww_buf w0)")
      case True
      then show ?thesis using 1 io_inv_flush(2) [of crc i recss rs "(w0, d0)" "on_spill fl" ok1 "(w1, d1)"] assms(1) st that(1) by simp
    next
      case F: False
      then have "length (ww_buf w0) = 0" using that(2) unfolding BUF_CAPACITY_def by linarith
      then show ?thesis using F 1 by simp
    qed
    note bw = assms(3) [unfolded st io_buf_write_def, simplified False prod.case if_False 1 Let_def]
    consider "\<not> ok1" | "ok1" "BUF_CAPACITY \<le> length ?b" | "ok1" "length ?b < BUF_CAPACITY" by linarith
    then show ?thesis
    proof cases
      case 1
      then show ?thesis using bw inv1 okE by (intro that [of "[]" "ww_buf w"]) (auto simp: st)
    next
      case 2
      obtain rest d2 where p: "io_put (on_write fl) ?b (ww_open w1) d1 = (rest, d2)" by (metis surj_pair)
      then have r: "ok = (rest = [])" "w = w1" "d = d2" using bw 2 by (simp_all del: length_encode)
      have "on_write fl = None \<Longrightarrow> rest = []" "suffix rest ?b" using p by (auto simp: io_put_def Let_def suffix_drop)
      then show ?thesis
        using io_inv_put [OF inv1(1) empty [OF 2] assms(2) p] r inv1(2) empty [OF 2] 2(2)
        by (intro that [of "[r]" rest]) (auto simp: st simp del: length_encode)
    next
      case 3
      then have "ok" "w = w1\<lparr>ww_buf := ww_buf w1 @ ?b\<rparr>" "d = d1" using bw by (simp_all del: length_encode)
      then show ?thesis using io_inv_buffer [OF inv1(1) assms(2)] inv1(2) sfx by (intro that [of "[r]" "ww_buf w"]) (auto simp: st)
    qed
  qed
qed

lemma io_inv_fsync:
  assumes "io_inv crc i recss rs st" and "io_fsync fl st = (ok, st')"
  shows "io_inv crc i recss rs st'" "ww_fsync (fst st') = ww_fsync (fst st)" "suffix (ww_buf (fst st')) (ww_buf (fst st))"
proof -
  obtain ok1 w1 d1 where 1: "io_flush (on_sync_flush fl) st = (ok1, w1, d1)" by (metis prod_cases3)
  from io_inv_flush [OF assms(1) 1]
  show "io_inv crc i recss rs st'" "ww_fsync (fst st') = ww_fsync (fst st)" "suffix (ww_buf (fst st')) (ww_buf (fst st))"
    using assms(2) by (auto simp: io_fsync_def 1 Let_def io_inv_frame split: if_splits)
qed

lemma io_inv_roll:
  assumes "io_inv crc i recss rs st" and "io_roll fl st = (ok, st')" and "Suc i < 10 ^ 10"
  obtains i' recss' rs' where "io_inv crc i' recss' rs' st'" "concat recss' @ rs' = concat recss @ rs" "i' \<le> Suc i"
    "ww_fsync (fst st') = ww_fsync (fst st)" "ww_buf (fst st') = [] \<or> rs' = rs \<and> suffix (ww_buf (fst st')) (ww_buf (fst st))"
proof -
  obtain ok1 w1 d1 where 1: "io_flush (on_roll_flush fl) st = (ok1, w1, d1)" by (metis prod_cases3)
  note fl = io_inv_flush [OF assms(1) 1]
  let ?w = "w1\<lparr>ww_seg_idx := ww_seg_idx w1 + 1, ww_seg_bytes := 0\<rparr>"
  obtain ks k d bs where inv: "files d1 = d @ [(seg_name k, bs)]" "dir_reads crc ks d recss" "\<forall>k' \<in> set ks. k' < k"
    "k \<le> i" "i < 10 ^ 10" "ww_seg_idx w1 = word_of_nat i" "ww_open w1 = seg_name k" "list_all fits rs"
    "bs @ ww_buf w1 = encodes crc rs"
    using fl(1) unfolding io_inv_def by auto
  have idx: "ww_seg_idx w1 + 1 = word_of_nat (Suc i)" by (simp add: inv(6))
  consider "\<not> ok1" | "ok1" "on_open fl" | "ok1" "\<not> on_open fl" by blast
  then show thesis
  proof cases
    case 1
    then have "st' = (w1, d1)" using assms(2) \<open>io_flush _ st = _\<close> by (simp add: io_roll_def)
    then show ?thesis using that [of i recss rs] fl by simp
  next
    case 2
    then have "st' = (?w, d1)" using assms(2) \<open>io_flush _ st = _\<close> by (simp add: io_roll_def Let_def)
    moreover have "io_inv crc (Suc i) recss rs (?w, d1)"
      unfolding io_inv_def using inv assms(3) idx
      by (intro exI [of _ ks] exI [of _ k] exI [of _ d] exI [of _ bs]) simp
    ultimately show ?thesis using that [of "Suc i" recss rs] fl(3,4) by simp
  next
    case 3
    then have buf: "ww_buf w1 = []" using fl(2) by simp
    have st': "st' = (?w\<lparr>ww_open := segment_path (ww_seg_idx w1 + 1)\<rparr>, open_segment (ww_seg_idx w1 + 1) d1)"
      using assms(2) \<open>io_flush _ st = _\<close> 3 by (simp add: io_roll_def Let_def)
    have "seg_holds crc bs rs" using inv(8,9) buf by (simp add: seg_holds_def torn_def)
    then have reads: "dir_reads crc (ks @ [k]) (files d1) (recss @ [rs])"
      using inv(1-5) by (simp add: dir_reads_def sorted_wrt_append list_all2_appendI)
    moreover have lt: "\<forall>k' \<in> set (ks @ [k]). k' < Suc i" using inv(3,4) by auto
    ultimately have "files (open_segment (ww_seg_idx w1 + 1) d1) = files d1 @ [(seg_name (Suc i), [])]"
      using seg_name_fresh [OF reads lt assms(3)]
      by (simp add: open_segment_def idx append_file_new seg_name_def)
    then have "io_inv crc (Suc i) (recss @ [rs]) [] st'"
      unfolding io_inv_def using reads lt assms(3) idx buf
      by (intro exI [of _ "ks @ [k]"] exI [of _ "Suc i"] exI [of _ "files d1"] exI [of _ "[]"]) (simp add: st' seg_name_def add.commute)
    then show ?thesis using that [of "Suc i" "recss @ [rs]" "[]"] fl(3) buf by (simp add: st')
  qed
qed

lemma io_maybe_sync_cases:
  "ww_fsync (fst st) \<noteq> Every 0 \<Longrightarrow> io_maybe_sync fl st = Inr (True, st) \<or> io_maybe_sync fl st = Inr (io_fsync fl st)"
  by (cases "ww_fsync (fst st)") (auto simp: io_maybe_sync_def)

text \<open>One append: the record is in the log or it is not; when the result is \<open>Ok\<close> it is. Only a
  direct write that is cut short leaves the log in need of bytes that are gone (\<open>buf\<close>).\<close>

lemma io_inv_append:
  assumes "io_inv crc i recss rs st" and "fits r" and "ww_fsync (fst st) \<noteq> Every 0" and "Suc i < 10 ^ 10"
  obtains res st' i' recss' rs' kept buf where
    "io_append crc fl (wr_seq r) (wr_ts r) (wr_type r) (wr_payload r) st = Inr (res, st')"
    "io_inv crc i' recss' rs' ((fst st')\<lparr>ww_buf := buf\<rparr>, snd st')" "concat recss' @ rs' = concat recss @ rs @ kept" "i' \<le> Suc i"
    "length (encode crc r) < BUF_CAPACITY \<or> on_write fl = None \<Longrightarrow> buf = ww_buf (fst st')"
    "kept = [] \<and> res \<noteq> Inr () \<or> kept = [r]" "ww_fsync (fst st') = ww_fsync (fst st)"
    "ww_buf (fst st) = [] \<Longrightarrow> kept = [r] \<and> (buf = [] \<or> (\<exists>ts. rs' = ts @ [r]) \<and> suffix buf (encode crc r))"
proof -
  have same: "io_inv crc j rss qs ((fst v)\<lparr>ww_buf := ww_buf (fst v)\<rparr>, snd v) \<longleftrightarrow> io_inv crc j rss qs v" for j rss qs v
    by (cases v) simp
  obtain ok1 w1 d1 where 1: "io_buf_write fl (encode crc r) st = (ok1, w1, d1)" by (metis prod_cases3)
  obtain kept1 buf1 where inv1: "io_inv crc i recss (rs @ kept1) (w1\<lparr>ww_buf := buf1\<rparr>, d1)" "kept1 = [] \<and> \<not> ok1 \<or> kept1 = [r]"
    "ok1 \<or> length (encode crc r) < BUF_CAPACITY \<or> on_write fl = None \<Longrightarrow> buf1 = ww_buf w1" "ww_fsync w1 = ww_fsync (fst st)"
    "ww_buf (fst st) = [] \<Longrightarrow> kept1 = [r] \<and> suffix buf1 (encode crc r)"
    by (rule io_inv_buf_write [OF assms(1,2) 1]) (rule that; assumption)
  show thesis
  proof (cases ok1)
    case False
    then show ?thesis
      using inv1 1 that [of "Inl (Io (io_message fl))" "(w1, d1)" i recss "rs @ kept1" buf1 kept1] by (auto simp: io_append_def)
  next
    case True
    let ?w = "w1\<lparr>ww_seg_bytes := ww_seg_bytes w1 + word_of_nat (length (encode crc r)), ww_write_count := ww_write_count w1 + 1\<rparr>"
    have inv2: "io_inv crc i recss (rs @ [r]) (?w, d1)" "ww_fsync ?w = ww_fsync (fst st)"
      using inv1 True by (simp_all add: io_inv_frame)
    obtain ok3 w3 d3 where 3: "io_maybe_sync fl (?w, d1) = Inr (ok3, w3, d3)"
      "(w3, d3) = (?w, d1) \<or> (\<exists>ok. io_fsync fl (?w, d1) = (ok, w3, d3))"
    proof -
      obtain okf wf df where "io_fsync fl (?w, d1) = (okf, wf, df)" by (metis prod_cases3)
      moreover have "ww_fsync (fst (?w, d1)) \<noteq> Every 0" using assms(3) inv2(2) by simp
      ultimately show thesis using io_maybe_sync_cases [of "(?w, d1)" fl] that by auto
    qed
    have inv3: "io_inv crc i recss (rs @ [r]) (w3, d3)" "ww_fsync w3 = ww_fsync (fst st)" "suffix (ww_buf w3) (ww_buf w1)"
      using 3(2) inv2 io_inv_fsync [OF inv2(1)] by auto
    have sfx: "suffix (ww_buf w3) (encode crc r)" if "ww_buf (fst st) = []"
      using inv1(3) [OF disjI1 [OF True]] inv1(5) [OF that] inv3(3) suffix_order.trans by metis
    have ap: "io_append crc fl (wr_seq r) (wr_ts r) (wr_type r) (wr_payload r) st =
      (if \<not> ok3 then Inr (Inl (Io (io_message fl)), w3, d3)
       else if unat (ww_seg_bytes w3) \<ge> SEGMENT_SIZE then
         let (ok, st) = io_roll fl (w3, d3) in Inr (if ok then Inr () else Inl (Io (io_message fl)), st)
       else Inr (Inr (), w3, d3))"
      using 1 True 3(1) by (simp add: io_append_def Let_def del: length_encode)
    show ?thesis
    proof (cases "ok3 \<and> unat (ww_seg_bytes w3) \<ge> SEGMENT_SIZE")
      case False
      have "io_inv crc i recss (rs @ [r]) ((fst (w3, d3))\<lparr>ww_buf := ww_buf w3\<rparr>, snd (w3, d3))" using inv3(1) by simp
      then show ?thesis using that [of _ "(w3, d3)" i recss "rs @ [r]" "ww_buf w3" "[r]"] inv3(2) ap False sfx by (auto split: if_splits)
    next
      case True
      obtain ok4 st4 where 4: "io_roll fl (w3, d3) = (ok4, st4)" by (cases "io_roll fl (w3, d3)")
      obtain i' recss' rs' where "io_inv crc i' recss' rs' st4" "concat recss' @ rs' = concat recss @ rs @ [r]" "i' \<le> Suc i"
        "ww_fsync (fst st4) = ww_fsync w3" "ww_buf (fst st4) = [] \<or> rs' = rs @ [r] \<and> suffix (ww_buf (fst st4)) (ww_buf w3)"
        by (rule io_inv_roll [OF inv3(1) 4 assms(4)]) auto
      then show ?thesis using that [of _ st4 i' recss' rs' "ww_buf (fst st4)" "[r]"] ap True 4 inv3(2) same [of i' recss' rs' st4] sfx suffix_order.trans
        by (auto simp: Let_def)
    qed
  qed
qed

section \<open>Runs\<close>

text \<open>The records whose append returned \<open>Ok\<close>.\<close>

definition acked :: "(wal_record \<times> io_faults) list \<Rightarrow> (wal_error + unit) list \<Rightarrow> wal_record list" where
  "acked xs ress = map (fst \<circ> fst) (filter (\<lambda>(_, res). res = Inr ()) (zip xs ress))"

lemma acked_simps [simp]:
  "acked [] ress = []" "acked ((r, fl) # xs) (res # ress) = (if res = Inr () then r # acked xs ress else acked xs ress)"
  by (simp_all add: acked_def)

text \<open>
  A record of which no direct write is cut short: its encoding is shorter than the buffer of 8192
  bytes, as that of every command is, or its own write does not fail.
\<close>

definition undivided :: "(bytes \<Rightarrow> u32) \<Rightarrow> wal_record \<times> io_faults \<Rightarrow> bool" where
  "undivided crc = (\<lambda>(r, fl). fits r \<and> (length (encode crc r) < BUF_CAPACITY \<or> on_write fl = None))"

lemma io_inv_append_all:
  "io_inv crc i recss rs st \<Longrightarrow> \<forall>x \<in> set xs. undivided crc x \<Longrightarrow> ww_fsync (fst st) \<noteq> Every 0 \<Longrightarrow> i + length xs < 10 ^ 10 \<Longrightarrow>
   \<exists>ress st' i' recss' rs' kept. io_append_all crc xs st = Inr (ress, st') \<and> length ress = length xs \<and>
     io_inv crc i' recss' rs' st' \<and> concat recss' @ rs' = concat recss @ rs @ kept \<and>
     subseq kept (map fst xs) \<and> subseq (acked xs ress) kept \<and> i' \<le> i + length xs"
proof (induction xs arbitrary: i recss rs st)
  case Nil
  then show ?case by fastforce
next
  case (Cons x xs)
  obtain r fl where x: "x = (r, fl)" by (cases x)
  have u: "fits r" "length (encode crc r) < BUF_CAPACITY \<or> on_write fl = None" using Cons.prems(2) by (auto simp: x undivided_def)
  obtain res st1 i1 recss1 rs1 kept1 buf where 1: "io_append crc fl (wr_seq r) (wr_ts r) (wr_type r) (wr_payload r) st = Inr (res, st1)"
    "io_inv crc i1 recss1 rs1 ((fst st1)\<lparr>ww_buf := buf\<rparr>, snd st1)" "concat recss1 @ rs1 = concat recss @ rs @ kept1" "i1 \<le> Suc i"
    "length (encode crc r) < BUF_CAPACITY \<or> on_write fl = None \<Longrightarrow> buf = ww_buf (fst st1)"
    "kept1 = [] \<and> res \<noteq> Inr () \<or> kept1 = [r]" "ww_fsync (fst st1) = ww_fsync (fst st)"
    by (rule io_inv_append [OF Cons.prems(1) u(1) Cons.prems(3), where fl = fl]) (use Cons.prems(4) in \<open>auto intro: that\<close>)
  have inv1: "io_inv crc i1 recss1 rs1 st1" using 1(2) 1(5) [OF u(2)] by (cases st1) simp
  obtain ress st2 i2 recss2 rs2 kept2 where 2: "io_append_all crc xs st1 = Inr (ress, st2)" "length ress = length xs"
    "io_inv crc i2 recss2 rs2 st2" "concat recss2 @ rs2 = concat recss1 @ rs1 @ kept2"
    "subseq kept2 (map fst xs)" "subseq (acked xs ress) kept2" "i2 \<le> i1 + length xs"
    using Cons.IH [OF inv1] Cons.prems 1(4,7) by fastforce
  have "concat recss2 @ rs2 = concat recss @ rs @ kept1 @ kept2" using 2(4) 1(3) by (metis append.assoc)
  moreover have "subseq (kept1 @ kept2) (map fst (x # xs))" "subseq (acked (x # xs) (res # ress)) (kept1 @ kept2)"
    using 1(6) 2(5,6) by (auto simp: x)
  moreover have "io_append_all crc (x # xs) st = Inr (res # ress, st2)" "i2 \<le> i + length (x # xs)"
    using 1(1,4) 2(1,7) by (simp_all add: x)
  ultimately show ?case using 2(2,3) length_Cons by metis
qed

abbreviation empty_disk :: disk where
  "empty_disk \<equiv> \<lparr>files = [], synced = []\<rparr>"

lemma io_inv_open: "io_inv crc 1 [] [] (io_of (wal_open pol empty_disk))"
  unfolding io_inv_def
  by (intro exI [of _ "[]"] exI [of _ 1])
    (simp add: wal_open_def list_segments_def open_segment_def ww_path_def seg_name_def Let_def dir_reads_def)

lemma io_inv_cut:
  assumes "io_inv crc i recss rs st"
  obtains j ks where "dir_reads crc ks (cut_last m (files (snd st))) (recss @ [take j rs])"
    "ww_buf (fst st) = [] \<Longrightarrow> length (snd (last (files (snd st)))) \<le> m \<Longrightarrow> take j rs = rs"
proof -
  obtain ks k d bs where inv: "files (snd st) = d @ [(seg_name k, bs)]" "dir_reads crc ks d recss" "\<forall>k' \<in> set ks. k' < k"
    "k < 10 ^ 10" "list_all fits rs" "bs @ ww_buf (fst st) = encodes crc rs"
    using assms unfolding io_inv_def by fastforce
  have "take m bs @ (drop m bs @ ww_buf (fst st)) = encodes crc rs"
    unfolding append_assoc [symmetric] append_take_drop_id by (rule inv(6))
  from encodes_prefix [OF inv(5) this] obtain j where
    j: "seg_holds crc (take m bs) (take j rs)" "drop m bs @ ww_buf (fst st) = [] \<longrightarrow> take j rs = rs" by blast
  have "dir_reads crc (ks @ [k]) (cut_last m (files (snd st))) (recss @ [take j rs])"
    using inv(1-4) j(1) by (auto simp: dir_reads_def sorted_wrt_append intro: list_all2_appendI)
  then show thesis using that j(2) inv(1) by simp
qed

lemma io_inv_read:
  assumes "io_inv crc i recss rs st" and "ww_buf (fst st) = []"
  shows "replay crc after f (files (snd st)) s = feed after f (concat recss @ rs) after s"
proof -
  let ?m = "length (snd (last (files (snd st))))"
  have "files (snd st) \<noteq> []" using assms(1) by (auto simp: io_inv_def)
  then have "cut_last ?m (files (snd st)) = files (snd st)" by (simp add: cut_last_def)
  moreover obtain j ks where "dir_reads crc ks (cut_last ?m (files (snd st))) (recss @ [take j rs])" "take j rs = rs"
    using io_inv_cut [OF assms(1), of ?m] assms(2) by (metis order_refl)
  ultimately show ?thesis using replay_reads by fastforce
qed

text \<open>
  C21: A failing disk does not damage the log, as long as no direct write is cut short: a record
  shorter than the writer's buffer of 8192 bytes never needs one. Whatever system calls fail
  during a run of appends, and after however many bytes a write of the buffer stops, the log
  holds some of the records whole and in their order, among them every one whose append
  returned \<open>Ok\<close>: a replay after a successful flush hands over exactly those, and at any moment,
  also when the newest segment is torn, a replay hands over a prefix of them.
\<close>

theorem wal_survives_faults:
  assumes "\<forall>x \<in> set xs. undivided crc x" and "pol \<noteq> Every 0" and "Suc (length xs) < 10 ^ 10"
  shows "\<exists>ress st kept. io_append_all crc xs (io_of (wal_open pol empty_disk)) = Inr (ress, st) \<and>
    subseq kept (map fst xs) \<and> subseq (acked xs ress) kept \<and>
    (\<forall>fault st'. io_flush fault st = (True, st') \<longrightarrow>
       (\<forall>after f (s :: 's). replay crc after f (files (snd st')) s = feed after f kept after s)) \<and>
    (\<forall>m. \<exists>j. \<forall>after f (s :: 's). replay crc after f (cut_last m (files (snd st))) s = feed after f (take j kept) after s)"
proof -
  have "ww_fsync (fst (io_of (wal_open pol empty_disk))) \<noteq> Every 0" using assms(2) by (simp add: wal_open_def Let_def)
  from io_inv_append_all [OF io_inv_open assms(1) this] assms(3)
  obtain ress st i recss rs kept where r: "io_append_all crc xs (io_of (wal_open pol empty_disk)) = Inr (ress, st)"
    "io_inv crc i recss rs st" "concat recss @ rs = kept" "subseq kept (map fst xs)" "subseq (acked xs ress) kept"
    by auto
  have "replay crc after f (files (snd st')) s = feed after f kept after s"
    if "io_flush fault st = (True, st')" for fault st' after f and s :: 's
    using io_inv_read [of crc i recss rs st' after f s] io_inv_flush [OF r(2) that] r(3) by simp
  moreover have "\<exists>j. \<forall>after f (s :: 's). replay crc after f (cut_last m (files (snd st))) s = feed after f (take j kept) after s" for m
  proof -
    obtain j ks where "dir_reads crc ks (cut_last m (files (snd st))) (recss @ [take j rs])"
      by (rule io_inv_cut [OF r(2), of m]) (rule that; assumption)
    moreover have "take (length (concat recss) + j) kept = concat recss @ take j rs" by (simp add: r(3) [symmetric])
    ultimately show ?thesis
      by (intro exI [of _ "length (concat recss) + j"] allI) (simp add: replay_reads)
  qed
  ultimately show ?thesis using r(1,4,5) by (intro exI [of _ ress] exI [of _ st] exI [of _ kept]) blast
qed

text \<open>
  Two records with \<open>PerRecord\<close>: the flush for the first fails after three bytes, so its append
  is an error, but the record is in the buffer and goes out with the second.
\<close>

definition faulty_run :: "(wal_record \<times> io_faults) list" where
  "faulty_run = [(record_new 1 0 Command_rec [7], no_faults\<lparr>on_sync_flush := Some 3, io_message := ''disk full''\<rparr>),
     (record_new 2 0 Command_rec [8], no_faults)]"

lemma wal_survives_faults_witness:
  "\<exists>ress st kept. io_append_all sum_crc faulty_run (io_of (wal_open PerRecord empty_disk)) = Inr (ress, st) \<and>
     subseq kept (map fst faulty_run) \<and> subseq (acked faulty_run ress) kept \<and>
     (\<exists>j. replay sum_crc 0 (\<lambda>r s. (Inr (), s @ [wr_seq r])) (cut_last 40 (files (snd st))) [] =
        feed 0 (\<lambda>r s. (Inr (), s @ [wr_seq r])) (take j kept) 0 [])"
proof -
  have "\<forall>x \<in> set faulty_run. undivided sum_crc x"
    by (simp add: faulty_run_def undivided_def fits_def BUF_CAPACITY_def record_new_def)
  moreover have "Suc (length faulty_run) < 10 ^ 10" by (simp add: faulty_run_def)
  ultimately show ?thesis using wal_survives_faults [of faulty_run sum_crc PerRecord] by (metis fsync_policy.distinct(1))
qed

lemma faulty_results:
  "map_sum id fst (io_append_all sum_crc faulty_run (io_of (wal_open PerRecord empty_disk))) =
     Inr [Inl (Io ''disk full''), Inr ()]"
  by (simp add: faulty_run_def io_append_def io_buf_write_def BUF_CAPACITY_def io_maybe_sync_def io_fsync_def io_flush_def
      io_put_def no_faults_def wal_open_def list_segments_def Let_def record_new_def SEGMENT_SIZE_def
      open_segment_def fs_read_def)

text \<open>
  Why a direct write must not be cut short: when the one of a record as long as the buffer stops
  after its header, the header stays in the segment and claims the bytes of whatever follows. The
  next record is appended, synced and acknowledged, and a replay ends before it without an error.
\<close>

lemma cut_direct_write_hides:
  assumes "fits r1" and "BUF_CAPACITY \<le> length (encode crc r1)" and "length (encode crc r2) \<le> 8000"
    and "fl = no_faults\<lparr>on_write := Some 8\<rparr>"
  shows "\<exists>res1 st. io_append_all crc [(r1, fl), (r2, no_faults)] (io_of (wal_open PerRecord empty_disk)) = Inr ([Inl res1, Inr ()], st) \<and>
    (\<forall>after f (s :: 's). replay crc after f (files (snd st)) s = (Inr after, s))"
proof -
  let ?bs = "take 8 (encode crc r1) @ encode crc r2"
  define n where "n = length (record_body r1)"
  have n: "n < 2 ^ 32" "length (encode crc r1) = 8 + n" using assms(1) by (simp_all add: fits_def n_def)
  have o: "wal_open PerRecord empty_disk =
      (\<lparr>ww_seg_idx = 1, ww_seg_bytes = 0, ww_buf = [], ww_fsync = PerRecord, ww_write_count = 0\<rparr>, \<lparr>files = [(segment_path 1, [])], synced = []\<rparr>)"
    by (simp add: wal_open_def list_segments_def open_segment_def fs_read_def Let_def)
  have l: "8192 \<le> length (encode crc r1)" "length (encode crc r2) < 8192" using assms(2,3) by (simp_all add: BUF_CAPACITY_def)
  have fields: "record_new (wr_seq r) (wr_ts r) (wr_type r) (wr_payload r) = r" for r by (simp add: record_new_def)
  have st: "\<exists>res1 w sy. io_append_all crc [(r1, fl), (r2, no_faults)] (io_of (wal_open PerRecord empty_disk)) =
      Inr ([Inl res1, Inr ()], w, \<lparr>files = [(segment_path 1, ?bs)], synced = sy\<rparr>)"
    using l n(2) by (simp add: o assms(4) io_append_def fields io_buf_write_def BUF_CAPACITY_def io_flush_def io_put_def no_faults_def
        ww_path_def io_maybe_sync_def io_fsync_def SEGMENT_SIZE_def unat_of_nat Let_def min_def del: length_encode)
  have "take 8 (encode crc r1) = u32_le (word_of_nat n) @ u32_le (crc (record_body r1))"
    by (simp add: encode_def Let_def n_def del: length_body)
  then have "decode crc ?bs = Inl (WTruncated 8)"
    using decode_frame [OF n(1), of crc "crc (record_body r1)" "encode crc r2"] n(2) l(1) assms(3) by (simp del: length_encode)
  then have "dir_reads crc [1] [(segment_path 1, ?bs)] [[]]"
    by (simp add: dir_reads_def seg_name_def seg_holds_def torn_def)
  then show ?thesis using st by (auto simp: replay_reads)
qed

text \<open>An append that finds a full buffer and a full disk is lost: the writer is as before, and so
  is the record's way into the log. \<^verbatim>\<open>run_shard\<close> ignores the result and applies and publishes the
  command all the same.\<close>

lemma lost_append:
  assumes "BUF_CAPACITY - length (ww_buf w) < length (encode crc (record_new s t k payload))" and "ww_buf w \<noteq> []"
    and "on_spill fl = Some 0"
  shows "io_append crc fl s t k payload (w, d) =
    Inr (Inl (Io (io_message fl)), w, d\<lparr>files := append_file (ww_open w) [] (files d)\<rparr>)"
  using assms by (simp add: io_append_def io_buf_write_def io_flush_def io_put_def Let_def del: length_encode)

end
