(* ===== verification/Gateway_Replies.thy ===== *)
theory Gateway_Replies
  imports Gateway_Properties
begin

text \<open>
  What the replies of a session (\<^verbatim>\<open>crates/gateway/src/session.rs\<close>) tell its client about the
  commands that went into the rings.
\<close>

section \<open>Truthful replies\<close>

text \<open>\<open>answers ack out sent\<close>: the replies \<open>out\<close> are true of the queued commands \<open>sent\<close>. An
  acknowledgement is for the command queued last, with its number; it is missing only when its
  write failed, and errors may come at any point.\<close>

inductive answers :: "(u64 \<Rightarrow> string) \<Rightarrow> string list \<Rightarrow> (nat \<times> sequenced) list \<Rightarrow> bool" for ack where
  none: "answers ack [] []"
| acknowledged: "answers ack out sent \<Longrightarrow> answers ack (out @ [submitted_reply ack (sq_seq sc)]) (sent @ [(k, sc)])"
| unwritten: "answers ack out sent \<Longrightarrow> answers ack out (sent @ [(k, sc)])"
| refused: "answers ack out sent \<Longrightarrow> answers ack (out @ [error_reply e]) sent"
| full: "answers ack out sent \<Longrightarrow> answers ack (out @ [ring_full_reply]) sent"

definition replies_ok :: "(u64 \<Rightarrow> string) \<Rightarrow> 'c gateway \<Rightarrow> bool" where
  "replies_ok ack g \<longleftrightarrow> (\<forall>s \<in> set (gw_sessions g). answers ack (se_out s) (se_sent s) \<and>
     (\<forall>(k, sc) \<in> set (se_sent s). k < en_num_shards (gw_engine g)))"

lemma refusal_reply: "line_request from_str l = Refuse resp \<Longrightarrow> \<exists>e. resp = error_reply e"
  by (auto simp: line_request_def Let_def split: if_splits sum.splits option.splits)

lemma deliver_parts:
  assumes "deliver send k sc en = Inr (res, en')"
  shows "k < length (en_senders en)" "en_num_shards en' = en_num_shards en" "res = Inr q \<Longrightarrow> q = sq_seq sc"
  using assms by (auto simp: deliver_def split: if_splits prod.splits sum.splits)

lemma replies_put:
  assumes "replies_ok ack g" and "en_num_shards en = en_num_shards (gw_engine g)" and "answers ack (se_out s) (se_sent s)"
    and "\<forall>(k, sc) \<in> set (se_sent s). k < en_num_shards (gw_engine g)"
  shows "replies_ok ack (put_session i s (g\<lparr>gw_engine := en\<rparr>))"
  using assms by (auto simp: replies_ok_def dest!: in_list_update)

lemma replies_put_same:
  "replies_ok ack g \<Longrightarrow> answers ack (se_out s) (se_sent s) \<Longrightarrow> \<forall>(k, sc) \<in> set (se_sent s). k < en_num_shards (gw_engine g) \<Longrightarrow>
     replies_ok ack (put_session i s g)"
  using replies_put [of ack g "gw_engine g" s i] by simp

lemma replies_ok_step:
  assumes "gateway_step from_str ack send recv g g'" and "length (en_senders (gw_engine g)) = en_num_shards (gw_engine g)"
    and ok: "replies_ok ack g"
  shows "replies_ok ack g'"
proof -
  have old: "answers ack (se_out s) (se_sent s)" "\<forall>(k, sc) \<in> set (se_sent s). k < en_num_shards (gw_engine g)"
    if "i < length (gw_sessions g)" "gw_sessions g ! i = s" for i s
    using ok that by (auto simp: replies_ok_def)
  show ?thesis
    using assms(1)
  proof cases
    case (accept ls w)
    then show ?thesis using ok by (auto simp: replies_ok_def session_start_def intro: answers.none)
  next
    case (ignore i s l ls)
    then show ?thesis using old [OF ignore(2,3)] by (simp add: replies_put_same [OF ok])
  next
    case (refuse i s l ls resp ok)
    obtain e where "resp = error_reply e" using refusal_reply [OF refuse(6)] by blast
    then show ?thesis unfolding refuse(1)
      using old [OF refuse(2,3)] by (intro replies_put_same [OF assms(3)]) (simp_all add: write_all_def answers.refused)
  next
    case (number i s l ls cmd k now sc en)
    then have "en_num_shards en = en_num_shards (gw_engine g)" by auto
    then show ?thesis unfolding number(1) using old [OF number(2,3)] by (intro replies_put [OF ok]) simp_all
  next
    case (push_ok i s k sc q en ok)
    note d = deliver_parts [OF push_ok(5)]
    show ?thesis unfolding push_ok(1)
      using old [OF push_ok(2,3)] d assms(2)
      by (intro replies_put [OF assms(3)]) (auto simp: write_all_def intro: answers.acknowledged answers.unwritten)
  next
    case (push_full i s k sc c en ok)
    note d = deliver_parts [OF push_full(5)]
    show ?thesis unfolding push_full(1)
      using old [OF push_full(2,3)] d(2) by (intro replies_put [OF assms(3)]) (simp_all add: write_all_def answers.full)
  next
    case (shard_pop k sc ch)
    then show ?thesis using ok by (simp add: replies_ok_def)
  qed
qed

context command_ring
begin

lemma session_replies:
  assumes "engine_ok en" and "\<forall>ch \<in> set (en_senders en). queued ch = []"
    and "(gateway_step from_str ack send recv)\<^sup>*\<^sup>* (gateway_start en clients) g" and "s \<in> set (gw_sessions g)"
  shows "answers ack (se_out s) (se_sent s) \<and> (\<forall>(k, sc) \<in> set (se_sent s). sc \<in> set (lane queued g k))"
proof -
  note start = gateway_start_ok [OF assms(1,2)]
  have r: "replies_ok ack g"
  proof (rule reach_invariant [OF assms(3) start])
    show "replies_ok ack (gateway_start en clients)" by (simp add: replies_ok_def gateway_start_def)
  qed (rule replies_ok_step, simp_all add: gateway_ok_def engine_ok_def)
  have own: "own_lanes queued g"
    by (rule reach_invariant [OF assms(3) start]) (use own_lanes_step in \<open>auto simp: own_lanes_def gateway_start_def\<close>)
  have "sc \<in> set (lane queued g k)" if "(k, sc) \<in> set (se_sent s)" for k sc
  proof -
    have "k < en_num_shards (gw_engine g)" using r assms(4) that by (auto simp: replies_ok_def)
    then have "subseq (sent_to k s) (lane queued g k)" using own assms(4) by (simp add: own_lanes_def)
    moreover have "sc \<in> set (sent_to k s)" using that by (force simp: sent_to_def)
    ultimately show ?thesis by (auto elim: list_emb_set)
  qed
  then show ?thesis using r assms(4) by (auto simp: replies_ok_def)
qed

end
section \<open>The property\<close>

text \<open>
  C40: A client is never told a lie. In every reachable state, whatever the other sessions do,
  the replies of a session are errors and acknowledgements, the acknowledgements are for its
  own queued commands in the order of its lines, each with the number of its command and at
  most one, and every command they are for is in its shard's lane, so that the shard has taken
  it or will take it.
\<close>

theorem replies_are_true:
  assumes "command_ring queued capacity is_open send recv" and "engine_ok en"
    and "\<forall>ch \<in> set (en_senders en). queued ch = []"
    and "(gateway_step from_str ack send recv)\<^sup>*\<^sup>* (gateway_start en clients) g" and "s \<in> set (gw_sessions g)"
  shows "answers ack (se_out s) (se_sent s) \<and> (\<forall>(k, sc) \<in> set (se_sent s). sc \<in> set (lane queued g k))"
  by (rule command_ring.session_replies [OF assms])

lemma replies_are_true_witness:
  "\<exists>g s. sample_step\<^sup>*\<^sup>* (gateway_start one_shard [map fst sample_lines]) g \<and> s \<in> set (gw_sessions g) \<and>
     se_out s = [submitted_reply sample_ack 1, error_reply (Json ''expected value''), submitted_reply sample_ack 2] \<and>
     answers sample_ack (se_out s) (se_sent s)"
proof -
  obtain g where g: "sample_step\<^sup>*\<^sup>* (gateway_start one_shard [map fst sample_lines]) g"
    "map se_out (gw_sessions g) =
       [[submitted_reply sample_ack 1, error_reply (Json ''expected value''), submitted_reply sample_ack 2]]"
    by (rule sample_reached)
  then obtain s where s: "gw_sessions g = [s]"
    "se_out s = [submitted_reply sample_ack 1, error_reply (Json ''expected value''), submitted_reply sample_ack 2]" by auto
  then have "s \<in> set (gw_sessions g)" by simp
  from replies_are_true [OF cq.command_ring_axioms one_shard_empty(1,2) g(1) this] show ?thesis
    using g(1) s \<open>s \<in> set (gw_sessions g)\<close> by blast
qed

end
