(* ===== verification/Engine_Api.thy ===== *)
theory Engine_Api
  imports Engine Egress Dollars Shard_Facts
begin

text \<open>
  What the binaries and tests do with an engine besides submitting: the configuration of
  \<^verbatim>\<open>crates/engine/src/lib.rs\<close> and what it makes of each shard, the receiving operations,
  \<^verbatim>\<open>shutdown\<close> with the loop of \<^verbatim>\<open>shard.rs\<close> over its ring, and the blocking half of
  \<^verbatim>\<open>ring.rs\<close>.
\<close>

section \<open>ring.rs\<close>

text \<open>\<open>bsend\<close> is the channel's blocking \<^verbatim>\<open>send\<close>: None while it blocks, else how it ends.
  \<^verbatim>\<open>push\<close> drops that outcome.\<close>

definition ring_push :: "('a \<Rightarrow> 'c \<Rightarrow> ((unit + unit) \<times> 'c) option) \<Rightarrow> 'a \<Rightarrow> 'c \<Rightarrow> 'c option" where
  "ring_push bsend x ch = map_option snd (bsend x ch)"

text \<open>The occupancy in percent; None is the NaN of a ring without room.\<close>

definition occupancy_pct :: "('c \<Rightarrow> 'a list) \<Rightarrow> ('c \<Rightarrow> nat option) \<Rightarrow> 'c \<Rightarrow> f64 option" where
  "occupancy_pct queued capacity ch =
     (let cap = (case capacity ch of None \<Rightarrow> 1 | Some c \<Rightarrow> c); len = length (queued ch) in
      if f64_of_int (int cap) = 0 then None
      else Some (f64_mul (f64_div (f64_of_int (int len)) (f64_of_int (int cap))) 100))"

locale blocking_channel = bounded_channel queued capacity is_open send recv
  for queued :: "'c \<Rightarrow> 'a list" and capacity :: "'c \<Rightarrow> nat" and is_open :: "'c \<Rightarrow> bool"
    and send :: "'a \<Rightarrow> 'c \<Rightarrow> ('a try_send_error + unit) \<times> 'c" and recv :: "'c \<Rightarrow> (unit + 'a) \<times> 'c" +
  fixes bsend :: "'a \<Rightarrow> 'c \<Rightarrow> ((unit + unit) \<times> 'c) option"
  assumes bsend_room: "is_open ch \<Longrightarrow> length (queued ch) < capacity ch \<Longrightarrow>
      \<exists>ch'. bsend x ch = Some (Inr (), ch') \<and> queued ch' = queued ch @ [x] \<and> capacity ch' = capacity ch \<and> is_open ch'"
    and bsend_full: "is_open ch \<Longrightarrow> \<not> length (queued ch) < capacity ch \<Longrightarrow> bsend x ch = None"
    and bsend_closed: "\<not> is_open ch \<Longrightarrow> bsend x ch = Some (Inl (), ch)"
begin

text \<open>The blocking push waits exactly where \<^verbatim>\<open>try_push\<close> reports a full ring. Once the shard is gone
  it returns as if all were well, and the command is lost.\<close>

lemma push_blocks_iff: "ring_push bsend x ch = None \<longleftrightarrow> is_open ch \<and> \<not> length (queued ch) < capacity ch"
  using bsend_room [of ch x] bsend_full [of ch x] bsend_closed [of ch x]
  by (cases "is_open ch"; cases "length (queued ch) < capacity ch") (auto simp: ring_push_def)

lemma push_queues: "ring_push bsend x ch = Some ch' \<Longrightarrow> queued ch' = queued ch @ (if is_open ch then [x] else [])"
  using bsend_room [of ch x] bsend_full [of ch x] bsend_closed [of ch x]
  by (cases "is_open ch"; cases "length (queued ch) < capacity ch") (auto simp: ring_push_def)

lemma push_agrees:
  "ring_push bsend x ch = Some ch1 \<Longrightarrow> ring_try_push send x ch = (res, ch2) \<Longrightarrow> queued ch1 = queued ch2"
  using push_cases [of ch x] push_queues [of x ch ch1] push_blocks_iff [of x ch] by auto

end

definition bq_bsend :: "'a \<Rightarrow> 'a bounded_queue \<Rightarrow> ((unit + unit) \<times> 'a bounded_queue) option" where
  "bq_bsend x ch =
     (if \<not> bq_connected ch then Some (Inl (), ch)
      else if length (bq_items ch) < bq_capacity ch then Some (Inr (), ch\<lparr>bq_items := bq_items ch @ [x]\<rparr>)
      else None)"

interpretation bqb: blocking_channel bq_items bq_capacity bq_connected bq_send bq_recv bq_bsend
  by unfold_locales (auto simp: bq_bsend_def)

text \<open>A full ring is at 100, an empty one at 0.\<close>

lemma f64_of_pos: "0 < n \<Longrightarrow> f64_of_int n \<noteq> 0"
proof
  assume "0 < n" and "f64_of_int n = 0"
  then have "\<bar>0 - rat_of_int n\<bar> \<le> \<bar>rat_of_int n\<bar> / 2 ^ 53" using fl_error [of "of_int n"] by (simp add: f64_of_int_def)
  then show False using \<open>0 < n\<close> by (simp add: field_simps)
qed

lemma occupancy_ends:
  assumes "capacity ch = Some cap" and "0 < cap"
  shows "length (queued ch) = cap \<Longrightarrow> occupancy_pct queued capacity ch = Some 100"
    and "queued ch = [] \<Longrightarrow> occupancy_pct queued capacity ch = Some 0"
proof -
  have nz: "f64_of_int (int cap) \<noteq> 0" using assms(2) by (intro f64_of_pos) simp
  have one: "f64_div 1 1 = 1" "f64_mul 1 100 = 100" "f64_mul 0 100 = 0" "fl 0 = 0" by code_simp+
  have "f64_div x x = 1" if "x \<noteq> 0" for x using that one(1) by (simp add: f64_div_def)
  then show "length (queued ch) = cap \<Longrightarrow> occupancy_pct queued capacity ch = Some 100"
    using nz assms(1) one(2) by (simp add: occupancy_pct_def)
  show "queued ch = [] \<Longrightarrow> occupancy_pct queued capacity ch = Some 0"
    using nz assms(1) one by (simp add: occupancy_pct_def f64_of_int_def f64_div_def)
qed

section \<open>Configuration\<close>

record engine_config =
  ec_num_shards :: nat
  ec_symbols :: "(symbol_id \<times> price) list"
  ec_ring_capacity :: nat
  ec_wal_dir :: string
  ec_fsync :: fsync_policy
  ec_pin_cores :: bool

text \<open>The ring, the bus, the latency recorder and the epoch of a shard are shared with the
  engine, and are arguments of the operations that use them.\<close>

record shard_config =
  sc_shard_id :: nat
  sc_symbols :: "(symbol_id \<times> price) list"
  sc_wal_dir :: string
  sc_fsync :: fsync_policy
  sc_pin_core :: "nat option"

definition shard_config_of :: "engine_config \<Rightarrow> (symbol_id \<times> price) list list \<Rightarrow> nat \<Rightarrow> shard_config" where
  "shard_config_of cfg sss k =
     \<lparr>sc_shard_id = k, sc_symbols = sss ! k, sc_wal_dir = ec_wal_dir cfg, sc_fsync = ec_fsync cfg,
      sc_pin_core = (if ec_pin_cores cfg then Some k else None)\<rparr>"

definition start_with :: "(nat \<Rightarrow> 'c) \<Rightarrow> engine_config \<Rightarrow> halt + ('c engine \<times> shard_config list)" where
  "start_with mk cfg =
     rbind (engine_start mk (ec_ring_capacity cfg) (ec_num_shards cfg) (ec_symbols cfg)) (\<lambda>(en, sss).
     Inr (en, map (shard_config_of cfg sss) [0..<ec_num_shards cfg]))"

text \<open>\<^verbatim>\<open>wal_dir.join\<close> of a relative name; \<open>fs\<close> is the file system by directories.\<close>

definition path_join :: "string \<Rightarrow> string \<Rightarrow> string" where
  "path_join p name = (if p = [] \<or> last p = CHR ''/'' then p @ name else p @ ''/'' @ name)"

definition shard_dir :: "shard_config \<Rightarrow> string" where
  "shard_dir c = path_join (sc_wal_dir c) (''shard-'' @ nat_str (sc_shard_id c))"

definition shard_spawn :: "(string \<Rightarrow> disk) \<Rightarrow> shard_config \<Rightarrow> shard" where
  "shard_spawn fs c = shard_start (sc_fsync c) (sc_symbols c) (fs (shard_dir c))"

lemma nat_str_eq [simp]: "nat_str i = nat_str j \<longleftrightarrow> i = j"
  using nat_str_facts [of i] nat_str_facts [of j] by metis

text \<open>No two shards share a directory: their logs cannot get in each other's way.\<close>

lemma shard_dirs_distinct: "start_with mk cfg = Inr (en, cs) \<Longrightarrow> distinct (map shard_dir cs)"
  by (auto simp: start_with_def rbind_eq_Inr distinct_map inj_on_def shard_dir_def shard_config_of_def path_join_def
      split: if_splits)

section \<open>Receiving\<close>

text \<open>The engine's own receiver is the first subscriber of its bus. \<open>recv_event\<close> is None while it
  waits: the engine itself holds a sender, so its channel is never closed.\<close>

definition recv_event :: "('d \<Rightarrow> ('e \<times> 'd) option) \<Rightarrow> 'd egress_bus \<Rightarrow> ('e \<times> 'd egress_bus) option" where
  "recv_event recv subs = (case subs of [] \<Rightarrow> None | ch # chs \<Rightarrow> map_option (\<lambda>(e, ch). (e, ch # chs)) (recv ch))"

definition drain_events ::
  "('d \<Rightarrow> ('e \<times> 'd) option) \<Rightarrow> 'd egress_bus \<Rightarrow> 'e list \<Rightarrow> ('e list \<times> 'd egress_bus) option" where
  "drain_events recv subs out =
     (case subs of [] \<Rightarrow> None | ch # chs \<Rightarrow> map_option (\<lambda>(out, ch). (out, ch # chs)) (drain recv ch out))"

text \<open>The new receiver is the last one.\<close>

definition subscribe_egress :: "'d \<Rightarrow> 'd egress_bus \<Rightarrow> nat \<times> 'd egress_bus" where
  "subscribe_egress mk subs = (length subs, subscribe mk subs)"

section \<open>The loop of a shard, and shutdown\<close>

text \<open>\<open>clock i\<close> is the time at the \<open>i\<close>th pop. The loop ends when a pop finds the ring empty and the
  senders gone, or when a command makes it panic.\<close>

partial_function (option) shard_loop ::
  "('c \<Rightarrow> (unit + sequenced) \<times> 'c) \<Rightarrow> (nat \<Rightarrow> u64) \<Rightarrow> (slab_op list \<Rightarrow> nat) \<Rightarrow> nat \<Rightarrow> (bytes \<Rightarrow> u32) \<Rightarrow>
   (sequenced \<Rightarrow> bytes) \<Rightarrow> nat \<Rightarrow> 'c \<Rightarrow> shard \<Rightarrow> (halt + (shard \<times> 'c)) option" where
  "shard_loop recv clock vk n crc ser i ch sh =
     (case ring_pop recv ch of
        (None, ch) \<Rightarrow> Some (Inr (sh\<lparr>sh_wal := wal_flush (sh_wal sh)\<rparr>, ch))
      | (Some cmd, ch) \<Rightarrow>
          (case shard_step vk n crc ser (clock i) cmd sh of
             Inl h \<Rightarrow> Some (Inl h)
           | Inr sh \<Rightarrow> shard_loop recv clock vk n crc ser (Suc i) ch sh))"

text \<open>A shard that has popped a command, and logged it or not, goes on from there: it finishes that
  command and is back at the pop.\<close>

definition shard_resume ::
  "('c \<Rightarrow> (unit + sequenced) \<times> 'c) \<Rightarrow> (nat \<Rightarrow> u64) \<Rightarrow> (slab_op list \<Rightarrow> nat) \<Rightarrow> nat \<Rightarrow> (bytes \<Rightarrow> u32) \<Rightarrow>
   (sequenced \<Rightarrow> bytes) \<Rightarrow> bool \<times> sequenced list \<Rightarrow> 'c \<Rightarrow> shard \<Rightarrow> (halt + (shard \<times> 'c)) option" where
  "shard_resume recv clock vk n crc ser hand ch sh =
     (case hand of
        (_, []) \<Rightarrow> shard_loop recv clock vk n crc ser 0 ch sh
      | (is_logged, cmd # _) \<Rightarrow>
          (case (if is_logged then shard_apply vk n (clock 0) cmd sh else shard_step vk n crc ser (clock 0) cmd sh) of
             Inl h \<Rightarrow> Some (Inl h)
           | Inr sh \<Rightarrow> shard_loop recv clock vk n crc ser 1 ch sh))"

text \<open>\<^verbatim>\<open>shutdown\<close> drops the senders and waits for every shard, wherever each is in its loop; it
  ignores how a thread ended. It returns when all of the loops do.\<close>

definition engine_shutdown ::
  "('c \<Rightarrow> (unit + sequenced) \<times> 'c) \<Rightarrow> (nat \<Rightarrow> nat \<Rightarrow> u64) \<Rightarrow> (slab_op list \<Rightarrow> nat) \<Rightarrow> nat \<Rightarrow> (bytes \<Rightarrow> u32) \<Rightarrow>
   (sequenced \<Rightarrow> bytes) \<Rightarrow> 'c engine \<Rightarrow> (nat \<Rightarrow> bool \<times> sequenced list) \<Rightarrow> shard list \<Rightarrow> (halt + (shard \<times> 'c)) option list" where
  "engine_shutdown recv clock vk n crc ser en hands shs =
     map (\<lambda>k. shard_resume recv (clock k) vk n crc ser (hands k) (en_senders en ! k) (shs ! k)) [0..<length (en_senders en)]"

text \<open>Commands with the clock from the \<open>i\<close>th pop on.\<close>

definition clocked :: "(nat \<Rightarrow> u64) \<Rightarrow> nat \<Rightarrow> sequenced list \<Rightarrow> (u64 \<times> sequenced) list" where
  "clocked clock i cs = zip (map clock [i..<i + length cs]) cs"

lemma clocked_simps [simp]:
  "clocked clock i [] = []" "clocked clock i (c # cs) = (clock i, c) # clocked clock (Suc i) cs"
  "map snd (clocked clock i cs) = cs"
  by (simp_all add: clocked_def upt_conv_Cons del: upt_Suc)

context unbounded_channel
begin

lemma drain_events_all:
  "\<exists>ch'. drain_events recv (ch # chs) out = Some (out @ queued ch, ch' # chs) \<and> queued ch' = []"
  using drain_all [of ch out] by (auto simp: drain_events_def)

end

text \<open>The loop handles what is queued, in order, and flushes the log.\<close>

lemma shard_loop_run:
  assumes "bounded_channel queued capacity is_open send recv"
  shows "\<exists>ch'. queued ch' = [] \<and> shard_loop recv clock vk n crc ser i ch sh =
    Some (rbind (shard_steps vk n crc ser (clocked clock i (queued ch)) sh) (\<lambda>sh. Inr (sh\<lparr>sh_wal := wal_flush (sh_wal sh)\<rparr>, ch')))"
proof (induction "queued ch" arbitrary: i ch sh)
  case Nil
  then show ?case
    using bounded_channel.recv_empty [OF assms, of ch]
    by (intro exI [of _ ch]) (simp add: shard_loop.simps [of _ _ _ _ _ _ i] ring_pop_def flip: Nil)
next
  case (Cons c cs)
  obtain ch1 where ch1: "ring_pop recv ch = (Some c, ch1)" "queued ch1 = cs"
    using bounded_channel.pop_first [OF assms Cons.hyps(2) [symmetric]] by blast
  show ?case
  proof (cases "shard_step vk n crc ser (clock i) c sh")
    case (Inl h)
    obtain ch' where "queued ch' = []" using Cons.hyps(1) [of ch1 i sh] ch1(2) by blast
    then show ?thesis
      using ch1(1) Inl by (intro exI [of _ ch']) (simp add: shard_loop.simps [of _ _ _ _ _ _ i] flip: Cons.hyps(2))
  next
    case (Inr sh1)
    then show ?thesis
      using Cons.hyps(1) [of ch1 "Suc i" sh1] ch1 by (simp add: shard_loop.simps [of _ _ _ _ _ _ i] flip: Cons.hyps(2))
  qed
qed

end
