(* ===== verification/Wal_Crash.thy ===== *)
theory Wal_Crash
  imports Wal_Faults
begin

text \<open>
  A process that dies inside \<^verbatim>\<open>WalWriter::append\<close>. A failed system call ends an append at once,
  so the files a death leaves after some bytes of a write, or between two calls, are those of an
  append that failed there: \<open>io_append\<close> under all faults gives every one of them.
\<close>

section \<open>From a log without failures\<close>

lemma io_append_all_sound:
  "io_append_all crc (map (\<lambda>r. (r, no_faults)) rs) (io_of wd) =
     rbind (wal_append_all crc rs wd) (\<lambda>wd. Inr (replicate (length rs) (Inr ()), io_of wd))"
proof (induction rs arbitrary: wd)
  case (Cons r rs)
  show ?case
  proof (cases "wal_append crc (wr_seq r) (wr_ts r) (wr_type r) (wr_payload r) wd")
    case (Inr wd1)
    then show ?thesis by (cases "wal_append_all crc rs wd1") (simp_all add: io_append_sound Cons.IH)
  qed (simp add: io_append_sound)
qed simp

lemma ww_fsync_append: "wal_append crc s t k payload wd = Inr wd' \<Longrightarrow> ww_fsync (fst wd') = ww_fsync (fst wd)"
  by (cases "ww_fsync (fst wd)") (auto simp: wal_append_steps maybe_sync_def Let_def split: if_splits)

lemma ww_fsync_append_all: "wal_append_all crc rs wd = Inr wd' \<Longrightarrow> ww_fsync (fst wd') = ww_fsync (fst wd)"
proof (induction rs arbitrary: wd)
  case (Cons r rs)
  obtain wd1 where 1: "wal_append crc (wr_seq r) (wr_ts r) (wr_type r) (wr_payload r) wd = Inr wd1" "wal_append_all crc rs wd1 = Inr wd'"
    using Cons.prems by (auto simp: rbind_eq_Inr)
  show ?case using Cons.IH [OF 1(2)] ww_fsync_append [OF 1(1)] by simp
qed simp

lemma acked_all: "acked (map (\<lambda>r. (r, no_faults)) rs) (replicate (length rs) (Inr ())) = rs"
  by (induction rs) simp_all

lemma io_inv_logged:
  assumes "wal_append_all crc rs (wal_open pol empty_disk) = Inr wd" and "list_all fits rs" and "pol \<noteq> Every 0"
    and "Suc (length rs) < 10 ^ 10"
  obtains i recss cur where "io_inv crc i recss cur (io_of wd)" "concat recss @ cur = rs" "i \<le> Suc (length rs)"
proof -
  have "\<forall>x \<in> set (map (\<lambda>r. (r, no_faults)) rs). undivided crc x"
    using assms(2) by (auto simp: undivided_def no_faults_def list_all_iff)
  moreover have "ww_fsync (fst (io_of (wal_open pol empty_disk))) \<noteq> Every 0" using assms(3) by (simp add: wal_open_def Let_def)
  moreover have "1 + length (map (\<lambda>r. (r, no_faults)) rs) < 10 ^ 10" using assms(4) by simp
  ultimately obtain ress st i recss cur kept where
    r: "io_append_all crc (map (\<lambda>r. (r, no_faults)) rs) (io_of (wal_open pol empty_disk)) = Inr (ress, st)" "io_inv crc i recss cur st"
    "concat recss @ cur = kept" "subseq kept (map fst (map (\<lambda>r. (r, no_faults)) rs))" "subseq (acked (map (\<lambda>r. (r, no_faults)) rs) ress) kept"
    "i \<le> 1 + length (map (\<lambda>r. (r, no_faults)) rs)"
    using io_inv_append_all [OF io_inv_open, of "map (\<lambda>r. (r, no_faults)) rs" crc pol] by auto
  have st: "st = io_of wd" "ress = replicate (length rs) (Inr ())" using r(1) assms(1) unfolding io_append_all_sound by simp_all
  have "subseq kept rs" "subseq rs kept" using r(4,5) st(2) by (simp_all add: acked_all comp_def)
  then have "kept = rs" by (rule subseq_order.antisym)
  then show thesis using that [of i recss cur] r(2,3,6) st(1) by simp
qed

text \<open>An append always ends, well or not.\<close>

lemma io_append_ends:
  assumes "io_inv crc i recss rs st" and "fits r" and "ww_fsync (fst st) \<noteq> Every 0" and "Suc i < 10 ^ 10"
  shows "\<exists>res st'. io_append crc fl (wr_seq r) (wr_ts r) (wr_type r) (wr_payload r) st = Inr (res, st')"
  by (rule io_inv_append [OF assms, where fl = fl]) blast

section \<open>Dying in an append\<close>

text \<open>What a reader of the files finds: \<open>rs\<close>.\<close>

definition reads :: "(bytes \<Rightarrow> u32) \<Rightarrow> dir \<Rightarrow> wal_record list \<Rightarrow> 's itself \<Rightarrow> bool" where
  "reads crc d rs _ \<longleftrightarrow> (\<forall>after f (s :: 's). replay crc after f d s = feed after f rs after s)"

lemma dir_reads_reads: "dir_reads crc ks d recss \<Longrightarrow> reads crc d (concat recss) T"
  by (simp add: reads_def replay_reads)

lemma suffix_split:
  assumes "bs @ buf = encodes crc ts @ encode crc r" and "suffix buf (encode crc r)" and "buf \<noteq> []" and "list_all fits ts" and "fits r"
  shows "seg_holds crc bs ts"
proof -
  obtain t where t: "encode crc r = t @ buf" using assms(2) by (auto simp: suffix_def)
  then have bs: "bs = encodes crc ts @ t" using assms(1) by simp
  have len: "length t < length (encode crc r)" using assms(3) t by simp
  have "t = take (length t) (encode crc r)" by (simp add: t)
  then have "\<exists>off. decode crc t = Inl (WTruncated off)" using decode_prefix [OF assms(5) len] by metis
  then show ?thesis using bs assms(4) by (auto simp: seg_holds_def torn_def)
qed

lemma io_append_dies:
  assumes "io_inv crc i recss rs st" and "fits r" and "ww_fsync (fst st) \<noteq> Every 0" and "Suc i < 10 ^ 10"
    and "io_append crc fl (wr_seq r) (wr_ts r) (wr_type r) (wr_payload r) st = Inr (res, st')" and all: "concat recss @ rs = qs"
  shows "\<exists>j. reads crc (cut_last m (files (snd st'))) (take j (qs @ [r])) T"
    and "ww_buf (fst st) = [] \<Longrightarrow> \<exists>j \<ge> length qs. reads crc (files (snd st')) (take j (qs @ [r])) T"
proof -
  obtain i' recss' rs' kept buf where a: "io_inv crc i' recss' rs' ((fst st')\<lparr>ww_buf := buf\<rparr>, snd st')"
    "concat recss' @ rs' = qs @ kept" "kept = [] \<or> kept = [r]"
    "ww_buf (fst st) = [] \<Longrightarrow> kept = [r] \<and> (buf = [] \<or> (\<exists>ts. rs' = ts @ [r]) \<and> suffix buf (encode crc r))"
    by (rule io_inv_append [OF assms(1-4), where fl = fl]) (use assms(5) all in \<open>auto intro: that\<close>)
  have tk: "\<exists>j'. take j (qs @ kept) = take j' (qs @ [r])" for j
  proof (cases "kept = []")
    case True
    then have "take j (qs @ kept) = take (min j (length qs)) (qs @ [r])" by (cases "j \<le> length qs") (simp_all add: min_def)
    then show ?thesis by blast
  qed (use a(3) in auto)
  obtain j ks where j: "dir_reads crc ks (cut_last m (files (snd st'))) (recss' @ [take j rs'])"
    by (rule io_inv_cut [OF a(1), of m]) (use that in simp)
  have "concat (recss' @ [take j rs']) = take (length (concat recss') + j) (qs @ kept)"
    by (simp add: a(2) [symmetric])
  then show "\<exists>j. reads crc (cut_last m (files (snd st'))) (take j (qs @ [r])) T"
    using dir_reads_reads [OF j, of T] tk by metis
  assume "ww_buf (fst st) = []"
  note b = a(4) [OF this]
  obtain ks k d bs where inv: "files (snd st') = d @ [(seg_name k, bs)]" "dir_reads crc ks d recss'" "\<forall>k' \<in> set ks. k' < k"
    "k < 10 ^ 10" "list_all fits rs'" "bs @ buf = encodes crc rs'"
    using a(1) unfolding io_inv_def by fastforce
  have full: "reads crc (files (snd st')) (concat recss' @ qs') T" if "seg_holds crc bs qs'" for qs'
  proof -
    have "dir_reads crc (ks @ [k]) (files (snd st')) (recss' @ [qs'])"
      using inv(1-4) that by (auto simp: dir_reads_def sorted_wrt_append intro: list_all2_appendI)
    from dir_reads_reads [OF this, of T] show ?thesis by simp
  qed
  show "\<exists>j \<ge> length qs. reads crc (files (snd st')) (take j (qs @ [r])) T"
  proof (cases "buf = []")
    case True
    then have "seg_holds crc bs rs'" using inv(5,6) by (simp add: seg_holds_def torn_def)
    from full [OF this] show ?thesis using a(2) b by (intro exI [of _ "Suc (length qs)"]) simp
  next
    case False
    then obtain ts where ts: "rs' = ts @ [r]" "suffix buf (encode crc r)" using b by blast
    have "seg_holds crc bs ts" by (rule suffix_split [of bs buf crc ts r]) (use inv(5,6) ts False in auto)
    moreover have "concat recss' @ ts = qs" using a(2) b ts(1) by (simp add: append_assoc [symmetric] del: append_assoc)
    ultimately show ?thesis using full [of ts] by (intro exI [of _ "length qs"]) simp
  qed
qed

end
