(* ===== verification/Exchange_Recovery.thy ===== *)
theory Exchange_Recovery
  imports Exchange Engine_Api Gateway_Replies Wal_Crash
begin

text \<open>
  The running process of Exchange brought down, by a crash at any moment or by
  \<^verbatim>\<open>Engine::shutdown\<close>, and what the logs of its shards give back.
\<close>

section \<open>What is in a shard's lane\<close>

context command_ring
begin

lemma lane_in_all:
  assumes "k < length (en_senders (gw_engine g))" and "k < length (gw_popped g)"
  shows "mset (lane queued g k) \<subseteq># all_lanes queued g"
proof -
  have in_concat: "x \<in> set xs \<Longrightarrow> mset x \<subseteq># mset (concat xs)" for x :: "sequenced list" and xs
    by (metis concat.simps(2) concat_append in_set_conv_decomp mset_append mset_subset_eq_add_left
        mset_subset_eq_add_right subset_mset.order_trans)
  have "mset (queued (en_senders (gw_engine g) ! k)) \<subseteq># mset (concat (map queued (en_senders (gw_engine g))))"
    by (rule in_concat) (use assms(1) in simp)
  moreover have "mset (gw_popped g ! k) \<subseteq># mset (concat (gw_popped g))"
    by (rule in_concat) (use assms(2) in simp)
  ultimately have "mset (queued (en_senders (gw_engine g) ! k)) + mset (gw_popped g ! k) \<subseteq># all_lanes queued g"
    unfolding all_lanes_def by (rule subset_mset.add_mono)
  then show ?thesis by (simp add: lane_def union_commute)
qed

text \<open>Anything a shard has taken or will take meets what the matching refinement asks.\<close>

lemma lane_session:
  assumes "engine_ok en" and "\<forall>ch \<in> set (en_senders en). queued ch = []"
    and "(gateway_step from_str ack send recv)\<^sup>*\<^sup>* (gateway_start en clients) g" and "k < en_num_shards (gw_engine g)"
    and "slab_allocator vk" and "tame_load from_str clients n" and "mset cs \<subseteq># mset (lane queued g k)"
  shows "session_ok vk n (cmds_of s cs)"
proof -
  have ok: "gateway_ok queued g" by (rule reach_ok [OF assms(3) gateway_start_ok [OF assms(1,2)]])
  have "mset (cmds_of s cs) \<subseteq># mset cs" by (simp add: cmds_of_def mset_filter)
  also have "\<dots> \<subseteq># mset (lane queued g k)" by (rule assms(7))
  also have "\<dots> \<subseteq># all_lanes queued g" by (rule lane_in_all) (use ok assms(4) in \<open>simp_all add: gateway_ok_def engine_ok_def\<close>)
  finally have "image_mset sq_cmd (mset (cmds_of s cs)) \<subseteq># image_mset sq_cmd (all_lanes queued g)"
    by (rule image_mset_subseteq_mono)
  also have "\<dots> \<subseteq># gateway_cmds from_str queued g" by (simp add: gateway_cmds_lanes)
  also have "\<dots> \<subseteq># mset (asked from_str (concat clients))"
    using reach_cmds [OF assms(3) gateway_start_ok [OF assms(1,2)]] start_cmds [OF assms(2)] by simp
  finally show ?thesis using stop_free_session [OF assms(5)] assms(6) by (simp add: tame_load_def)
qed

end

section \<open>Running on\<close>

text \<open>The command a shard has in hand, if any, and whether it is logged.\<close>

definition hand :: "('c, 'd) exchange \<Rightarrow> nat \<Rightarrow> bool \<times> sequenced list" where
  "hand x k = (ex_logged x ! k, drop (length (ex_handled x ! k)) (gw_popped (ex_gateway x) ! k))"

lemma handE:
  assumes "exchange_ok queued equeued up vk n crc ser fsync sss ds subs x" and "k < length sss"
  obtains sh0 cs where "shard_steps vk n crc ser (ex_handled x ! k) (shard_start fsync (sss ! k) (ds k)) = Inr sh0"
    "gw_popped (ex_gateway x) ! k = map snd (ex_handled x ! k) @ cs" "hand x k = (ex_logged x ! k, cs)"
    "shard_pos crc ser (ex_logged x ! k) cs sh0 (ex_shards x ! k)" "sent_by k (ex_feed x) = sh_out sh0"
proof -
  from assms obtain sh0 cs where "shard_steps vk n crc ser (ex_handled x ! k) (shard_start fsync (sss ! k) (ds k)) = Inr sh0"
    "gw_popped (ex_gateway x) ! k = map snd (ex_handled x ! k) @ cs"
    "shard_pos crc ser (ex_logged x ! k) cs sh0 (ex_shards x ! k)" "sent_by k (ex_feed x) = sh_out sh0"
    by (rule shard_atE)
  then show thesis by (intro that [of sh0 cs]) (simp_all add: hand_def)
qed

text \<open>From any of its positions a shard does what it would have done from its last whole command.\<close>

lemma shard_resume_run:
  assumes "bounded_channel queued capacity is_open send recv" and "shard_pos crc ser lg cs sh0 sh"
  shows "\<exists>ch'. queued ch' = [] \<and> shard_resume recv clock vk n crc ser (lg, cs) ch sh =
    Some (rbind (shard_steps vk n crc ser (clocked clock 0 (cs @ queued ch)) sh0) (\<lambda>sh. Inr (sh\<lparr>sh_wal := wal_flush (sh_wal sh)\<rparr>, ch')))"
proof (cases cs)
  case Nil
  then have "sh = sh0" using assms(2) by (simp add: shard_pos_def split: if_splits)
  then show ?thesis using shard_loop_run [OF assms(1), of clock vk n crc ser 0 ch sh0] Nil by (simp add: shard_resume_def)
next
  case (Cons c cs')
  then have c: "cs = [c]" using assms(2) by (simp add: shard_pos_def)
  have step: "(if lg then shard_apply vk n (clock 0) c sh else shard_step vk n crc ser (clock 0) c sh) = shard_step vk n crc ser (clock 0) c sh0"
    using assms(2) c by (cases lg) (auto simp: shard_pos_def shard_step_def)
  show ?thesis
  proof (cases "shard_step vk n crc ser (clock 0) c sh0")
    case (Inl h)
    obtain ch' where "queued ch' = []" using shard_loop_run [OF assms(1), of clock vk n crc ser 0 ch sh0] by blast
    then show ?thesis using Inl step by (intro exI [of _ ch']) (simp add: c shard_resume_def)
  next
    case (Inr sh1)
    then show ?thesis using shard_loop_run [OF assms(1), of clock vk n crc ser 1 ch sh1] step by (simp add: c shard_resume_def)
  qed
qed

section \<open>A crash\<close>

text \<open>
  What can be in the files of a shard when the process dies: what is there between two steps,
  or, when the shard is appending the command in hand, whatever a death inside the append leaves.
\<close>

definition dies_with :: "(bytes \<Rightarrow> u32) \<Rightarrow> (sequenced \<Rightarrow> bytes) \<Rightarrow> ('c, 'd) exchange \<Rightarrow> nat \<Rightarrow> disk \<Rightarrow> bool" where
  "dies_with crc ser x k d \<longleftrightarrow>
     d = snd (sh_wal (ex_shards x ! k)) \<or>
     (\<exists>c fl res st. hand x k = (False, [c]) \<and>
        io_append crc fl (sq_seq c) (sq_ts c) Command_rec (ser c) (io_of (sh_wal (ex_shards x ! k))) = Inr (res, st) \<and> d = snd st)"

text \<open>Books and events are those of the specification after the commands \<open>cs\<close>.\<close>

definition specified ::
  "(slab_op list \<Rightarrow> nat) \<Rightarrow> symbol_id set \<Rightarrow> sequenced list \<Rightarrow> output_event list \<Rightarrow> halt + (books \<times> output_event list) \<Rightarrow> bool" where
  "specified vk S cs out res \<longleftrightarrow> (\<exists>F books. res = Inr (books, out) \<and> spec_shard S cs (\<lambda>_. spec_empty) = Some (F, out) \<and>
     (\<forall>s b. books s = Some b \<longrightarrow> rep vk b (F s) \<and> check_no_cross b))"

text \<open>What reads as the first \<open>j\<close> commands is recovered as the specification of these.\<close>

lemma reads_specified:
  assumes "reads crc d (take j (map (logged ser) cs)) TYPE(halt + (books \<times> output_event list))" and "loggable ser de cs"
    and "slab_allocator vk" and "\<And>j s. session_ok vk n (cmds_of s (take j cs))"
  shows "\<exists>out. specified vk (fst ` set symbols) (take j cs) out (snd (replay crc 0 (recover vk n de) d (fresh_state symbols)))"
proof -
  have "session_ok vk n (cmds_of s (map snd (map (Pair 0) (take j cs))))" for s using assms(4) by (simp add: comp_def)
  from shard_runs [OF assms(3) _ this, of Off crc ser symbols empty_dir] obtain sh F where
    sh: "shard_steps vk n crc ser (map (Pair 0) (take j cs)) (shard_start Off symbols empty_dir) = Inr sh"
    "spec_shard (fst ` set symbols) (take j cs) (\<lambda>_. spec_empty) = Some (F, sh_out sh)"
    "\<forall>s b. sh_books sh s = Some b \<longrightarrow> rep vk b (F s) \<and> check_no_cross b" by (auto simp: comp_def)
  have "books_run vk n (take j cs) (start_books symbols, []) = Inr (view sh)"
    using run_parts(2) [OF sh(1)] by (simp add: comp_def)
  then have "snd (replay crc 0 (recover vk n de) d (fresh_state symbols)) = Inr (sh_books sh, sh_out sh)"
    using assms(1) loggable_feed [OF assms(2), of vk n j] by (simp add: reads_def view_def)
  then show ?thesis using sh(2,3) by (auto simp: specified_def)
qed

text \<open>More commands, more events.\<close>

lemma spec_shard_append:
  "spec_shard S (cs @ cs') F = Some (F2, out) \<Longrightarrow> \<exists>F1 out1 out2. spec_shard S cs F = Some (F1, out1) \<and>
     spec_shard S cs' F1 = Some (F2, out2) \<and> out = out1 @ out2"
proof (induction cs arbitrary: F out)
  case (Cons c cs)
  show ?case
  proof (cases "cmd_symbol (sq_cmd c) \<in> S")
    case True
    then obtain sp ev out' where "spec_apply (F (cmd_symbol (sq_cmd c))) c = Some (sp, ev)"
      "spec_shard S (cs @ cs') (F(cmd_symbol (sq_cmd c) := sp)) = Some (F2, out')" "out = ev @ out'"
      using Cons.prems by (auto simp: Let_def split: option.splits)
    moreover from this(2) obtain F1 out1 out2 where "spec_shard S cs (F(cmd_symbol (sq_cmd c) := sp)) = Some (F1, out1)"
      "spec_shard S cs' F1 = Some (F2, out2)" "out' = out1 @ out2" using Cons.IH by blast
    ultimately show ?thesis using True by (simp add: Let_def)
  qed (use Cons in \<open>simp add: Let_def\<close>)
qed auto

lemma specified_prefix:
  assumes "specified vk S (take i cs) out res" and "spec_shard S cs (\<lambda>_. spec_empty) = Some (F, full)"
  shows "prefix out full" and "j \<le> i \<Longrightarrow> spec_shard S (take j cs) (\<lambda>_. spec_empty) = Some (G, out') \<Longrightarrow> prefix out' out"
proof -
  obtain G1 where G1: "spec_shard S (take i cs) (\<lambda>_. spec_empty) = Some (G1, out)" using assms(1) by (auto simp: specified_def)
  show "prefix out full" using spec_shard_append [of S "take i cs" "drop i cs"] assms(2) G1 by (fastforce simp: prefix_def)
  assume j: "j \<le> i" "spec_shard S (take j cs) (\<lambda>_. spec_empty) = Some (G, out')"
  then have "take i cs = take j cs @ drop j (take i cs)" by (metis append_take_drop_id min.absorb1 take_take)
  then show "prefix out' out" using spec_shard_append [of S "take j cs" "drop j (take i cs)"] G1 j(2) by (fastforce simp: prefix_def)
qed

text \<open>What the log of a shard holds, wherever it died.\<close>

lemma position_logged:
  assumes "shard_steps vk n crc ser cmds (shard_start fsync symbols empty_dir) = Inr sh0" and "fsync \<noteq> Every 0"
    and "shard_pos crc ser lg cs sh0 sh"
  shows "wal_append_all crc (map (logged ser) (map snd cmds @ (if lg then cs else []))) (wal_open fsync empty_dir) = Inr (sh_wal sh)"
proof -
  note w = run_parts(1) [OF assms(1,2)]
  have app: "wal_append_all crc (rs @ rs') wd = rbind (wal_append_all crc rs wd) (wal_append_all crc rs')" for rs rs' wd
  proof (induction rs arbitrary: wd)
    case (Cons r rs)
    then show ?case by (cases "wal_append crc (wr_seq r) (wr_ts r) (wr_type r) (wr_payload r) wd") simp_all
  qed simp
  show ?thesis
  proof (cases lg)
    case True
    then obtain c where c: "cs = [c]" "shard_log crc ser c sh0 = Inr sh" using assms(3) by (auto simp: shard_pos_def)
    from shard_log_frame(3) [OF c(2)] show ?thesis using w True c(1) by (simp add: app)
  next
    case False
    then show ?thesis using w assms(3) by (simp add: shard_pos_def)
  qed
qed

lemma death_reads:
  fixes T :: "'s itself"
  assumes "shard_steps vk n crc ser cmds (shard_start fsync symbols empty_dir) = Inr sh0" and "fsync \<noteq> Every 0"
    and "shard_pos crc ser lg cs sh0 sh" and "loggable ser de (map snd cmds @ cs)"
    and d: "d = snd (sh_wal sh) \<or> (\<exists>c fl res st. \<not> lg \<and> cs = [c] \<and>
      io_append crc fl (sq_seq c) (sq_ts c) Command_rec (ser c) (io_of (sh_wal sh)) = Inr (res, st) \<and> d = snd st)"
  shows "\<exists>j. reads crc (cut_last m (files d)) (take j (map (logged ser) (map snd cmds @ cs))) T"
    and "fsync = PerRecord \<Longrightarrow> \<exists>j \<ge> length cmds + of_bool lg. reads crc (files d) (take j (map (logged ser) (map snd cmds @ cs))) T"
    and "fsync = PerRecord \<Longrightarrow> fs_read (synced (snd (sh_wal sh))) = fs_read (files (snd (sh_wal sh)))"
proof -
  let ?all = "map (logged ser) (map snd cmds @ cs)" and ?rs = "map (logged ser) (map snd cmds @ (if lg then cs else []))"
  define i where "i = length ?rs"
  have rs: "?rs = take i ?all" "length cmds + of_bool lg \<le> i" using assms(3) by (auto simp: i_def shard_pos_def)
  have fit: "list_all fits ?rs" "list_all fits ?all"
    using loggable_fits [OF assms(4)] by (auto simp: list_all_iff split: if_splits)
  have len: "Suc (length ?rs) < 10 ^ 10" "Suc (length ?all) < 10 ^ 10" using assms(4) by (auto simp: loggable_def)
  note w = position_logged [OF assms(1-3)]
  have cut: "\<exists>j. reads crc (cut_last m (files (snd (sh_wal sh)))) (take j ?rs) T"
    and per: "fsync = PerRecord \<Longrightarrow> reads crc (files (snd (sh_wal sh))) ?rs T \<and>
      fs_read (synced (snd (sh_wal sh))) = fs_read (files (snd (sh_wal sh)))"
    using crash_replays [OF fit(1) assms(2) len(1), of crc] w unfolding reads_def by (metis sum.inject(2))+
  have buf: "fsync = PerRecord \<Longrightarrow> ww_buf (fst (io_of (sh_wal sh))) = []"
  proof -
    assume "fsync = PerRecord"
    then have "durable (sh_wal sh)"
      using durable_append_all [OF durable_open _ w] by (simp add: wal_open_def Let_def)
    then show "ww_buf (fst (io_of (sh_wal sh))) = []" by (cases "sh_wal sh") (simp add: durable_def)
  qed
  have "(\<exists>j. reads crc (cut_last m (files d)) (take j ?all) T) \<and>
    (fsync = PerRecord \<longrightarrow> (\<exists>j \<ge> length cmds + of_bool lg. reads crc (files d) (take j ?all) T))"
    using d
  proof
    assume "d = snd (sh_wal sh)"
    moreover have "take j ?rs = take (min j i) ?all" for j unfolding rs(1) by (rule take_take)
    ultimately show ?thesis using cut per rs by metis
  next
    assume "\<exists>c fl res st. \<not> lg \<and> cs = [c] \<and>
      io_append crc fl (sq_seq c) (sq_ts c) Command_rec (ser c) (io_of (sh_wal sh)) = Inr (res, st) \<and> d = snd st"
    then obtain c fl res st where c: "\<not> lg" "cs = [c]" "d = snd st"
      "io_append crc fl (wr_seq (logged ser c)) (wr_ts (logged ser c)) (wr_type (logged ser c)) (wr_payload (logged ser c))
         (io_of (sh_wal sh)) = Inr (res, st)" by auto
    obtain i recss cur where inv: "io_inv crc i recss cur (io_of (sh_wal sh))" "concat recss @ cur = ?rs" "i \<le> Suc (length ?rs)"
      by (rule io_inv_logged [OF w fit(1) assms(2) len(1)]) (rule that; assumption)
    have "ww_fsync (fst (sh_wal sh)) = fsync" using ww_fsync_append_all [OF w] by (simp add: wal_open_def Let_def)
    then have pol: "ww_fsync (fst (io_of (sh_wal sh))) \<noteq> Every 0" using assms(2) by (cases "sh_wal sh") simp
    have r: "fits (logged ser c)" "Suc i < 10 ^ 10" "?all = ?rs @ [logged ser c]"
      using fit(2) c(1,2) inv(3) len(2) by simp_all
    note dies = io_append_dies [OF inv(1) r(1) pol r(2) c(4) inv(2), where T = T]
    have "\<exists>j \<ge> length cmds + of_bool lg. reads crc (files d) (take j ?all) T" if pr: "fsync = PerRecord"
    proof -
      obtain j where "length ?rs \<le> j" "reads crc (files d) (take j ?all) T"
        using dies(2) [OF buf [OF pr]] unfolding r(3) c(3) by blast
      then show ?thesis using rs(2) unfolding i_def by (intro exI [of _ j]) linarith
    qed
    then show ?thesis using dies(1) [of m] unfolding r(3) c(3) by blast
  qed
  then show "\<exists>j. reads crc (cut_last m (files d)) (take j ?all) T"
    "fsync = PerRecord \<Longrightarrow> \<exists>j \<ge> length cmds + of_bool lg. reads crc (files d) (take j ?all) T" by blast+
  show "fsync = PerRecord \<Longrightarrow> fs_read (synced (snd (sh_wal sh))) = fs_read (files (snd (sh_wal sh)))" using per by blast
qed

context command_ring
begin

text \<open>What a shard has taken meets what the matching refinement asks, up to any command.\<close>

lemma popped_session:
  assumes "engine_ok en" and "\<forall>ch \<in> set (en_senders en). queued ch = []"
    and "(gateway_step from_str ack send recv)\<^sup>*\<^sup>* (gateway_start en clients) g" and "k < en_num_shards (gw_engine g)"
    and "slab_allocator vk" and "tame_load from_str clients n"
  shows "session_ok vk n (cmds_of s (take j (gw_popped g ! k)))"
proof (rule lane_session [OF assms])
  have "mset (take j xs) \<subseteq># mset (xs @ ys)" for xs ys :: "sequenced list"
    by (metis append_take_drop_id append_assoc mset_append mset_subset_eq_add_left)
  then show "mset (take j (gw_popped g ! k)) \<subseteq># mset (lane queued g k)" unfolding lane_def .
qed

lemma exchange_crash:
  assumes "unbounded_channel equeued up esend erecv" and "engine_start mk cap m symbols = Inr (en, sss)" and "0 < m"
    and "queued (mk cap) = []" and "list_all up subs"
    and "(exchange_step from_str ack send recv vk n crc ser esend)\<^sup>*\<^sup>* (exchange_start fsync sss (\<lambda>_. empty_dir) en clients subs) x"
    and "slab_allocator vk" and "fsync \<noteq> Every 0" and "tame_load from_str clients n"
    and "k < m" and cs: "cs = gw_popped (ex_gateway x) ! k" and "loggable ser de cs" and S: "S = fst ` set (sss ! k)"
    and rec: "\<And>d. rec d = snd (replay crc 0 (recover vk n de) d (fresh_state (sss ! k)))"
  shows "\<exists>F full. spec_shard S cs (\<lambda>_. spec_empty) = Some (F, full) \<and> prefix (sent_by k (ex_feed x)) full \<and>
      (\<forall>d c. dies_with crc ser x k d \<longrightarrow> (\<exists>j out. specified vk S (take j cs) out (rec (cut_last c (files d))) \<and> prefix out full))"
    and "fsync = PerRecord \<Longrightarrow> dies_with crc ser x k d \<Longrightarrow>
      \<exists>j out. length (ex_handled x ! k) + of_bool (ex_logged x ! k) \<le> j \<and> specified vk S (take j cs) out (rec (files d)) \<and> prefix (sent_by k (ex_feed x)) out"
    and "fsync = PerRecord \<Longrightarrow> fs_read (synced (snd (sh_wal (ex_shards x ! k)))) = fs_read (files (snd (sh_wal (ex_shards x ! k))))"
proof -
  note st = started [where queued = queued and mk = mk and cap = cap, OF assms(2-4)]
  note r = exchange_reached [OF assms(1-6)]
  have k: "k < length sss" "k < en_num_shards (gw_engine (ex_gateway x))"
    using assms(10) st(3) r(1) by (auto simp: exchange_ok_def gateway_ok_def)
  from r(1) k(1) obtain sh0 hs where at: "shard_steps vk n crc ser (ex_handled x ! k) (shard_start fsync (sss ! k) empty_dir) = Inr sh0"
    "cs = map snd (ex_handled x ! k) @ hs" "hand x k = (ex_logged x ! k, hs)"
    "shard_pos crc ser (ex_logged x ! k) hs sh0 (ex_shards x ! k)" "sent_by k (ex_feed x) = sh_out sh0"
    unfolding cs by (rule handE)
  have ok: "session_ok vk n (cmds_of s (take j cs))" for j s
    unfolding cs by (rule popped_session [OF st(1,2) r(2) k(2) assms(7,9)])
  have "session_ok vk n (cmds_of s (map snd (map (Pair 0) cs)))" for s using ok [of s "length cs"] by (simp add: comp_def)
  from shard_runs [OF assms(7,8) this, of crc ser "sss ! k" empty_dir] obtain F full where
    full: "spec_shard S cs (\<lambda>_. spec_empty) = Some (F, full)" by (auto simp: comp_def S)
  have "session_ok vk n (cmds_of s (map snd (ex_handled x ! k)))" for s using ok [of s "length (ex_handled x ! k)"] by (simp add: at(2))
  from shard_runs [OF assms(7,8) this, of crc ser "sss ! k" empty_dir] obtain G where
    G: "spec_shard S (take (length (ex_handled x ! k)) cs) (\<lambda>_. spec_empty) = Some (G, sh_out sh0)" using at(1,2) by (auto simp: S)
  have "prefix (sent_by k (ex_feed x)) full"
    using spec_shard_append [of S "take (length (ex_handled x ! k)) cs" "drop (length (ex_handled x ! k)) cs"] full G at(5)
    by (fastforce simp: prefix_def)
  have dies: "d = snd (sh_wal (ex_shards x ! k)) \<or> (\<exists>c fl res st. \<not> ex_logged x ! k \<and> hs = [c] \<and>
      io_append crc fl (sq_seq c) (sq_ts c) Command_rec (ser c) (io_of (sh_wal (ex_shards x ! k))) = Inr (res, st) \<and> d = snd st)"
    if "dies_with crc ser x k d" for d using that by (auto simp: dies_with_def at(3))
  have log: "loggable ser de (map snd (ex_handled x ! k) @ hs)" using assms(12) at(2) by simp
  note reads = death_reads [OF at(1) assms(8) at(4) log dies, folded at(2)]
  note spec = reads_specified [OF _ assms(12,7) ok, of crc _ _ "sss ! k", folded S rec]
  have "\<exists>j out. specified vk S (take j cs) out (rec (cut_last c (files d))) \<and> prefix out full" if "dies_with crc ser x k d" for d c
    using spec reads(1) [OF that, of c] specified_prefix(1) [OF _ full] by metis
  then show "\<exists>F full. spec_shard S cs (\<lambda>_. spec_empty) = Some (F, full) \<and> prefix (sent_by k (ex_feed x)) full \<and>
      (\<forall>d c. dies_with crc ser x k d \<longrightarrow> (\<exists>j out. specified vk S (take j cs) out (rec (cut_last c (files d))) \<and> prefix out full))"
    using full \<open>prefix _ full\<close> by blast
  show "\<exists>j out. length (ex_handled x ! k) + of_bool (ex_logged x ! k) \<le> j \<and> specified vk S (take j cs) out (rec (files d)) \<and> prefix (sent_by k (ex_feed x)) out"
    if pr: "fsync = PerRecord" and d: "dies_with crc ser x k d"
  proof -
    obtain j out where j: "length (ex_handled x ! k) + of_bool (ex_logged x ! k) \<le> j" "specified vk S (take j cs) out (rec (files d))"
      using spec reads(2) [OF d pr] by metis
    then have "prefix (sent_by k (ex_feed x)) out" unfolding at(5) by (intro specified_prefix(2) [OF j(2) full _ G]) (use j(1) in simp)
    then show ?thesis using j by blast
  qed
  have "dies_with crc ser x k (snd (sh_wal (ex_shards x ! k)))" by (simp add: dies_with_def)
  from reads(3) [OF this] show "fsync = PerRecord \<Longrightarrow>
      fs_read (synced (snd (sh_wal (ex_shards x ! k)))) = fs_read (files (snd (sh_wal (ex_shards x ! k))))" .
qed

end

section \<open>Shutdown\<close>

context command_ring
begin

text \<open>One shard, from where it is to its end.\<close>

lemma shard_finishes:
  assumes "shard_steps vk n crc ser cmds (shard_start fsync symbols empty_dir) = Inr sh0" and "fsync \<noteq> Every 0"
    and "shard_pos crc ser lg hs sh0 sh" and cs: "cs = map snd cmds @ hs @ queued ch"
    and "slab_allocator vk" and "\<And>s. session_ok vk n (cmds_of s cs)"
  shows "\<exists>sh' ch' F. shard_resume recv clock vk n crc ser (lg, hs) ch sh = Some (Inr (sh', ch')) \<and> queued ch' = [] \<and>
    spec_shard (fst ` set symbols) cs (\<lambda>_. spec_empty) = Some (F, sh_out sh') \<and>
    (\<forall>s b. sh_books sh' s = Some b \<longrightarrow> rep vk b (F s) \<and> check_no_cross b) \<and>
    (loggable ser de cs \<longrightarrow>
      snd (replay crc 0 (recover vk n de) (files (snd (sh_wal sh'))) (fresh_state symbols)) = Inr (sh_books sh', sh_out sh'))"
proof -
  let ?all = "cmds @ clocked clock 0 (hs @ queued ch)"
  have snds: "map snd ?all = cs" by (simp add: cs)
  obtain sh1 F where r: "shard_steps vk n crc ser ?all (shard_start fsync symbols empty_dir) = Inr sh1"
    "spec_shard (fst ` set symbols) cs (\<lambda>_. spec_empty) = Some (F, sh_out sh1)"
    "\<forall>s b. sh_books sh1 s = Some b \<longrightarrow> rep vk b (F s) \<and> check_no_cross b"
    using shard_runs [OF assms(5,2), of n ?all crc ser symbols empty_dir] assms(6) unfolding snds by blast
  have "shard_steps vk n crc ser (clocked clock 0 (hs @ queued ch)) sh0 = Inr sh1"
    using r(1) assms(1) by (simp add: shard_steps_append)
  then obtain ch' where "queued ch' = []"
    "shard_resume recv clock vk n crc ser (lg, hs) ch sh = Some (Inr (sh1\<lparr>sh_wal := wal_flush (sh_wal sh1)\<rparr>, ch'))"
    using shard_resume_run [OF bounded_channel_axioms assms(3), where clock = clock and vk = vk and n = n and ch = ch] by auto
  moreover have "snd (replay crc 0 (recover vk n de) (files (snd (wal_flush (sh_wal sh1)))) (fresh_state symbols)) = Inr (sh_books sh1, sh_out sh1)"
    if "loggable ser de cs"
    using flush_recovers [OF r(1) assms(2)] that unfolding snds .
  ultimately show ?thesis using r(2,3)
    by (intro exI [of _ "sh1\<lparr>sh_wal := wal_flush (sh_wal sh1)\<rparr>"] exI [of _ ch'] exI [of _ F]) simp
qed

text \<open>All lanes together, shard by shard.\<close>

lemma all_lanes_lanes:
  assumes "length (en_senders (gw_engine g)) = m" and "length (gw_popped g) = m"
  shows "all_lanes queued g = mset (concat (map (lane queued g) [0..<m]))"
proof -
  have "map queued (en_senders (gw_engine g)) = map (\<lambda>k. queued (en_senders (gw_engine g) ! k)) [0..<m]"
    "map mset (gw_popped g) = map (\<lambda>k. mset (gw_popped g ! k)) [0..<m]"
    using assms by (auto intro!: nth_equalityI)
  then have "all_lanes queued g =
      (\<Sum>k\<leftarrow>[0..<m]. mset (queued (en_senders (gw_engine g) ! k))) + (\<Sum>k\<leftarrow>[0..<m]. mset (gw_popped g ! k))"
    by (simp add: all_lanes_def mset_concat comp_def)
  also have "\<dots> = mset (concat (map (lane queued g) [0..<m]))"
    by (simp add: lane_def mset_concat comp_def sum_list_addf add.commute)
  finally show ?thesis .
qed

lemma exchange_shutdown:
  assumes "unbounded_channel equeued up esend erecv" and "engine_start mk cap m symbols = Inr (en, sss)" and "0 < m"
    and "queued (mk cap) = []" and "list_all up subs"
    and "(exchange_step from_str ack send recv vk n crc ser esend)\<^sup>*\<^sup>* (exchange_start fsync sss (\<lambda>_. empty_dir) en clients subs) x"
    and "slab_allocator vk" and "fsync \<noteq> Every 0" and "tame_load from_str clients n"
    and cs: "cs = map (lane queued (ex_gateway x)) [0..<m]"
  shows "mset (concat (map (\<lambda>s. map snd (se_sent s)) (gw_sessions (ex_gateway x)))) = mset (concat cs)"
    and "\<forall>s \<in> set (gw_sessions (ex_gateway x)). answers ack (se_out s) (se_sent s)"
    and "k < m \<Longrightarrow> \<exists>sh ch F. engine_shutdown recv clock vk n crc ser (gw_engine (ex_gateway x)) (hand x) (ex_shards x) ! k = Some (Inr (sh, ch)) \<and>
      queued ch = [] \<and> spec_shard (fst ` set (sss ! k)) (cs ! k) (\<lambda>_. spec_empty) = Some (F, sh_out sh) \<and>
      (\<forall>s b. sh_books sh s = Some b \<longrightarrow> rep vk b (F s) \<and> check_no_cross b) \<and>
      (loggable ser de (cs ! k) \<longrightarrow>
        snd (replay crc 0 (recover vk n de) (files (snd (sh_wal sh))) (fresh_state (sss ! k))) = Inr (sh_books sh, sh_out sh))"
proof -
  note st = started [where queued = queued and mk = mk and cap = cap, OF assms(2-4)]
  note r = exchange_reached [OF assms(1-6)]
  let ?g = "ex_gateway x"
  have len: "length sss = m" "length (gw_popped ?g) = m" "length (en_senders (gw_engine ?g)) = m" "en_num_shards (gw_engine ?g) = m"
    using st(3) r(1) by (auto simp: exchange_ok_def gateway_ok_def engine_ok_def)
  have "all_lanes queued ?g = mset (concat cs)" unfolding cs by (rule all_lanes_lanes) (simp_all add: len)
  then show "mset (concat (map (\<lambda>s. map snd (se_sent s)) (gw_sessions ?g))) = mset (concat cs)"
    using sent_is_queued [OF st(2,1) r(2)] by (simp add: all_sent_def)
  show "\<forall>s \<in> set (gw_sessions ?g). answers ack (se_out s) (se_sent s)" using session_replies [OF st(1,2) r(2)] by blast
  assume k: "k < m"
  then have "k < length sss" by (simp add: len)
  from r(1) this obtain sh0 hs where at: "shard_steps vk n crc ser (ex_handled x ! k) (shard_start fsync (sss ! k) empty_dir) = Inr sh0"
    "gw_popped ?g ! k = map snd (ex_handled x ! k) @ hs" "hand x k = (ex_logged x ! k, hs)"
    "shard_pos crc ser (ex_logged x ! k) hs sh0 (ex_shards x ! k)" by (rule handE)
  have lane: "cs ! k = map snd (ex_handled x ! k) @ hs @ queued (en_senders (gw_engine ?g) ! k)"
    using k at(2) by (simp add: cs lane_def)
  have "session_ok vk n (cmds_of s (cs ! k))" for s
    by (rule lane_session [where k = k, OF st(1,2) r(2) _ assms(7,9)]) (use k len(4) in \<open>auto simp: cs\<close>)
  from shard_finishes [OF at(1) assms(8) at(4) lane assms(7) this, where clock = "clock k" and de = de]
  show "\<exists>sh ch F. engine_shutdown recv clock vk n crc ser (gw_engine ?g) (hand x) (ex_shards x) ! k = Some (Inr (sh, ch)) \<and>
      queued ch = [] \<and> spec_shard (fst ` set (sss ! k)) (cs ! k) (\<lambda>_. spec_empty) = Some (F, sh_out sh) \<and>
      (\<forall>s b. sh_books sh s = Some b \<longrightarrow> rep vk b (F s) \<and> check_no_cross b) \<and>
      (loggable ser de (cs ! k) \<longrightarrow>
        snd (replay crc 0 (recover vk n de) (files (snd (sh_wal sh))) (fresh_state (sss ! k))) = Inr (sh_books sh, sh_out sh))"
    using k len(3) at(3) by (simp add: engine_shutdown_def)
qed

end

section \<open>The properties\<close>

text \<open>
  C8: The process may die at any moment: between any two steps of its threads, and in the middle
  of a shard's append after any system call or any part of a write (\<open>dies_with\<close>). The commands
  in the rings and in hand and the write buffers are lost, and any number of bytes may be
  missing at the end of the newest segment. A replay of what is left of a shard's log into new
  books gives exactly what the specification of its symbols gives for some first commands the
  shard took: uncrossed books in the specification's state, and events that are a prefix of \<open>full\<close>,
  the events of all it took. The batches it had published are a prefix of \<open>full\<close> as well, and one
  it was sending is what follows them there. The log is written first: with \<open>PerRecord\<close> and no bytes
  missing, the replay knows every command the shard had handled, the one in hand as well once
  it is logged, and so every event it had published, also of a batch it was sending; and
  between appends every file reads the same from what was synced.
\<close>

theorem exchange_crash_recovers:
  assumes "command_ring queued capacity is_open send recv" and "unbounded_channel equeued up esend erecv"
    and "slab_allocator vk" and "fsync \<noteq> Every 0"
    and "engine_start mk cap m symbols = Inr (en, sss)" and "0 < m" and "queued (mk cap) = []" and "list_all up subs"
    and "tame_load from_str clients n"
    and "(exchange_step from_str ack send recv vk n crc ser esend)\<^sup>*\<^sup>*
      (exchange_start fsync sss (\<lambda>_. \<lparr>files = [], synced = []\<rparr>) en clients subs) x"
    and "k < m" and "cs = gw_popped (ex_gateway x) ! k" and "loggable ser de cs" and "S = fst ` set (sss ! k)"
    and "\<And>d. rec d = snd (replay crc 0 (recover vk n de) d (Inr (start_books (sss ! k), [])))"
  shows "(\<exists>F full. spec_shard S cs (\<lambda>_. spec_empty) = Some (F, full) \<and> prefix (sent_by k (ex_feed x)) full \<and>
      (\<forall>d c. dies_with crc ser x k d \<longrightarrow> (\<exists>j out. specified vk S (take j cs) out (rec (cut_last c (files d))) \<and> prefix out full))) \<and>
    (fsync = PerRecord \<longrightarrow>
      (\<forall>d. dies_with crc ser x k d \<longrightarrow> (\<exists>j out. length (ex_handled x ! k) + of_bool (ex_logged x ! k) \<le> j \<and> specified vk S (take j cs) out (rec (files d)) \<and>
         prefix (sent_by k (ex_feed x)) out)) \<and>
      fs_read (synced (snd (sh_wal (ex_shards x ! k)))) = fs_read (files (snd (sh_wal (ex_shards x ! k)))))"
  using command_ring.exchange_crash [OF assms(1,2,5-8,10,3,4,9,11-15)] by blast

text \<open>
  C9: Shutting the engine down loses nothing. From any reachable state, with every shard waiting,
  holding a command it has popped, or one it has logged too (\<open>hand\<close>), \<^verbatim>\<open>shutdown\<close> returns, no shard
  having panicked. The commands the sessions got into the rings are exactly those in the shards'
  lanes (handled, in hand or still in the ring), each once; every acknowledgement a client was
  sent is for one of them (\<open>answers\<close>; one whose acknowledgement could not be written is
  among them as well); and every shard ends with an empty ring, its whole lane handled as
  specified, and a log in its files that brings back exactly its books and its events.
\<close>

theorem shutdown_loses_nothing:
  assumes "command_ring queued capacity is_open send recv" and "unbounded_channel equeued up esend erecv"
    and "slab_allocator vk" and "fsync \<noteq> Every 0"
    and "engine_start mk cap m symbols = Inr (en, sss)" and "0 < m" and "queued (mk cap) = []" and "list_all up subs"
    and "tame_load from_str clients n"
    and "(exchange_step from_str ack send recv vk n crc ser esend)\<^sup>*\<^sup>*
      (exchange_start fsync sss (\<lambda>_. \<lparr>files = [], synced = []\<rparr>) en clients subs) x"
    and "cs = map (lane queued (ex_gateway x)) [0..<m]"
  shows "mset (concat (map (\<lambda>s. map snd (se_sent s)) (gw_sessions (ex_gateway x)))) = mset (concat cs) \<and>
    (\<forall>s \<in> set (gw_sessions (ex_gateway x)). answers ack (se_out s) (se_sent s)) \<and>
    (\<forall>k < m. \<exists>sh ch F. engine_shutdown recv clock vk n crc ser (gw_engine (ex_gateway x)) (hand x) (ex_shards x) ! k = Some (Inr (sh, ch)) \<and>
      queued ch = [] \<and> spec_shard (fst ` set (sss ! k)) (cs ! k) (\<lambda>_. spec_empty) = Some (F, sh_out sh) \<and>
      (\<forall>s b. sh_books sh s = Some b \<longrightarrow> rep vk b (F s) \<and> check_no_cross b) \<and>
      (loggable ser de (cs ! k) \<longrightarrow>
        snd (replay crc 0 (recover vk n de) (files (snd (sh_wal sh))) (Inr (start_books (sss ! k), []))) = Inr (sh_books sh, sh_out sh)))"
  using command_ring.exchange_shutdown [OF assms(1,2,5-8,10,3,4,9,11)] by blast

section \<open>A run\<close>

text \<open>The client's order and its cancel wait in the ring.\<close>

definition queued_order :: sequenced where
  "queued_order = \<lparr>sq_seq = 1, sq_ts = 7,
     sq_cmd = New \<lparr>no_id = 1, no_symbol = symbol_to_id AAPL, no_side = Buy, no_kind = Limit, no_tif = Gtc,
       no_price = dollars_to_ticks 100, no_stop_price = dollars_to_ticks 0, no_qty = 5\<rparr>\<rparr>"

definition queued_cancel :: sequenced where
  "queued_cancel = \<lparr>sq_seq = 2, sq_ts = 9, sq_cmd = Cancel 1 (symbol_to_id AAPL)\<rparr>"

definition full_engine :: "sequenced bounded_queue engine" where
  "full_engine = \<lparr>en_senders = [\<lparr>bq_items = [queued_order, queued_cancel], bq_capacity = 8, bq_connected = True\<rparr>],
     en_sequencer = \<lparr>sq_next = 3\<rparr>, en_num_shards = 1\<rparr>"

abbreviation sample_replies :: "string list" where
  "sample_replies \<equiv> [submitted_reply sample_ack 1, error_reply (Json ''expected value''), submitted_reply sample_ack 2]"

lemma sample_queues:
  obtains g where "sample_step\<^sup>*\<^sup>* (gateway_start one_shard [map fst sample_lines]) g" "gw_engine g = full_engine" "gw_popped g = [[]]"
    "map se_out (gw_sessions g) = [sample_replies]"
proof -
  have "handle_json_session sample_parse sample_ack bq_send sample_lines one_shard [] = Inr (full_engine, sample_replies)"
    by (simp add: sample_lines_def line_request_def trim_def white_space_def sample_parse_def parse_inbound_def Let_def
        submit_def shard_for_def deliver_def ring_try_push_def bq_send_def one_shard_def write_all_def current_def
        sequencer_new_def new_order_of_json_def full_engine_def queued_order_def queued_cancel_def)
  from session_steps [OF _ this, of 0 one_client bq_recv "[]"]
  obtain sent where "sample_step\<^sup>*\<^sup>* one_client (put_session 0 \<lparr>se_lines = [], se_flight = None, se_out = sample_replies, se_sent = sent\<rparr>
      (one_client\<lparr>gw_engine := full_engine\<rparr>))" by (auto simp: one_client_def session_start_def)
  with one_client_reached have "sample_step\<^sup>*\<^sup>* (gateway_start one_shard [map fst sample_lines])
      (put_session 0 \<lparr>se_lines = [], se_flight = None, se_out = sample_replies, se_sent = sent\<rparr> (one_client\<lparr>gw_engine := full_engine\<rparr>))"
    by (rule rtranclp_trans)
  from that [OF this] show thesis by (simp add: one_client_def)
qed

text \<open>Steps of the gateway alone are steps of the process.\<close>

lemma popped_grows:
  "gateway_step from_str ack send recv g g' \<Longrightarrow>
     gw_popped g' = gw_popped g \<or> length (concat (gw_popped g)) < length (concat (gw_popped g'))"
proof (drule popped_cases, elim disjE exE conjE)
  fix k sc
  assume k: "k < length (gw_popped g)" and "gw_popped g' = (gw_popped g)[k := gw_popped g ! k @ [sc]]"
  then have "gw_popped g' = take k (gw_popped g) @ (gw_popped g ! k @ [sc]) # drop (Suc k) (gw_popped g)"
    by (simp add: upd_conv_take_nth_drop)
  moreover have "concat (gw_popped g) = concat (take k (gw_popped g) @ gw_popped g ! k # drop (Suc k) (gw_popped g))"
    using k by (simp flip: id_take_nth_drop)
  ultimately show ?thesis by simp
qed simp

lemma front_lift:
  assumes "(gateway_step from_str ack send recv)\<^sup>*\<^sup>* g g'" and "gw_popped g' = gw_popped g"
  shows "(exchange_step from_str ack send recv vk n crc ser esend)\<^sup>*\<^sup>* (x\<lparr>ex_gateway := g\<rparr>) (x\<lparr>ex_gateway := g'\<rparr>)"
proof -
  let ?steps = "(exchange_step from_str ack send recv vk n crc ser esend)\<^sup>*\<^sup>*"
  have "gw_popped g' = gw_popped g \<and> ?steps (x\<lparr>ex_gateway := g\<rparr>) (x\<lparr>ex_gateway := g'\<rparr>) \<or>
      length (concat (gw_popped g)) < length (concat (gw_popped g'))"
    using assms(1)
  proof (induction rule: rtranclp_induct)
    case (step g1 g2)
    show ?case
    proof (cases "gw_popped g1 = gw_popped g \<and> gw_popped g2 = gw_popped g1")
      case True
      then have "exchange_step from_str ack send recv vk n crc ser esend (x\<lparr>ex_gateway := g1\<rparr>) (x\<lparr>ex_gateway := g2\<rparr>)"
        using exchange_step.front [of from_str ack send recv "x\<lparr>ex_gateway := g1\<rparr>" g2 vk n crc ser esend] step(2) by simp
      then show ?thesis using step.IH True by (auto intro: rtranclp.rtrancl_into_rtrancl)
    next
      case False
      then show ?thesis using step.IH popped_grows [OF step(2)] by auto
    qed
  qed simp
  then show ?thesis using assms(2) by simp
qed

lemma sample_waits:
  obtains g where "sample_exchange_step\<^sup>*\<^sup>* sample_exchange (sample_exchange\<lparr>ex_gateway := g\<rparr>)" "gw_engine g = full_engine" "gw_popped g = [[]]"
    "map se_out (gw_sessions g) = [sample_replies]"
proof -
  obtain g where g: "sample_step\<^sup>*\<^sup>* (gateway_start one_shard [map fst sample_lines]) g" "gw_engine g = full_engine" "gw_popped g = [[]]"
    "map se_out (gw_sessions g) = [sample_replies]" by (rule sample_queues)
  have "gw_popped g = gw_popped (gateway_start one_shard [map fst sample_lines])"
    by (simp add: g(3) gateway_start_def one_shard_def)
  from front_lift [OF g(1) this, of stack_key 10 "\<lambda>_. 0" "\<lambda>_. []" lc_send sample_exchange] show thesis
    by (intro that [OF _ g(2-4)]) (simp add: exchange_start_def)
qed

text \<open>The client has its acknowledgements while the log of the shard is still as it was opened: they
  promise a place in the ring, not durability.\<close>

lemma ack_precedes_log:
  "\<exists>x. sample_exchange_step\<^sup>*\<^sup>* sample_exchange x \<and> map se_out (gw_sessions (ex_gateway x)) = [sample_replies] \<and>
     ex_handled x = [[]] \<and> sh_wal (ex_shards x ! 0) = wal_open Off empty_dir"
proof -
  obtain g where g: "sample_exchange_step\<^sup>*\<^sup>* sample_exchange (sample_exchange\<lparr>ex_gateway := g\<rparr>)" "gw_engine g = full_engine" "gw_popped g = [[]]"
    "map se_out (gw_sessions g) = [sample_replies]" by (rule sample_waits)
  then show ?thesis
    by (intro exI [of _ "sample_exchange\<lparr>ex_gateway := g\<rparr>"]) (simp add: exchange_start_def)
qed

text \<open>The shard has popped the order, and the cancel is still in the ring.\<close>

lemma sample_in_hand:
  obtains x where "sample_exchange_step\<^sup>*\<^sup>* sample_exchange x" "hand x 0 = (False, [queued_order])"
    "gw_popped (ex_gateway x) ! 0 = [queued_order]" "lane bq_items (ex_gateway x) 0 = [queued_order, queued_cancel]"
    "sh_wal (ex_shards x ! 0) = wal_open Off empty_dir"
proof -
  obtain g where g: "sample_exchange_step\<^sup>*\<^sup>* sample_exchange (sample_exchange\<lparr>ex_gateway := g\<rparr>)" "gw_engine g = full_engine" "gw_popped g = [[]]"
    "map se_out (gw_sessions g) = [sample_replies]" by (rule sample_waits)
  let ?ch = "\<lparr>bq_items = [queued_cancel], bq_capacity = 8, bq_connected = True\<rparr>"
  let ?g = "g\<lparr>gw_engine := (gw_engine g)\<lparr>en_senders := (en_senders (gw_engine g))[0 := ?ch]\<rparr>, gw_popped := (gw_popped g)[0 := gw_popped g ! 0 @ [queued_order]]\<rparr>"
  let ?y = "sample_exchange\<lparr>ex_gateway := ?g\<rparr>"
  have "gateway_step sample_parse sample_ack bq_send bq_recv g ?g"
    by (rule gateway_step.shard_pop) (simp_all add: g full_engine_def ring_pop_def bq_recv_def)
  then have "sample_exchange_step (sample_exchange\<lparr>ex_gateway := g\<rparr>) (sample_exchange\<lparr>ex_gateway := g\<rparr>\<lparr>ex_gateway := ?g\<rparr>)"
    by (intro exchange_step.front) (simp_all add: in_hand_def g(3) exchange_start_def)
  with g(1) have "sample_exchange_step\<^sup>*\<^sup>* sample_exchange ?y" by simp
  then show thesis
    by (rule that) (simp_all add: hand_def lane_def exchange_start_def shard_start_def g full_engine_def)
qed

lemma shutdown_loses_nothing_witness:
  "\<exists>x sh ch F. sample_exchange_step\<^sup>*\<^sup>* sample_exchange x \<and> hand x 0 = (False, [queued_order]) \<and>
     engine_shutdown bq_recv (\<lambda>_ _. 0) stack_key 10 (\<lambda>_. 0) (\<lambda>_. []) (gw_engine (ex_gateway x)) (hand x) (ex_shards x) ! 0 = Some (Inr (sh, ch)) \<and>
     bq_items ch = [] \<and> spec_shard {symbol_to_id AAPL} [queued_order, queued_cancel] (\<lambda>_. spec_empty) = Some (F, sh_out sh)"
proof -
  obtain x where x: "sample_exchange_step\<^sup>*\<^sup>* sample_exchange x" "hand x 0 = (False, [queued_order])"
    "lane bq_items (ex_gateway x) 0 = [queued_order, queued_cancel]" by (rule sample_in_hand)
  from shutdown_loses_nothing [OF cq.command_ring_axioms lc.unbounded_channel_axioms stack.slab_allocator_axioms _ sample_started _ _ _
      sample_load x(1) refl, where clock = "\<lambda>_ _. 0" and de = "\<lambda>_. Inr queued_order"]
  show ?thesis using x by auto
qed

text \<open>The process dies while the log takes the order, after three bytes of a write.\<close>

lemma exchange_crash_recovers_witness:
  "\<exists>x d j out. sample_exchange_step\<^sup>*\<^sup>* sample_exchange x \<and> hand x 0 = (False, [queued_order]) \<and> dies_with (\<lambda>_. 0) (\<lambda>_. []) x 0 d \<and>
     specified stack_key {symbol_to_id AAPL} (take j [queued_order]) out
       (snd (replay (\<lambda>_. 0) 0 (recover stack_key 10 (\<lambda>_. Inr queued_order)) (cut_last 40 (files d)) (Inr (start_books [(symbol_to_id AAPL, 1)], []))))"
proof -
  obtain x where x: "sample_exchange_step\<^sup>*\<^sup>* sample_exchange x" "hand x 0 = (False, [queued_order])"
    "gw_popped (ex_gateway x) ! 0 = [queued_order]" "sh_wal (ex_shards x ! 0) = wal_open Off empty_dir" by (rule sample_in_hand)
  obtain res st where "io_append (\<lambda>_. 0) (no_faults\<lparr>on_spill := Some 3\<rparr>) (sq_seq queued_order) (sq_ts queued_order) Command_rec []
      (io_of (wal_open Off empty_dir)) = Inr (res, st)"
    using io_append_ends [OF io_inv_open, of "logged (\<lambda>_. []) queued_order" Off "\<lambda>_. 0"]
    by (simp add: fits_def wal_open_def Let_def) blast
  then have d: "dies_with (\<lambda>_. 0) (\<lambda>_. []) x 0 (snd st)" unfolding dies_with_def x(4) using x(2) by blast
  have "loggable (\<lambda>_. []) (\<lambda>_. Inr queued_order) [queued_order]" by (simp add: loggable_def queued_order_def)
  from exchange_crash_recovers [OF cq.command_ring_axioms lc.unbounded_channel_axioms stack.slab_allocator_axioms _ sample_started _ _ _
      sample_load x(1) _ x(3) [symmetric] this refl refl] show ?thesis
    using x(1,2) d by simp blast
qed

end
