(* ===== verification/Feed.thy ===== *)
theory Feed
  imports Publisher Exchange
begin

text \<open>
  The market data feed as a whole: the broadcast bus of \<^verbatim>\<open>bus.rs\<close>, the accept loop of
  \<^verbatim>\<open>publisher.rs\<close>, and the way of an event from a shard to a WebSocket client.
\<close>

section \<open>The bus\<close>

text \<open>A bus is what was published; a receiver is the position it subscribed at. \<^verbatim>\<open>tokio\<close>'s
  channel panics without capacity (None).\<close>

definition market_bus :: "nat \<Rightarrow> (market_event list \<times> nat) option" where
  "market_bus capacity = (if capacity = 0 then None else Some ([], 0))"

definition market_subscribe :: "market_event list \<Rightarrow> nat" where
  "market_subscribe bus = length bus"

text \<open>What a receiver's channel carries.\<close>

definition carried :: "nat \<Rightarrow> market_event list \<Rightarrow> market_event list" where
  "carried p bus = drop p bus"

section \<open>Accepting clients\<close>

text \<open>What the accept loop sees, between the publications of the consumer: a connection, with
  the outcome of its handshake, or an error.\<close>

datatype feed_input = Published market_event | Accepted_peer bool | Accept_error

fun run_ws_publisher ::
  "feed_input list \<Rightarrow> market_event list \<Rightarrow> (bool \<times> nat) list \<Rightarrow> market_event list \<times> (bool \<times> nat) list" where
  "run_ws_publisher [] bus clients = (bus, clients)"
| "run_ws_publisher (Published ev # is) bus clients = run_ws_publisher is (publish ev bus) clients"
| "run_ws_publisher (Accepted_peer shook # is) bus clients =
     run_ws_publisher is bus (clients @ [(shook, market_subscribe bus)])"
| "run_ws_publisher (Accept_error # is) bus clients = run_ws_publisher is bus clients"

text \<open>A client whose handshake failed is sent nothing.\<close>

definition client_texts ::
  "(market_event \<Rightarrow> string option) \<Rightarrow> bool list \<Rightarrow> recv_outcome list \<Rightarrow> bool \<times> nat \<Rightarrow> string list" where
  "client_texts to_str sends os = (\<lambda>(shook, _). if shook then ws_client to_str sends os else [])"

lemma publisher_subscribed:
  "run_ws_publisher is bus clients = (bus', clients') \<Longrightarrow> \<forall>(_, p) \<in> set clients. p \<le> length bus \<Longrightarrow>
     (\<exists>es. bus' = bus @ es) \<and> (\<forall>(_, p) \<in> set clients'. p \<le> length bus')"
  by (induction "is" bus clients rule: run_ws_publisher.induct)
    (fastforce simp: publish_def market_subscribe_def)+

section \<open>The feed of the running process\<close>

text \<open>What a shard published is in the feed, in its order.\<close>

lemma sent_by_subseq: "subseq (sent_by k fs) (concat (map snd fs))"
proof (induction fs rule: rev_induct)
  case (snoc b fs)
  obtain j es where "b = (j, es)" by (cases b)
  then show ?case using snoc by (auto intro: list_emb_append_mono subseq_rev_drop_many)
qed simp

text \<open>A receiver that has handed over everything it carries, without lagging.\<close>

lemma broadcast_live: "broadcast_run es (map Got es)"
  by (induction es) simp_all

text \<open>
  C33: From the lines of the clients to the screens of the subscribers. In every reachable
  state of the process, with the consumer having read any first part of its egress channel
  and clients having connected at any times, the feed is this: event by event of one
  interleaving of all shards, each shard's part in its order and as its specification says, a
  message for every configured symbol. A client is sent a subsequence of the feed from its
  connection on, in order and without duplicates, and one that keeps up is sent every message.
\<close>

theorem feed_end_to_end:
  assumes "command_ring queued capacity is_open send recv" and "unbounded_channel equeued up esend erecv"
    and "slab_allocator vk" and "fsync \<noteq> Every 0"
    and "engine_start mk cap m symbols = Inr (en, sss)" and "0 < m" and "queued (mk cap) = []" and "list_all up subs"
    and "tame_load from_str clients n"
    and "(exchange_step from_str ack send recv vk n crc ser esend)\<^sup>*\<^sup>* (exchange_start fsync sss ds en clients subs) x"
    and "i < length subs" and "equeued (subs ! i) = []"
    and "run_ws_publisher is [] [] = (run_consumer names (take r (equeued (ex_subs x ! i))), peers)"
    and "(True, p) \<in> set peers" and "broadcast_run (carried p (run_consumer names (take r (equeued (ex_subs x ! i))))) os"
  shows "\<exists>fed. run_consumer names (take r (equeued (ex_subs x ! i))) = fed \<and> p \<le> length fed \<and>
    fed = concat (map (\<lambda>(j, ev). concat (map (\<lambda>(_, name). messages name (word_of_nat j) ev) names))
      (enumerate 1 (take r (concat (map snd (ex_feed x)))))) \<and>
    (\<forall>k < m. subseq (sent_by k (ex_feed x)) (concat (map snd (ex_feed x))) \<and>
      (\<exists>F. spec_shard (fst ` set (sss ! k)) (map snd (ex_handled x ! k)) (\<lambda>_. spec_empty) = Some (F, sent_by k (ex_feed x)))) \<and>
    subseq (client_texts to_str sends os (True, p)) (List.map_filter to_str (drop p fed)) \<and>
    (os = map Got (drop p fed) \<and> sends = replicate (length os) True \<and> None \<notin> to_str ` set fed \<longrightarrow>
       client_texts to_str sends os (True, p) = map (the \<circ> to_str) (drop p fed))"
proof -
  let ?evs = "concat (map snd (ex_feed x))"
  let ?fed = "run_consumer names (take r (equeued (ex_subs x ! i)))"
  note x = command_ring.exchange_implements [OF assms(1,2,5-8,10,3,4,9)]
  have "equeued (ex_subs x ! i) = equeued (subs ! i) @ ?evs"
    using x assms(11) by (auto simp: list_all2_conv_all_nth)
  then have "equeued (ex_subs x ! i) = ?evs" by (simp add: assms(12))
  then have fed: "?fed = concat (map (\<lambda>(j, ev). concat (map (\<lambda>(_, name). messages name (word_of_nat j) ev) names)) (enumerate 1 (take r ?evs)))"
    by (simp only: feed_has_no_levels)
  have "p \<le> length ?fed" using publisher_subscribed [OF assms(13)] assms(14) by auto
  moreover have "subseq (client_texts to_str sends os (True, p)) (List.map_filter to_str (drop p ?fed))"
    using ws_client_subseq assms(15) by (simp add: client_texts_def carried_def)
  moreover have "client_texts to_str sends os (True, p) = map (the \<circ> to_str) (drop p ?fed)"
    if "os = map Got (drop p ?fed) \<and> sends = replicate (length os) True \<and> None \<notin> to_str ` set ?fed"
  proof -
    have "None \<notin> to_str ` set (drop p ?fed)" using that by (auto dest: in_set_dropD)
    from ws_client_live [OF this] that show ?thesis by (simp add: client_texts_def)
  qed
  ultimately show ?thesis
    using x fed sent_by_subseq by (intro exI [of _ ?fed]) (intro conjI allI impI refl, blast+)
qed

lemma publisher_publishes: "run_ws_publisher (map Published es) bus clients = (bus @ es, clients)"
  by (induction es arbitrary: bus) (simp_all add: publish_def)

text \<open>One client, connected before the first order.\<close>

lemma feed_end_to_end_witness:
  "\<exists>x. sample_exchange_step\<^sup>*\<^sup>* sample_exchange x \<and> exchange_rest bq_items x \<and>
     (let fed = run_consumer [(symbol_to_id AAPL, ''AAPL'')] (take 9 (snd (ex_subs x ! 0))) in
      fed = concat (map (\<lambda>(j, ev). messages ''AAPL'' (word_of_nat j) ev) (enumerate 1 (take 9 (concat (map snd (ex_feed x)))))) \<and>
      client_texts (\<lambda>_. Some ''x'') (replicate (length fed) True) (map Got fed) (True, 0) = map (\<lambda>_. ''x'') fed)"
proof -
  obtain x where x: "sample_exchange_step\<^sup>*\<^sup>* sample_exchange x" "exchange_rest bq_items x"
    using cq.exchange_settles [where subs = "[(True, [])]" and fsync = Off and ack = sample_ack and crc = "\<lambda>_. 0" and
        ser = "\<lambda>_. []" and ds = "\<lambda>_. \<lparr>files = [], synced = []\<rparr>", OF lc.unbounded_channel_axioms sample_started _ _ _ stack.slab_allocator_axioms _ sample_load
        rtranclp.rtrancl_refl] by auto
  define fed where "fed = run_consumer [(symbol_to_id AAPL, ''AAPL'')] (take 9 (snd (ex_subs x ! 0)))"
  have pub: "run_ws_publisher (Accepted_peer True # map Published fed) [] [] = (fed, [(True, 0)])"
    by (simp add: publisher_publishes market_subscribe_def)
  have live: "broadcast_run (carried 0 fed) (map Got fed)" by (simp add: carried_def broadcast_live)
  have here: "\<exists>z. fed = z \<and> P z \<Longrightarrow> P fed" for P by simp
  note run = feed_end_to_end [OF cq.command_ring_axioms lc.unbounded_channel_axioms stack.slab_allocator_axioms _ sample_started _ _ _
      sample_load x(1), of 0 "Accepted_peer True # map Published fed" "[(symbol_to_id AAPL, ''AAPL'')]" 9 "[(True, 0)]" 0
      "map Got fed" "\<lambda>_. Some ''x''" "replicate (length fed) True", folded fed_def]
  have "fed = concat (map (\<lambda>(j, ev). concat (map (\<lambda>(_, name). messages name (word_of_nat j) ev) [(symbol_to_id AAPL, ''AAPL'')]))
      (enumerate 1 (take 9 (concat (map snd (ex_feed x)))))) \<and>
    client_texts (\<lambda>_. Some ''x'') (replicate (length fed) True) (map Got fed) (True, 0) = map (the \<circ> (\<lambda>_. Some ''x'')) (drop 0 fed)"
    using here [OF run [OF _ _ _ _ _ _ pub _ live]] by auto
  then show ?thesis using x unfolding fed_def by (auto simp: Let_def comp_def)
qed

end
