(* ===== verification/Gateway_Main.thy ===== *)
theory Gateway_Main
  imports Feed Exchange_Recovery
begin

text \<open>
  \<^verbatim>\<open>main\<close> of \<^verbatim>\<open>crates/gateway/src/main.rs\<close>: the configuration it starts the engine with, what
  that makes of the shards, and the market data bus. Binding the ports and spawning the tasks
  is I/O.
\<close>

definition main_config :: engine_config where
  "main_config =
     \<lparr>ec_num_shards = 2, ec_symbols = map (\<lambda>s. (symbol_to_id s, 1)) symbol_names, ec_ring_capacity = 65536,
      ec_wal_dir = ''./data/wal'', ec_fsync = Off, ec_pin_cores = False\<rparr>"

definition main_market_bus :: "(market_event list \<times> nat) option" where
  "main_market_bus = market_bus 65536"

text \<open>Two shards, the first without symbols, each with its own log directory and no syncing.\<close>

lemma main_config_starts:
  "start_with mk main_config =
     Inr (\<lparr>en_senders = [mk 65536, mk 65536], en_sequencer = sequencer_new, en_num_shards = 2\<rparr>,
       [\<lparr>sc_shard_id = 0, sc_symbols = [], sc_wal_dir = ''./data/wal'', sc_fsync = Off, sc_pin_core = None\<rparr>,
        \<lparr>sc_shard_id = 1, sc_symbols = map (\<lambda>s. (symbol_to_id s, 1)) symbol_names, sc_wal_dir = ''./data/wal'',
         sc_fsync = Off, sc_pin_core = None\<rparr>])"
  using main_starts [of mk] by (simp add: start_with_def main_config_def main_engine_def shard_config_of_def upt_rec)

lemma main_dirs:
  "start_with mk main_config = Inr (en, cs) \<Longrightarrow> map shard_dir cs = [''./data/wal/shard-0'', ''./data/wal/shard-1'']"
proof -
  have "nat_str 0 = ''0''" "nat_str 1 = ''1''" by code_simp+
  then show "start_with mk main_config = Inr (en, cs) \<Longrightarrow> map shard_dir cs = [''./data/wal/shard-0'', ''./data/wal/shard-1'']"
    by (auto simp: main_config_starts shard_dir_def path_join_def)
qed

lemma main_market_bus_starts: "main_market_bus = Some ([], 0)"
  by (simp add: main_market_bus_def market_bus_def)

text \<open>The shards of a process started from a configuration are those its threads open.\<close>

lemma started_shards:
  assumes "start_with mk cfg = Inr (en, cs)" and "engine_start mk (ec_ring_capacity cfg) (ec_num_shards cfg) (ec_symbols cfg) = Inr (en, sss)"
    and "0 < ec_num_shards cfg" and "queued (mk (ec_ring_capacity cfg)) = []"
  shows "ex_shards (exchange_start (ec_fsync cfg) sss (\<lambda>k. fs (shard_dir (cs ! k))) en clients subs) = map (shard_spawn fs) cs"
proof -
  have "length sss = ec_num_shards cfg" by (rule started(3) [where queued = queued, OF assms(2-4)])
  then show ?thesis
    using assms(1,2) by (auto simp: start_with_def exchange_start_def shard_spawn_def shard_config_of_def)
qed

end
