(* ===== verification/Spec2Isabelle.thy ===== *)
theory Spec2Isabelle
  imports Book_Properties Stop_Hazards Wire_Properties Wal_Properties Snapshot_Properties
    Shard_Properties Engine_Properties Egress Market_Data Gateway_Properties Publisher Metrics
    Loadgen Core_Tests Codec_Tests Crash_Test Exchange Wal_Faults
    Gateway_Replies Exchange_Recovery Feed Gateway_Main
begin

text \<open>
  A verification development for the order matching engine in \<^verbatim>\<open>crates/\<close>.

  \<^bold>\<open>The program.\<close> Clients send JSON lines to a gateway, which turns them into commands and
  submits them to the engine. The engine numbers a command and pushes it to the ring of the
  shard that owns its symbol. A shard is one thread: it logs the command, applies it to the
  symbol's order book, and sends the output events to the egress bus, from which the gateway
  feeds a market-data broadcast, read by WebSocket clients. A load generator plays clients.
  A book is a slab of orders, two ordered maps of price levels, each an intrusive doubly
  linked list through the slab, an index of ids and two maps of pending stops.

  \<^bold>\<open>Theories and sources.\<close>
    \<^item> \<^verbatim>\<open>crates/core\<close>: \<open>Types\<close> (types.rs, order.rs, events.rs), \<open>Price_Level\<close>, \<open>Book\<close>
      (book.rs), \<open>Matcher\<close> (matcher.rs). \<open>Ordered_Map\<close> is \<^verbatim>\<open>BTreeMap\<close>, \<open>Slab\<close> the \<^verbatim>\<open>slab\<close>
      crate: its choice of keys is the parameter \<open>vk\<close>, with the locales \<open>slab_allocator\<close>
      and \<open>slab_stack\<close> for what is documented of it.
    \<^item> \<^verbatim>\<open>crates/protocol\<close>: \<open>Bytes\<close> and \<open>Parsers\<close> (the \<^verbatim>\<open>bytes\<close> crate's cursors), \<open>Binary\<close>
      (binary.rs, error.rs), \<open>Dollars\<close> (the price conversions over \<^verbatim>\<open>f64\<close>), \<open>Json_Codec\<close>
      (json_codec.rs, and router.rs of \<^verbatim>\<open>crates/gateway\<close>).
    \<^item> \<^verbatim>\<open>crates/gateway\<close>: \<open>Gateway_Session\<close> (session.rs, tcp.rs), \<open>Gateway_Main\<close> (main.rs; its
      consumer of the egress bus is in \<open>Market_Data\<close>).
    \<^item> \<^verbatim>\<open>crates/wal\<close>: \<open>Decimal\<close> (number formatting), \<open>Wal_Record\<close> (record.rs, lib.rs),
      \<open>Wal_Log\<close> (segment.rs, reader.rs, writer.rs), \<open>Wal_Faults\<close> (writer.rs with
      failing system calls), \<open>Snapshot\<close> (snapshot.rs).
    \<^item> \<^verbatim>\<open>crates/engine\<close>: \<open>Engine\<close> (sequencer, ring.rs, lib.rs), \<open>Shard\<close> (shard.rs), \<open>Egress\<close>,
      \<open>Engine_Api\<close> (configuration, receiving, the loop of a shard over its ring, shutdown, the
      blocking push), \<open>Exchange\<close> (all threads of the process, interleaved).
    \<^item> \<^verbatim>\<open>crates/marketdata\<close>: \<open>Market_Data\<close> (snapshot builder, bus events, and the egress
      consumer of the gateway's main.rs), \<open>Publisher\<close> (receiving, and the
      client loop of publisher.rs), \<open>Feed\<close> (the bus and the accept loop).
    \<^item> \<^verbatim>\<open>crates/metrics\<close>: \<open>Metrics\<close> (registry.rs, histogram.rs).
    \<^item> \<^verbatim>\<open>crates/loadgen\<close>: \<open>Loadgen\<close> (main.rs).
    \<^item> Tests: \<open>Core_Tests\<close> (the unit and property tests of matcher.rs), \<open>Codec_Tests\<close> (those of
      the codecs, the log and the snapshots) and \<open>Crash_Test\<close> (tests/crash_recovery.rs), each
      test a predicate; what the tests sample is proved for every sample.
  State is passed explicitly; a panic is \<open>Inl\<close> of the type \<open>halt\<close> (a missing slab key, an
  index out of bounds, a remainder by zero, a buffer read past its end); expected errors are
  values of the source's own error types. Quantities, ids, sequence numbers and timestamps
  are 64-bit words and wrap as in a release build.

  \<^bold>\<open>The specification of a book\<close> (\<open>Spec_Book\<close>) has no slab, links or index: a queue of orders
  per side in price-time order, a list of pending stops per side, and the last trade. The
  relation \<open>rep\<close> (\<open>Linked_Queue\<close>, \<open>Side_Queue\<close>, \<open>Queue_Rep\<close>, \<open>Book_Rep\<close>) connects it with the
  code's book, and \<open>Book_Refine\<close>, \<open>Match_Refine\<close>, \<open>New_Refine\<close>, \<open>Engine_Refine\<close> and \<open>Cmd_Refine\<close>
  prove that every operation follows it, up to whole sessions. \<open>Spec_Facts\<close>, \<open>Spec_Runs\<close>,
  \<open>Match_Facts\<close> and \<open>Book_Views\<close> hold the facts on the specification and on what the book
  shows; \<open>Sessions\<close> and \<open>Samples\<close> the sessions the properties speak of; \<open>Book_Properties\<close>
  the properties: priority, conservation, limits, fill-or-kill, cancel, replace, refusals,
  no crossed book, exact levels and index.

  \<^bold>\<open>What the refinement asks.\<close> \<open>session_ok\<close>: no stop-limit orders, pending stops neither cancelled
  nor replaced, limit quantities of less than \<open>2 ^ 64\<close> in all, and a depth bound \<open>n\<close> of at
  least twice the session's length plus 2. \<open>Stop_Hazards\<close> shows that the first two are real
  limits of the code, not of the proof: outside them the book is corrupted, or \<^verbatim>\<open>apply\<close> does
  not return, as on every book with a stop-limit order that rests when triggered (\<open>spinning\<close>). For the clients of the gateway \<open>tame_load\<close> asks the same of their lines, without
  stops.

  \<^bold>\<open>Fuel.\<close> The loop of \<open>match_loop\<close> and the recursion of \<open>apply_new\<close> through triggered stops
  take a bound \<open>n\<close>; running out is \<open>Inl Out_of_fuel\<close>. The refinement theorems conclude \<open>Inr\<close>
  for every \<open>n\<close> above the number of resting and pending orders, so with that bound the code
  returns. The other loops are structural or have a measure; \<open>drain\<close> and
  \<open>shard_loop\<close> are partial functions whose termination is part of \<open>egress_delivers\<close> and of
  \<open>shutdown_loses_nothing\<close>.

  \<^bold>\<open>Logs and recovery.\<close> \<open>Wal_Facts\<close> carries an invariant of the writer, its buffer and its
  directory through appending, syncing and rolling; \<open>Wal_Properties\<close> has the exactness of the
  record format, the round trip through any number of segments, and the prefix property of
  a crash, the newest segment torn at any byte included, with how much that can cost, and that a
  damaged byte behind a record's length field is found, given a checksum that finds one
  (\<open>detects\<close>). \<open>Wal_Faults\<close> has the writer whose system calls may fail: as long as no record of
  8192 bytes or more, which goes past the write buffer, has its write cut short (\<open>undivided\<close>),
  the log still holds whole records, with all whose append returned \<open>Ok\<close>; the lemma
  \<open>cut_direct_write_hides\<close> shows that the condition is needed. \<open>Wal_Crash\<close> has a process that
  dies in the middle of an append, after any system call or part of a write.
  \<open>Snapshot_Properties\<close> says what a snapshot keeps (a book without pending stops comes back with
  the same orders and depth) and what it loses (pending stops, and priority within a level).
  \<open>Shard_Facts\<close>, \<open>Shard_Recovery\<close> and \<open>Shard_Properties\<close> put log, books and events together: a
  shard implements one specification book per symbol, and its log brings its books back.
  A shard logs a command and applies it in two steps (\<open>shard_log\<close>, \<open>shard_apply\<close>).
  \<open>Exchange_Recovery\<close> does it for the process: it may die between any two steps of its threads,
  so with a command logged but not yet applied and published, and within an append
  (\<open>dies_with\<close>), or be shut down, wherever each shard is in its loop (\<open>hand\<close>); what the logs
  give back is a state of the specification, after a shutdown with every command in it that
  got into a ring, and so every acknowledged one. Applying a command and publishing its batch
  are one step, under the mutex of the bus; a death in the middle of it leaves the log of the
  state before it, in which that command is recorded. The recovery of a log presumes
  \<open>loggable\<close>: serialisation that can be undone, and records that fit their length field.

  \<^bold>\<open>Submitting.\<close> \<open>Gateways\<close> and \<open>Engine_Properties\<close>: what one submit does, and a step relation
  for any number of concurrent submitters and shards, with its invariant. \<open>Gateway_Facts\<close>,
  \<open>Gateway_Runs\<close> and \<open>Gateway_Properties\<close> do the same for the gateway: the accept loop, any
  number of client sessions and the shards take steps in any order; a session that nobody
  interferes with gives exactly the replies written out in \<open>reply_to\<close>, the session loop is a run
  of these steps, a client's commands stay in order, rings stay within their capacity, and
  (\<open>Gateway_Replies\<close>) what a client is told of its commands is true. The ghost \<open>se_sent\<close> has the
  commands a session got into the rings, acknowledged or not.
  \<open>Exchange\<close> adds the shard threads and the egress bus: from the clients' lines to what the
  subscribers read, the process follows the specification in every interleaving, and every
  run ends with all work done.

  \<^bold>\<open>At the edges.\<close> \<open>Metrics\<close> shows that the counters of a shard are exact, \<open>Feed\<close> what a
  WebSocket client is sent of the events of all shards, \<open>Loadgen\<close> that the generator's orders are distinct
  and valid and how many it sends.

  \<^bold>\<open>Parameters.\<close> \<^verbatim>\<open>crc32fast\<close> (\<open>crc\<close>), \<^verbatim>\<open>serde_json\<close> (\<open>ser\<close>, \<open>de\<close>, \<open>to_json\<close>, \<open>of_json\<close>,
  \<open>from_str\<close>, \<open>ack\<close>, \<open>to_str\<close>, \<open>to_string\<close>), \<^verbatim>\<open>hdrhistogram\<close> (locale \<open>hdr_histogram\<close>), the broadcast channel of
  \<^verbatim>\<open>tokio\<close> (\<open>broadcast_run\<close>), the \<^verbatim>\<open>crossbeam\<close> channels (locales \<open>bounded_channel\<close>, \<open>blocking_channel\<close>,
  \<open>command_ring\<close>, \<open>unbounded_channel\<close>), the
  iteration order of hash maps (\<open>ids\<close>, the list of builders), the clock (\<open>now\<close>).

  \<^bold>\<open>Not modelled.\<close> Sockets (a connection is the list of lines read and replies written; a
  handshake is its outcome), starting tasks and threads, core pinning, installing the Prometheus exporter, the texts
  of \<^verbatim>\<open>serde_json\<close>, failures while opening a log, the pacing of the load generator and
  its printed rates, and what the benchmarks measure. A price is an unbounded integer in the core, which only compares prices; the
  codecs, the dollar conversions and the spread gauge treat its 64 bits.
\<close>

end
